(* ===== verification/Prelude.thy ===== *)
theory Prelude
  imports Main "HOL-Library.Word"
begin

text \<open>
  Shared vocabulary of the development: the machine integers of the C sources, the outcome
  type of kernel code (a result, a \<open>panic\<close>, or a point where the calling process
  would sleep), bytes and little-endian fields inside a disk block, and the generic lemmas on
  lists, words and outcomes that the component theories rely on.
\<close>

unbundle bit_operations_syntax

section \<open>Machine integers\<close>

type_synonym u8 = "8 word"
type_synonym u16 = "16 word"
type_synonym u32 = "32 word"

named_theorems layout_simps \<open>sizes and offsets of the C structures and arrays\<close>

named_theorems res_simps \<open>rewriting of outcomes of kernel code\<close>

section \<open>Outcomes of kernel code\<close>

text \<open>
  \<open>Ok x\<close>: the C function returns. \<open>Panic msg\<close>: it calls \<open>panic(msg)\<close>, after which the
  kernel never continues. \<open>Blocked\<close>: it would call \<open>sleep()\<close> on a lock that
  another process holds, so in the sequential model of one process it does not get further.
\<close>

datatype 'a res = Ok 'a | Panic string | Blocked

primrec bnd :: "'a res \<Rightarrow> ('a \<Rightarrow> 'b res) \<Rightarrow> 'b res" where
  "bnd (Ok x) f = f x"
| "bnd (Panic m) f = Panic m"
| "bnd Blocked f = Blocked"

lemma bnd_Ok_iff [res_simps]: "bnd m f = Ok y \<longleftrightarrow> (\<exists>x. m = Ok x \<and> f x = Ok y)"
  by (cases m) auto

lemma bnd_OkE:
  assumes "bnd m f = Ok y"
  obtains x where "m = Ok x" and "f x = Ok y"
  using assms by (auto simp: res_simps)

lemma bnd_assoc: "bnd (bnd m f) g = bnd m (\<lambda>x. bnd (f x) g)"
  by (cases m) auto

lemma bnd_cong [fundef_cong]:
  "m = m' \<Longrightarrow> (\<And>x. m' = Ok x \<Longrightarrow> f x = f' x) \<Longrightarrow> bnd m f = bnd m' f'"
  by (cases m') auto

definition panic_unless :: "bool \<Rightarrow> string \<Rightarrow> unit res" where
  "panic_unless b m = (if b then Ok () else Panic m)"

lemma panic_unless_simps [simp]:
  "panic_unless True m = Ok ()"
  "panic_unless False m = Panic m"
  by (simp_all add: panic_unless_def)

lemma panic_unless_Ok_iff [res_simps]: "panic_unless b m = Ok u \<longleftrightarrow> b"
  by (simp add: panic_unless_def)

text \<open>A \<open>for\<close> loop over a list of indices whose body may fail.\<close>

primrec foreach :: "('a \<Rightarrow> 's \<Rightarrow> 's res) \<Rightarrow> 'a list \<Rightarrow> 's \<Rightarrow> 's res" where
  "foreach f [] s = Ok s"
| "foreach f (x # xs) s = bnd (f x s) (foreach f xs)"

lemma foreach_append: "foreach f (xs @ ys) s = bnd (foreach f xs s) (foreach f ys)"
  by (induction xs arbitrary: s) (simp_all add: bnd_assoc cong: bnd_cong)

lemma foreach_invariant:
  assumes "foreach f xs s = Ok s'" "P [] s"
    and "\<And>ys x t t'. set (ys @ [x]) \<subseteq> set xs \<Longrightarrow> P ys t \<Longrightarrow> f x t = Ok t' \<Longrightarrow> P (ys @ [x]) t'"
  shows "P xs s'"
  using assms
proof (induction xs arbitrary: s' rule: rev_induct)
  case (snoc x xs)
  from snoc.prems(1) obtain t where t: "foreach f xs s = Ok t" "f x t = Ok s'"
    by (auto simp: foreach_append res_simps)
  have "P xs t" by (rule snoc.IH [OF t(1) snoc.prems(2)]) (rule snoc.prems(3), auto)
  then show ?case using snoc.prems(3) [of xs x t s'] t(2) by simp
qed simp

section \<open>Bytes and little-endian fields\<close>

text \<open>
  A byte array of the C code (a disk block, a struct) is a function from offsets to bytes; the
  code's accesses stay below its size, which the component theories prove where it matters.
\<close>

type_synonym bytes = "nat \<Rightarrow> u8"

definition ld16 :: "bytes \<Rightarrow> nat \<Rightarrow> u16" where
  "ld16 d p = ucast (d p) OR push_bit 8 (ucast (d (p + 1)))"

definition st16 :: "bytes \<Rightarrow> nat \<Rightarrow> u16 \<Rightarrow> bytes" where
  "st16 d p w = d(p := ucast w, p + 1 := ucast (drop_bit 8 w))"

definition ld32 :: "bytes \<Rightarrow> nat \<Rightarrow> u32" where
  "ld32 d p = ucast (d p) OR push_bit 8 (ucast (d (p + 1)))
     OR push_bit 16 (ucast (d (p + 2))) OR push_bit 24 (ucast (d (p + 3)))"

definition st32 :: "bytes \<Rightarrow> nat \<Rightarrow> u32 \<Rightarrow> bytes" where
  "st32 d p w = d(p := ucast w, p + 1 := ucast (drop_bit 8 w),
     p + 2 := ucast (drop_bit 16 w), p + 3 := ucast (drop_bit 24 w))"

lemma ld16_st16_same [simp]: "ld16 (st16 d p w) p = w"
  unfolding ld16_def st16_def
  by (simp, rule bit_word_eqI) (auto simp: bit_simps)

lemma ld32_st32_same [simp]: "ld32 (st32 d p w) p = w"
proof (rule bit_word_eqI)
  fix n :: nat
  assume "n < LENGTH(32)"
  then consider "n < 8" | "8 \<le> n" "n < 16" | "16 \<le> n" "n < 24" | "24 \<le> n" "n < 32"
    by fastforce
  then show "bit (ld32 (st32 d p w) p) n = bit w n"
    by cases (auto simp: ld32_def st32_def bit_simps)
qed

lemma st16_other: "q < p \<or> p + 2 \<le> q \<Longrightarrow> st16 d p w q = d q"
  by (auto simp: st16_def)

lemma st32_other: "q < p \<or> p + 4 \<le> q \<Longrightarrow> st32 d p w q = d q"
  by (auto simp: st32_def)

lemma ld16_st16_other: "q + 2 \<le> p \<or> p + 2 \<le> q \<Longrightarrow> ld16 (st16 d p w) q = ld16 d q"
  by (auto simp: ld16_def st16_def)

lemma ld16_st32_other: "q + 2 \<le> p \<or> p + 4 \<le> q \<Longrightarrow> ld16 (st32 d p w) q = ld16 d q"
  by (auto simp: ld16_def st32_def)

lemma ld32_st16_other: "q + 4 \<le> p \<or> p + 2 \<le> q \<Longrightarrow> ld32 (st16 d p w) q = ld32 d q"
  by (auto simp: ld32_def st16_def)

lemma ld32_st32_other: "q + 4 \<le> p \<or> p + 4 \<le> q \<Longrightarrow> ld32 (st32 d p w) q = ld32 d q"
  by (auto simp: ld32_def st32_def)

lemmas field_simps_mem =
  ld16_st16_other ld16_st32_other ld32_st16_other ld32_st32_other st16_other st32_other

lemma ld32_zero [simp]: "ld32 (\<lambda>_. 0) p = 0"
  by (simp add: ld32_def)

lemma ld16_zero [simp]: "ld16 (\<lambda>_. 0) p = 0"
  by (simp add: ld16_def)

lemma ld32_cong: "(\<And>i. p \<le> i \<Longrightarrow> i < p + 4 \<Longrightarrow> d i = d' i) \<Longrightarrow> ld32 d p = ld32 d' p"
  by (simp add: ld32_def)

text \<open>Element \<open>i\<close> of the block seen as an array of \<open>uint\<close>, as in \<open>((uint*)bp->data)[i]\<close>.\<close>

definition get_u32 :: "bytes \<Rightarrow> nat \<Rightarrow> u32" where
  "get_u32 d i = ld32 d (4 * i)"

definition set_u32 :: "bytes \<Rightarrow> nat \<Rightarrow> u32 \<Rightarrow> bytes" where
  "set_u32 d i w = st32 d (4 * i) w"

lemma get_set_u32 [simp]: "get_u32 (set_u32 d i w) j = (if i = j then w else get_u32 d j)"
proof (cases "i = j")
  case False
  then have "4 * j + 4 \<le> 4 * i \<or> 4 * i + 4 \<le> 4 * j" by arith
  then show ?thesis by (auto simp: get_u32_def set_u32_def ld32_st32_other)
qed (simp add: get_u32_def set_u32_def)

lemma get_u32_zero [simp]: "get_u32 (\<lambda>_. 0) i = 0"
  by (simp add: get_u32_def)

text \<open>\<open>memmove\<close> of \<open>n\<close> bytes from one object at offset \<open>q\<close> into another at \<open>p\<close>.\<close>

definition blit :: "bytes \<Rightarrow> nat \<Rightarrow> bytes \<Rightarrow> nat \<Rightarrow> nat \<Rightarrow> bytes" where
  "blit d p e q n = (\<lambda>i. if p \<le> i \<and> i < p + n then e (q + (i - p)) else d i)"

lemma blit_in: "p \<le> i \<Longrightarrow> i < p + n \<Longrightarrow> blit d p e q n i = e (q + (i - p))"
  by (simp add: blit_def)

lemma blit_out: "i < p \<or> p + n \<le> i \<Longrightarrow> blit d p e q n i = d i"
  by (auto simp: blit_def)

lemma blit_0 [simp]: "blit d p e q 0 = d"
  by (auto simp: blit_def fun_eq_iff)

section \<open>Searches over index lists\<close>

text \<open>A C loop that scans an array and acts on the first hit is \<open>List.find\<close> on its indices.\<close>

lemma find_SomeD:
  assumes "List.find P xs = Some x"
  shows "P x" and "x \<in> set xs"
  using assms by (auto simp: find_Some_iff)

lemma find_None_all: "List.find P xs = None \<longleftrightarrow> (\<forall>x \<in> set xs. \<not> P x)"
  by (auto simp: find_None_iff)

lemma find_ex: "x \<in> set xs \<Longrightarrow> P x \<Longrightarrow> \<exists>y. List.find P xs = Some y"
  by (cases "List.find P xs") (auto simp: find_None_iff)

lemma find_upt_least:
  assumes "List.find P [0..<n] = Some i"
  shows "i < n" and "P i" and "\<And>j. j < i \<Longrightarrow> \<not> P j"
proof -
  from assms obtain k where k: "k < n" "P k" "i = k" "\<forall>j<k. \<not> P j"
    by (auto simp: find_Some_iff)
  then show "i < n" and "P i" and "\<And>j. j < i \<Longrightarrow> \<not> P j" by auto
qed

lemma find_upt_exI: "i < n \<Longrightarrow> P i \<Longrightarrow> \<exists>j. List.find P [0..<n] = Some j"
  by (rule find_ex) auto

lemma find_uptI: "i < n \<Longrightarrow> P i \<Longrightarrow> (\<And>j. j < i \<Longrightarrow> \<not> P j) \<Longrightarrow> List.find P [0..<n] = Some i"
  unfolding find_Some_iff by (rule exI [of _ i]) simp

lemma find_unique:
  assumes "x \<in> set xs" and "P x" and "\<And>y. y \<in> set xs \<Longrightarrow> P y \<Longrightarrow> y = x"
  shows "List.find P xs = Some x"
proof -
  from find_ex assms(1,2) obtain y where y: "List.find P xs = Some y" by metis
  with find_SomeD [OF y] assms(3) show ?thesis by simp
qed

section \<open>Unsigned 32-bit arithmetic without overflow\<close>

lemma unat_add_u32: "unat (x :: u32) + unat y < 2 ^ 32 \<Longrightarrow> unat (x + y) = unat x + unat y"
  using unat_add_lem [of x y] by simp

lemma unat_sub_u32: "unat (y :: u32) \<le> unat x \<Longrightarrow> unat (x - y) = unat x - unat y"
  by (simp add: unat_sub_if')

lemma unat_u32_lt: "unat (w :: u32) < 2 ^ 32"
  using unsigned_less [of w] by simp

lemma unat_of_nat_u32: "n < 2 ^ 32 \<Longrightarrow> unat (of_nat n :: u32) = n"
  by (simp add: unsigned_of_nat take_bit_nat_eq_self)

lemma u32_measure: "a < b \<Longrightarrow> 2 ^ 32 - unat (b :: u32) < 2 ^ 32 - unat a"
  using unat_u32_lt [of b] by (simp add: word_less_nat_alt)

end
