(* ===== verification/Locks.thy ===== *)
theory Locks
  imports Prelude
begin

text \<open>
  The two kinds of lock of the xv6 kernel. \<open>sleeplock.c\<close>: long-term locks owned by a
  process, modelled from the point of view of the calling process, for which waiting is the
  outcome \<open>Blocked\<close>. \<open>spinlock.c\<close>: the interrupt-disabling nesting of
  \<open>pushcli\<close>/\<open>popcli\<close> on one CPU, and the competition of several CPUs for one
  spin lock as a step relation whose transitions are the atomic accesses to \<open>lk->locked\<close>
  and \<open>lk->cpu\<close>.
\<close>

section \<open>Sleep locks\<close>

record sleeplock =
  sl_locked :: bool
  sl_pid :: int

definition initsleeplock :: sleeplock where
  "initsleeplock = \<lparr>sl_locked = False, sl_pid = 0\<rparr>"

definition acquiresleep :: "int \<Rightarrow> sleeplock \<Rightarrow> sleeplock res" where
  "acquiresleep pid lk =
     (if sl_locked lk then Blocked else Ok (lk\<lparr>sl_locked := True, sl_pid := pid\<rparr>))"

definition releasesleep :: "sleeplock \<Rightarrow> sleeplock" where
  "releasesleep lk = lk\<lparr>sl_locked := False, sl_pid := 0\<rparr>"

definition holdingsleep :: "int \<Rightarrow> sleeplock \<Rightarrow> bool" where
  "holdingsleep pid lk \<longleftrightarrow> sl_locked lk \<and> sl_pid lk = pid"

text \<open>The contract a lock gives its clients: an exclusive holder until it is released.\<close>

locale exclusive_lock =
  fixes acq :: "'p \<Rightarrow> 'l \<Rightarrow> 'l res"
    and rel :: "'l \<Rightarrow> 'l"
    and holds :: "'p \<Rightarrow> 'l \<Rightarrow> bool"
    and free :: "'l \<Rightarrow> bool"
  assumes acq_holds: "acq p l = Ok l' \<Longrightarrow> holds p l'"
    and acq_iff_free: "free l \<longleftrightarrow> (\<exists>l'. acq p l = Ok l')"
    and holds_excl: "holds p l \<Longrightarrow> holds q l \<Longrightarrow> p = q"
    and holds_not_free: "holds p l \<Longrightarrow> \<not> free l"
    and rel_free: "free (rel l)"
begin

lemma acquired_excludes: "acq p l = Ok l' \<Longrightarrow> acq q l' \<noteq> Ok l''"
  using acq_holds acq_iff_free holds_not_free by blast

lemma acquired_by_one: "acq p l = Ok l' \<Longrightarrow> holds q l' \<Longrightarrow> q = p"
  using acq_holds holds_excl by blast

lemma handover: "\<exists>l'. acq q (rel l) = Ok l' \<and> holds q l'"
  using rel_free acq_iff_free acq_holds by blast

end

interpretation sleep: exclusive_lock acquiresleep releasesleep holdingsleep "\<lambda>lk. \<not> sl_locked lk"
  by unfold_locales
    (auto simp: acquiresleep_def releasesleep_def holdingsleep_def split: if_splits)

lemma acquiresleep_Ok_iff [res_simps]:
  "acquiresleep pid lk = Ok l \<longleftrightarrow> \<not> sl_locked lk \<and> l = lk\<lparr>sl_locked := True, sl_pid := pid\<rparr>"
  by (auto simp: acquiresleep_def)

lemma not_locked_releasesleep [simp]: "\<not> sl_locked (releasesleep lk)"
  by (simp add: releasesleep_def)

lemma holdingsleep_locked: "holdingsleep pid lk \<Longrightarrow> sl_locked lk"
  by (simp add: holdingsleep_def)

section \<open>Interrupt nesting on one CPU\<close>

record cpu =
  ncli :: int
  intena :: bool
  fl_if :: bool

definition pushcli :: "cpu \<Rightarrow> cpu" where
  "pushcli c =
     (let eflags = fl_if c;
          c1 = c\<lparr>fl_if := False\<rparr>;
          c2 = (if ncli c1 = 0 then c1\<lparr>intena := eflags\<rparr> else c1)
      in c2\<lparr>ncli := ncli c2 + 1\<rparr>)"

definition popcli :: "cpu \<Rightarrow> cpu res" where
  "popcli c =
     (if fl_if c then Panic ''popcli - interruptible''
      else let c1 = c\<lparr>ncli := ncli c - 1\<rparr> in
        if ncli c1 < 0 then Panic ''popcli''
        else Ok (if ncli c1 = 0 \<and> intena c1 then c1\<lparr>fl_if := True\<rparr> else c1))"

text \<open>
  A sequence of nested critical sections: \<open>n\<close> times \<open>pushcli\<close> followed by \<open>n\<close>
  times \<open>popcli\<close>.
\<close>

fun pushes :: "nat \<Rightarrow> cpu \<Rightarrow> cpu" where
  "pushes 0 c = c"
| "pushes (Suc n) c = pushes n (pushcli c)"

fun pops :: "nat \<Rightarrow> cpu \<Rightarrow> cpu res" where
  "pops 0 c = Ok c"
| "pops (Suc n) c = bnd (popcli c) (pops n)"

text \<open>
  The CPU states the kernel is in: a non-negative depth, interrupts off while the depth is
  positive.
\<close>

definition cpu_ok :: "cpu \<Rightarrow> bool" where
  "cpu_ok c \<longleftrightarrow> 0 \<le> ncli c \<and> (0 < ncli c \<longrightarrow> \<not> fl_if c)"

lemma cpu_ok_pushcli: "cpu_ok c \<Longrightarrow> cpu_ok (pushcli c)"
  by (auto simp: cpu_ok_def pushcli_def Let_def)

lemma popcli_pushcli:
  assumes "cpu_ok c"
  shows "\<exists>c'. popcli (pushcli c) = Ok c' \<and> ncli c' = ncli c \<and> fl_if c' = fl_if c
    \<and> (0 < ncli c \<longrightarrow> c' = c)"
  using assms by (cases c) (auto simp: cpu_ok_def pushcli_def popcli_def Let_def)

lemma ncli_pushes: "ncli (pushes n c) = ncli c + int n"
  by (induction n arbitrary: c) (auto simp: pushcli_def Let_def)

lemma fl_if_pushcli: "\<not> fl_if (pushcli c)"
  by (simp add: pushcli_def Let_def)

lemma fl_if_pushes_off: "\<not> fl_if c \<Longrightarrow> \<not> fl_if (pushes n c)"
  by (induction n arbitrary: c) (auto simp: fl_if_pushcli)

lemma fl_if_pushes: "0 < n \<Longrightarrow> \<not> fl_if (pushes n c)"
  by (cases n) (auto simp: fl_if_pushcli fl_if_pushes_off)

lemma intena_pushes: "0 < ncli c \<Longrightarrow> intena (pushes n c) = intena c"
  by (induction n arbitrary: c) (auto simp: pushcli_def Let_def)

lemma pops_deep:
  assumes "\<not> fl_if c" and "int n \<le> ncli c" and "0 < n"
  shows "pops n c = Ok (c\<lparr>ncli := ncli c - int n, fl_if := (ncli c = int n \<and> intena c)\<rparr>)"
  using assms
proof (induction n arbitrary: c)
  case (Suc n)
  show ?case
  proof (cases "n = 0")
    case True
    with Suc.prems show ?thesis by (cases c) (auto simp: popcli_def Let_def)
  next
    case False
    let ?c = "c\<lparr>ncli := ncli c - 1\<rparr>"
    from False Suc.prems have p: "popcli c = Ok ?c"
      by (auto simp: popcli_def Let_def)
    from False Suc.prems have "pops n ?c =
        Ok (?c\<lparr>ncli := ncli ?c - int n, fl_if := (ncli ?c = int n \<and> intena ?c)\<rparr>)"
      by (intro Suc.IH) auto
    then show ?thesis by (simp add: p algebra_simps)
  qed
qed simp

text \<open>
  The matching property the comment in the source promises: however deep the nesting, the
  matching \<open>popcli\<close> calls restore the interrupt flag, and none of them panics.
\<close>

lemma pops_pushes:
  assumes "cpu_ok c"
  shows "\<exists>c'. pops n (pushes n c) = Ok c' \<and> ncli c' = ncli c \<and> fl_if c' = fl_if c"
proof (cases n)
  case (Suc m)
  have off: "\<not> fl_if (pushes n c)" using Suc fl_if_pushes by blast
  have depth: "ncli (pushes n c) = ncli c + int n" by (rule ncli_pushes)
  have "pops n (pushes n c) = Ok ((pushes n c)\<lparr>ncli := ncli (pushes n c) - int n,
      fl_if := (ncli (pushes n c) = int n \<and> intena (pushes n c))\<rparr>)"
    using off depth assms Suc by (intro pops_deep) (auto simp: cpu_ok_def)
  moreover have "(ncli (pushes n c) = int n \<and> intena (pushes n c)) = fl_if c"
  proof (cases "ncli c = 0")
    case True
    have "intena (pushes m (pushcli c)) = intena (pushcli c)"
      using True by (intro intena_pushes) (simp add: pushcli_def Let_def)
    with True Suc depth show ?thesis by (simp add: pushcli_def Let_def)
  next
    case False
    with assms depth show ?thesis by (auto simp: cpu_ok_def)
  qed
  ultimately show ?thesis using depth by auto
qed simp

section \<open>Several CPUs and one spin lock\<close>

text \<open>
  Where a CPU is in \<open>acquire(lk)\<close> \<dots> \<open>release(lk)\<close>: outside; spinning on
  \<open>xchg\<close>; past the successful \<open>xchg\<close> but before \<open>lk->cpu = mycpu()\<close>; in the
  critical section; past \<open>lk->cpu = 0\<close> but before \<open>lk->locked = 0\<close>; panicked.
\<close>

datatype spin_pc = Outside | Spinning | Taken | Critical | Leaving | Panicked

record spinsys =
  locked :: bool
  lk_cpu :: "nat option"
  cpus :: "nat \<Rightarrow> cpu"
  pc :: "nat \<Rightarrow> spin_pc"

definition holding :: "spinsys \<Rightarrow> nat \<Rightarrow> bool" where
  "holding s i \<longleftrightarrow> locked s \<and> lk_cpu s = Some i"

definition goto :: "nat \<Rightarrow> spin_pc \<Rightarrow> spinsys \<Rightarrow> spinsys" where
  "goto i p s = s\<lparr>pc := (pc s)(i := p)\<rparr>"

definition set_cpu :: "nat \<Rightarrow> cpu \<Rightarrow> spinsys \<Rightarrow> spinsys" where
  "set_cpu i c s = s\<lparr>cpus := (cpus s)(i := c)\<rparr>"

text \<open>One atomic step of CPU \<open>i\<close>.\<close>

inductive spin_step :: "spinsys \<Rightarrow> spinsys \<Rightarrow> bool" where
  acquire_enter: "pc s i = Outside \<Longrightarrow> \<not> holding s i \<Longrightarrow>
     spin_step s (goto i Spinning (set_cpu i (pushcli (cpus s i)) s))"
| acquire_panic: "pc s i = Outside \<Longrightarrow> holding s i \<Longrightarrow> spin_step s (goto i Panicked s)"
| acquire_spin: "pc s i = Spinning \<Longrightarrow> locked s \<Longrightarrow> spin_step s s"
| acquire_xchg: "pc s i = Spinning \<Longrightarrow> \<not> locked s \<Longrightarrow>
     spin_step s (goto i Taken (s\<lparr>locked := True\<rparr>))"
| acquire_owner: "pc s i = Taken \<Longrightarrow> spin_step s (goto i Critical (s\<lparr>lk_cpu := Some i\<rparr>))"
| release_enter: "pc s i = Critical \<Longrightarrow> holding s i \<Longrightarrow>
     spin_step s (goto i Leaving (s\<lparr>lk_cpu := None\<rparr>))"
| release_panic: "pc s i = Critical \<Longrightarrow> \<not> holding s i \<Longrightarrow> spin_step s (goto i Panicked s)"
| release_unlock: "pc s i = Leaving \<Longrightarrow> popcli (cpus s i) = Ok c \<Longrightarrow>
     spin_step s (goto i Outside (set_cpu i c (s\<lparr>locked := False\<rparr>)))"
| release_popcli_panic: "pc s i = Leaving \<Longrightarrow> popcli (cpus s i) = Panic m \<Longrightarrow>
     spin_step s (goto i Panicked (s\<lparr>locked := False\<rparr>))"

definition spin_init :: "spinsys \<Rightarrow> bool" where
  "spin_init s \<longleftrightarrow> \<not> locked s \<and> lk_cpu s = None \<and> (\<forall>i. pc s i = Outside \<and> cpu_ok (cpus s i))"

inductive spin_reachable :: "spinsys \<Rightarrow> bool" where
  start: "spin_init s \<Longrightarrow> spin_reachable s"
| step: "spin_reachable s \<Longrightarrow> spin_step s t \<Longrightarrow> spin_reachable t"

definition inside :: "spin_pc \<Rightarrow> bool" where
  "inside p \<longleftrightarrow> p = Taken \<or> p = Critical \<or> p = Leaving"

lemma inside_simps [simp]:
  "inside Taken" "inside Critical" "inside Leaving"
  "\<not> inside Outside" "\<not> inside Spinning" "\<not> inside Panicked"
  by (simp_all add: inside_def)

text \<open>
  The invariant: the lock word is set exactly while some CPU is between its \<open>xchg\<close> and its
  unlock, that CPU is unique, the owner field names it in the critical section, its interrupts
  are off, and no CPU ever reached a panic.
\<close>

definition spin_inv :: "spinsys \<Rightarrow> bool" where
  "spin_inv s \<longleftrightarrow>
     (\<forall>i. inside (pc s i) \<longrightarrow> locked s) \<and>
     (locked s \<longrightarrow> (\<exists>i. inside (pc s i))) \<and>
     (\<forall>i j. inside (pc s i) \<longrightarrow> inside (pc s j) \<longrightarrow> i = j) \<and>
     (\<forall>i. lk_cpu s = Some i \<longleftrightarrow> pc s i = Critical) \<and>
     (\<forall>i. cpu_ok (cpus s i)) \<and>
     (\<forall>i. pc s i \<noteq> Outside \<longrightarrow> 0 < ncli (cpus s i)) \<and>
     (\<forall>i. pc s i \<noteq> Panicked)"

lemma spin_inv_owner: "spin_inv s \<Longrightarrow> (lk_cpu s = Some i) = (pc s i = Critical)"
  unfolding spin_inv_def by blast

lemma spin_inv_inside: "spin_inv s \<Longrightarrow> inside (pc s i) \<Longrightarrow> locked s"
  unfolding spin_inv_def by blast

lemma spin_inv_unique: "spin_inv s \<Longrightarrow> inside (pc s i) \<Longrightarrow> inside (pc s j) \<Longrightarrow> i = j"
  unfolding spin_inv_def by blast

lemma spin_inv_cpu: "spin_inv s \<Longrightarrow> cpu_ok (cpus s i) \<and> pc s i \<noteq> Panicked"
  unfolding spin_inv_def by blast

lemma spin_inv_ncli: "spin_inv s \<Longrightarrow> pc s i \<noteq> Outside \<Longrightarrow> 0 < ncli (cpus s i)"
  unfolding spin_inv_def by blast

lemma popcli_ok:
  assumes "cpu_ok c" and "0 < ncli c"
  shows "\<exists>c'. popcli c = Ok c' \<and> cpu_ok c' \<and> ncli c' = ncli c - 1"
  using assms by (auto simp: popcli_def cpu_ok_def Let_def)

lemma popcli_not_panic: "cpu_ok c \<Longrightarrow> 0 < ncli c \<Longrightarrow> popcli c \<noteq> Panic m"
  using popcli_ok by fastforce

lemma popcli_cpu_ok: "cpu_ok c \<Longrightarrow> 0 < ncli c \<Longrightarrow> popcli c = Ok c' \<Longrightarrow> cpu_ok c'"
  using popcli_ok by fastforce

lemma ncli_pushcli: "ncli (pushcli c) = ncli c + 1"
  by (simp add: pushcli_def Let_def)

lemma cpu_ok_ncli: "cpu_ok c \<Longrightarrow> 0 < ncli (pushcli c)"
  by (simp add: ncli_pushcli cpu_ok_def)

lemma spin_invI:
  assumes "\<And>i. inside (pc s i) \<Longrightarrow> locked s"
    and "locked s \<Longrightarrow> \<exists>i. inside (pc s i)"
    and "\<And>i j. inside (pc s i) \<Longrightarrow> inside (pc s j) \<Longrightarrow> i = j"
    and "\<And>i. lk_cpu s = Some i \<longleftrightarrow> pc s i = Critical"
    and "\<And>i. cpu_ok (cpus s i)"
    and "\<And>i. pc s i \<noteq> Outside \<Longrightarrow> 0 < ncli (cpus s i)"
    and "\<And>i. pc s i \<noteq> Panicked"
  shows "spin_inv s"
  using assms unfolding spin_inv_def by blast

lemma spin_inv_locked: "spin_inv s \<Longrightarrow> locked s \<Longrightarrow> \<exists>i. inside (pc s i)"
  unfolding spin_inv_def by blast

text \<open>The steps of the CPU that is inside move it from one inside position to the next.\<close>

lemma spin_inv_advance:
  assumes inv: "spin_inv s" and i: "inside (pc s i)" and p: "inside p"
  shows "spin_inv (goto i p (s\<lparr>lk_cpu := (if p = Critical then Some i else None)\<rparr>))"
proof (rule spin_invI, goal_cases)
  case (1 j) then show ?case using spin_inv_inside [OF inv i] by (simp add: goto_def)
next
  case 2 then show ?case using p by (auto simp: goto_def)
next
  case (3 j k) then show ?case
    by (cases "j = i"; cases "k = i")
      (simp_all add: goto_def spin_inv_unique [OF inv i] spin_inv_unique [OF inv _ i]
        spin_inv_unique [OF inv])
next
  case (4 j) then show ?case
    using spin_inv_unique [OF inv i, of j] p by (cases "j = i") (auto simp: goto_def)
next
  case (5 j) then show ?case using spin_inv_cpu [OF inv] by (simp add: goto_def)
next
  case (6 j) then show ?case
    using spin_inv_ncli [OF inv, of j] i by (cases "j = i") (auto simp: goto_def inside_def)
next
  case (7 j) then show ?case using spin_inv_cpu [OF inv] p by (auto simp: goto_def)
qed

lemma spin_inv_take:
  assumes inv: "spin_inv s" and i: "pc s i = Spinning" and free: "\<not> locked s"
  shows "spin_inv (goto i Taken (s\<lparr>locked := True\<rparr>))"
proof (rule spin_invI, goal_cases)
  case (1 j) then show ?case by (simp add: goto_def)
next
  case 2 show ?case by (rule exI [of _ i]) (simp add: goto_def)
next
  case (3 j k) then show ?case
    using spin_inv_inside [OF inv, of j] spin_inv_inside [OF inv, of k] free
    by (auto simp: goto_def split: if_splits)
next
  case (4 j) then show ?case using spin_inv_owner [OF inv, of j] i by (auto simp: goto_def)
next
  case (6 j) then show ?case
    using spin_inv_ncli [OF inv, of j] i by (auto simp: goto_def split: if_splits)
next
  case (5 j) then show ?case using spin_inv_cpu [OF inv, of j] by (simp add: goto_def)
next
  case (7 j) then show ?case using spin_inv_cpu [OF inv, of j] by (simp add: goto_def)
qed

lemma spin_inv_unlock:
  assumes inv: "spin_inv s" and i: "pc s i = Leaving" and c: "cpu_ok c"
  shows "spin_inv (goto i Outside (set_cpu i c (s\<lparr>locked := False\<rparr>)))"
proof (rule spin_invI, goal_cases)
  case (1 j) then show ?case
    using spin_inv_unique [OF inv, of i j] i by (auto simp: goto_def set_cpu_def split: if_splits)
next
  case (3 j k) then show ?case
    using spin_inv_unique [OF inv, of j k] by (auto simp: goto_def set_cpu_def split: if_splits)
next
  case (4 j) then show ?case
    using spin_inv_owner [OF inv, of j] i by (auto simp: goto_def set_cpu_def)
next
  case (6 j) then show ?case
    using spin_inv_ncli [OF inv, of j] by (auto simp: goto_def set_cpu_def split: if_splits)
next
  case 2 then show ?case by (simp add: goto_def set_cpu_def)
next
  case (5 j) then show ?case
    using spin_inv_cpu [OF inv, of j] c by (simp add: goto_def set_cpu_def)
next
  case (7 j) then show ?case
    using spin_inv_cpu [OF inv, of j] by (simp add: goto_def set_cpu_def)
qed

lemma spin_inv_enter:
  assumes inv: "spin_inv s" and i: "pc s i = Outside"
  shows "spin_inv (goto i Spinning (set_cpu i (pushcli (cpus s i)) s))"
proof (rule spin_invI, goal_cases)
  case 2
  then obtain j where "inside (pc s j)"
    using spin_inv_locked [OF inv] by (auto simp: goto_def set_cpu_def)
  then show ?case using i by (intro exI [of _ j]) (auto simp: goto_def set_cpu_def)
next
  case (3 j k) then show ?case
    using spin_inv_unique [OF inv, of j k] by (auto simp: goto_def set_cpu_def split: if_splits)
next
  case (4 j) then show ?case
    using spin_inv_owner [OF inv, of j] i by (auto simp: goto_def set_cpu_def)
next
  case (6 j) then show ?case
    using spin_inv_ncli [OF inv, of j] spin_inv_cpu [OF inv, of i] cpu_ok_ncli [of "cpus s i"]
    by (auto simp: goto_def set_cpu_def split: if_splits)
next
  case (1 j) then show ?case
    using spin_inv_inside [OF inv, of j] by (auto simp: goto_def set_cpu_def split: if_splits)
next
  case (5 j) then show ?case
    using spin_inv_cpu [OF inv, of j] cpu_ok_pushcli [of "cpus s i"] by (auto simp: goto_def set_cpu_def)
next
  case (7 j) then show ?case
    using spin_inv_cpu [OF inv, of j] by (simp add: goto_def set_cpu_def)
qed

lemma spin_inv_init: "spin_init s \<Longrightarrow> spin_inv s"
  by (auto simp: spin_init_def spin_inv_def)

lemma spin_step_inv: "spin_step s t \<Longrightarrow> spin_inv s \<Longrightarrow> spin_inv t"
proof (induction rule: spin_step.induct)
  case (acquire_panic s i)
  then have "pc s i = Critical" using spin_inv_owner by (auto simp: holding_def)
  with acquire_panic show ?case by simp
next
  case (acquire_owner s i)
  then show ?case using spin_inv_advance [of s i Critical] by simp
next
  case (release_enter s i)
  then show ?case using spin_inv_advance [of s i Leaving] by simp
next
  case (release_panic s i)
  then have "locked s" and "lk_cpu s = Some i"
    using spin_inv_owner spin_inv_inside [of s i] by auto
  with release_panic show ?case by (simp add: holding_def)
next
  case (release_unlock s i c)
  then have "cpu_ok c"
    using spin_inv_cpu [of s i] spin_inv_ncli [of s i] popcli_cpu_ok [of "cpus s i" c] by simp
  with release_unlock show ?case by (simp add: spin_inv_unlock)
next
  case (release_popcli_panic s i m)
  then have "popcli (cpus s i) \<noteq> Panic m"
    using spin_inv_cpu [of s i] spin_inv_ncli [of s i] popcli_not_panic [of "cpus s i" m] by simp
  with release_popcli_panic show ?case by simp
qed (simp_all add: spin_inv_enter spin_inv_take)

lemma spin_reachable_inv: "spin_reachable s \<Longrightarrow> spin_inv s"
  by (induction rule: spin_reachable.induct) (auto intro: spin_inv_init spin_step_inv)

inductive_cases spin_stepE: "spin_step s t"

section \<open>Properties\<close>

text \<open>
  C12. Spin locks: in every state that any number of processors reach by running \<open>acquire\<close> and
  \<open>release\<close>, at most one of them is between the atomic exchange and the unlocking store, the lock
  word is set exactly while one is, a processor that executes its critical section is the recorded
  owner with interrupts off, and no processor has run into one of the panics.
\<close>

theorem spin_mutual_exclusion:
  assumes "spin_reachable s"
  shows "(\<forall>i j. inside (pc s i) \<and> inside (pc s j) \<longrightarrow> i = j) \<and>
    (locked s \<longleftrightarrow> (\<exists>i. inside (pc s i))) \<and>
    (\<forall>i. pc s i = Critical \<longrightarrow> lk_cpu s = Some i \<and> holding s i \<and> \<not> fl_if (cpus s i) \<and> 0 < ncli (cpus s i)) \<and>
    (\<forall>i. pc s i \<noteq> Panicked)"
proof -
  have inv: "spin_inv s" by (rule spin_reachable_inv [OF assms])
  have c: "lk_cpu s = Some i \<and> holding s i \<and> \<not> fl_if (cpus s i) \<and> 0 < ncli (cpus s i)" if "pc s i = Critical" for i
    using that spin_inv_owner [OF inv, of i] spin_inv_inside [OF inv, of i] spin_inv_cpu [OF inv, of i]
      spin_inv_ncli [OF inv, of i] by (auto simp: holding_def cpu_ok_def)
  have "locked s \<longleftrightarrow> (\<exists>i. inside (pc s i))"
    using spin_inv_locked [OF inv] spin_inv_inside [OF inv] by blast
  moreover have "\<forall>i j. inside (pc s i) \<and> inside (pc s j) \<longrightarrow> i = j" using spin_inv_unique [OF inv] by blast
  moreover have "\<forall>i. pc s i \<noteq> Panicked" using spin_inv_cpu [OF inv] by blast
  ultimately show ?thesis using c by blast
qed

theorem spin_mutual_exclusion_witness:
  "let c = \<lparr>ncli = 0, intena = False, fl_if = True\<rparr>;
       s0 = \<lparr>locked = False, lk_cpu = None, cpus = (\<lambda>_. c), pc = (\<lambda>_. Outside)\<rparr>;
       s1 = goto 0 Spinning (set_cpu 0 (pushcli c) s0); s2 = goto 0 Taken (s1\<lparr>locked := True\<rparr>);
       s3 = goto 0 Critical (s2\<lparr>lk_cpu := Some 0\<rparr>)
   in spin_reachable s3 \<and> pc s3 0 = Critical \<and> holding s3 0 \<and> \<not> fl_if (cpus s3 0)"
proof -
  let ?c = "\<lparr>ncli = 0, intena = False, fl_if = True\<rparr>"
  let ?s0 = "\<lparr>locked = False, lk_cpu = None, cpus = (\<lambda>_. ?c), pc = (\<lambda>_. Outside)\<rparr>"
  let ?s1 = "goto 0 Spinning (set_cpu 0 (pushcli ?c) ?s0)" let ?s2 = "goto 0 Taken (?s1\<lparr>locked := True\<rparr>)"
  let ?s3 = "goto 0 Critical (?s2\<lparr>lk_cpu := Some 0\<rparr>)"
  have "spin_reachable ?s0" by (rule spin_reachable.intros) (simp add: spin_init_def cpu_ok_def)
  moreover have "spin_step ?s0 ?s1" using acquire_enter [of ?s0 0] by (simp add: holding_def)
  moreover have "spin_step ?s1 ?s2" by (rule acquire_xchg) (simp_all add: goto_def set_cpu_def)
  moreover have "spin_step ?s2 ?s3" by (rule acquire_owner) (simp add: goto_def)
  ultimately have r: "spin_reachable ?s3" by (meson spin_reachable.intros)
  moreover have "pc ?s3 0 = Critical" by (simp add: goto_def)
  ultimately show ?thesis using spin_mutual_exclusion [OF r] by (simp add: Let_def)
qed

text \<open>
  Nesting of \<open>pushcli\<close> and \<open>popcli\<close>: after any number of matched calls no panic has happened
  and the nesting depth and the interrupt flag are what they were; while at least one \<open>pushcli\<close> is
  unmatched, interrupts stay off.
\<close>

theorem cli_nesting:
  assumes "cpu_ok c"
  shows "(\<exists>c'. pops n (pushes n c) = Ok c' \<and> ncli c' = ncli c \<and> fl_if c' = fl_if c) \<and>
    (0 < n \<longrightarrow> \<not> fl_if (pushes n c))"
  using pops_pushes [OF assms, of n] fl_if_pushes [of n c] by blast

theorem cli_nesting_witness:
  "\<exists>c'. pops 3 (pushes 3 \<lparr>ncli = 0, intena = False, fl_if = True\<rparr>) = Ok c' \<and> fl_if c'"
  using cli_nesting [of "\<lparr>ncli = 0, intena = False, fl_if = True\<rparr>" 3] by (auto simp: cpu_ok_def)

end
