(* ===== verification/Slots.thy ===== *)
theory Slots
  imports Prelude
begin

text \<open>
  The interface of the kernel's fixed tables (inode cache, file table, descriptor table, process
  table): a scan claims the first free entry. The laws are those the callers rely on; the theories
  of the tables interpret the locale with their own allocators.
\<close>

locale slot_table =
  fixes N :: nat and vacant :: "'e \<Rightarrow> bool" and alloc :: "(nat \<Rightarrow> 'e) \<Rightarrow> (nat \<times> (nat \<Rightarrow> 'e)) option"
  assumes full: "alloc t = None \<longleftrightarrow> (\<forall>i<N. \<not> vacant (t i))"
    and slot: "alloc t = Some (i, t') \<Longrightarrow> i < N \<and> vacant (t i) \<and> \<not> vacant (t' i)"
    and least: "alloc t = Some (i, t') \<Longrightarrow> j < i \<Longrightarrow> \<not> vacant (t j)"
    and frame: "alloc t = Some (i, t') \<Longrightarrow> j \<noteq> i \<Longrightarrow> t' j = t j"
begin

definition free_slots :: "(nat \<Rightarrow> 'e) \<Rightarrow> nat set" where
  "free_slots t = {i. i < N \<and> vacant (t i)}"

lemma finite_free_slots: "finite (free_slots t)"
  by (simp add: free_slots_def)

lemma free_slots_alloc:
  assumes "alloc t = Some (i, t')"
  shows "free_slots t' = free_slots t - {i}" "i \<in> free_slots t"
proof -
  show "i \<in> free_slots t" using slot [OF assms] by (simp add: free_slots_def)
  show "free_slots t' = free_slots t - {i}"
  proof (intro set_eqI)
    fix j show "j \<in> free_slots t' \<longleftrightarrow> j \<in> free_slots t - {i}"
      using slot [OF assms] frame [OF assms, of j] by (cases "j = i") (auto simp: free_slots_def)
  qed
qed

lemma card_free_alloc:
  assumes "alloc t = Some (i, t')"
  shows "card (free_slots t') + 1 = card (free_slots t)"
  using free_slots_alloc [OF assms] card_Suc_Diff1 [OF finite_free_slots, of i t] by simp

lemma alloc_progress: "free_slots t \<noteq> {} \<longleftrightarrow> (\<exists>i t'. alloc t = Some (i, t'))"
proof -
  have "free_slots t = {} \<longleftrightarrow> alloc t = None" using full [of t] by (auto simp: free_slots_def)
  then show ?thesis by (cases "alloc t") auto
qed

lemma alloc_twice_distinct:
  assumes "alloc t = Some (i, t1)" "alloc t1 = Some (j, t2)"
  shows "i \<noteq> j"
  using slot [OF assms(1)] slot [OF assms(2)] by auto

end

text \<open>The scan all of them share.\<close>

definition scan_claim :: "nat \<Rightarrow> ('e \<Rightarrow> bool) \<Rightarrow> ('e \<Rightarrow> 'e) \<Rightarrow> (nat \<Rightarrow> 'e) \<Rightarrow> (nat \<times> (nat \<Rightarrow> 'e)) option" where
  "scan_claim N vac cl t = map_option (\<lambda>i. (i, t(i := cl (t i)))) (List.find (\<lambda>i. vac (t i)) [0..<N])"

lemma scan_claim_table:
  assumes "\<And>e. vac e \<Longrightarrow> \<not> vac (cl e)"
  shows "slot_table N vac (scan_claim N vac cl)"
proof
  fix t show "scan_claim N vac cl t = None \<longleftrightarrow> (\<forall>i<N. \<not> vac (t i))"
    by (auto simp: scan_claim_def find_None_iff)
next
  fix t i t' assume "scan_claim N vac cl t = Some (i, t')"
  then have f: "List.find (\<lambda>i. vac (t i)) [0..<N] = Some i" and t': "t' = t(i := cl (t i))"
    by (auto simp: scan_claim_def)
  show "i < N \<and> vac (t i) \<and> \<not> vac (t' i)" using find_upt_least(1,2) [OF f] assms t' by simp
  show "\<And>j. j < i \<Longrightarrow> \<not> vac (t j)" using find_upt_least(3) [OF f] .
  show "\<And>j. j \<noteq> i \<Longrightarrow> t' j = t j" using t' by simp
qed

end
