(* ===== verification/Bio.thy ===== *)
theory Bio
  imports Locks
begin

text \<open>
  The buffer cache (\<open>bio.c\<close>, \<open>buf.h\<close>) over a synchronous disk driver
  (\<open>memide.c\<close>). The prev/next ring of \<open>bcache\<close> is the list \<open>lru\<close> of buffer indices, most
  recently used first. Spin-lock-protected regions run as one step (\<open>Locks\<close> proves the mutual
  exclusion that justifies it). The field \<open>trace\<close> records the disk writes in
  order, so that a crash can be described as a prefix of them.

  What is shown: the cache never holds two buffers for one block, a dirty buffer is never
  recycled, and what clients see (\<open>view\<close>: the cached copy if there is one, the disk otherwise)
  is not changed by \<open>bread\<close> or \<open>brelse\<close>.
\<close>

section \<open>Buffers, the cache and the disk\<close>

definition MAXOPBLOCKS :: nat where [layout_simps]: "MAXOPBLOCKS = 10"
definition LOGSIZE :: nat where [layout_simps]: "LOGSIZE = MAXOPBLOCKS * 3"
definition NBUF :: nat where [layout_simps]: "NBUF = MAXOPBLOCKS * 3"
definition BSIZE :: nat where [layout_simps]: "BSIZE = 512"

record buf =
  b_flags :: u32
  b_dev :: u32
  b_blockno :: u32
  b_lock :: sleeplock
  b_refcnt :: nat
  b_data :: bytes

definition B_VALID :: u32 where "B_VALID = 2"
definition B_DIRTY :: u32 where "B_DIRTY = 4"

definition is_valid :: "buf \<Rightarrow> bool" where "is_valid b \<longleftrightarrow> b_flags b AND B_VALID \<noteq> 0"
definition is_dirty :: "buf \<Rightarrow> bool" where "is_dirty b \<longleftrightarrow> b_flags b AND B_DIRTY \<noteq> 0"

lemma flag_valid_bit: "(f AND B_VALID \<noteq> 0) = bit f (Suc 0)"
  by (auto simp: B_VALID_def and_exp_eq_0_iff_not_bit [of f 1, simplified])

lemma flag_dirty_bit: "(f AND B_DIRTY \<noteq> 0) = bit f 2"
  by (auto simp: B_DIRTY_def and_exp_eq_0_iff_not_bit [of f 2, simplified])


lemma is_valid_bit: "is_valid b = bit (b_flags b) (Suc 0)"
  by (simp add: is_valid_def flag_valid_bit)

lemma is_dirty_bit: "is_dirty b = bit (b_flags b) 2"
  by (simp add: is_dirty_def flag_dirty_bit)

lemmas flag_bits = is_valid_bit is_dirty_bit

record bio =
  disk :: "u32 \<Rightarrow> bytes"
  disksize :: u32
  trace :: "(u32 \<times> bytes) list"
  bufs :: "nat \<Rightarrow> buf"
  lru :: "nat list"
  mypid :: int

definition upd_buf :: "nat \<Rightarrow> (buf \<Rightarrow> buf) \<Rightarrow> 'a bio_scheme \<Rightarrow> 'a bio_scheme" where
  "upd_buf i f s = s\<lparr>bufs := (bufs s)(i := f (bufs s i))\<rparr>"

text \<open>The static \<open>bcache.buf[]\<close> starts out zeroed.\<close>

definition buf0 :: buf where
  "buf0 = \<lparr>b_flags = 0, b_dev = 0, b_blockno = 0, b_lock = initsleeplock,
           b_refcnt = 0, b_data = (\<lambda>_. 0)\<rparr>"

definition binit :: "'a bio_scheme \<Rightarrow> 'a bio_scheme" where
  "binit s = s\<lparr>bufs := (\<lambda>_. buf0), lru := fold (#) [0..<NBUF] []\<rparr>"

definition bget :: "u32 \<Rightarrow> u32 \<Rightarrow> 'a bio_scheme \<Rightarrow> (nat \<times> 'a bio_scheme) res" where
  "bget dv bno s =
     (case List.find (\<lambda>i. b_dev (bufs s i) = dv \<and> b_blockno (bufs s i) = bno) (lru s) of
        Some i \<Rightarrow>
          (let s1 = upd_buf i (\<lambda>b. b\<lparr>b_refcnt := b_refcnt b + 1\<rparr>) s
           in bnd (acquiresleep (mypid s1) (b_lock (bufs s1 i))) (\<lambda>l.
              Ok (i, upd_buf i (\<lambda>b. b\<lparr>b_lock := l\<rparr>) s1)))
      | None \<Rightarrow>
          (case List.find (\<lambda>i. b_refcnt (bufs s i) = 0 \<and> b_flags (bufs s i) AND B_DIRTY = 0)
                  (rev (lru s)) of
             Some i \<Rightarrow>
               (let s1 = upd_buf i (\<lambda>b. b\<lparr>b_dev := dv, b_blockno := bno, b_flags := 0,
                                         b_refcnt := 1\<rparr>) s
                in bnd (acquiresleep (mypid s1) (b_lock (bufs s1 i))) (\<lambda>l.
                   Ok (i, upd_buf i (\<lambda>b. b\<lparr>b_lock := l\<rparr>) s1)))
           | None \<Rightarrow> Panic ''bget: no buffers''))"

definition iderw :: "nat \<Rightarrow> 'a bio_scheme \<Rightarrow> 'a bio_scheme res" where
  "iderw i s =
     (let b = bufs s i in
      if \<not> holdingsleep (mypid s) (b_lock b) then Panic ''iderw: buf not locked''
      else if b_flags b AND (B_VALID OR B_DIRTY) = B_VALID then Panic ''iderw: nothing to do''
      else if b_dev b \<noteq> 1 then Panic ''iderw: request not for disk 1''
      else if disksize s \<le> b_blockno b then Panic ''iderw: block out of range''
      else if b_flags b AND B_DIRTY \<noteq> 0 then
        Ok (upd_buf i (\<lambda>b. b\<lparr>b_flags := (b_flags b AND NOT B_DIRTY) OR B_VALID\<rparr>)
             (s\<lparr>disk := (disk s)(b_blockno b := b_data b),
                trace := trace s @ [(b_blockno b, b_data b)]\<rparr>))
      else
        Ok (upd_buf i (\<lambda>b. b\<lparr>b_data := disk s (b_blockno b), b_flags := b_flags b OR B_VALID\<rparr>) s))"

definition bread :: "u32 \<Rightarrow> u32 \<Rightarrow> 'a bio_scheme \<Rightarrow> (nat \<times> 'a bio_scheme) res" where
  "bread dv bno s =
     bnd (bget dv bno s) (\<lambda>(b, s).
     if b_flags (bufs s b) AND B_VALID = 0
     then bnd (iderw b s) (\<lambda>s. Ok (b, s))
     else Ok (b, s))"

definition bwrite :: "nat \<Rightarrow> 'a bio_scheme \<Rightarrow> 'a bio_scheme res" where
  "bwrite i s =
     (if \<not> holdingsleep (mypid s) (b_lock (bufs s i)) then Panic ''bwrite''
      else iderw i (upd_buf i (\<lambda>b. b\<lparr>b_flags := b_flags b OR B_DIRTY\<rparr>) s))"

definition brelse :: "nat \<Rightarrow> 'a bio_scheme \<Rightarrow> 'a bio_scheme res" where
  "brelse i s =
     (if \<not> holdingsleep (mypid s) (b_lock (bufs s i)) then Panic ''brelse''
      else
        let s1 = upd_buf i (\<lambda>b. b\<lparr>b_lock := releasesleep (b_lock b)\<rparr>) s;
            s2 = upd_buf i (\<lambda>b. b\<lparr>b_refcnt := b_refcnt b - 1\<rparr>) s1
        in Ok (if b_refcnt (bufs s2 i) = 0
               then s2\<lparr>lru := i # remove1 i (lru s2)\<rparr>
               else s2))"

text \<open>Writing to \<open>bp->data\<close>.\<close>

definition set_data :: "nat \<Rightarrow> bytes \<Rightarrow> 'a bio_scheme \<Rightarrow> 'a bio_scheme" where
  "set_data i d s = upd_buf i (\<lambda>b. b\<lparr>b_data := d\<rparr>) s"

section \<open>What clients see, and the invariant\<close>

definition view :: "'a bio_scheme \<Rightarrow> u32 \<Rightarrow> bytes" where
  "view s b =
     (case List.find (\<lambda>i. b_dev (bufs s i) = 1 \<and> b_blockno (bufs s i) = b \<and> is_valid (bufs s i))
             (lru s) of
        Some i \<Rightarrow> b_data (bufs s i)
      | None \<Rightarrow> disk s b)"

definition cache_ok :: "'a bio_scheme \<Rightarrow> bool" where
  "cache_ok s \<longleftrightarrow>
     distinct (lru s) \<and> set (lru s) = {..<NBUF} \<and>
     (\<forall>i<NBUF. \<forall>j<NBUF. b_dev (bufs s i) \<noteq> 0 \<and> b_dev (bufs s i) = b_dev (bufs s j) \<and>
        b_blockno (bufs s i) = b_blockno (bufs s j) \<longrightarrow> i = j)"

definition bio_inv :: "'a bio_scheme \<Rightarrow> bool" where
  "bio_inv s \<longleftrightarrow> cache_ok s \<and>
     (\<forall>i<NBUF. is_dirty (bufs s i) \<longrightarrow> is_valid (bufs s i) \<and> b_dev (bufs s i) = 1) \<and>
     (\<forall>i<NBUF. sl_locked (b_lock (bufs s i)) \<longrightarrow> 0 < b_refcnt (bufs s i)) \<and>
     (\<forall>i<NBUF. \<not> sl_locked (b_lock (bufs s i)) \<and> is_valid (bufs s i) \<and> \<not> is_dirty (bufs s i) \<and>
        b_dev (bufs s i) = 1 \<longrightarrow> b_data (bufs s i) = disk s (b_blockno (bufs s i)))"

text \<open>Buffer \<open>i\<close> holds block \<open>b\<close> of the disk and is locked by the calling process.\<close>

definition held :: "'a bio_scheme \<Rightarrow> nat \<Rightarrow> u32 \<Rightarrow> bool" where
  "held s i b \<longleftrightarrow> i < NBUF \<and> b_dev (bufs s i) = 1 \<and> b_blockno (bufs s i) = b \<and>
     is_valid (bufs s i) \<and> holdingsleep (mypid s) (b_lock (bufs s i))"

text \<open>A buffer that may be released: its change is pinned for the log, or there is none.\<close>

definition synced :: "'a bio_scheme \<Rightarrow> nat \<Rightarrow> bool" where
  "synced s i \<longleftrightarrow> is_dirty (bufs s i) \<or> b_data (bufs s i) = disk s (b_blockno (bufs s i))"

definition dirty_at :: "buf \<Rightarrow> u32 \<Rightarrow> bool" where
  "dirty_at x b \<longleftrightarrow> is_dirty x \<and> b_dev x = 1 \<and> b_blockno x = b"

definition dirty_blocks :: "'a bio_scheme \<Rightarrow> u32 set" where
  "dirty_blocks s = {b. \<exists>i<NBUF. dirty_at (bufs s i) b}"

lemma dirty_blocks_same:
  assumes "\<And>j x. j < NBUF \<Longrightarrow> dirty_at (bufs t j) x = dirty_at (bufs s j) x"
  shows "dirty_blocks t = dirty_blocks s"
  using assms by (auto simp: dirty_blocks_def)

lemma dirty_blocks_minus:
  assumes "\<And>j x. j < NBUF \<Longrightarrow> dirty_at (bufs t j) x = (dirty_at (bufs s j) x \<and> x \<noteq> b)"
  shows "dirty_blocks t = dirty_blocks s - {b}"
  using assms by (auto simp: dirty_blocks_def)


section \<open>Consequences of the invariant\<close>

lemma cache_ok_lru: "cache_ok s \<Longrightarrow> i \<in> set (lru s) \<longleftrightarrow> i < NBUF"
  by (simp add: cache_ok_def)

lemma cache_ok_unique:
  assumes "cache_ok s" "i < NBUF" "j < NBUF" "b_dev (bufs s i) \<noteq> 0"
    "b_dev (bufs s j) = b_dev (bufs s i)" "b_blockno (bufs s j) = b_blockno (bufs s i)"
  shows "j = i"
  using assms unfolding cache_ok_def by metis

lemma cache_ok_same:
  assumes "cache_ok s" "distinct (lru t)" "set (lru t) = set (lru s)"
    "\<And>j. b_dev (bufs t j) = b_dev (bufs s j)" "\<And>j. b_blockno (bufs t j) = b_blockno (bufs s j)"
  shows "cache_ok t"
  using assms unfolding cache_ok_def by metis

lemma cache_ok_distinct: "cache_ok s \<Longrightarrow> distinct (lru s)"
  by (simp add: cache_ok_def)

lemma bio_inv_cache: "bio_inv s \<Longrightarrow> cache_ok s"
  by (simp add: bio_inv_def)

lemma bio_inv_dirty:
  "bio_inv s \<Longrightarrow> i < NBUF \<Longrightarrow> is_dirty (bufs s i) \<Longrightarrow> is_valid (bufs s i) \<and> b_dev (bufs s i) = 1"
  by (simp add: bio_inv_def)

lemma bio_inv_ref:
  "bio_inv s \<Longrightarrow> i < NBUF \<Longrightarrow> sl_locked (b_lock (bufs s i)) \<Longrightarrow> 0 < b_refcnt (bufs s i)"
  by (simp add: bio_inv_def)

lemma bio_inv_clean:
  "bio_inv s \<Longrightarrow> i < NBUF \<Longrightarrow> \<not> sl_locked (b_lock (bufs s i)) \<Longrightarrow> is_valid (bufs s i) \<Longrightarrow>
   \<not> is_dirty (bufs s i) \<Longrightarrow> b_dev (bufs s i) = 1 \<Longrightarrow>
   b_data (bufs s i) = disk s (b_blockno (bufs s i))"
  by (simp add: bio_inv_def)

lemma bio_invI:
  assumes "cache_ok s"
    and "\<And>i. i < NBUF \<Longrightarrow> is_dirty (bufs s i) \<Longrightarrow> is_valid (bufs s i) \<and> b_dev (bufs s i) = 1"
    and "\<And>i. i < NBUF \<Longrightarrow> sl_locked (b_lock (bufs s i)) \<Longrightarrow> 0 < b_refcnt (bufs s i)"
    and "\<And>i. i < NBUF \<Longrightarrow> \<not> sl_locked (b_lock (bufs s i)) \<Longrightarrow> is_valid (bufs s i) \<Longrightarrow>
      \<not> is_dirty (bufs s i) \<Longrightarrow> b_dev (bufs s i) = 1 \<Longrightarrow>
      b_data (bufs s i) = disk s (b_blockno (bufs s i))"
  shows "bio_inv s"
  using assms by (simp add: bio_inv_def)

lemma view_cached:
  assumes "cache_ok s" "i < NBUF" "b_dev (bufs s i) = 1" "b_blockno (bufs s i) = b"
    "is_valid (bufs s i)"
  shows "view s b = b_data (bufs s i)"
proof -
  have "List.find (\<lambda>i. b_dev (bufs s i) = 1 \<and> b_blockno (bufs s i) = b \<and> is_valid (bufs s i))
      (lru s) = Some i"
    using assms by (intro find_unique)
      (auto simp: cache_ok_lru intro: cache_ok_unique [OF assms(1,2)])
  then show ?thesis by (simp add: view_def)
qed

lemma view_uncached:
  assumes "cache_ok s"
    "\<And>i. i < NBUF \<Longrightarrow> b_dev (bufs s i) = 1 \<Longrightarrow> b_blockno (bufs s i) = b \<Longrightarrow> \<not> is_valid (bufs s i)"
  shows "view s b = disk s b"
proof -
  have "List.find (\<lambda>i. b_dev (bufs s i) = 1 \<and> b_blockno (bufs s i) = b \<and> is_valid (bufs s i))
      (lru s) = None"
    using assms by (auto simp: find_None_iff cache_ok_lru)
  then show ?thesis by (simp add: view_def)
qed

lemma cache_ok_upd:
  assumes "cache_ok s" "i < NBUF"
    "\<And>j. j < NBUF \<Longrightarrow> j \<noteq> i \<Longrightarrow> b_dev (bufs s j) = b_dev b' \<Longrightarrow> b_blockno (bufs s j) \<noteq> b_blockno b'"
  shows "cache_ok (s\<lparr>bufs := (bufs s)(i := b')\<rparr>)"
  using assms unfolding cache_ok_def by (simp add: all_conj_distrib) metis

text \<open>
  Replacing buffer \<open>i\<close> by one that holds block \<open>b\<close>: it held \<open>b\<close> before, or nothing did and
  what it held before agrees with the disk.
\<close>

lemma view_upd:
  assumes ok: "cache_ok s" and i: "i < NBUF"
    and b': "b_dev b' = 1" "b_blockno b' = b" "is_valid b'"
    and old: "(b_dev (bufs s i) = 1 \<and> b_blockno (bufs s i) = b) \<or>
      ((\<forall>j<NBUF. \<not> (b_dev (bufs s j) = 1 \<and> b_blockno (bufs s j) = b)) \<and>
       (b_dev (bufs s i) = 1 \<and> is_valid (bufs s i) \<longrightarrow>
          b_data (bufs s i) = disk s (b_blockno (bufs s i))))"
  shows "cache_ok (s\<lparr>bufs := (bufs s)(i := b')\<rparr>)"
    and "view (s\<lparr>bufs := (bufs s)(i := b')\<rparr>) = (view s)(b := b_data b')"
proof -
  let ?s = "s\<lparr>bufs := (bufs s)(i := b')\<rparr>"
  have uniq: "\<not> (b_dev (bufs s j) = 1 \<and> b_blockno (bufs s j) = b)" if "j < NBUF" "j \<noteq> i" for j
    using old that cache_ok_unique [OF ok i, of j] by auto
  show ok': "cache_ok ?s"
    using ok i uniq b' by (intro cache_ok_upd) auto
  show "view ?s = (view s)(b := b_data b')"
  proof
    fix x
    show "view ?s x = ((view s)(b := b_data b')) x"
    proof (cases "x = b")
      case True
      with view_cached [OF ok' i, of x] b' show ?thesis by simp
    next
      case False
      show ?thesis
      proof (cases "\<exists>j<NBUF. j \<noteq> i \<and> b_dev (bufs s j) = 1 \<and> b_blockno (bufs s j) = x \<and> is_valid (bufs s j)")
        case True
        then obtain j where j: "j < NBUF" "j \<noteq> i" "b_dev (bufs s j) = 1"
          "b_blockno (bufs s j) = x" "is_valid (bufs s j)" by blast
        with view_cached [OF ok' j(1), of x] view_cached [OF ok j(1), of x] False
        show ?thesis by simp
      next
        case none: False
        have "view ?s x = disk ?s x"
          by (rule view_uncached [OF ok']) (use none b' False in \<open>auto split: if_splits\<close>)
        then have new: "view ?s x = disk s x" by simp
        have "view s x = disk s x"
        proof (cases "b_dev (bufs s i) = 1 \<and> b_blockno (bufs s i) = x \<and> is_valid (bufs s i)")
          case True
          with old False view_cached [OF ok i, of x] show ?thesis by auto
        next
          case False
          with none show ?thesis by (intro view_uncached [OF ok]) blast
        qed
        with new False show ?thesis by simp
      qed
    qed
  qed
qed


section \<open>The operations\<close>

lemma upd_buf_upd_buf: "upd_buf i f (upd_buf i g s) = upd_buf i (\<lambda>b. f (g b)) s"
  by (simp add: upd_buf_def)

lemma upd_buf_eq: "upd_buf i f s = s\<lparr>bufs := (bufs s)(i := f (bufs s i))\<rparr>"
  by (simp add: upd_buf_def)

lemma bufs_upd_buf [simp]: "bufs (upd_buf i f s) = (bufs s)(i := f (bufs s i))"
  by (simp add: upd_buf_def)

lemma upd_buf_fields [simp]:
  "disk (upd_buf i f s) = disk s" "disksize (upd_buf i f s) = disksize s"
  "trace (upd_buf i f s) = trace s" "lru (upd_buf i f s) = lru s"
  "mypid (upd_buf i f s) = mypid s" "bio.more (upd_buf i f s) = bio.more s"
  by (simp_all add: upd_buf_def)

text \<open>The two ways \<open>bget\<close> returns: the block was cached, or a free clean buffer is recycled.\<close>

lemma bget_cases:
  assumes inv: "bio_inv s" and get: "bget 1 b s = Ok (i, s')"
  obtains (hit) "i < NBUF" "b_dev (bufs s i) = 1" "b_blockno (bufs s i) = b"
      "\<not> sl_locked (b_lock (bufs s i))"
      "s' = upd_buf i (\<lambda>b. b\<lparr>b_refcnt := b_refcnt b + 1,
              b_lock := (b_lock b)\<lparr>sl_locked := True, sl_pid := mypid s\<rparr>\<rparr>) s"
  | (miss) "i < NBUF" "\<And>j. j < NBUF \<Longrightarrow> \<not> (b_dev (bufs s j) = 1 \<and> b_blockno (bufs s j) = b)"
      "b_refcnt (bufs s i) = 0" "\<not> is_dirty (bufs s i)" "\<not> sl_locked (b_lock (bufs s i))"
      "s' = upd_buf i (\<lambda>x. x\<lparr>b_dev := 1, b_blockno := b, b_flags := 0, b_refcnt := 1,
              b_lock := (b_lock x)\<lparr>sl_locked := True, sl_pid := mypid s\<rparr>\<rparr>) s"
proof (cases "List.find (\<lambda>i. b_dev (bufs s i) = 1 \<and> b_blockno (bufs s i) = b) (lru s)")
  case (Some j)
  note j = find_SomeD [OF Some]
  from j(2) inv have "j < NBUF" by (simp add: bio_inv_cache cache_ok_lru)
  with j Some get show ?thesis
    by (intro hit) (auto simp: bget_def upd_buf_def res_simps)
next
  case none: None
  from none inv have miss1: "\<not> (b_dev (bufs s j) = 1 \<and> b_blockno (bufs s j) = b)" if "j < NBUF" for j
    using that by (auto simp: find_None_iff cache_ok_lru bio_inv_cache)
  show ?thesis
  proof (cases "List.find (\<lambda>i. b_refcnt (bufs s i) = 0 \<and> b_flags (bufs s i) AND B_DIRTY = 0) (rev (lru s))")
    case None
    with none get show ?thesis by (simp add: bget_def)
  next
    case (Some j)
    note j = find_SomeD [OF Some]
    from j(2) inv have jN: "j < NBUF" by (simp add: bio_inv_cache cache_ok_lru)
    show ?thesis
      using none Some get j jN miss1
      by (intro miss) (auto simp: bget_def upd_buf_def res_simps is_dirty_def)
  qed
qed

text \<open>
  What \<open>bread\<close> does to the state: only buffer \<open>i\<close> changes, it was not in use by anyone holding
  its lock, and afterwards it holds block \<open>b\<close> with the contents clients see.
\<close>

definition loaded :: "'a bio_scheme \<Rightarrow> u32 \<Rightarrow> nat \<Rightarrow> buf \<Rightarrow> bool" where
  "loaded s b i b' \<longleftrightarrow>
     i < NBUF \<and> \<not> sl_locked (b_lock (bufs s i)) \<and>
     b_dev b' = 1 \<and> b_blockno b' = b \<and> is_valid b' \<and> holdingsleep (mypid s) (b_lock b') \<and>
     b_refcnt b' = b_refcnt (bufs s i) + 1 \<and> b_data b' = view s b \<and>
     is_dirty b' = is_dirty (bufs s i) \<and>
     ((b_dev (bufs s i) = 1 \<and> b_blockno (bufs s i) = b) \<or>
      ((\<forall>j<NBUF. \<not> (b_dev (bufs s j) = 1 \<and> b_blockno (bufs s j) = b)) \<and>
       \<not> is_dirty (bufs s i)))"

lemma bit_set_valid [simp]: "bit (f OR B_VALID :: u32) (Suc 0)" "bit (f OR B_VALID :: u32) 2 = bit f 2"
  by (simp_all add: B_VALID_def bit_simps bit_numeral_rec)

lemma bit_flag_consts [simp]:
  "bit B_VALID (Suc 0)" "\<not> bit B_VALID 2" "bit B_DIRTY 2" "\<not> bit B_DIRTY (Suc 0)"
  by (simp_all add: B_VALID_def B_DIRTY_def bit_numeral_rec)

lemma bit_set_dirty [simp]: "bit (f OR B_DIRTY :: u32) 2" "bit (f OR B_DIRTY :: u32) (Suc 0) = bit f (Suc 0)"
  by (simp_all add: B_DIRTY_def bit_simps bit_numeral_rec)

lemma bit_clear_dirty [simp]:
  "\<not> bit (f AND NOT B_DIRTY :: u32) 2" "bit (f AND NOT B_DIRTY :: u32) (Suc 0) = bit f (Suc 0)"
  by (simp_all add: B_DIRTY_def bit_simps bit_numeral_rec)


lemma iderw_read:
  assumes "iderw i s = Ok s'" and "\<not> is_dirty (bufs s i)"
  shows "s' = upd_buf i (\<lambda>b. b\<lparr>b_data := disk s (b_blockno b), b_flags := b_flags b OR B_VALID\<rparr>) s"
  using assms by (auto simp: iderw_def is_dirty_def Let_def upd_buf_def split: if_splits)

lemma bread_loaded:
  assumes inv: "bio_inv s" and rd: "bread 1 b s = Ok (i, s')"
  obtains b' where "s' = s\<lparr>bufs := (bufs s)(i := b')\<rparr>" and "loaded s b i b'"
proof -
  from rd obtain s1 where get: "bget 1 b s = Ok (i, s1)"
    and cont: "(if b_flags (bufs s1 i) AND B_VALID = 0 then bnd (iderw i s1) (\<lambda>s. Ok (i, s))
      else Ok (i, s1)) = Ok (i, s')"
    by (auto simp: bread_def res_simps split: if_splits)
  note ok = bio_inv_cache [OF inv]
  from inv get show thesis
  proof (cases rule: bget_cases)
    case hit
    show thesis
    proof (cases "is_valid (bufs s i)")
      case True
      with cont hit have s': "s' = s1" by (simp add: is_valid_def)
      from True hit view_cached [OF ok, of i b] have "loaded s b i (bufs s1 i)"
        by (simp add: loaded_def flag_bits holdingsleep_def)
      with s' hit show thesis by (intro that [of "bufs s1 i"]) (simp_all add: upd_buf_def)
    next
      case False
      then have clean: "\<not> is_dirty (bufs s i)" using bio_inv_dirty inv hit(1) by blast
      from False cont hit have "iderw i s1 = Ok s'"
        by (auto simp: is_valid_def res_simps)
      from iderw_read [OF this] clean hit have s': "s' = upd_buf i
          (\<lambda>b. b\<lparr>b_data := disk s (b_blockno b), b_flags := b_flags b OR B_VALID\<rparr>) s1"
        by (simp add: is_dirty_def)
      have "view s b = disk s b"
        using hit False cache_ok_unique [OF ok hit(1)] by (intro view_uncached [OF ok]) auto
      with s' hit clean have "loaded s b i (bufs s' i)"
        by (simp add: loaded_def flag_bits holdingsleep_def)
      with s' hit show thesis by (intro that [of "bufs s' i"]) (simp_all add: upd_buf_def)
    qed
  next
    case miss
    from cont miss have "iderw i s1 = Ok s'" by (auto simp: res_simps)
    from iderw_read [OF this] miss have s': "s' = upd_buf i
        (\<lambda>b. b\<lparr>b_data := disk s (b_blockno b), b_flags := b_flags b OR B_VALID\<rparr>) s1"
      by (simp add: is_dirty_def)
    have "view s b = disk s b" using miss by (intro view_uncached [OF ok]) auto
    with s' miss have "loaded s b i (bufs s' i)"
      by (auto simp: loaded_def flag_bits holdingsleep_def)
    with s' miss show thesis by (intro that [of "bufs s' i"]) (simp_all add: upd_buf_def)
  qed
qed

lemma loaded_view:
  assumes inv: "bio_inv s" and l: "loaded s b i b'"
  shows "cache_ok (s\<lparr>bufs := (bufs s)(i := b')\<rparr>)"
    and "view (s\<lparr>bufs := (bufs s)(i := b')\<rparr>) = view s"
proof -
  have old: "(b_dev (bufs s i) = 1 \<and> b_blockno (bufs s i) = b) \<or>
      ((\<forall>j<NBUF. \<not> (b_dev (bufs s j) = 1 \<and> b_blockno (bufs s j) = b)) \<and>
       (b_dev (bufs s i) = 1 \<and> is_valid (bufs s i) \<longrightarrow>
          b_data (bufs s i) = disk s (b_blockno (bufs s i))))"
    using l bio_inv_clean [OF inv, of i] by (auto simp: loaded_def)
  from l have b': "i < NBUF" "b_dev b' = 1" "b_blockno b' = b" "is_valid b'" "b_data b' = view s b"
    by (auto simp: loaded_def)
  from view_upd [OF bio_inv_cache [OF inv] b'(1-4) old] b'(5)
  show "cache_ok (s\<lparr>bufs := (bufs s)(i := b')\<rparr>)"
    and "view (s\<lparr>bufs := (bufs s)(i := b')\<rparr>) = view s" by simp_all
qed

lemma loaded_disk:
  assumes inv: "bio_inv s" and l: "loaded s b i b'" and clean: "\<not> is_dirty b'"
  shows "b_data b' = disk s b"
proof (cases "b_dev (bufs s i) = 1 \<and> b_blockno (bufs s i) = b \<and> is_valid (bufs s i)")
  case True
  with l clean show ?thesis
    using view_cached [OF bio_inv_cache [OF inv], of i b] bio_inv_clean [OF inv, of i]
    by (auto simp: loaded_def)
next
  case False
  have "view s b = disk s b"
    using l False cache_ok_unique [OF bio_inv_cache [OF inv], of i]
    by (intro view_uncached [OF bio_inv_cache [OF inv]]) (auto simp: loaded_def)
  with l show ?thesis by (simp add: loaded_def)
qed

lemma bread_inv:
  assumes inv: "bio_inv s" and l: "loaded s b i b'"
  shows "bio_inv (s\<lparr>bufs := (bufs s)(i := b')\<rparr>)"
proof (rule bio_invI)
  show "cache_ok (s\<lparr>bufs := (bufs s)(i := b')\<rparr>)" by (rule loaded_view [OF inv l])
next
  fix j assume "j < NBUF" "is_dirty (bufs (s\<lparr>bufs := (bufs s)(i := b')\<rparr>) j)"
  then show "is_valid (bufs (s\<lparr>bufs := (bufs s)(i := b')\<rparr>) j) \<and>
      b_dev (bufs (s\<lparr>bufs := (bufs s)(i := b')\<rparr>) j) = 1"
    using bio_inv_dirty [OF inv, of j] l by (auto simp: loaded_def)
next
  fix j assume "j < NBUF" "sl_locked (b_lock (bufs (s\<lparr>bufs := (bufs s)(i := b')\<rparr>) j))"
  then show "0 < b_refcnt (bufs (s\<lparr>bufs := (bufs s)(i := b')\<rparr>) j)"
    using bio_inv_ref [OF inv, of j] l by (cases "j = i") (auto simp: loaded_def)
next
  fix j
  let ?s = "s\<lparr>bufs := (bufs s)(i := b')\<rparr>"
  assume "j < NBUF" "\<not> sl_locked (b_lock (bufs ?s j))" "is_valid (bufs ?s j)"
    "\<not> is_dirty (bufs ?s j)" "b_dev (bufs ?s j) = 1"
  then show "b_data (bufs ?s j) = disk ?s (b_blockno (bufs ?s j))"
    using bio_inv_clean [OF inv, of j] l holdingsleep_locked
    by (cases "j = i") (auto simp: loaded_def)
qed

lemma bread_held: "loaded s b i b' \<Longrightarrow> held (s\<lparr>bufs := (bufs s)(i := b')\<rparr>) i b"
  by (simp add: loaded_def held_def)

lemma bread_synced:
  "bio_inv s \<Longrightarrow> loaded s b i b' \<Longrightarrow> synced (s\<lparr>bufs := (bufs s)(i := b')\<rparr>) i"
  using loaded_disk [of s b i b'] by (auto simp: synced_def loaded_def)

lemma dirty_blocks_loaded:
  assumes "bio_inv s" and l: "loaded s b i b'"
  shows "dirty_blocks (s\<lparr>bufs := (bufs s)(i := b')\<rparr>) = dirty_blocks s"
  using l by (intro dirty_blocks_same) (auto simp: loaded_def dirty_at_def)

text \<open>The contract of \<open>bread\<close> in one statement.\<close>

lemma bread_spec:
  assumes "bio_inv s" and "bread 1 b s = Ok (i, s')"
  shows "bio_inv s'" "held s' i b" "synced s' i" "view s' = view s"
    "b_data (bufs s' i) = view s b" "dirty_blocks s' = dirty_blocks s"
    "disk s' = disk s" "trace s' = trace s" "disksize s' = disksize s" "mypid s' = mypid s"
    "lru s' = lru s" "bio.more s' = bio.more s" "\<not> sl_locked (b_lock (bufs s i))"
    "\<And>j. j \<noteq> i \<Longrightarrow> bufs s' j = bufs s j" "b_refcnt (bufs s' i) = b_refcnt (bufs s i) + 1"
    "is_dirty (bufs s' i) = is_dirty (bufs s i)"
proof -
  from assms obtain b' where s': "s' = s\<lparr>bufs := (bufs s)(i := b')\<rparr>" and l: "loaded s b i b'"
    by (rule bread_loaded)
  show "bio_inv s'" using bread_inv [OF assms(1) l] s' by simp
  show "held s' i b" using bread_held [OF l] s' by simp
  show "synced s' i" using bread_synced [OF assms(1) l] s' by simp
  show "view s' = view s" using loaded_view(2) [OF assms(1) l] s' by simp
  show "dirty_blocks s' = dirty_blocks s" using dirty_blocks_loaded [OF assms(1) l] s' by simp
  show "\<And>j. j \<noteq> i \<Longrightarrow> bufs s' j = bufs s j" using s' by simp
  show "b_data (bufs s' i) = view s b" "disk s' = disk s" "trace s' = trace s"
    "disksize s' = disksize s" "mypid s' = mypid s" "lru s' = lru s" "bio.more s' = bio.more s"
    "\<not> sl_locked (b_lock (bufs s i))" "b_refcnt (bufs s' i) = b_refcnt (bufs s i) + 1"
    "is_dirty (bufs s' i) = is_dirty (bufs s i)"
    using s' l by (simp_all add: loaded_def)
qed

lemma bread_total:
  assumes inv: "bio_inv s" and sz: "b < disksize s"
    and room: "(\<exists>i<NBUF. b_dev (bufs s i) = 1 \<and> b_blockno (bufs s i) = b \<and> \<not> sl_locked (b_lock (bufs s i)))
      \<or> ((\<forall>i<NBUF. \<not> (b_dev (bufs s i) = 1 \<and> b_blockno (bufs s i) = b)) \<and>
         (\<exists>i<NBUF. b_refcnt (bufs s i) = 0 \<and> \<not> is_dirty (bufs s i)))"
  shows "\<exists>i s'. bread 1 b s = Ok (i, s')"
proof -
  note ok = bio_inv_cache [OF inv]
  from room obtain i s1 where get: "bget 1 b s = Ok (i, s1)"
  proof
    assume "\<exists>i<NBUF. b_dev (bufs s i) = 1 \<and> b_blockno (bufs s i) = b \<and> \<not> sl_locked (b_lock (bufs s i))"
    then obtain i where i: "i < NBUF" "b_dev (bufs s i) = 1" "b_blockno (bufs s i) = b"
      "\<not> sl_locked (b_lock (bufs s i))" by blast
    have "List.find (\<lambda>i. b_dev (bufs s i) = 1 \<and> b_blockno (bufs s i) = b) (lru s) = Some i"
      using i by (intro find_unique) (auto simp: cache_ok_lru [OF ok] intro: cache_ok_unique [OF ok i(1)])
    with i that show thesis by (simp add: bget_def acquiresleep_def)
  next
    assume r: "(\<forall>i<NBUF. \<not> (b_dev (bufs s i) = 1 \<and> b_blockno (bufs s i) = b)) \<and>
         (\<exists>i<NBUF. b_refcnt (bufs s i) = 0 \<and> \<not> is_dirty (bufs s i))"
    then have none: "List.find (\<lambda>i. b_dev (bufs s i) = 1 \<and> b_blockno (bufs s i) = b) (lru s) = None"
      by (auto simp: find_None_iff cache_ok_lru [OF ok])
    from r obtain j where j: "List.find (\<lambda>i. b_refcnt (bufs s i) = 0 \<and>
        b_flags (bufs s i) AND B_DIRTY = 0) (rev (lru s)) = Some j"
      using find_ex [of _ "rev (lru s)" "\<lambda>i. b_refcnt (bufs s i) = 0 \<and> b_flags (bufs s i) AND B_DIRTY = 0"]
      by (auto simp: cache_ok_lru [OF ok] is_dirty_def)
    have "\<not> sl_locked (b_lock (bufs s j))"
      using find_SomeD [OF j] bio_inv_ref [OF inv, of j] by (auto simp: cache_ok_lru [OF ok])
    with none j that show thesis by (simp add: bget_def acquiresleep_def)
  qed
  have nd: "\<not> is_dirty (bufs s1 i)" if "b_flags (bufs s1 i) AND B_VALID = 0"
    using inv get that bio_inv_dirty [OF inv, of i]
    by (cases rule: bget_cases) (auto simp: is_valid_def is_dirty_def)
  have b1: "b_dev (bufs s1 i) = 1" "b_blockno (bufs s1 i) = b" "disksize s1 = disksize s"
    "holdingsleep (mypid s1) (b_lock (bufs s1 i))"
    using inv get by (cases rule: bget_cases; simp add: holdingsleep_def)+
  show ?thesis
  proof (cases "b_flags (bufs s1 i) AND B_VALID = 0")
    case True
    then have "\<not> bit (b_flags (bufs s1 i) AND (B_VALID OR B_DIRTY)) (Suc 0)"
      using flag_valid_bit [of "b_flags (bufs s1 i)"] by (simp add: bit_simps)
    then have "b_flags (bufs s1 i) AND (B_VALID OR B_DIRTY) \<noteq> B_VALID" by auto
    with True nd b1 sz get show ?thesis
      by (auto simp: bread_def iderw_def Let_def is_dirty_def)
  next
    case False
    with get show ?thesis by (simp add: bread_def)
  qed
qed

section \<open>Writing and releasing\<close>

lemma held_facts:
  assumes "held s i b"
  shows "i < NBUF" "b_dev (bufs s i) = 1" "b_blockno (bufs s i) = b" "is_valid (bufs s i)"
    "holdingsleep (mypid s) (b_lock (bufs s i))" "sl_locked (b_lock (bufs s i))"
  using assms by (auto simp: held_def holdingsleep_def)

lemma held_view: "bio_inv s \<Longrightarrow> held s i b \<Longrightarrow> view s b = b_data (bufs s i)"
  by (rule view_cached) (auto simp: held_def bio_inv_cache)

text \<open>Updates of a held buffer that keep its identity, validity and lock.\<close>

lemma held_upd:
  assumes inv: "bio_inv s" and h: "held s i b"
    and f: "b_dev (f (bufs s i)) = 1" "b_blockno (f (bufs s i)) = b" "is_valid (f (bufs s i))"
      "b_lock (f (bufs s i)) = b_lock (bufs s i)" "b_refcnt (f (bufs s i)) = b_refcnt (bufs s i)"
  shows "bio_inv (upd_buf i f s)" and "held (upd_buf i f s) i b"
    and "view (upd_buf i f s) = (view s)(b := b_data (f (bufs s i)))"
proof -
  note hf = held_facts [OF h]
  have old: "(b_dev (bufs s i) = 1 \<and> b_blockno (bufs s i) = b) \<or>
      ((\<forall>j<NBUF. \<not> (b_dev (bufs s j) = 1 \<and> b_blockno (bufs s j) = b)) \<and>
       (b_dev (bufs s i) = 1 \<and> is_valid (bufs s i) \<longrightarrow>
          b_data (bufs s i) = disk s (b_blockno (bufs s i))))"
    using hf by simp
  note v = view_upd [OF bio_inv_cache [OF inv] hf(1) f(1-3) old]
  show "view (upd_buf i f s) = (view s)(b := b_data (f (bufs s i)))"
    using v(2) by (simp add: upd_buf_def)
  show "held (upd_buf i f s) i b"
    using hf f by (simp add: held_def)
  show "bio_inv (upd_buf i f s)"
  proof (rule bio_invI, goal_cases)
    case 1 show ?case using v(1) by (simp add: upd_buf_def)
  next
    case (2 j) then show ?case using bio_inv_dirty [OF inv, of j] f by (cases "j = i") auto
  next
    case (3 j) then show ?case using bio_inv_ref [OF inv, of j] f by (cases "j = i") auto
  next
    case (4 j) then show ?case using bio_inv_clean [OF inv, of j] f hf by (cases "j = i") auto
  qed
qed

lemma set_data_spec:
  assumes "bio_inv s" and "held s i b"
  shows "bio_inv (set_data i d s)" and "held (set_data i d s) i b"
    and "view (set_data i d s) = (view s)(b := d)"
    and "dirty_blocks (set_data i d s) = dirty_blocks s"
  using held_upd [OF assms, of "\<lambda>b. b\<lparr>b_data := d\<rparr>"] held_facts [OF assms(2)]
  by (auto simp: set_data_def is_valid_def is_dirty_def dirty_at_def intro!: dirty_blocks_same)

lemma set_data_fields [simp]:
  "disk (set_data i d s) = disk s" "trace (set_data i d s) = trace s"
  "disksize (set_data i d s) = disksize s" "mypid (set_data i d s) = mypid s"
  "lru (set_data i d s) = lru s" "bio.more (set_data i d s) = bio.more s"
  "bufs (set_data i d s) = (bufs s)(i := (bufs s i)\<lparr>b_data := d\<rparr>)"
  by (simp_all add: set_data_def)

lemma bwrite_Ok:
  assumes h: "held s i b" and sz: "b < disksize s"
  shows "bwrite i s = Ok (upd_buf i (\<lambda>x. x\<lparr>b_flags := ((b_flags x OR B_DIRTY) AND NOT B_DIRTY) OR B_VALID\<rparr>)
      (s\<lparr>disk := (disk s)(b := b_data (bufs s i)), trace := trace s @ [(b, b_data (bufs s i))]\<rparr>))"
proof -
  have dirty: "(f OR B_DIRTY) AND B_DIRTY \<noteq> 0" for f :: u32
    by (simp add: B_DIRTY_def)
  have "(f OR B_DIRTY) AND (B_VALID OR B_DIRTY) \<noteq> B_VALID" for f :: u32
  proof
    assume "(f OR B_DIRTY) AND (B_VALID OR B_DIRTY) = B_VALID"
    then have "bit ((f OR B_DIRTY) AND (B_VALID OR B_DIRTY)) 2 = bit B_VALID 2" by simp
    then show False by (simp add: bit_simps)
  qed
  with held_facts [OF h] sz dirty show ?thesis
    by (auto simp: bwrite_def iderw_def Let_def upd_buf_def)
qed


lemma bwrite_spec:
  assumes inv: "bio_inv s" and h: "held s i b" and sz: "b < disksize s"
  obtains s' where "bwrite i s = Ok s'" "bio_inv s'" "held s' i b" "synced s' i"
    "view s' = view s" "disk s' = (disk s)(b := view s b)"
    "trace s' = trace s @ [(b, view s b)]" "dirty_blocks s' = dirty_blocks s - {b}"
    "disksize s' = disksize s" "mypid s' = mypid s" "lru s' = lru s" "bio.more s' = bio.more s"
    "\<And>j. j \<noteq> i \<Longrightarrow> bufs s' j = bufs s j" "b_refcnt (bufs s' i) = b_refcnt (bufs s i)"
    "b_data (bufs s' i) = b_data (bufs s i)" "\<not> is_dirty (bufs s' i)"
proof -
  let ?f = "\<lambda>x. x\<lparr>b_flags := ((b_flags x OR B_DIRTY) AND NOT B_DIRTY) OR B_VALID\<rparr>"
  let ?d = "b_data (bufs s i)"
  let ?s = "s\<lparr>disk := (disk s)(b := ?d), trace := trace s @ [(b, ?d)]\<rparr>"
  let ?t = "upd_buf i ?f ?s"
  note hf = held_facts [OF h]
  have d: "view s b = ?d" by (rule held_view [OF inv h])
  note ok = bio_inv_cache [OF inv]
  have uniq: "\<not> (b_dev (bufs s j) = 1 \<and> b_blockno (bufs s j) = b)" if "j < NBUF" "j \<noteq> i" for j
    using cache_ok_unique [OF ok hf(1) that(1)] that hf by auto
  have inv': "bio_inv ?t"
  proof (rule bio_invI, goal_cases)
    case 1
    show ?case using cache_ok_distinct [OF ok] by (intro cache_ok_same [OF ok]) auto
  next
    case (2 j) then show ?case
      using bio_inv_dirty [OF inv, of j] by (cases "j = i") (auto simp: flag_bits)
  next
    case (3 j) then show ?case using bio_inv_ref [OF inv, of j] by (cases "j = i") auto
  next
    case (4 j) then show ?case
      using bio_inv_clean [OF inv, of j] uniq [of j] hf by (cases "j = i") auto
  qed
  have view': "view ?t = view s"
  proof
    fix x
    show "view ?t x = view s x"
    proof (cases "\<exists>j<NBUF. b_dev (bufs s j) = 1 \<and> b_blockno (bufs s j) = x \<and> is_valid (bufs s j)")
      case True
      then obtain j where j: "j < NBUF" "b_dev (bufs s j) = 1" "b_blockno (bufs s j) = x"
        "is_valid (bufs s j)" by blast
      have "view ?t x = b_data (bufs ?t j)"
        using j by (intro view_cached [OF bio_inv_cache [OF inv']]) (auto simp: flag_bits)
      with view_cached [OF ok j] show ?thesis by (cases "j = i") auto
    next
      case False
      then have "x \<noteq> b" using hf by blast
      have "view ?t x = disk ?t x"
        using False hf by (intro view_uncached [OF bio_inv_cache [OF inv']])
          (auto split: if_splits)
      with view_uncached [OF ok, of x] False \<open>x \<noteq> b\<close> show ?thesis by auto
    qed
  qed
  have dirty': "dirty_blocks ?t = dirty_blocks s - {b}"
  proof (rule dirty_blocks_minus)
    fix j x assume "j < NBUF"
    then show "dirty_at (bufs ?t j) x = (dirty_at (bufs s j) x \<and> x \<noteq> b)"
      using hf uniq [of j] by (cases "j = i") (auto simp: dirty_at_def flag_bits)
  qed
  show thesis
  proof (rule that [OF bwrite_Ok [OF h sz] inv' _ _ view' _ _ dirty'])
    show "held ?t i b" using hf by (simp add: held_def flag_bits)
    show "synced ?t i" using hf by (simp add: synced_def)
  qed (use d in \<open>simp_all add: flag_bits\<close>)
qed


lemma brelse_spec:
  assumes inv: "bio_inv s" and h: "held s i b" and sy: "synced s i"
  obtains s' where "brelse i s = Ok s'" "bio_inv s'" "view s' = view s"
    "dirty_blocks s' = dirty_blocks s" "disk s' = disk s" "trace s' = trace s"
    "disksize s' = disksize s" "mypid s' = mypid s" "bio.more s' = bio.more s"
    "\<And>j. j \<noteq> i \<Longrightarrow> bufs s' j = bufs s j"
    "bufs s' i = (bufs s i)\<lparr>b_lock := releasesleep (b_lock (bufs s i)),
       b_refcnt := b_refcnt (bufs s i) - 1\<rparr>"
proof -
  let ?f = "\<lambda>x. x\<lparr>b_lock := releasesleep (b_lock x), b_refcnt := b_refcnt x - 1\<rparr>"
  let ?t = "(upd_buf i ?f s)\<lparr>lru := (if b_refcnt (bufs s i) - 1 = 0 then i # remove1 i (lru s) else lru s)\<rparr>"
  note hf = held_facts [OF h] and ok = bio_inv_cache [OF inv]
  have rel: "brelse i s = Ok ?t"
    using hf by (auto simp: brelse_def Let_def upd_buf_def)
  have iin: "i \<in> set (lru s)" using hf cache_ok_lru [OF ok] by simp
  have lru': "distinct (lru ?t)" "set (lru ?t) = set (lru s)"
    using cache_ok_distinct [OF ok] iin by (auto simp: set_remove1_eq)
  have ok': "cache_ok ?t" using lru' by (intro cache_ok_same [OF ok]) auto
  have inv': "bio_inv ?t"
  proof (rule bio_invI [OF ok'], goal_cases)
    case (1 j) then show ?case
      using bio_inv_dirty [OF inv, of j] by (cases "j = i") (auto simp: flag_bits)
  next
    case (2 j) then show ?case using bio_inv_ref [OF inv, of j] by (cases "j = i") auto
  next
    case (3 j) then show ?case
      using bio_inv_clean [OF inv, of j] sy hf
      by (cases "j = i") (auto simp: synced_def flag_bits)
  qed
  have view': "view ?t = view s"
  proof
    fix x
    show "view ?t x = view s x"
    proof (cases "\<exists>j<NBUF. b_dev (bufs s j) = 1 \<and> b_blockno (bufs s j) = x \<and> is_valid (bufs s j)")
      case True
      then obtain j where j: "j < NBUF" "b_dev (bufs s j) = 1" "b_blockno (bufs s j) = x"
        "is_valid (bufs s j)" by blast
      have "view ?t x = b_data (bufs ?t j)"
        using j by (intro view_cached [OF ok']) (auto simp: flag_bits)
      with view_cached [OF ok j] show ?thesis by (cases "j = i") auto
    next
      case False
      have "view ?t x = disk ?t x"
        using False hf by (intro view_uncached [OF ok']) (auto simp: flag_bits split: if_splits)
      with view_uncached [OF ok, of x] False show ?thesis by auto
    qed
  qed
  have dirty': "dirty_blocks ?t = dirty_blocks s"
    by (rule dirty_blocks_same) (simp add: dirty_at_def is_dirty_def)
  show thesis
    by (rule that [OF rel inv' view' dirty']) simp_all
qed


section \<open>Availability of buffers\<close>

text \<open>
  The calling process holds exactly the buffers \<open>H\<close>, once each, and nobody else holds any: the
  situation inside one file system operation.
\<close>

definition only_held :: "'a bio_scheme \<Rightarrow> nat set \<Rightarrow> bool" where
  "only_held s H \<longleftrightarrow> H \<subseteq> {..<NBUF} \<and>
     (\<forall>i<NBUF. if i \<in> H then sl_locked (b_lock (bufs s i)) \<and> b_refcnt (bufs s i) = 1
               else \<not> sl_locked (b_lock (bufs s i)) \<and> b_refcnt (bufs s i) = 0)"

lemma bio_inv_binit: "bio_inv (binit s)" and only_held_binit: "only_held (binit s) {}"
  and dirty_blocks_binit: "dirty_blocks (binit s) = {}"
proof -
  have rev_fold: "fold (#) [0..<NBUF] [] = rev [0..<NBUF]" by (simp add: fold_Cons_rev)
  have lru: "distinct (lru (binit s))" "set (lru (binit s)) = {..<NBUF}"
    by (auto simp: binit_def rev_fold)
  have b: "bufs (binit s) i = buf0" for i by (simp add: binit_def)
  have "cache_ok (binit s)" using lru by (simp add: cache_ok_def b buf0_def)
  then show "bio_inv (binit s)"
    by (rule bio_invI) (auto simp: b buf0_def flag_bits initsleeplock_def)
  show "only_held (binit s) {}" by (simp add: only_held_def b buf0_def initsleeplock_def)
  show "dirty_blocks (binit s) = {}"
    by (auto simp: dirty_blocks_def dirty_at_def b buf0_def flag_bits)
qed

lemma dirty_blocks_card:
  assumes inv: "bio_inv s"
  shows "card {i. i < NBUF \<and> is_dirty (bufs s i)} = card (dirty_blocks s)"
proof -
  have eq: "dirty_blocks s = (\<lambda>i. b_blockno (bufs s i)) ` {i. i < NBUF \<and> is_dirty (bufs s i)}"
    using bio_inv_dirty [OF inv] by (auto simp: dirty_blocks_def dirty_at_def)
  have "inj_on (\<lambda>i. b_blockno (bufs s i)) {i. i < NBUF \<and> is_dirty (bufs s i)}"
    using bio_inv_dirty [OF inv] cache_ok_unique [OF bio_inv_cache [OF inv]]
    by (intro inj_onI) auto
  then show ?thesis by (simp add: eq card_image)
qed

lemma clean_buffer_exists:
  assumes inv: "bio_inv s" and oh: "only_held s H" and few: "card (dirty_blocks s) + card H < NBUF"
  shows "\<exists>i<NBUF. b_refcnt (bufs s i) = 0 \<and> \<not> is_dirty (bufs s i)"
proof -
  let ?D = "{i. i < NBUF \<and> is_dirty (bufs s i)}"
  have fin: "finite H" using oh finite_subset by (auto simp: only_held_def)
  have "card (?D \<union> H) \<le> card ?D + card H" by (rule card_Un_le)
  with few dirty_blocks_card [OF inv] have "card (?D \<union> H) < card {..<NBUF}" by simp
  moreover have "?D \<union> H \<subseteq> {..<NBUF}" using oh by (auto simp: only_held_def)
  ultimately have "?D \<union> H \<subset> {..<NBUF}" by (metis less_irrefl psubsetI)
  then obtain i where "i < NBUF" "i \<notin> ?D \<union> H" by auto
  with oh show ?thesis by (auto simp: only_held_def)
qed

lemma bread_avail:
  assumes inv: "bio_inv s" and oh: "only_held s H" and sz: "b < disksize s"
    and other: "\<And>i. i \<in> H \<Longrightarrow> b_blockno (bufs s i) \<noteq> b"
    and room: "b \<in> dirty_blocks s \<or> card (dirty_blocks s) + card H < NBUF"
  shows "\<exists>i s'. bread 1 b s = Ok (i, s')"
proof (rule bread_total [OF inv sz])
  let ?c = "\<lambda>i. b_dev (bufs s i) = 1 \<and> b_blockno (bufs s i) = b"
  show "(\<exists>i<NBUF. b_dev (bufs s i) = 1 \<and> b_blockno (bufs s i) = b \<and> \<not> sl_locked (b_lock (bufs s i)))
      \<or> ((\<forall>i<NBUF. \<not> (b_dev (bufs s i) = 1 \<and> b_blockno (bufs s i) = b)) \<and>
         (\<exists>i<NBUF. b_refcnt (bufs s i) = 0 \<and> \<not> is_dirty (bufs s i)))"
  proof (cases "\<exists>i<NBUF. ?c i")
    case True
    then obtain i where i: "i < NBUF" "?c i" by blast
    with other have "i \<notin> H" by blast
    with i oh show ?thesis by (auto simp: only_held_def)
  next
    case False
    then have "b \<notin> dirty_blocks s" by (auto simp: dirty_blocks_def dirty_at_def)
    with room clean_buffer_exists [OF inv oh] False show ?thesis by blast
  qed
qed

lemma only_held_bread:
  assumes "bio_inv s" and rd: "bread 1 b s = Ok (i, s')" and oh: "only_held s H"
  shows "only_held s' (insert i H)" and "i \<notin> H"
proof -
  note sp = bread_spec [OF assms(1,2)]
  have iN: "i < NBUF" using sp(2) by (simp add: held_def)
  with oh sp(13) show iH: "i \<notin> H" by (auto simp: only_held_def)
  show "only_held s' (insert i H)"
    unfolding only_held_def
  proof (intro conjI allI impI)
    show "insert i H \<subseteq> {..<NBUF}" using oh iN by (auto simp: only_held_def)
    fix j assume j: "j < NBUF"
    show "if j \<in> insert i H then sl_locked (b_lock (bufs s' j)) \<and> b_refcnt (bufs s' j) = 1
        else \<not> sl_locked (b_lock (bufs s' j)) \<and> b_refcnt (bufs s' j) = 0"
    proof (cases "j = i")
      case True
      with oh iN iH sp(15) held_facts(6) [OF sp(2)] show ?thesis by (simp add: only_held_def)
    next
      case False
      with oh j sp(14) show ?thesis by (simp add: only_held_def)
    qed
  qed
qed

lemma only_held_brelse:
  assumes oh: "only_held s H" and iN: "i < NBUF" "i \<in> H"
    and same: "\<And>j. j \<noteq> i \<Longrightarrow> bufs s' j = bufs s j"
    and bi: "bufs s' i = (bufs s i)\<lparr>b_lock := releasesleep (b_lock (bufs s i)),
       b_refcnt := b_refcnt (bufs s i) - 1\<rparr>"
  shows "only_held s' (H - {i})"
  unfolding only_held_def
proof (intro conjI allI impI)
  show "H - {i} \<subseteq> {..<NBUF}" using oh by (auto simp: only_held_def)
  fix j assume "j < NBUF"
  then show "if j \<in> H - {i} then sl_locked (b_lock (bufs s' j)) \<and> b_refcnt (bufs s' j) = 1
      else \<not> sl_locked (b_lock (bufs s' j)) \<and> b_refcnt (bufs s' j) = 0"
    using oh iN bi same [of j] by (cases "j = i") (auto simp: only_held_def)
qed

lemma only_held_same:
  assumes "only_held s H"
    and "\<And>j. b_lock (bufs s' j) = b_lock (bufs s j)" "\<And>j. b_refcnt (bufs s' j) = b_refcnt (bufs s j)"
  shows "only_held s' H"
  using assms by (simp add: only_held_def)

lemma only_held_set_data [simp]: "only_held (set_data i d s) H = only_held s H"
  by (auto simp: only_held_def)

end
