(* ===== verification/Log.thy ===== *)
theory Log
  imports Bio
begin

text \<open>
  The write-ahead log (\<open>log.c\<close>) and the superblock it is located by (\<open>fs.h\<close>, \<open>readsb\<close> of
  \<open>fs.c\<close>). Every function is translated with its buffer-cache calls, so that the disk writes of
  a commit appear in the \<open>trace\<close> in the order the code issues them.

  What is shown: \<open>log_write\<close> keeps the in-memory header free of duplicates and within its
  bound; a commit never panics and leaves the home blocks equal to what clients saw; and, the
  point of the design, a crash after any number of the commit's disk writes followed by
  \<open>recover_from_log\<close> yields either none or all of the transaction.
\<close>

section \<open>The superblock\<close>

record superblock =
  sb_size :: u32
  sb_nblocks :: u32
  sb_ninodes :: u32
  sb_nlog :: u32
  sb_logstart :: u32
  sb_inodestart :: u32
  sb_bmapstart :: u32

definition decode_sb :: "bytes \<Rightarrow> superblock" where
  "decode_sb d = \<lparr>sb_size = get_u32 d 0, sb_nblocks = get_u32 d 1, sb_ninodes = get_u32 d 2,
     sb_nlog = get_u32 d 3, sb_logstart = get_u32 d 4, sb_inodestart = get_u32 d 5,
     sb_bmapstart = get_u32 d 6\<rparr>"

definition encode_sb :: "superblock \<Rightarrow> bytes \<Rightarrow> bytes" where
  "encode_sb sb d =
     set_u32 (set_u32 (set_u32 (set_u32 (set_u32 (set_u32 (set_u32 d 0 (sb_size sb)) 1 (sb_nblocks sb))
       2 (sb_ninodes sb)) 3 (sb_nlog sb)) 4 (sb_logstart sb)) 5 (sb_inodestart sb)) 6 (sb_bmapstart sb)"

lemma decode_encode_sb [simp]: "decode_sb (encode_sb sb d) = sb"
  by (simp add: decode_sb_def encode_sb_def)

definition readsb :: "u32 \<Rightarrow> 'a bio_scheme \<Rightarrow> (superblock \<times> 'a bio_scheme) res" where
  "readsb dv s =
     bnd (bread dv 1 s) (\<lambda>(bp, s).
     let sb = decode_sb (b_data (bufs s bp)) in
     bnd (brelse bp s) (\<lambda>s.
     Ok (sb, s)))"

section \<open>The log\<close>

record logrec =
  log_start :: u32
  log_size :: int
  outstanding :: int
  committing :: bool
  log_dev :: u32
  lh_n :: int
  lh_block :: "nat \<Rightarrow> u32"

record kstate = bio +
  klog :: logrec

abbreviation upd_log :: "(logrec \<Rightarrow> logrec) \<Rightarrow> 'a kstate_scheme \<Rightarrow> 'a kstate_scheme" where
  "upd_log f s \<equiv> s\<lparr>klog := f (klog s)\<rparr>"

fun install_from :: "nat \<Rightarrow> nat \<Rightarrow> 'a kstate_scheme \<Rightarrow> 'a kstate_scheme res" where
  "install_from tail 0 s = Ok s"
| "install_from tail (Suc k) s =
     bnd (bread (log_dev (klog s)) (log_start (klog s) + of_nat tail + 1) s) (\<lambda>(lbuf, s).
     bnd (bread (log_dev (klog s)) (lh_block (klog s) tail) s) (\<lambda>(dbuf, s).
     let s = set_data dbuf (b_data (bufs s lbuf)) s in
     bnd (bwrite dbuf s) (\<lambda>s.
     bnd (brelse lbuf s) (\<lambda>s.
     bnd (brelse dbuf s) (\<lambda>s.
     install_from (Suc tail) k s)))))"

definition install_trans :: "'a kstate_scheme \<Rightarrow> 'a kstate_scheme res" where
  "install_trans s = install_from 0 (nat (lh_n (klog s))) s"

text \<open>The header block: \<open>n\<close> in the first word, the block numbers after it.\<close>

definition read_head :: "'a kstate_scheme \<Rightarrow> 'a kstate_scheme res" where
  "read_head s =
     bnd (bread (log_dev (klog s)) (log_start (klog s)) s) (\<lambda>(buf, s).
     let lh = b_data (bufs s buf);
         n = sint (get_u32 lh 0);
         s = upd_log (\<lambda>l. l\<lparr>lh_n := n,
               lh_block := (\<lambda>i. if i < nat n then get_u32 lh (i + 1) else lh_block l i)\<rparr>) s
     in brelse buf s)"

definition header_image :: "logrec \<Rightarrow> bytes \<Rightarrow> bytes" where
  "header_image l d =
     fold (\<lambda>i d. set_u32 d (i + 1) (lh_block l i)) [0..<nat (lh_n l)]
       (set_u32 d 0 (word_of_int (lh_n l)))"

definition write_head :: "'a kstate_scheme \<Rightarrow> 'a kstate_scheme res" where
  "write_head s =
     bnd (bread (log_dev (klog s)) (log_start (klog s)) s) (\<lambda>(buf, s).
     let s = set_data buf (header_image (klog s) (b_data (bufs s buf))) s in
     bnd (bwrite buf s) (\<lambda>s.
     brelse buf s))"

definition recover_from_log :: "'a kstate_scheme \<Rightarrow> 'a kstate_scheme res" where
  "recover_from_log s =
     bnd (read_head s) (\<lambda>s.
     bnd (install_trans s) (\<lambda>s.
     write_head (upd_log (\<lambda>l. l\<lparr>lh_n := 0\<rparr>) s)))"

definition initlog :: "u32 \<Rightarrow> 'a kstate_scheme \<Rightarrow> 'a kstate_scheme res" where
  "initlog dv s =
     (if BSIZE \<le> 4 + 4 * LOGSIZE then Panic ''initlog: too big logheader''
      else bnd (readsb dv s) (\<lambda>(sb, s).
        recover_from_log (upd_log (\<lambda>l. l\<lparr>log_start := sb_logstart sb,
          log_size := sint (sb_nlog sb), log_dev := dv\<rparr>) s)))"

text \<open>
  \<open>begin_op\<close> sleeps while a commit runs or the reservation of \<open>MAXOPBLOCKS\<close> blocks per operation
  does not fit; sleeping is \<open>Blocked\<close>.
\<close>

definition begin_op :: "'a kstate_scheme \<Rightarrow> 'a kstate_scheme res" where
  "begin_op s =
     (if committing (klog s) then Blocked
      else if lh_n (klog s) + (outstanding (klog s) + 1) * int MAXOPBLOCKS > int LOGSIZE then Blocked
      else Ok (upd_log (\<lambda>l. l\<lparr>outstanding := outstanding l + 1\<rparr>) s))"

fun write_log_from :: "nat \<Rightarrow> nat \<Rightarrow> 'a kstate_scheme \<Rightarrow> 'a kstate_scheme res" where
  "write_log_from tail 0 s = Ok s"
| "write_log_from tail (Suc k) s =
     bnd (bread (log_dev (klog s)) (log_start (klog s) + of_nat tail + 1) s) (\<lambda>(to, s).
     bnd (bread (log_dev (klog s)) (lh_block (klog s) tail) s) (\<lambda>(from, s).
     let s = set_data to (b_data (bufs s from)) s in
     bnd (bwrite to s) (\<lambda>s.
     bnd (brelse from s) (\<lambda>s.
     bnd (brelse to s) (\<lambda>s.
     write_log_from (Suc tail) k s)))))"

definition write_log :: "'a kstate_scheme \<Rightarrow> 'a kstate_scheme res" where
  "write_log s = write_log_from 0 (nat (lh_n (klog s))) s"

definition commit :: "'a kstate_scheme \<Rightarrow> 'a kstate_scheme res" where
  "commit s =
     (if lh_n (klog s) > 0 then
        bnd (write_log s) (\<lambda>s.
        bnd (write_head s) (\<lambda>s.
        bnd (install_trans s) (\<lambda>s.
        write_head (upd_log (\<lambda>l. l\<lparr>lh_n := 0\<rparr>) s))))
      else Ok s)"

definition end_op :: "'a kstate_scheme \<Rightarrow> 'a kstate_scheme res" where
  "end_op s =
     (let s = upd_log (\<lambda>l. l\<lparr>outstanding := outstanding l - 1\<rparr>) s in
      if committing (klog s) then Panic ''log.committing''
      else if outstanding (klog s) = 0 then
        bnd (commit (upd_log (\<lambda>l. l\<lparr>committing := True\<rparr>) s)) (\<lambda>s.
        Ok (upd_log (\<lambda>l. l\<lparr>committing := False\<rparr>) s))
      else Ok s)"

definition log_write :: "nat \<Rightarrow> 'a kstate_scheme \<Rightarrow> 'a kstate_scheme res" where
  "log_write b s =
     (let l = klog s; bno = b_blockno (bufs s b) in
      if int LOGSIZE \<le> lh_n l \<or> log_size l - 1 \<le> lh_n l then Panic ''too big a transaction''
      else if outstanding l < 1 then Panic ''log_write outside of trans''
      else
        let i = (case List.find (\<lambda>i. lh_block l i = bno) [0..<nat (lh_n l)] of
                   Some i \<Rightarrow> i | None \<Rightarrow> nat (lh_n l));
            l = l\<lparr>lh_block := (lh_block l)(i := bno)\<rparr>;
            l = (if i = nat (lh_n l) then l\<lparr>lh_n := lh_n l + 1\<rparr> else l)
        in Ok (upd_buf b (\<lambda>x. x\<lparr>b_flags := b_flags x OR B_DIRTY\<rparr>) (s\<lparr>klog := l\<rparr>)))"


section \<open>Quiet states and the copy step\<close>

text \<open>No buffer is locked or referenced, as when \<open>commit\<close> runs with no operation outstanding.\<close>

definition quiet :: "'a bio_scheme \<Rightarrow> bool" where
  "quiet s \<longleftrightarrow> bio_inv s \<and> only_held s {}"

lemma quietD: "quiet s \<Longrightarrow> bio_inv s" "quiet s \<Longrightarrow> only_held s {}"
  by (simp_all add: quiet_def)

lemma quiet_view_clean:
  assumes q: "quiet s" and b: "b \<notin> dirty_blocks s"
  shows "view s b = disk s b"
proof (cases "\<exists>i<NBUF. b_dev (bufs s i) = 1 \<and> b_blockno (bufs s i) = b \<and> is_valid (bufs s i)")
  case True
  then obtain i where i: "i < NBUF" "b_dev (bufs s i) = 1" "b_blockno (bufs s i) = b"
    "is_valid (bufs s i)" by blast
  have "\<not> is_dirty (bufs s i)" using b i by (auto simp: dirty_blocks_def dirty_at_def)
  moreover have "\<not> sl_locked (b_lock (bufs s i))" using q i by (auto simp: quiet_def only_held_def)
  ultimately have "b_data (bufs s i) = disk s b"
    using bio_inv_clean [OF quietD(1) [OF q], of i] i by simp
  then show ?thesis using view_cached [OF bio_inv_cache [OF quietD(1) [OF q]] i] by simp
next
  case False
  then show ?thesis by (intro view_uncached [OF bio_inv_cache [OF quietD(1) [OF q]]]) blast
qed

lemma more_klog:
  assumes "bio.more s' = bio.more s"
  shows "klog s' = klog s" "kstate.more s' = kstate.more s"
  using assms by (cases s; cases s'; simp)+

lemma upd_log_more:
  "bio.more s' = bio.more s \<Longrightarrow> bio.more (upd_log f s') = bio.more (upd_log f s)"
  by (cases s; cases s') simp

text \<open>The effect of one disk write from a quiet state to a quiet state.\<close>

definition wrote :: "'a bio_scheme \<Rightarrow> u32 \<Rightarrow> bytes \<Rightarrow> 'a bio_scheme \<Rightarrow> bool" where
  "wrote s b x s' \<longleftrightarrow> quiet s' \<and> view s' = (view s)(b := x) \<and> disk s' = (disk s)(b := x) \<and>
     trace s' = trace s @ [(b, x)] \<and> dirty_blocks s' = dirty_blocks s - {b} \<and>
     disksize s' = disksize s \<and> mypid s' = mypid s \<and> bio.more s' = bio.more s"

text \<open>Two states that differ in the cache only.\<close>

definition same_store :: "'a bio_scheme \<Rightarrow> 'a bio_scheme \<Rightarrow> bool" where
  "same_store s s' \<longleftrightarrow> view s' = view s \<and> disk s' = disk s \<and> trace s' = trace s \<and>
     dirty_blocks s' = dirty_blocks s \<and> disksize s' = disksize s \<and> mypid s' = mypid s \<and>
     bio.more s' = bio.more s"

lemma same_storeD:
  assumes "same_store s s'"
  shows "view s' = view s" "disk s' = disk s" "trace s' = trace s" "dirty_blocks s' = dirty_blocks s"
    "disksize s' = disksize s" "mypid s' = mypid s" "bio.more s' = bio.more s"
  using assms by (simp_all add: same_store_def)

lemma wrote_same_store: "wrote s' b x t \<Longrightarrow> same_store s s' \<Longrightarrow> wrote s b x t"
  by (simp add: wrote_def same_store_def)

lemma copy_tail:
  assumes inv: "bio_inv s" and hi: "held s i src" and hj: "held s j dst" and ne: "src \<noteq> dst"
    and sy: "synced s i" and oh: "only_held s {i, j}" and sz: "dst < disksize s"
  obtains s1 s2 s3 where "bwrite j (set_data j (b_data (bufs s i)) s) = Ok s1"
    "brelse i s1 = Ok s2" "brelse j s2 = Ok s3" "wrote s dst (view s src) s3"
proof -
  have ij: "i \<noteq> j" using ne held_facts(3) [OF hi] held_facts(3) [OF hj] by auto
  let ?d = "b_data (bufs s i)"
  have vd: "view s src = ?d" by (rule held_view [OF inv hi])
  let ?s0 = "set_data j ?d s"
  note s0 = set_data_spec [OF inv hj, of ?d]
  have "dst < disksize ?s0" using sz by simp
  from bwrite_spec [OF s0(1,2) this] obtain s1 where w: "bwrite j ?s0 = Ok s1" "bio_inv s1"
    "held s1 j dst" "synced s1 j" "view s1 = view ?s0" "disk s1 = (disk ?s0)(dst := view ?s0 dst)"
    "trace s1 = trace ?s0 @ [(dst, view ?s0 dst)]" "dirty_blocks s1 = dirty_blocks ?s0 - {dst}"
    "disksize s1 = disksize ?s0" "mypid s1 = mypid ?s0" "bio.more s1 = bio.more ?s0"
    and w': "\<And>k. k \<noteq> j \<Longrightarrow> bufs s1 k = bufs ?s0 k" "b_refcnt (bufs s1 j) = b_refcnt (bufs ?s0 j)"
    by metis
  have b1: "bufs s1 i = bufs s i" using w'(1) [OF ij] ij by simp
  have "held s1 i src" using hi b1 w(10) by (simp add: held_def)
  moreover have "synced s1 i" using sy b1 w(6) held_facts(3) [OF hi] ne by (auto simp: synced_def)
  ultimately obtain s2 where r: "brelse i s1 = Ok s2" "bio_inv s2" "view s2 = view s1"
    "dirty_blocks s2 = dirty_blocks s1" "disk s2 = disk s1" "trace s2 = trace s1"
    "disksize s2 = disksize s1" "mypid s2 = mypid s1" "bio.more s2 = bio.more s1"
    and r': "\<And>k. k \<noteq> i \<Longrightarrow> bufs s2 k = bufs s1 k"
    "bufs s2 i = (bufs s1 i)\<lparr>b_lock := releasesleep (b_lock (bufs s1 i)),
       b_refcnt := b_refcnt (bufs s1 i) - 1\<rparr>"
    using brelse_spec [OF w(2)] by metis
  have b2: "bufs s2 j = bufs s1 j" using r'(1) ij by metis
  have "held s2 j dst" using w(3) b2 r(8) by (simp add: held_def)
  moreover have "synced s2 j" using w(4) b2 r(5) by (simp add: synced_def)
  ultimately obtain s3 where e: "brelse j s2 = Ok s3" "bio_inv s3" "view s3 = view s2"
    "dirty_blocks s3 = dirty_blocks s2" "disk s3 = disk s2" "trace s3 = trace s2"
    "disksize s3 = disksize s2" "mypid s3 = mypid s2" "bio.more s3 = bio.more s2"
    and e': "\<And>k. k \<noteq> j \<Longrightarrow> bufs s3 k = bufs s2 k"
    "bufs s3 j = (bufs s2 j)\<lparr>b_lock := releasesleep (b_lock (bufs s2 j)),
       b_refcnt := b_refcnt (bufs s2 j) - 1\<rparr>"
    using brelse_spec [OF r(2)] by metis
  have jlk: "b_lock (bufs s1 j) = b_lock (bufs s j)"
  proof -
    have "holdingsleep (mypid s) (b_lock (bufs s1 j))" "holdingsleep (mypid s) (b_lock (bufs s j))"
      using held_facts(5) [OF w(3)] held_facts(5) [OF hj] w(10) by auto
    then show ?thesis by (simp add: holdingsleep_def)
  qed
  have "only_held s1 {i, j}"
  proof (rule only_held_same [OF oh])
    fix k show "b_lock (bufs s1 k) = b_lock (bufs s k)"
      using jlk w'(1) [of k] by (cases "k = j") auto
    show "b_refcnt (bufs s1 k) = b_refcnt (bufs s k)"
      using w'(1) [of k] w'(2) by (cases "k = j") auto
  qed
  from only_held_brelse [OF this _ _ r'] held_facts(1) [OF hi] have "only_held s2 ({i, j} - {i})"
    by simp
  moreover have "{i, j} - {i} = {j}" using ij by auto
  ultimately have "only_held s2 {j}" by simp
  from only_held_brelse [OF this _ _ e'] held_facts(1) [OF hj] have "only_held s3 {}" by simp
  with e r w s0 vd have "wrote s dst (view s src) s3" by (simp add: wrote_def quiet_def)
  with w(1) r(1) e(1) show thesis by (rule that)
qed

lemma bread_one:
  assumes q: "quiet s" and sz: "a < disksize s" and room: "card (dirty_blocks s) < NBUF"
  obtains i s1 where "bread 1 a s = Ok (i, s1)" "bio_inv s1" "held s1 i a" "synced s1 i"
    "only_held s1 {i}" "same_store s s1"
proof -
  from bread_avail [OF quietD(1) [OF q] quietD(2) [OF q] sz] room obtain i s1 where r: "bread 1 a s = Ok (i, s1)"
    by auto
  note sp = bread_spec [OF quietD(1) [OF q] r]
  have "same_store s s1" using sp by (simp add: same_store_def)
  with r sp(1-3) only_held_bread(1) [OF quietD(1) [OF q] r quietD(2) [OF q]] show thesis by (rule that)
qed

lemma bread_two:
  assumes q: "quiet s" and ne: "a \<noteq> c" and sz: "a < disksize s" "c < disksize s"
    and room: "card (dirty_blocks s) < NBUF" "c \<in> dirty_blocks s \<or> card (dirty_blocks s) + 1 < NBUF"
  obtains i s1 j s2 where "bread 1 a s = Ok (i, s1)" "bread 1 c s1 = Ok (j, s2)" "bio_inv s2"
    "held s2 i a" "held s2 j c" "synced s2 i" "synced s2 j" "only_held s2 {i, j}"
    "same_store s s1" "same_store s s2"
proof -
  from bread_one [OF q sz(1) room(1)] obtain i s1 where r: "bread 1 a s = Ok (i, s1)" "bio_inv s1"
    "held s1 i a" "synced s1 i" "only_held s1 {i}" "same_store s s1" by metis
  have "c < disksize s1" "c \<in> dirty_blocks s1 \<or> card (dirty_blocks s1) + card {i} < NBUF"
    using sz room same_storeD [OF r(6)] by auto
  with bread_avail [OF r(2,5)] held_facts(3) [OF r(3)] ne
  obtain j s2 where r2: "bread 1 c s1 = Ok (j, s2)" by blast
  note sp = bread_spec [OF r(2) r2]
  have ij: "i \<noteq> j" using only_held_bread(2) [OF r(2) r2 r(5)] by auto
  have bi: "bufs s2 i = bufs s1 i" using sp(14) [OF ij] .
  have "held s2 i a" "synced s2 i" using r(3,4) bi sp by (simp_all add: held_def synced_def)
  moreover have "only_held s2 {i, j}"
    using only_held_bread(1) [OF r(2) r2 r(5)] by (simp add: insert_commute)
  moreover have "same_store s s2" using r(6) sp by (simp add: same_store_def)
  ultimately show thesis using that [OF r(1) r2 sp(1)] sp(2,3) r(6) by blast
qed

lemma install_step:
  fixes s :: "'a kstate_scheme" and tail :: nat
  defines "src \<equiv> log_start (klog s) + of_nat tail + 1" and "dst \<equiv> lh_block (klog s) tail"
  assumes q: "quiet s" and dev: "log_dev (klog s) = 1" and ne: "src \<noteq> dst"
    and sz: "src < disksize s" "dst < disksize s"
    and room: "card (dirty_blocks s) < NBUF" "dst \<in> dirty_blocks s \<or> card (dirty_blocks s) + 1 < NBUF"
  obtains s' where "\<And>k. install_from tail (Suc k) s = install_from (Suc tail) k s'"
    "wrote s dst (view s src) s'"
proof -
  from bread_two [OF q ne sz room] obtain i s1 j s2 where
    r: "bread 1 src s = Ok (i, s1)" "bread 1 dst s1 = Ok (j, s2)" "bio_inv s2"
    "held s2 i src" "held s2 j dst" "synced s2 i" "only_held s2 {i, j}"
    "same_store s s1" "same_store s s2" by metis
  have k: "klog s1 = klog s" using more_klog same_storeD(7) [OF r(8)] by blast
  have "dst < disksize s2" using sz same_storeD(5) [OF r(9)] by simp
  from copy_tail [OF r(3,4,5) ne r(6,7) this] obtain s3 s4 s5 where
    c: "bwrite j (set_data j (b_data (bufs s2 i)) s2) = Ok s3" "brelse i s3 = Ok s4"
    "brelse j s4 = Ok s5" "wrote s2 dst (view s2 src) s5" by metis
  have "install_from tail (Suc k) s = install_from (Suc tail) k s5" for k
    using r(1,2) c(1-3) by (simp add: dev k src_def dst_def)
  moreover have "wrote s dst (view s src) s5"
    using wrote_same_store [OF c(4) r(9)] same_storeD(1) [OF r(9)] by simp
  ultimately show thesis by (rule that)
qed

lemma write_log_step:
  fixes s :: "'a kstate_scheme" and tail :: nat
  defines "dst \<equiv> log_start (klog s) + of_nat tail + 1" and "src \<equiv> lh_block (klog s) tail"
  assumes q: "quiet s" and dev: "log_dev (klog s) = 1" and ne: "src \<noteq> dst"
    and sz: "src < disksize s" "dst < disksize s"
    and room: "card (dirty_blocks s) < NBUF" "src \<in> dirty_blocks s \<or> card (dirty_blocks s) + 1 < NBUF"
  obtains s' where "\<And>k. write_log_from tail (Suc k) s = write_log_from (Suc tail) k s'"
    "wrote s dst (view s src) s'"
proof -
  from bread_two [OF q ne [symmetric] sz(2,1) room] obtain j s1 i s2 where
    r: "bread 1 dst s = Ok (j, s1)" "bread 1 src s1 = Ok (i, s2)" "bio_inv s2"
    "held s2 j dst" "held s2 i src" "synced s2 i" "only_held s2 {j, i}"
    "same_store s s1" "same_store s s2" by metis
  have k: "klog s1 = klog s" using more_klog same_storeD(7) [OF r(8)] by blast
  have "dst < disksize s2" "only_held s2 {i, j}"
    using sz same_storeD(5) [OF r(9)] r(7) by (simp_all add: insert_commute)
  from copy_tail [OF r(3,5,4) ne r(6) this(2,1)] obtain s3 s4 s5 where
    c: "bwrite j (set_data j (b_data (bufs s2 i)) s2) = Ok s3" "brelse i s3 = Ok s4"
    "brelse j s4 = Ok s5" "wrote s2 dst (view s2 src) s5" by metis
  have "write_log_from tail (Suc k) s = write_log_from (Suc tail) k s5" for k
    using r(1,2) c(1-3) by (simp add: dev k src_def dst_def)
  moreover have "wrote s dst (view s src) s5"
    using wrote_same_store [OF c(4) r(9)] same_storeD(1) [OF r(9)] by simp
  ultimately show thesis by (rule that)
qed

section \<open>Sequences of disk writes\<close>

definition apply_writes :: "(u32 \<times> bytes) list \<Rightarrow> (u32 \<Rightarrow> bytes) \<Rightarrow> u32 \<Rightarrow> bytes" where
  "apply_writes ws d = fold (\<lambda>(b, x) d. d(b := x)) ws d"

lemma apply_writes_simps [simp]:
  "apply_writes [] d = d" "apply_writes ((b, x) # ws) d = apply_writes ws (d(b := x))"
  "apply_writes (ws @ ws') d = apply_writes ws' (apply_writes ws d)"
  by (simp_all add: apply_writes_def)

lemma apply_writes_other: "b \<notin> fst ` set ws \<Longrightarrow> apply_writes ws d b = d b"
  by (induction ws arbitrary: d) auto

lemma apply_writes_map:
  assumes "inj_on f (set ks)" and "k \<in> set ks"
  shows "apply_writes (map (\<lambda>k. (f k, g k)) ks) d (f k) = g k"
  using assms
proof (induction ks arbitrary: d)
  case (Cons a ks)
  show ?case
  proof (cases "k \<in> set ks")
    case True with Cons show ?thesis by simp
  next
    case False
    with Cons.prems have "k = a" "f a \<notin> f ` set ks" by (auto simp: inj_on_def)
    then have "f k \<notin> fst ` set (map (\<lambda>k. (f k, g k)) ks)" by auto
    from apply_writes_other [OF this] show ?thesis using \<open>k = a\<close> by simp
  qed
qed simp

text \<open>Several writes in a row, each between quiet states.\<close>

definition wrote_all :: "'a bio_scheme \<Rightarrow> (u32 \<times> bytes) list \<Rightarrow> 'a bio_scheme \<Rightarrow> bool" where
  "wrote_all s ws s' \<longleftrightarrow> quiet s' \<and> view s' = apply_writes ws (view s) \<and>
     disk s' = apply_writes ws (disk s) \<and> trace s' = trace s @ ws \<and>
     dirty_blocks s' = dirty_blocks s - fst ` set ws \<and>
     disksize s' = disksize s \<and> mypid s' = mypid s \<and> bio.more s' = bio.more s"

lemma wrote_all_Nil: "quiet s \<Longrightarrow> wrote_all s [] s"
  by (simp add: wrote_all_def)

lemma wrote_all_Cons: "wrote s b x s1 \<Longrightarrow> wrote_all s1 ws s' \<Longrightarrow> wrote_all s ((b, x) # ws) s'"
  by (auto simp: wrote_all_def wrote_def)

lemma wrote_all_klog:
  "wrote_all s ws s' \<Longrightarrow> klog s' = klog s"
  "wrote_all s ws s' \<Longrightarrow> kstate.more s' = kstate.more s"
  using more_klog [of s' s] by (simp_all add: wrote_all_def)

lemma wrote_klog: "wrote s b x s' \<Longrightarrow> klog s' = klog s"
  using more_klog(1) [of s' s] by (simp add: wrote_def)

abbreviation log_block :: "logrec \<Rightarrow> nat \<Rightarrow> u32" where
  "log_block l t \<equiv> log_start l + of_nat t + 1"

text \<open>
  The block numbers of a transaction of \<open>n\<close> blocks: the home blocks are distinct, on the disk, and
  neither they nor the header collide with the log blocks.
\<close>

definition layout_ok :: "u32 \<Rightarrow> logrec \<Rightarrow> nat \<Rightarrow> bool" where
  "layout_ok dsz l n \<longleftrightarrow> log_dev l = 1 \<and> log_start l < dsz \<and> n < NBUF \<and>
     (\<forall>t<n. log_block l t < dsz \<and> lh_block l t < dsz \<and> log_block l t \<noteq> log_start l \<and>
        lh_block l t \<noteq> log_start l) \<and>
     (\<forall>t<n. \<forall>u<n. log_block l t \<noteq> lh_block l u) \<and>
     inj_on (lh_block l) {..<n} \<and> inj_on (log_block l) {..<n}"

lemma layout_okD:
  assumes "layout_ok dsz l n"
  shows "log_dev l = 1" "log_start l < dsz" "n < NBUF"
    "\<And>t. t < n \<Longrightarrow> log_block l t < dsz" "\<And>t. t < n \<Longrightarrow> lh_block l t < dsz"
    "\<And>t. t < n \<Longrightarrow> log_block l t \<noteq> log_start l" "\<And>t. t < n \<Longrightarrow> lh_block l t \<noteq> log_start l"
    "\<And>t u. t < n \<Longrightarrow> u < n \<Longrightarrow> log_block l t \<noteq> lh_block l u"
    "inj_on (lh_block l) {..<n}" "inj_on (log_block l) {..<n}"
  using assms by (simp_all add: layout_ok_def)

lemma install_from_spec:
  fixes s :: "'a kstate_scheme"
  assumes "quiet s" "layout_ok (disksize s) (klog s) n" "tail + k = n"
    and "lh_block (klog s) ` {tail..<n} \<subseteq> dirty_blocks s \<or> card (dirty_blocks s) + 1 < NBUF"
    and "card (dirty_blocks s) < NBUF"
  shows "\<exists>s'. install_from tail k s = Ok s' \<and>
    wrote_all s (map (\<lambda>t. (lh_block (klog s) t, view s (log_block (klog s) t))) [tail..<n]) s'"
  using assms
proof (induction k arbitrary: tail s)
  case 0
  then show ?case by (simp add: wrote_all_Nil)
next
  case (Suc k)
  note q = Suc.prems(1) and lay = layout_okD [OF Suc.prems(2)]
  let ?l = "klog s"
  have t: "tail < n" using Suc.prems(3) by simp
  have "lh_block ?l tail \<in> dirty_blocks s \<or> card (dirty_blocks s) + 1 < NBUF"
    using Suc.prems(4) t by auto
  then obtain s1 where
    s1: "\<And>k. install_from tail (Suc k) s = install_from (Suc tail) k s1"
    "wrote s (lh_block ?l tail) (view s (log_block ?l tail)) s1"
    by (rule install_step [OF q lay(1) lay(8) [OF t t] lay(4,5) [OF t] Suc.prems(5)]) blast
  note kl = wrote_klog [OF s1(2)]
  have w: "quiet s1" "view s1 = (view s)(lh_block ?l tail := view s (log_block ?l tail))"
    "dirty_blocks s1 = dirty_blocks s - {lh_block ?l tail}" "disksize s1 = disksize s"
    using s1(2) by (simp_all add: wrote_def)
  have card: "card (dirty_blocks s1) \<le> card (dirty_blocks s)"
    unfolding w(3) by (rule card_Diff1_le)
  have sub: "lh_block ?l ` {Suc tail..<n} \<subseteq> dirty_blocks s1 \<or> card (dirty_blocks s1) + 1 < NBUF"
  proof (cases "card (dirty_blocks s) + 1 < NBUF")
    case False
    with Suc.prems(4) have "lh_block ?l ` {tail..<n} \<subseteq> dirty_blocks s" by simp
    moreover have "lh_block ?l u \<noteq> lh_block ?l tail" if "u \<in> {Suc tail..<n}" for u
      using inj_onD [OF lay(9), of u tail] that t by auto
    ultimately show ?thesis by (auto simp: w(3) image_subset_iff)
  qed (use card in simp)
  have n: "Suc tail + k = n" and room: "card (dirty_blocks s1) < NBUF"
    using Suc.prems(3,5) card by linarith+
  have "\<exists>s'. install_from (Suc tail) k s1 = Ok s' \<and>
      wrote_all s1 (map (\<lambda>t. (lh_block ?l t, view s1 (log_block ?l t))) [Suc tail..<n]) s'"
    using Suc.IH [of s1 "Suc tail", unfolded kl w(4), OF w(1) Suc.prems(2) n sub room] .
  then obtain s' where s': "install_from (Suc tail) k s1 = Ok s'"
    "wrote_all s1 (map (\<lambda>t. (lh_block ?l t, view s1 (log_block ?l t))) [Suc tail..<n]) s'"
    by blast
  have "map (\<lambda>t. (lh_block ?l t, view s1 (log_block ?l t))) [Suc tail..<n] =
      map (\<lambda>t. (lh_block ?l t, view s (log_block ?l t))) [Suc tail..<n]"
    using lay(8) [OF _ t] by (simp add: w(2))
  then have "wrote_all s1 (map (\<lambda>t. (lh_block ?l t, view s (log_block ?l t))) [Suc tail..<n]) s'"
    using s'(2) by metis
  from wrote_all_Cons [OF s1(2) this] s'(1) s1(1) [of k] t show ?case
    by (simp only: upt_conv_Cons list.map) blast
qed

lemma write_log_from_spec:
  fixes s :: "'a kstate_scheme"
  assumes "quiet s" "layout_ok (disksize s) (klog s) n" "tail + k = n"
    and "lh_block (klog s) ` {tail..<n} \<subseteq> dirty_blocks s" and "card (dirty_blocks s) < NBUF"
  shows "\<exists>s'. write_log_from tail k s = Ok s' \<and>
    wrote_all s (map (\<lambda>t. (log_block (klog s) t, view s (lh_block (klog s) t))) [tail..<n]) s'"
  using assms
proof (induction k arbitrary: tail s)
  case 0
  then show ?case by (simp add: wrote_all_Nil)
next
  case (Suc k)
  note q = Suc.prems(1) and lay = layout_okD [OF Suc.prems(2)]
  let ?l = "klog s"
  have t: "tail < n" using Suc.prems(3) by simp
  have "lh_block ?l tail \<in> dirty_blocks s \<or> card (dirty_blocks s) + 1 < NBUF"
    using Suc.prems(4) t by auto
  then obtain s1 where
    s1: "\<And>k. write_log_from tail (Suc k) s = write_log_from (Suc tail) k s1"
    "wrote s (log_block ?l tail) (view s (lh_block ?l tail)) s1"
    by (rule write_log_step [OF q lay(1) lay(8) [OF t t, symmetric] lay(5,4) [OF t] Suc.prems(5)]) blast
  note kl = wrote_klog [OF s1(2)]
  have w: "quiet s1" "view s1 = (view s)(log_block ?l tail := view s (lh_block ?l tail))"
    "dirty_blocks s1 = dirty_blocks s - {log_block ?l tail}" "disksize s1 = disksize s"
    using s1(2) by (simp_all add: wrote_def)
  have sub: "lh_block ?l ` {Suc tail..<n} \<subseteq> dirty_blocks s1"
    using Suc.prems(4) lay(8) [OF t] by (fastforce simp: w(3))
  have n: "Suc tail + k = n" and room: "card (dirty_blocks s1) < NBUF"
    using Suc.prems(3,5) card_Diff1_le [of "dirty_blocks s" "log_block ?l tail"] unfolding w(3)
    by linarith+
  have "\<exists>s'. write_log_from (Suc tail) k s1 = Ok s' \<and>
      wrote_all s1 (map (\<lambda>t. (log_block ?l t, view s1 (lh_block ?l t))) [Suc tail..<n]) s'"
    using Suc.IH [of s1 "Suc tail", unfolded kl w(4), OF w(1) Suc.prems(2) n sub room] .
  then obtain s' where s': "write_log_from (Suc tail) k s1 = Ok s'"
    "wrote_all s1 (map (\<lambda>t. (log_block ?l t, view s1 (lh_block ?l t))) [Suc tail..<n]) s'"
    by blast
  have "map (\<lambda>t. (log_block ?l t, view s1 (lh_block ?l t))) [Suc tail..<n] =
      map (\<lambda>t. (log_block ?l t, view s (lh_block ?l t))) [Suc tail..<n]"
    using lay(8) [OF t] by (simp add: w(2) not_sym)
  then have "wrote_all s1 (map (\<lambda>t. (log_block ?l t, view s (lh_block ?l t))) [Suc tail..<n]) s'"
    using s'(2) by metis
  from wrote_all_Cons [OF s1(2) this] s'(1) s1(1) [of k] t show ?case
    by (simp only: upt_conv_Cons list.map) blast
qed

section \<open>The header block\<close>

lemma header_image_words:
  assumes "0 \<le> lh_n l"
  shows "get_u32 (header_image l d) 0 = word_of_int (lh_n l)"
    and "i < nat (lh_n l) \<Longrightarrow> get_u32 (header_image l d) (i + 1) = lh_block l i"
proof -
  have *: "get_u32 (fold (\<lambda>i d. set_u32 d (i + 1) (lh_block l i)) [0..<k] d) j =
      (if 0 < j \<and> j \<le> k then lh_block l (j - 1) else get_u32 d j)" for k d j
    by (induction k) (auto simp: le_Suc_eq)
  show "get_u32 (header_image l d) 0 = word_of_int (lh_n l)"
    by (simp only: header_image_def *) simp
  show "i < nat (lh_n l) \<Longrightarrow> get_u32 (header_image l d) (i + 1) = lh_block l i"
    by (simp only: header_image_def *) simp
qed

lemma sint_small: "0 \<le> n \<Longrightarrow> n < 2 ^ 31 \<Longrightarrow> sint (word_of_int n :: u32) = n"
  by (simp add: sint_uint unsigned_of_int signed_take_bit_int_eq_self take_bit_int_eq_self)

lemma write_head_spec:
  fixes s :: "'a kstate_scheme"
  assumes q: "quiet s" and dev: "log_dev (klog s) = 1" and sz: "log_start (klog s) < disksize s"
    and room: "card (dirty_blocks s) < NBUF"
  obtains s' where "write_head s = Ok s'"
    "wrote s (log_start (klog s)) (header_image (klog s) (view s (log_start (klog s)))) s'"
proof -
  let ?h = "log_start (klog s)"
  from bread_one [OF q sz room] obtain i s1 where r: "bread 1 ?h s = Ok (i, s1)" "bio_inv s1"
    "held s1 i ?h" "synced s1 i" "only_held s1 {i}" "same_store s s1" by metis
  note st = same_storeD [OF r(6)]
  have k: "klog s1 = klog s" using more_klog st(7) by blast
  let ?x = "header_image (klog s) (view s ?h)"
  have d: "b_data (bufs s1 i) = view s ?h" using held_view [OF r(2,3)] st(1) by simp
  let ?s2 = "set_data i ?x s1"
  note s2 = set_data_spec [OF r(2,3), of ?x]
  have "?h < disksize ?s2" using sz st by simp
  from bwrite_spec [OF s2(1,2) this] obtain s3 where w: "bwrite i ?s2 = Ok s3" "bio_inv s3"
    "held s3 i ?h" "synced s3 i" "view s3 = view ?s2" "disk s3 = (disk ?s2)(?h := view ?s2 ?h)"
    "trace s3 = trace ?s2 @ [(?h, view ?s2 ?h)]" "dirty_blocks s3 = dirty_blocks ?s2 - {?h}"
    "disksize s3 = disksize ?s2" "mypid s3 = mypid ?s2" "bio.more s3 = bio.more ?s2"
    and w': "\<And>k. k \<noteq> i \<Longrightarrow> bufs s3 k = bufs ?s2 k" "b_refcnt (bufs s3 i) = b_refcnt (bufs ?s2 i)"
    by metis
  from brelse_spec [OF w(2-4)] obtain s4 where e: "brelse i s3 = Ok s4" "bio_inv s4" "view s4 = view s3"
    "dirty_blocks s4 = dirty_blocks s3" "disk s4 = disk s3" "trace s4 = trace s3"
    "disksize s4 = disksize s3" "mypid s4 = mypid s3" "bio.more s4 = bio.more s3"
    and e': "\<And>k. k \<noteq> i \<Longrightarrow> bufs s4 k = bufs s3 k"
    "bufs s4 i = (bufs s3 i)\<lparr>b_lock := releasesleep (b_lock (bufs s3 i)),
       b_refcnt := b_refcnt (bufs s3 i) - 1\<rparr>" by metis
  have ilk: "b_lock (bufs s3 i) = b_lock (bufs s1 i)"
    using held_facts(5) [OF w(3)] held_facts(5) [OF r(3)] w(10) by (simp add: holdingsleep_def)
  have "only_held s3 {i}"
  proof (rule only_held_same [OF r(5)])
    fix k show "b_lock (bufs s3 k) = b_lock (bufs s1 k)"
      using ilk w'(1) [of k] by (cases "k = i") auto
    show "b_refcnt (bufs s3 k) = b_refcnt (bufs s1 k)"
      using w'(1) [of k] w'(2) by (cases "k = i") auto
  qed
  from only_held_brelse [OF this _ _ e'] held_facts(1) [OF r(3)] have "only_held s4 {}" by simp
  with e w s2 st have "wrote s ?h ?x s4" by (simp add: wrote_def quiet_def)
  moreover have "write_head s = Ok s4"
    using r(1) w(1) e(1) by (simp add: write_head_def dev k d)
  ultimately show thesis using that by blast
qed

lemma klog_update_frame [simp]:
  "bio_inv (klog_update f s) = bio_inv s" "held (klog_update f s) i b = held s i b"
  "synced (klog_update f s) i = synced s i" "view (klog_update f s) = view s"
  "dirty_blocks (klog_update f s) = dirty_blocks s" "only_held (klog_update f s) H = only_held s H"
  "quiet (klog_update f s) = quiet s"
  by (simp_all add: bio_inv_def cache_ok_def held_def synced_def fun_eq_iff view_def dirty_blocks_def
      only_held_def quiet_def cong: option.case_cong)

lemma brelse_last:
  assumes inv: "bio_inv s" and h: "held s i b" and sy: "synced s i" and oh: "only_held s {i}"
  obtains s' where "brelse i s = Ok s'" "quiet s'" "same_store s s'"
proof -
  from brelse_spec [OF inv h sy] obtain s' where e: "brelse i s = Ok s'" "bio_inv s'" "view s' = view s"
    "dirty_blocks s' = dirty_blocks s" "disk s' = disk s" "trace s' = trace s"
    "disksize s' = disksize s" "mypid s' = mypid s" "bio.more s' = bio.more s"
    and e': "\<And>k. k \<noteq> i \<Longrightarrow> bufs s' k = bufs s k"
    "bufs s' i = (bufs s i)\<lparr>b_lock := releasesleep (b_lock (bufs s i)),
       b_refcnt := b_refcnt (bufs s i) - 1\<rparr>" by metis
  from only_held_brelse [OF oh _ _ e'] held_facts(1) [OF h] have "only_held s' {}" by simp
  with e have "quiet s'" "same_store s s'" by (simp_all add: quiet_def same_store_def)
  with e(1) show thesis by (rule that)
qed

lemma readsb_spec:
  assumes q: "quiet s" and sz: "1 < disksize s" and room: "card (dirty_blocks s) < NBUF"
  obtains s' where "readsb 1 s = Ok (decode_sb (view s 1), s')" "quiet s'" "same_store s s'"
proof -
  from bread_one [OF q sz room] obtain i s1 where r: "bread 1 1 s = Ok (i, s1)" "bio_inv s1"
    "held s1 i 1" "synced s1 i" "only_held s1 {i}" "same_store s s1" by metis
  from brelse_last [OF r(2-5)] obtain s2 where e: "brelse i s1 = Ok s2" "quiet s2" "same_store s1 s2"
    by metis
  have "b_data (bufs s1 i) = view s 1"
    using held_view [OF r(2,3)] same_storeD(1) [OF r(6)] by simp
  with r(1) e(1) have "readsb 1 s = Ok (decode_sb (view s 1), s2)" by (simp add: readsb_def)
  moreover have "same_store s s2" using r(6) e(3) by (simp add: same_store_def)
  ultimately show thesis using e(2) that by blast
qed

definition head_log :: "bytes \<Rightarrow> logrec \<Rightarrow> logrec" where
  "head_log d l = l\<lparr>lh_n := sint (get_u32 d 0),
     lh_block := (\<lambda>i. if i < nat (sint (get_u32 d 0)) then get_u32 d (i + 1) else lh_block l i)\<rparr>"

lemma same_store_klog:
  assumes "same_store (klog_update f s) s'"
  shows "klog s' = f (klog s)" "kstate.more s' = kstate.more s" "view s' = view s" "disk s' = disk s"
    "trace s' = trace s" "dirty_blocks s' = dirty_blocks s" "disksize s' = disksize s" "mypid s' = mypid s"
  using more_klog [OF same_storeD(7) [OF assms]] same_storeD(1-6) [OF assms] by simp_all

lemma read_head_spec:
  fixes s :: "'a kstate_scheme"
  assumes q: "quiet s" and dev: "log_dev (klog s) = 1" and sz: "log_start (klog s) < disksize s"
    and room: "card (dirty_blocks s) < NBUF"
  obtains s' where "read_head s = Ok s'" "quiet s'"
    "same_store (upd_log (head_log (view s (log_start (klog s)))) s) s'"
proof -
  let ?h = "log_start (klog s)" and ?f = "head_log (view s (log_start (klog s)))"
  from bread_one [OF q sz room] obtain i s1 where r: "bread 1 ?h s = Ok (i, s1)" "bio_inv s1"
    "held s1 i ?h" "synced s1 i" "only_held s1 {i}" "same_store s s1" by metis
  note st = same_storeD [OF r(6)]
  note k = more_klog [OF st(7)]
  have d: "b_data (bufs s1 i) = view s ?h" using held_view [OF r(2,3)] st(1) by simp
  from brelse_last [of "upd_log ?f s1"] r(2-5)
  obtain s2 where e: "brelse i (upd_log ?f s1) = Ok s2" "quiet s2" "same_store (upd_log ?f s1) s2"
    by (metis klog_update_frame(1-3,6))
  have "read_head s = Ok s2"
    using r(1) e(1) by (simp add: read_head_def dev k d head_log_def Let_def cong: if_cong)
  moreover have "bio.more (upd_log ?f s1) = bio.more (upd_log ?f s)"
    using upd_log_more [OF st(7)] k by simp
  then have "same_store (upd_log ?f s) s2" using e(3) st by (simp add: same_store_def)
  ultimately show thesis using e(2) that by blast
qed

section \<open>Commit and recovery as sequences of writes\<close>

definition commit_writes :: "(u32 \<Rightarrow> bytes) \<Rightarrow> logrec \<Rightarrow> (u32 \<times> bytes) list" where
  "commit_writes v l =
     map (\<lambda>t. (log_block l t, v (lh_block l t))) [0..<nat (lh_n l)] @
     [(log_start l, header_image l (v (log_start l)))] @
     map (\<lambda>t. (lh_block l t, v (lh_block l t))) [0..<nat (lh_n l)] @
     [(log_start l, header_image (l\<lparr>lh_n := 0\<rparr>) (header_image l (v (log_start l))))]"

definition install_writes :: "(u32 \<Rightarrow> bytes) \<Rightarrow> logrec \<Rightarrow> (u32 \<times> bytes) list" where
  "install_writes v l =
     map (\<lambda>t. (lh_block l t, v (log_block l t))) [0..<nat (lh_n l)] @
     [(log_start l, header_image (l\<lparr>lh_n := 0\<rparr>) (v (log_start l)))]"

text \<open>\<open>install_trans\<close> followed by erasing the header, from a state with the header written.\<close>

lemma install_erase_spec:
  fixes s :: "'a kstate_scheme"
  assumes q: "quiet s" and lay: "layout_ok (disksize s) (klog s) n" and n: "n = nat (lh_n (klog s))"
    and room: "lh_block (klog s) ` {..<n} \<subseteq> dirty_blocks s \<or> card (dirty_blocks s) + 1 < NBUF"
      "card (dirty_blocks s) < NBUF"
  obtains s1 s' where "install_trans s = Ok s1" "write_head (upd_log (\<lambda>l. l\<lparr>lh_n := 0\<rparr>) s1) = Ok s'"
    "wrote_all (upd_log (\<lambda>l. l\<lparr>lh_n := 0\<rparr>) s) (install_writes (view s) (klog s)) s'"
proof -
  note L = layout_okD [OF lay]
  let ?l = "klog s" let ?ws = "map (\<lambda>t. (lh_block ?l t, view s (log_block ?l t))) [0..<n]"
  let ?u = "upd_log (\<lambda>l. l\<lparr>lh_n := 0\<rparr>)" let ?h = "log_start ?l"
  from install_from_spec [OF q lay, of 0 n] room obtain s1 where
    s1: "install_from 0 n s = Ok s1" "wrote_all s ?ws s1" by (auto simp: lessThan_atLeast0)
  note kl = wrote_all_klog [OF s1(2)]
  have w: "quiet s1" "view s1 = apply_writes ?ws (view s)" "dirty_blocks s1 \<subseteq> dirty_blocks s"
    "disksize s1 = disksize s" using s1(2) by (auto simp: wrote_all_def)
  have "finite (dirty_blocks s)" by (rule finite_subset [OF subset_UNIV]) simp
  from card_mono [OF this w(3)] room(2) have c: "card (dirty_blocks (?u s1)) < NBUF" by simp
  have "quiet (?u s1)" "log_dev (klog (?u s1)) = 1" "log_start (klog (?u s1)) < disksize (?u s1)"
    using w(1,4) L(1,2) kl by simp_all
  from write_head_spec [OF this c] obtain s' where s': "write_head (?u s1) = Ok s'"
    "wrote (?u s1) ?h (header_image (?l\<lparr>lh_n := 0\<rparr>) (view s1 ?h)) s'" using kl by auto
  have "?h \<notin> fst ` set ?ws" by (auto simp: not_sym [OF L(7)])
  from apply_writes_other [OF this] have "view s1 ?h = view s ?h" by (simp add: w(2))
  moreover have "bio.more (?u s1) = bio.more (?u s)"
    using s1(2) by (intro upd_log_more) (simp add: wrote_all_def)
  ultimately have "wrote_all (?u s) (install_writes (view s) ?l) s'"
    using s'(2) s1(2) n by (auto simp: wrote_all_def wrote_def install_writes_def)
  with s1(1) s'(1) n show thesis using that by (simp add: install_trans_def)
qed

lemma commit_spec:
  fixes s :: "'a kstate_scheme"
  assumes q: "quiet s" and lay: "layout_ok (disksize s) (klog s) n" and n: "n = nat (lh_n (klog s))"
    and pos: "0 < lh_n (klog s)" and dirty: "dirty_blocks s = lh_block (klog s) ` {..<n}"
  obtains s' where "commit s = Ok s'"
    "wrote_all (upd_log (\<lambda>l. l\<lparr>lh_n := 0\<rparr>) s) (commit_writes (view s) (klog s)) s'"
    "dirty_blocks s' = {}"
proof -
  note L = layout_okD [OF lay]
  let ?l = "klog s" let ?ws = "map (\<lambda>t. (log_block ?l t, view s (lh_block ?l t))) [0..<n]"
  let ?u = "upd_log (\<lambda>l. l\<lparr>lh_n := 0\<rparr>)" let ?h = "log_start ?l"
  have room: "card (dirty_blocks s) < NBUF"
    using dirty card_image_le [of "{..<n}" "lh_block ?l"] L(3) by simp
  from write_log_from_spec [OF q lay, of 0 n] room dirty obtain s1 where
    s1: "write_log_from 0 n s = Ok s1" "wrote_all s ?ws s1" by (auto simp: lessThan_atLeast0)
  note k1 = wrote_all_klog [OF s1(2)]
  have w: "quiet s1" "view s1 = apply_writes ?ws (view s)" "disksize s1 = disksize s"
    using s1(2) by (auto simp: wrote_all_def)
  have "dirty_blocks s \<inter> fst ` set ?ws = {}" using L(8) by (auto simp: dirty) metis
  then have d1: "dirty_blocks s1 = dirty_blocks s" using s1(2) by (auto simp: wrote_all_def)
  have "?h \<notin> fst ` set ?ws" using L(6) by auto
  from apply_writes_other [OF this] have vh: "view s1 ?h = view s ?h" by (simp add: w(2))
  let ?img = "header_image ?l (view s ?h)"
  from write_head_spec [of s1] w(1,3) L(1,2) k1 room d1 obtain s2 where
    s2: "write_head s1 = Ok s2" "wrote s1 ?h ?img s2" by (metis vh)
  note k2 = wrote_klog [OF s2(2)]
  have "?h \<notin> dirty_blocks s" by (auto simp: dirty not_sym [OF L(7)])
  then have w2: "quiet s2" "view s2 = (view s1)(?h := ?img)" "disksize s2 = disksize s"
    "dirty_blocks s2 = dirty_blocks s" using s2(2) w(3) d1 by (auto simp: wrote_def)
  have klog2: "klog s2 = ?l" using k1 k2 by simp
  from install_erase_spec [of s2 n] w2 lay n dirty room obtain s3 s' where
    s': "install_trans s2 = Ok s3" "write_head (?u s3) = Ok s'"
    "wrote_all (?u s2) (install_writes (view s2) ?l) s'" unfolding klog2 by auto
  have v2: "view s2 (log_block ?l t) = view s (lh_block ?l t)" if "t < n" for t
    using apply_writes_map [of "log_block ?l" "[0..<n]" t "\<lambda>t. view s (lh_block ?l t)"] L(6,10) that
    by (simp add: w2(2) w(2) lessThan_atLeast0)
  have iw: "commit_writes (view s) ?l = ?ws @ [(?h, ?img)] @ install_writes (view s2) ?l"
    using n v2 w2(2) by (auto simp: commit_writes_def install_writes_def)
  have "bio.more (?u s2) = bio.more (?u s)"
    using s1(2) s2(2) by (intro upd_log_more) (simp add: wrote_def wrote_all_def)
  then have all: "wrote_all (?u s) (commit_writes (view s) ?l) s'"
    using s'(3) s2(2) s1(2) unfolding iw by (auto simp: wrote_all_def wrote_def)
  moreover have "dirty_blocks s' = {}"
  proof -
    have "dirty_blocks s' = dirty_blocks s - fst ` set (commit_writes (view s) ?l)"
      using all by (simp add: wrote_all_def)
    moreover have "dirty_blocks s \<subseteq> fst ` set (commit_writes (view s) ?l)"
      using n by (force simp: dirty commit_writes_def image_iff)
    ultimately show ?thesis by blast
  qed
  moreover have "commit s = Ok s'"
    using pos s1(1) s2(1) s'(1,2) n by (simp add: commit_def write_log_def)
  ultimately show thesis using that by blast
qed

end
