(* ===== verification/Recovery.thy ===== *)
theory Recovery
  imports Log
begin

text \<open>
  Crash recovery of the log. The abstract specification is \<open>replay\<close>, a pure function from a disk
  to the disk its log stands for; \<open>initlog\<close> is shown to implement it, and every prefix of
  the writes of a commit (or of an interrupted recovery) is shown to leave \<open>replay\<close> at the old or
  at the new contents.
\<close>

section \<open>Abstract specification\<close>

definition log_area :: "u32 \<Rightarrow> int \<Rightarrow> u32 set" where
  "log_area h sz = {b. uint h \<le> uint b \<and> uint b < uint h + sz}"

text \<open>The header as found on disk.\<close>

definition disk_log :: "u32 \<Rightarrow> (u32 \<Rightarrow> bytes) \<Rightarrow> logrec" where
  "disk_log h d = \<lparr>log_start = h, log_size = 0, outstanding = 0, committing = False, log_dev = 1,
     lh_n = sint (get_u32 (d h) 0), lh_block = (\<lambda>i. get_u32 (d h) (i + 1))\<rparr>"

definition replay :: "u32 \<Rightarrow> (u32 \<Rightarrow> bytes) \<Rightarrow> u32 \<Rightarrow> bytes" where
  "replay h d b =
     (case List.find (\<lambda>t. lh_block (disk_log h d) t = b) [0..<nat (lh_n (disk_log h d))] of
        Some t \<Rightarrow> d (log_block (disk_log h d) t)
      | None \<Rightarrow> d b)"

text \<open>A disk whose log \<open>initlog\<close> can process.\<close>

definition disk_ok :: "u32 \<Rightarrow> int \<Rightarrow> u32 \<Rightarrow> (u32 \<Rightarrow> bytes) \<Rightarrow> bool" where
  "disk_ok dsz sz h d \<longleftrightarrow>
     sb_logstart (decode_sb (d 1)) = h \<and> sint (sb_nlog (decode_sb (d 1))) = sz \<and> 1 < dsz \<and> 1 \<notin> log_area h sz \<and> 0 < sz \<and>
     uint h + sz \<le> uint dsz \<and> sz \<le> int LOGSIZE \<and>
     0 \<le> lh_n (disk_log h d) \<and> lh_n (disk_log h d) < sz \<and>
     (\<forall>t<nat (lh_n (disk_log h d)). lh_block (disk_log h d) t < dsz \<and>
        lh_block (disk_log h d) t \<notin> insert 1 (log_area h sz)) \<and>
     inj_on (lh_block (disk_log h d)) {..<nat (lh_n (disk_log h d))}"

text \<open>
  The invariant of the log between operations: geometry, bounds and distinctness of the header,
  and that the blocks pinned in the cache are exactly those of the header.
\<close>

definition log_inv :: "'a kstate_scheme \<Rightarrow> bool" where
  "log_inv s \<longleftrightarrow> bio_inv s \<and> log_dev (klog s) = 1 \<and>
     disk_ok (disksize s) (log_size (klog s)) (log_start (klog s)) (disk s) \<and>
     lh_n (disk_log (log_start (klog s)) (disk s)) = 0 \<and>
     0 \<le> lh_n (klog s) \<and> lh_n (klog s) < log_size (klog s) \<and>
     (\<forall>t<nat (lh_n (klog s)). lh_block (klog s) t < disksize s \<and>
        lh_block (klog s) t \<notin> insert 1 (log_area (log_start (klog s)) (log_size (klog s)))) \<and>
     inj_on (lh_block (klog s)) {..<nat (lh_n (klog s))} \<and>
     dirty_blocks s = lh_block (klog s) ` {..<nat (lh_n (klog s))}"

section \<open>Geometry\<close>

lemma uint_log_block:
  assumes "uint (log_start l) + int t + 1 < 2 ^ 32"
  shows "uint (log_block l t) = uint (log_start l) + int t + 1"
proof -
  have w: "log_block l t = word_of_int (uint (log_start l) + int t + 1)" by simp
  have "0 \<le> uint (log_start l) + int t + 1" by simp
  with assms show ?thesis unfolding w by (simp only: unsigned_of_int) (simp add: take_bit_int_eq_self)
qed

lemma layoutI:
  assumes dev: "log_dev l = 1" and area: "uint (log_start l) + sz \<le> uint dsz" "sz \<le> int LOGSIZE"
    and n: "int n < sz" and home: "\<And>t. t < n \<Longrightarrow> lh_block l t < dsz"
      "\<And>t. t < n \<Longrightarrow> lh_block l t \<notin> log_area (log_start l) sz"
    and inj: "inj_on (lh_block l) {..<n}"
  shows "layout_ok dsz l n" and "\<And>t. t < n \<Longrightarrow> log_block l t \<in> log_area (log_start l) sz"
    and "log_start l \<in> log_area (log_start l) sz"
proof -
  have max: "uint dsz < 2 ^ 32" using uint_lt2p [of dsz] by simp
  have u: "uint (log_block l t) = uint (log_start l) + int t + 1" if "t < n" for t
    using uint_log_block [of l t] that area n max by linarith
  show in_area: "log_block l t \<in> log_area (log_start l) sz" if "t < n" for t
    using u [OF that] that n by (simp add: log_area_def)
  show h: "log_start l \<in> log_area (log_start l) sz" using n by (simp add: log_area_def)
  show "layout_ok dsz l n"
    unfolding layout_ok_def
  proof (intro conjI allI impI)
    show "log_start l < dsz" using area n by (simp add: word_less_def)
    have "int LOGSIZE = int NBUF" by (simp add: layout_simps)
    with area(2) n show "n < NBUF" by linarith
    show "inj_on (log_block l) {..<n}"
    proof (rule inj_onI)
      fix t t' assume t: "t \<in> {..<n}" "t' \<in> {..<n}" and "log_block l t = log_block l t'"
      then have "uint (log_block l t) = uint (log_block l t')" by (metis (no_types))
      with u t show "t = t'" by (metis add_right_cancel add_left_cancel lessThan_iff of_nat_eq_iff)
    qed
    fix t assume t: "t < n"
    show "log_block l t < dsz" unfolding word_less_def using u [OF t] t area(1) n by linarith
    show "log_block l t \<noteq> log_start l"
    proof
      assume "log_block l t = log_start l"
      then have "uint (log_block l t) = uint (log_start l)" by (rule arg_cong)
      with u [OF t] show False by linarith
    qed
    show "lh_block l t \<noteq> log_start l" using home(2) [OF t] h by metis
    fix u assume "u < n"
    then show "log_block l t \<noteq> lh_block l u" using in_area [OF t] home(2) by metis
  qed (use dev home inj in auto)
qed

section \<open>Recovery implements the specification\<close>

lemma layout_ok_cong:
  assumes "log_start l' = log_start l" "log_dev l' = log_dev l" "\<And>t. t < n \<Longrightarrow> lh_block l' t = lh_block l t"
  shows "layout_ok dsz l' n = layout_ok dsz l n"
  using assms by (simp add: layout_ok_def inj_on_def)

lemma disk_okD:
  assumes "disk_ok dsz sz h d"
  shows "layout_ok dsz (disk_log h d) (nat (lh_n (disk_log h d)))"
    and "\<And>t. t < nat (lh_n (disk_log h d)) \<Longrightarrow> log_block (disk_log h d) t \<in> log_area h sz"
    and "h \<in> log_area h sz"
proof -
  have "int (nat (lh_n (disk_log h d))) < sz" using assms by (auto simp: disk_ok_def)
  with assms layoutI [of "disk_log h d" sz dsz "nat (lh_n (disk_log h d))"]
  show "layout_ok dsz (disk_log h d) (nat (lh_n (disk_log h d)))"
    and "\<And>t. t < nat (lh_n (disk_log h d)) \<Longrightarrow> log_block (disk_log h d) t \<in> log_area h sz"
    and "h \<in> log_area h sz"
    by (auto simp: disk_ok_def disk_log_def)
qed

lemma install_writes_cong:
  assumes "log_start l' = log_start l" "lh_n l' = lh_n l" "\<And>t. t < nat (lh_n l) \<Longrightarrow> lh_block l' t = lh_block l t"
  shows "install_writes v l' = install_writes v l"
  using assms by (auto simp: install_writes_def header_image_def)

lemma recover_spec:
  fixes s :: "'a kstate_scheme"
  assumes q: "quiet s" and dev: "log_dev (klog s) = 1" and clean: "dirty_blocks s = {}"
    and ok: "disk_ok (disksize s) sz (log_start (klog s)) (disk s)"
  obtains s' where "recover_from_log s = Ok s'" "quiet s'" "lh_n (klog s') = 0"
    "log_start (klog s') = log_start (klog s)" "log_size (klog s') = log_size (klog s)"
    "log_dev (klog s') = 1" "dirty_blocks s' = {}" "disksize s' = disksize s"
    "disk s' = apply_writes (install_writes (disk s) (disk_log (log_start (klog s)) (disk s))) (disk s)"
    "trace s' = trace s @ install_writes (disk s) (disk_log (log_start (klog s)) (disk s))"
proof -
  let ?h = "log_start (klog s)" let ?dl = "disk_log ?h (disk s)" let ?u = "upd_log (\<lambda>l. l\<lparr>lh_n := 0\<rparr>)"
  note L = disk_okD(1) [OF ok]
  have v: "view s = disk s" using quiet_view_clean [OF q] clean by (simp add: fun_eq_iff)
  have "?h < disksize s" using layout_okD(2) [OF L] by (simp add: disk_log_def)
  from read_head_spec [OF q dev this] clean obtain s1 where
    s1: "read_head s = Ok s1" "quiet s1" "same_store (upd_log (head_log (disk s ?h)) s) s1"
    using v by (auto simp: layout_simps)
  note st = same_store_klog [OF s1(3)]
  let ?l = "klog s1"
  have l: "log_start ?l = log_start ?dl" "log_dev ?l = log_dev ?dl" "lh_n ?l = lh_n ?dl"
    "\<And>t. t < nat (lh_n ?dl) \<Longrightarrow> lh_block ?l t = lh_block ?dl t"
    using dev by (simp_all add: st(1) head_log_def disk_log_def)
  have "layout_ok (disksize s1) ?l (nat (lh_n ?l))"
    using L layout_ok_cong [OF l(1,2,4), of "nat (lh_n ?dl)" "disksize s"] l(3) st(7) by simp
  from install_erase_spec [OF s1(2) this refl] st(6) clean obtain s2 s' where
    s': "install_trans s1 = Ok s2" "write_head (?u s2) = Ok s'"
    "wrote_all (?u s1) (install_writes (view s1) ?l) s'" by (auto simp: layout_simps)
  have iw: "install_writes (view s1) ?l = install_writes (disk s) ?dl"
    using install_writes_cong [OF l(1,3,4)] st(3) v by simp
  note w = s'(3) [unfolded iw wrote_all_def]
  have kl: "klog s' = (klog s1)\<lparr>lh_n := 0\<rparr>" using wrote_all_klog(1) [OF s'(3)] by simp
  have start: "log_start (klog s1) = ?h" "log_dev (klog s1) = 1" "log_size (klog s1) = log_size (klog s)"
    using dev by (simp_all add: st(1) head_log_def)
  have "recover_from_log s = Ok s'" using s1(1) s'(1,2) by (simp add: recover_from_log_def)
  moreover have "quiet s'" using w by blast
  moreover have "lh_n (klog s') = 0" "log_start (klog s') = ?h" "log_dev (klog s') = 1"
    "log_size (klog s') = log_size (klog s)" by (simp_all add: kl start)
  moreover have "dirty_blocks s' = {}" using w st(6) clean by simp
  moreover have "disksize s' = disksize s" "disk s' = apply_writes (install_writes (disk s) ?dl) (disk s)"
    "trace s' = trace s @ install_writes (disk s) ?dl" using w st(4,5,7) by simp_all
  ultimately show thesis using that by blast
qed

lemma replay_writes:
  assumes ok: "disk_ok dsz sz h d" and b: "b \<notin> log_area h sz"
  shows "apply_writes (install_writes d (disk_log h d)) d b = replay h d b"
proof -
  let ?l = "disk_log h d" let ?n = "nat (lh_n ?l)"
  let ?ws = "map (\<lambda>t. (lh_block ?l t, d (log_block ?l t))) [0..<?n]"
  have h: "log_start ?l = h" by (simp add: disk_log_def)
  have bh: "b \<noteq> h" using b disk_okD(3) [OF ok] by auto
  have inj: "inj_on (lh_block ?l) {..<?n}"
    using ok by (simp_all add: disk_ok_def)
  have e: "apply_writes (install_writes d ?l) d b = apply_writes ?ws d b"
    using bh by (simp add: install_writes_def h)
  show ?thesis
  proof (cases "List.find (\<lambda>t. lh_block ?l t = b) [0..<?n]")
    case None
    then have "b \<notin> fst ` set ?ws" by (auto simp: find_None_iff)
    from apply_writes_other [OF this] e None show ?thesis by (simp add: replay_def)
  next
    case (Some t)
    then have t: "t < ?n" "lh_block ?l t = b" by (auto simp: find_Some_iff)
    have "apply_writes ?ws d (lh_block ?l t) = d (log_block ?l t)"
      using inj t(1) by (intro apply_writes_map) (auto simp: lessThan_atLeast0)
    with e Some t(2) show ?thesis by (simp add: replay_def)
  qed
qed

lemma disk_log_simps [simp]:
  "log_start (disk_log h d) = h" "log_dev (disk_log h d) = 1"
  "lh_n (disk_log h d) = sint (get_u32 (d h) 0)" "lh_block (disk_log h d) t = get_u32 (d h) (t + 1)"
  by (simp_all add: disk_log_def)

lemma binit_fields [simp]:
  "disk (binit s) = disk s" "disksize (binit s) = disksize s" "trace (binit s) = trace s"
  "bio.more (binit s) = bio.more s"
  by (simp_all add: binit_def)

lemma disk_ok_header:
  assumes "disk_ok dsz sz h d" and "d' 1 = d 1" and "get_u32 (d' h) 0 = 0"
  shows "disk_ok dsz sz h d'"
  using assms by (simp add: disk_ok_def)

lemma replay_empty: "get_u32 (d h) 0 = 0 \<Longrightarrow> replay h d = d"
  by (simp add: replay_def fun_eq_iff)

lemma install_writes_final:
  assumes ok: "disk_ok dsz sz h d"
  defines "d' \<equiv> apply_writes (install_writes d (disk_log h d)) d"
  shows "disk_ok dsz sz h d'" and "get_u32 (d' h) 0 = 0" and "d' 1 = d 1"
proof -
  let ?l = "disk_log h d" let ?n = "nat (lh_n ?l)"
  let ?ws = "map (\<lambda>t. (lh_block ?l t, d (log_block ?l t))) [0..<?n]"
  have d': "d' = (apply_writes ?ws d)(h := header_image (?l\<lparr>lh_n := 0\<rparr>) (d h))"
    by (simp add: d'_def install_writes_def)
  show z: "get_u32 (d' h) 0 = 0"
    using header_image_words(1) [of "?l\<lparr>lh_n := 0\<rparr>" "d h"] by (simp add: d')
  have h1: "h \<noteq> 1" using ok disk_okD(3) [OF ok] by (auto simp: disk_ok_def)
  have "1 \<notin> fst ` set ?ws" using ok by (auto simp: disk_ok_def)
  from apply_writes_other [OF this] show one: "d' 1 = d 1" using h1 by (simp add: d')
  show "disk_ok dsz sz h d'"
    using disk_ok_header [OF ok one z] .
qed

text \<open>
  After a reboot on any disk with a well-formed log, \<open>initlog\<close> returns, the blocks outside the log
  are those of the specification, and the log is empty.
\<close>

lemma initlog_spec:
  fixes r :: "'a kstate_scheme"
  assumes ok: "disk_ok (disksize r) sz h (disk r)"
  obtains s' where "initlog 1 (binit r) = Ok s'" "quiet s'" "log_inv s'"
    "log_start (klog s') = h" "log_size (klog s') = sz" "lh_n (klog s') = 0" "disksize s' = disksize r"
    "trace s' = trace r @ install_writes (disk r) (disk_log h (disk r))"
    "\<And>b. b \<notin> log_area h sz \<Longrightarrow> view s' b = replay h (disk r) b"
proof -
  let ?d = "disk r" let ?w = "install_writes ?d (disk_log h ?d)"
  have q0: "quiet (binit r)" by (simp add: quiet_def bio_inv_binit only_held_binit)
  have c0: "dirty_blocks (binit r) = {}" by (rule dirty_blocks_binit)
  have v0: "view (binit r) = ?d" using quiet_view_clean [OF q0] c0 by (simp add: fun_eq_iff)
  have sz: "1 < disksize (binit r)"
    using ok by (simp_all add: disk_ok_def)
  from readsb_spec [OF q0 sz] c0 obtain s1 where
    s1: "readsb 1 (binit r) = Ok (decode_sb (?d 1), s1)" "quiet s1" "same_store (binit r) s1"
    using v0 by (auto simp: layout_simps)
  note st = same_storeD [OF s1(3)]
  let ?s2 = "upd_log (\<lambda>l. l\<lparr>log_start := h, log_size := sz, log_dev := 1\<rparr>) s1"
  have hd: "sb_logstart (decode_sb (?d 1)) = h" "sint (sb_nlog (decode_sb (?d 1))) = sz"
    using ok by (simp_all add: disk_ok_def)
  have "quiet ?s2" "log_dev (klog ?s2) = 1" "dirty_blocks ?s2 = {}"
    "disk_ok (disksize ?s2) sz (log_start (klog ?s2)) (disk ?s2)"
    using s1(2) st c0 ok by simp_all
  from recover_spec [OF this] obtain s' where s': "recover_from_log ?s2 = Ok s'" "quiet s'"
    "lh_n (klog s') = 0" "log_start (klog s') = h" "log_size (klog s') = sz" "log_dev (klog s') = 1"
    "dirty_blocks s' = {}" "disksize s' = disksize r" "disk s' = apply_writes ?w ?d"
    "trace s' = trace r @ ?w" using st by auto
  have "\<not> BSIZE \<le> 4 + 4 * LOGSIZE" by (simp add: layout_simps)
  then have "initlog 1 (binit r) = Ok s'"
    using s1(1) s'(1) hd by (simp add: initlog_def)
  moreover have "log_inv s'"
    using s' install_writes_final(1,2) [OF ok] ok quietD(1) [OF s'(2)]
    by (simp add: log_inv_def disk_ok_def)
  moreover have "view s' b = replay h ?d b" if "b \<notin> log_area h sz" for b
    using quiet_view_clean [OF s'(2)] s'(7,9) replay_writes [OF ok that] by simp
  ultimately show thesis using that s' by blast
qed

lemma notin_image_upt: "(\<And>t. t < k \<Longrightarrow> b \<noteq> f t) \<Longrightarrow> b \<notin> f ` {0..<k::nat}"
  by (metis atLeastLessThan_iff imageE)

section \<open>Atomicity of commit\<close>

lemma log_invD:
  assumes "log_inv s"
  shows "bio_inv s" "log_dev (klog s) = 1"
    "disk_ok (disksize s) (log_size (klog s)) (log_start (klog s)) (disk s)"
    "get_u32 (disk s (log_start (klog s))) 0 = 0"
    "0 \<le> lh_n (klog s)" "lh_n (klog s) < log_size (klog s)" "lh_n (klog s) < 30"
    "\<And>t. t < nat (lh_n (klog s)) \<Longrightarrow> lh_block (klog s) t < disksize s"
    "\<And>t. t < nat (lh_n (klog s)) \<Longrightarrow>
       lh_block (klog s) t \<notin> insert 1 (log_area (log_start (klog s)) (log_size (klog s)))"
    "inj_on (lh_block (klog s)) {..<nat (lh_n (klog s))}"
    "dirty_blocks s = lh_block (klog s) ` {..<nat (lh_n (klog s))}"
  using assms by (auto simp: log_inv_def disk_ok_def layout_simps signed_eq_0_iff)

lemma log_inv_layout:
  assumes "log_inv s"
  shows "layout_ok (disksize s) (klog s) (nat (lh_n (klog s)))"
    and "\<And>t. t < nat (lh_n (klog s)) \<Longrightarrow>
      log_block (klog s) t \<in> log_area (log_start (klog s)) (log_size (klog s))"
    and "log_start (klog s) \<in> log_area (log_start (klog s)) (log_size (klog s))"
proof -
  note I = log_invD [OF assms]
  have g: "uint (log_start (klog s)) + log_size (klog s) \<le> uint (disksize s)"
    "log_size (klog s) \<le> int LOGSIZE" using I(3) by (simp_all add: disk_ok_def)
  have n: "int (nat (lh_n (klog s))) < log_size (klog s)" using I(5,6) by simp
  have home: "\<And>t. t < nat (lh_n (klog s)) \<Longrightarrow>
      lh_block (klog s) t \<notin> log_area (log_start (klog s)) (log_size (klog s))" using I(9) by simp
  note lay = layoutI [OF I(2) g n I(8) home I(10)]
  show "layout_ok (disksize s) (klog s) (nat (lh_n (klog s)))" by (rule lay(1))
  show "\<And>t. t < nat (lh_n (klog s)) \<Longrightarrow>
      log_block (klog s) t \<in> log_area (log_start (klog s)) (log_size (klog s))" by (rule lay(2))
  show "log_start (klog s) \<in> log_area (log_start (klog s)) (log_size (klog s))" by (rule lay(3))
qed

text \<open>
  The disk after a prefix of the commit's writes, in its three phases: logging, installing, erased.
\<close>

lemma crash_logging:
  assumes "log_inv s" and k: "k \<le> nat (lh_n (klog s))"
    and b: "b = log_start (klog s) \<or> b \<notin> log_area (log_start (klog s)) (log_size (klog s))"
  shows "apply_writes (take k (commit_writes v (klog s))) d b = d b"
proof (rule apply_writes_other)
  note lay = log_inv_layout [OF assms(1)]
  have "take k (commit_writes v (klog s)) =
      map (\<lambda>t. (log_block (klog s) t, v (lh_block (klog s) t))) [0..<k]"
    using k by (simp add: commit_writes_def take_map)
  then have "fst ` set (take k (commit_writes v (klog s))) = log_block (klog s) ` {0..<k}" by force
  moreover have "b \<noteq> log_block (klog s) t" if "t < k" for t
    using b lay(2) [of t] layout_okD(6) [OF lay(1), of t] that k by (metis order_less_le_trans)
  then have "b \<notin> log_block (klog s) ` {0..<k}" by (rule notin_image_upt)
  ultimately show "b \<notin> fst ` set (take k (commit_writes v (klog s)))" by metis
qed

lemma crash_installing:
  fixes s :: "'a kstate_scheme" and v d :: "u32 \<Rightarrow> bytes"
  assumes "log_inv s" and k: "nat (lh_n (klog s)) < k" "k < 2 * nat (lh_n (klog s)) + 2"
  defines "D \<equiv> apply_writes (take k (commit_writes v (klog s))) d"
  shows "D (log_start (klog s)) = header_image (klog s) (v (log_start (klog s)))"
    and "t < nat (lh_n (klog s)) \<Longrightarrow> D (log_block (klog s) t) = v (lh_block (klog s) t)"
    and "b \<notin> log_area (log_start (klog s)) (log_size (klog s)) \<Longrightarrow>
      b \<notin> lh_block (klog s) ` {..<nat (lh_n (klog s))} \<Longrightarrow> D b = d b"
proof -
  note lay = log_inv_layout [OF assms(1)] note L = layout_okD [OF lay(1)]
  let ?l = "klog s" let ?n = "nat (lh_n ?l)" let ?h = "log_start ?l"
  let ?A = "map (\<lambda>t. (log_block ?l t, v (lh_block ?l t))) [0..<?n]"
  let ?C = "map (\<lambda>t. (lh_block ?l t, v (lh_block ?l t))) [0..<k - ?n - 1]"
  let ?d1 = "(apply_writes ?A d)(?h := header_image ?l (v ?h))"
  have "take k (commit_writes v ?l) = ?A @ [(?h, header_image ?l (v ?h))] @ ?C"
    using k by (simp add: commit_writes_def take_map take_Cons' take_upt)
  then have D: "D = apply_writes ?C ?d1" by (simp add: D_def)
  have fstC: "fst ` set ?C = lh_block ?l ` {0..<k - ?n - 1}" by force
  have sub: "t < ?n" if "t \<in> {0..<k - ?n - 1}" for t using that k by simp
  have hC: "?h \<notin> fst ` set ?C" unfolding fstC
    by (rule notin_image_upt) (use L(7) [THEN not_sym] sub in simp)
  show "D ?h = header_image ?l (v ?h)" using apply_writes_other [OF hC] by (simp add: D)
  show "D (log_block ?l t) = v (lh_block ?l t)" if t: "t < ?n"
  proof -
    have "log_block ?l t \<notin> fst ` set ?C" unfolding fstC
      by (rule notin_image_upt, rule L(8) [OF t]) (use sub in simp)
    from apply_writes_other [OF this] have "D (log_block ?l t) = ?d1 (log_block ?l t)" by (simp add: D)
    also have "\<dots> = apply_writes ?A d (log_block ?l t)" using L(6) [OF t] by simp
    also have "\<dots> = v (lh_block ?l t)"
      using L(10) t by (intro apply_writes_map) (auto simp: lessThan_atLeast0)
    finally show ?thesis .
  qed
  show "D b = d b" if b: "b \<notin> log_area ?h (log_size ?l)" "b \<notin> lh_block ?l ` {..<?n}"
  proof -
    have "b \<notin> fst ` set ?C" unfolding fstC using b(2) sub by auto
    from apply_writes_other [OF this] have "D b = ?d1 b" by (simp add: D)
    have bh: "b \<noteq> ?h" using b(1) lay(3) by metis
    have "fst ` set ?A = log_block ?l ` {0..<?n}" by force
    moreover have "b \<noteq> log_block ?l t" if "t < ?n" for t using b(1) lay(2) [OF that] by metis
    then have "b \<notin> log_block ?l ` {0..<?n}" by (rule notin_image_upt)
    ultimately have "b \<notin> fst ` set ?A" by metis
    from apply_writes_other [OF this, of d] \<open>D b = ?d1 b\<close> bh show ?thesis by simp
  qed
qed

lemma crash_done:
  fixes s :: "'a kstate_scheme" and v d :: "u32 \<Rightarrow> bytes"
  assumes "log_inv s"
  defines "D \<equiv> apply_writes (commit_writes v (klog s)) d"
  shows "get_u32 (D (log_start (klog s))) 0 = 0"
    and "b \<notin> log_area (log_start (klog s)) (log_size (klog s)) \<Longrightarrow>
      D b = (if b \<in> lh_block (klog s) ` {..<nat (lh_n (klog s))} then v b else d b)"
proof -
  note lay = log_inv_layout [OF assms(1)] note L = layout_okD [OF lay(1)]
  let ?l = "klog s" let ?n = "nat (lh_n ?l)" let ?h = "log_start ?l"
  let ?C = "map (\<lambda>t. (lh_block ?l t, v (lh_block ?l t))) [0..<?n]"
  let ?x = "header_image (?l\<lparr>lh_n := 0\<rparr>) (header_image ?l (v ?h))"
  have len: "length (commit_writes v ?l) = 2 * ?n + 2" by (simp add: commit_writes_def)
  have split: "commit_writes v ?l = take (?n + 1) (commit_writes v ?l) @ ?C @ [(?h, ?x)]"
    by (simp add: commit_writes_def)
  let ?d1 = "apply_writes (take (?n + 1) (commit_writes v ?l)) d"
  have D: "D = (apply_writes ?C ?d1)(?h := ?x)" unfolding D_def by (subst split) simp
  show "get_u32 (D ?h) 0 = 0" using header_image_words(1) [of "?l\<lparr>lh_n := 0\<rparr>"] by (simp add: D)
  assume b: "b \<notin> log_area ?h (log_size ?l)"
  then have "b \<noteq> ?h" using lay(3) by metis
  then have e: "D b = apply_writes ?C ?d1 b" by (simp add: D)
  show "D b = (if b \<in> lh_block ?l ` {..<?n} then v b else d b)"
  proof (cases "b \<in> lh_block ?l ` {..<?n}")
    case True
    then obtain t where t: "t < ?n" "b = lh_block ?l t" by auto
    have "apply_writes ?C ?d1 (lh_block ?l t) = v (lh_block ?l t)"
      using L(9) t(1) by (intro apply_writes_map) (auto simp: lessThan_atLeast0)
    with e t True show ?thesis by simp
  next
    case False
    then have "b \<notin> fst ` set ?C" by auto
    from apply_writes_other [OF this] e have "D b = ?d1 b" by simp
    also have "?d1 b = d b" using crash_installing(3) [OF assms(1) _ _ b False, of "?n + 1" v d] by simp
    finally show ?thesis using False by simp
  qed
qed

lemma crash_disk:
  fixes s :: "'a kstate_scheme"
  defines "h \<equiv> log_start (klog s)" and "sz \<equiv> log_size (klog s)"
  assumes I: "log_inv s" and q: "quiet s"
  defines "D \<equiv> \<lambda>k. apply_writes (take k (commit_writes (view s) (klog s))) (disk s)"
  shows "disk_ok (disksize s) sz h (D k)" and "D k 1 = disk s 1"
    and "b \<notin> log_area h sz \<Longrightarrow> replay h (D k) b = (if k \<le> nat (lh_n (klog s)) then disk s b else view s b)"
proof -
  note J = log_invD [OF I, folded h_def sz_def] note lay = log_inv_layout [OF I]
  let ?l = "klog s" let ?n = "nat (lh_n ?l)" let ?home = "lh_block ?l ` {..<?n}"
  have one: "1 \<notin> log_area h sz" "1 \<notin> ?home" using J(3,9) by (auto simp: disk_ok_def)
  have clean: "view s b = disk s b" if "b \<notin> ?home" for b
    using quiet_view_clean [OF q] that J(11) by simp
  have Dk: "apply_writes (take k (commit_writes (view s) ?l)) (disk s) = D k" by (simp add: D_def)
  consider (log) "k \<le> ?n" | (inst) "?n < k" "k < 2 * ?n + 2" | (fin) "2 * ?n + 2 \<le> k" by linarith
  then have "disk_ok (disksize s) sz h (D k) \<and> D k 1 = disk s 1 \<and>
    (b \<notin> log_area h sz \<longrightarrow> replay h (D k) b = (if k \<le> ?n then disk s b else view s b))"
  proof cases
    case log
    note c = crash_logging [OF I log, folded h_def sz_def, of _ "view s" "disk s", unfolded Dk]
    have "get_u32 (D k h) 0 = 0" using c [of h] J(4) by simp
    with disk_ok_header [OF J(3), of "D k"] replay_empty [of "D k" h] c [of 1] c [of b] one log
    show ?thesis by simp
  next
    case inst
    note c = crash_installing [where v = "view s" and d = "disk s", OF I inst, folded h_def sz_def, unfolded Dk]
    have hd: "lh_n (disk_log h (D k)) = lh_n ?l" "\<And>t. t < ?n \<Longrightarrow> lh_block (disk_log h (D k)) t = lh_block ?l t"
      using header_image_words [where d = "view s h", OF J(5)] J(5,7) c(1) sint_small [of "lh_n ?l"] by simp_all
    have D1: "D k 1 = disk s 1" using c(3) [OF one] .
    have ok: "disk_ok (disksize s) sz h (D k)"
      unfolding disk_ok_def hd(1)
      using hd(2) J(3,5,6) J(8,9,10) D1 by (simp add: disk_ok_def inj_on_def del: disk_log_simps)
    have "replay h (D k) b = view s b" if b: "b \<notin> log_area h sz"
    proof (cases "List.find (\<lambda>t. lh_block (disk_log h (D k)) t = b) [0..<?n]")
      case None
      then have nb: "b \<notin> ?home" using hd(2) by (auto simp: find_None_iff)
      then show ?thesis using None c(3) [OF b nb] clean [OF nb] by (simp add: replay_def hd(1) del: disk_log_simps)
    next
      case (Some t)
      then have "t < ?n" "lh_block (disk_log h (D k)) t = b" by (auto simp: find_Some_iff)
      then have t: "t < ?n" "lh_block ?l t = b" using hd(2) by auto
      have "replay h (D k) b = D k (log_block ?l t)"
        using Some by (simp add: replay_def hd(1) disk_log_simps(1) h_def [symmetric] del: disk_log_simps(2-4))
      with c(2) [OF t(1)] t(2) show ?thesis by (simp add: h_def)
    qed
    with ok D1 inst show ?thesis by simp
  next
    case fin
    then have "D k = apply_writes (commit_writes (view s) ?l) (disk s)"
      by (simp add: D_def commit_writes_def)
    note c = crash_done [where v = "view s" and d = "disk s", OF I, folded this h_def sz_def]
    have D1: "D k 1 = disk s 1" using c(2) [OF one(1)] one(2) by simp
    with disk_ok_header [OF J(3), of "D k"] replay_empty [of "D k" h] c(1) c(2) [of b] clean [of b] fin
    show ?thesis by auto
  qed
  then show "disk_ok (disksize s) sz h (D k)" "D k 1 = disk s 1"
    "b \<notin> log_area h sz \<Longrightarrow> replay h (D k) b = (if k \<le> ?n then disk s b else view s b)" by auto
qed

lemma install_prefix:
  fixes d :: "u32 \<Rightarrow> bytes"
  assumes ok: "disk_ok dsz sz h d"
  defines "D \<equiv> \<lambda>k. apply_writes (take k (install_writes d (disk_log h d))) d"
  shows "disk_ok dsz sz h (D k)" and "b \<notin> log_area h sz \<Longrightarrow> replay h (D k) b = replay h d b"
proof -
  let ?l = "disk_log h d" let ?n = "nat (lh_n ?l)"
  note L = layout_okD [OF disk_okD(1) [OF ok]]
  have home: "\<And>t. t < ?n \<Longrightarrow> lh_block ?l t \<notin> insert 1 (log_area h sz)"
    using ok by (simp add: disk_ok_def)
  have "disk_ok dsz sz h (D k) \<and> (b \<notin> log_area h sz \<longrightarrow> replay h (D k) b = replay h d b)"
  proof (cases "k \<le> ?n")
    case True
    let ?ws = "map (\<lambda>t. (lh_block ?l t, d (log_block ?l t))) [0..<k]"
    have "take k (install_writes d ?l) = ?ws" using True by (simp add: install_writes_def take_map)
    then have Dk: "D k = apply_writes ?ws d" by (simp add: D_def)
    have "fst ` set ?ws = lh_block ?l ` {0..<k}" by force
    then have keep: "D k c = d c" if "\<And>t. t < ?n \<Longrightarrow> c \<noteq> lh_block ?l t" for c
      using apply_writes_other [of c ?ws d] notin_image_upt [of k c "lh_block ?l"] that True
      by (metis Dk order_less_le_trans)
    have h: "D k h = d h" by (rule keep) (use L(7) [THEN not_sym] in simp)
    have one: "D k 1 = d 1" by (rule keep) (use home in force)
    have dl: "disk_log h (D k) = ?l" by (simp add: disk_log_def h)
    have lb: "D k (log_block ?l t) = d (log_block ?l t)" if "t < ?n" for t
      by (rule keep) (rule L(8) [OF that])
    have "replay h (D k) b = replay h d b"
    proof (cases "List.find (\<lambda>t. lh_block ?l t = b) [0..<?n]")
      case None
      then have "D k b = d b" by (intro keep) (auto simp: find_None_iff)
      with None show ?thesis by (simp add: replay_def dl del: disk_log_simps)
    next
      case (Some t)
      then have "t < ?n" by (auto simp: find_Some_iff)
      with Some lb show ?thesis by (simp add: replay_def dl del: disk_log_simps)
    qed
    moreover have "disk_ok dsz sz h (D k)" using ok by (simp add: disk_ok_def dl one del: disk_log_simps)
    ultimately show ?thesis by blast
  next
    case False
    then have "D k = apply_writes (install_writes d ?l) d" by (simp add: D_def install_writes_def)
    note f = install_writes_final [OF ok, folded this] replay_writes [OF ok, folded this]
    show ?thesis using f(1,4) replay_empty [of "D k" h] f(2) by simp
  qed
  then show "disk_ok dsz sz h (D k)" "b \<notin> log_area h sz \<Longrightarrow> replay h (D k) b = replay h d b" by auto
qed

section \<open>Logging a block\<close>

definition log_slot :: "logrec \<Rightarrow> u32 \<Rightarrow> nat" where
  "log_slot l b = (case List.find (\<lambda>i. lh_block l i = b) [0..<nat (lh_n l)] of
     Some i \<Rightarrow> i | None \<Rightarrow> nat (lh_n l))"

definition log_add :: "u32 \<Rightarrow> logrec \<Rightarrow> logrec" where
  "log_add b l = (if log_slot l b = nat (lh_n l)
     then l\<lparr>lh_block := (lh_block l)(nat (lh_n l) := b), lh_n := lh_n l + 1\<rparr> else l)"

lemma log_slot_cases:
  obtains (absorb) "log_slot l b < nat (lh_n l)" "lh_block l (log_slot l b) = b"
  | (new) "log_slot l b = nat (lh_n l)" "b \<notin> lh_block l ` {..<nat (lh_n l)}"
proof (cases "List.find (\<lambda>i. lh_block l i = b) [0..<nat (lh_n l)]")
  case None
  then have "log_slot l b = nat (lh_n l)" by (simp add: log_slot_def)
  moreover have "b \<notin> lh_block l ` {..<nat (lh_n l)}" using None by (auto simp: find_None_iff)
  ultimately show ?thesis by (rule new)
next
  case (Some i)
  then have "log_slot l b = i" by (simp add: log_slot_def)
  moreover have "i < nat (lh_n l)" "lh_block l i = b" using Some by (auto simp: find_Some_iff)
  ultimately show ?thesis by (intro absorb) simp_all
qed

lemma log_write_Ok:
  "log_write i s = Ok s' \<longleftrightarrow>
     lh_n (klog s) < int LOGSIZE \<and> lh_n (klog s) < log_size (klog s) - 1 \<and> 1 \<le> outstanding (klog s) \<and>
     s' = upd_buf i (\<lambda>x. x\<lparr>b_flags := b_flags x OR B_DIRTY\<rparr>) (upd_log (log_add (b_blockno (bufs s i))) s)"
proof -
  let ?b = "b_blockno (bufs s i)" let ?l = "klog s"
  have eq: "(let l = ?l\<lparr>lh_block := (lh_block ?l)(log_slot ?l ?b := ?b)\<rparr>
       in if log_slot ?l ?b = nat (lh_n l) then l\<lparr>lh_n := lh_n l + 1\<rparr> else l) = log_add ?b ?l"
    by (rule log_slot_cases [of ?l ?b]) (auto simp: log_add_def Let_def fun_upd_idem)
  show ?thesis unfolding eq [symmetric] log_write_def log_slot_def [symmetric] Let_def by auto
qed

lemma dirty_blocks_insert:
  assumes "i < NBUF"
    "\<And>j x. j < NBUF \<Longrightarrow> dirty_at (bufs t j) x = (dirty_at (bufs s j) x \<or> j = i \<and> x = b)"
  shows "dirty_blocks t = insert b (dirty_blocks s)"
  using assms by (auto simp: dirty_blocks_def)

lemma log_write_bio:
  assumes inv: "bio_inv s" and h: "held s i b" and ok: "log_write i s = Ok s'"
  shows "bio_inv s'" "held s' i b" "synced s' i" "view s' = view s"
    "dirty_blocks s' = insert b (dirty_blocks s)" "disk s' = disk s" "trace s' = trace s"
    "disksize s' = disksize s" "mypid s' = mypid s" "klog s' = log_add b (klog s)"
    "kstate.more s' = kstate.more s" "\<And>j. j \<noteq> i \<Longrightarrow> bufs s' j = bufs s j"
    "b_lock (bufs s' i) = b_lock (bufs s i)" "b_refcnt (bufs s' i) = b_refcnt (bufs s i)"
    "b_data (bufs s' i) = b_data (bufs s i)"
proof -
  note hf = held_facts [OF h]
  let ?f = "\<lambda>x. x\<lparr>b_flags := b_flags x OR B_DIRTY\<rparr>"
  let ?s = "upd_log (log_add b) s"
  have s': "s' = upd_buf i ?f ?s" using ok hf(3) by (simp add: log_write_Ok)
  have f: "b_dev (?f (bufs ?s i)) = 1" "b_blockno (?f (bufs ?s i)) = b" "is_valid (?f (bufs ?s i))"
    "b_lock (?f (bufs ?s i)) = b_lock (bufs ?s i)" "b_refcnt (?f (bufs ?s i)) = b_refcnt (bufs ?s i)"
    using hf by (simp_all add: flag_bits bit_simps)
  have dty: "is_dirty (?f x)" for x by (simp add: flag_bits bit_simps)
  have "bio_inv ?s" "held ?s i b" using inv h by simp_all
  note u = held_upd [where f = ?f, OF this f]
  show "bio_inv s'" "held s' i b" using u(1,2) s' by simp_all
  show "view s' = view s" using u(3) held_view [OF inv h] by (simp add: s' fun_eq_iff)
  show "synced s' i" using dty [of "bufs s i"] by (simp add: s' synced_def upd_buf_def)
  show "dirty_blocks s' = insert b (dirty_blocks s)"
    using hf dty by (intro dirty_blocks_insert [of i]) (auto simp: s' dirty_at_def upd_buf_def)
  show "disk s' = disk s" "trace s' = trace s" "disksize s' = disksize s" "mypid s' = mypid s"
    "klog s' = log_add b (klog s)" "kstate.more s' = kstate.more s" "\<And>j. j \<noteq> i \<Longrightarrow> bufs s' j = bufs s j"
    "b_lock (bufs s' i) = b_lock (bufs s i)" "b_refcnt (bufs s' i) = b_refcnt (bufs s i)"
    "b_data (bufs s' i) = b_data (bufs s i)"
    by (simp_all add: s' upd_buf_def)
qed

lemma log_add_inv:
  assumes "0 \<le> lh_n l" "inj_on (lh_block l) {..<nat (lh_n l)}"
  shows "lh_block (log_add b l) ` {..<nat (lh_n (log_add b l))} = insert b (lh_block l ` {..<nat (lh_n l)})"
    and "inj_on (lh_block (log_add b l)) {..<nat (lh_n (log_add b l))}"
    and "lh_n l \<le> lh_n (log_add b l)" "lh_n (log_add b l) \<le> lh_n l + 1"
    and "log_start (log_add b l) = log_start l" "log_size (log_add b l) = log_size l"
      "log_dev (log_add b l) = log_dev l" "outstanding (log_add b l) = outstanding l"
      "committing (log_add b l) = committing l"
proof -
  have n1: "nat (lh_n l + 1) = Suc (nat (lh_n l))" using assms(1) by linarith
  show "lh_block (log_add b l) ` {..<nat (lh_n (log_add b l))} = insert b (lh_block l ` {..<nat (lh_n l)})"
    by (rule log_slot_cases [of l b]) (force simp: log_add_def n1 lessThan_Suc)+
  show "inj_on (lh_block (log_add b l)) {..<nat (lh_n (log_add b l))}"
    using assms(2) by (rule_tac log_slot_cases [of l b])
      (auto simp: log_add_def n1 lessThan_Suc inj_on_def)
qed (simp_all add: log_add_def)

lemma log_write_inv:
  assumes I: "log_inv s" and h: "held s i b" and sz: "b < disksize s"
    and b: "b \<notin> insert 1 (log_area (log_start (klog s)) (log_size (klog s)))"
    and ok: "log_write i s = Ok s'"
  shows "log_inv s'"
proof -
  note J = log_invD [OF I] and W = log_write_bio [OF log_invD(1) [OF I] h ok]
  note A = log_add_inv [OF J(5,10), of b]
  have room: "lh_n (klog s) < log_size (klog s) - 1" using ok by (simp add: log_write_Ok)
  have home: "lh_block (klog s') t < disksize s \<and>
      lh_block (klog s') t \<notin> insert 1 (log_area (log_start (klog s)) (log_size (klog s)))"
    if "t < nat (lh_n (klog s'))" for t
  proof -
    have "lh_block (klog s') t \<in> insert b (lh_block (klog s) ` {..<nat (lh_n (klog s))})"
      using that A(1) W(10) by auto
    then show ?thesis using J(8,9) sz b by auto
  qed
  show ?thesis
    unfolding log_inv_def
  proof (intro conjI)
    show "lh_n (klog s') < log_size (klog s')" using A(4,6) room W(10) by simp
    show "0 \<le> lh_n (klog s')" using A(3) J(5) W(10) by simp
    show "\<forall>t<nat (lh_n (klog s')). lh_block (klog s') t < disksize s' \<and>
        lh_block (klog s') t \<notin> insert 1 (log_area (log_start (klog s')) (log_size (klog s')))"
      using home A(5,6) W(8,10) by simp
    show "dirty_blocks s' = lh_block (klog s') ` {..<nat (lh_n (klog s'))}"
      using A(1) W(5,10) J(11) by simp
    show "inj_on (lh_block (klog s')) {..<nat (lh_n (klog s'))}" using A(2) W(10) by simp
  qed (use J(2,3,4) A(5,6,7) W in simp_all)
qed

section \<open>A transaction from begin to end\<close>

lemma commit_inv:
  fixes s :: "'a kstate_scheme"
  assumes I: "log_inv s" and q: "quiet s"
  obtains s' where "commit s = Ok s'" "log_inv s'" "quiet s'" "klog s' = (klog s)\<lparr>lh_n := 0\<rparr>"
    "kstate.more s' = kstate.more s" "mypid s' = mypid s" "disksize s' = disksize s"
    "trace s' = trace s @ (if lh_n (klog s) > 0 then commit_writes (view s) (klog s) else [])"
    "\<And>b. b \<notin> log_area (log_start (klog s)) (log_size (klog s)) \<Longrightarrow> disk s' b = view s b"
    "view s' = disk s'"
proof (cases "0 < lh_n (klog s)")
  case True
  note J = log_invD [OF I]
  let ?l = "klog s" let ?h = "log_start ?l"
  from commit_spec [OF q log_inv_layout(1) [OF I] refl True J(11)] obtain s' where
    s': "commit s = Ok s'" "wrote_all (upd_log (\<lambda>l. l\<lparr>lh_n := 0\<rparr>) s) (commit_writes (view s) ?l) s'"
    "dirty_blocks s' = {}" by metis
  note w = s'(2) [unfolded wrote_all_def] and k = wrote_all_klog [OF s'(2)]
  have d: "disk s' = apply_writes (commit_writes (view s) ?l) (disk s)" using w by simp
  note c = crash_done [where v = "view s" and d = "disk s", OF I, folded d]
  have at_disk: "disk s' b = view s b" if "b \<notin> log_area ?h (log_size ?l)" for b
    using c(2) [OF that] quiet_view_clean [OF q, of b] J(11) by auto
  have "disk_ok (disksize s) (log_size ?l) ?h (disk s')"
    using crash_disk(1) [OF I q, of "length (commit_writes (view s) ?l)"] by (simp add: d)
  then have "log_inv s'" using w k s'(3) c(1) J(2,5,6) quietD(1) [of s'] by (simp add: log_inv_def)
  moreover have "quiet s'" using w by blast
  then have "view s' = disk s'" using s'(3) by (intro ext quiet_view_clean) simp_all
  ultimately show thesis using that [of s'] s'(1) w k True at_disk by simp
next
  case False
  note J = log_invD [OF I]
  have n: "lh_n (klog s) = 0" using False J(5) by simp
  then have e: "(klog s)\<lparr>lh_n := 0\<rparr> = klog s" by (cases "klog s") simp
  have v: "view s = disk s" using quiet_view_clean [OF q] J(11) n by (simp add: fun_eq_iff)
  show thesis by (rule that [of s]) (use I q e v n in \<open>auto simp: commit_def\<close>)
qed

lemma log_inv_flags:
  "log_inv (s\<lparr>klog := (klog s)\<lparr>outstanding := n, committing := c\<rparr>\<rparr>) = log_inv s"
  "log_inv (s\<lparr>klog := (klog s)\<lparr>outstanding := n\<rparr>\<rparr>) = log_inv s"
  "log_inv (s\<lparr>klog := (klog s)\<lparr>committing := c\<rparr>\<rparr>) = log_inv s"
  by (simp_all add: log_inv_def)

lemma end_op_last:
  fixes s :: "'a kstate_scheme"
  assumes I: "log_inv s" and q: "quiet s" and last: "outstanding (klog s) = 1"
    and nc: "\<not> committing (klog s)"
  obtains s' where "end_op s = Ok s'" "log_inv s'" "quiet s'" "outstanding (klog s') = 0"
    "\<not> committing (klog s')" "lh_n (klog s') = 0"
    "\<And>b. b \<notin> log_area (log_start (klog s)) (log_size (klog s)) \<Longrightarrow> disk s' b = view s b"
    "view s' = disk s'"
proof -
  let ?s1 = "upd_log (\<lambda>l. l\<lparr>outstanding := outstanding l - 1\<rparr>) s"
  let ?s2 = "upd_log (\<lambda>l. l\<lparr>committing := True\<rparr>) ?s1"
  have "log_inv ?s2" "quiet ?s2" using I q by (simp_all add: log_inv_flags)
  from commit_inv [OF this] obtain s3 where s3: "commit ?s2 = Ok s3" "log_inv s3" "quiet s3"
    "klog s3 = (klog ?s2)\<lparr>lh_n := 0\<rparr>" "view s3 = disk s3"
    "\<And>b. b \<notin> log_area (log_start (klog ?s2)) (log_size (klog ?s2)) \<Longrightarrow> disk s3 b = view ?s2 b"
    by metis
  let ?s4 = "upd_log (\<lambda>l. l\<lparr>committing := False\<rparr>) s3"
  have "end_op s = Ok ?s4"
    using s3(1) last nc by (simp add: end_op_def Let_def)
  moreover have "log_inv ?s4" "quiet ?s4" using s3(2,3) by (simp_all add: log_inv_flags)
  moreover have "outstanding (klog ?s4) = 0" "\<not> committing (klog ?s4)" "lh_n (klog ?s4) = 0"
    using s3(4) last by simp_all
  moreover have "\<And>b. b \<notin> log_area (log_start (klog s)) (log_size (klog s)) \<Longrightarrow> disk ?s4 b = view s b"
    using s3(6) by simp
  moreover have "view ?s4 = disk ?s4" using s3(5) by simp
  ultimately show thesis by (rule that)
qed

section \<open>A concrete file system state\<close>

definition demo_sb :: superblock where
  "demo_sb = \<lparr>sb_size = 1000, sb_nblocks = 941, sb_ninodes = 200, sb_nlog = 30, sb_logstart = 2,
     sb_inodestart = 32, sb_bmapstart = 58\<rparr>"

definition demo_state :: kstate where
  "demo_state = \<lparr>disk = (\<lambda>_ _. 0)(1 := encode_sb demo_sb (\<lambda>_. 0)), disksize = 1000, trace = [],
     bufs = (\<lambda>_. buf0)(0 := buf0\<lparr>b_flags := 6, b_dev := 1, b_blockno := 100, b_data := (\<lambda>_. 7)\<rparr>),
     lru = [0..<NBUF], mypid = 1,
     klog = \<lparr>log_start = 2, log_size = 30, outstanding = 1, committing = False, log_dev = 1, lh_n = 1,
       lh_block = (\<lambda>_. 100)\<rparr>\<rparr>"

lemma demo_state_ok: "quiet demo_state" "log_inv demo_state"
proof -
  have fl: "is_dirty (buf0\<lparr>b_flags := 6, b_dev := 1, b_blockno := 100, b_data := d\<rparr>)"
    "is_valid (buf0\<lparr>b_flags := 6, b_dev := 1, b_blockno := 100, b_data := d\<rparr>)"
    "\<not> is_dirty buf0" for d
    by (simp_all add: is_dirty_def is_valid_def B_DIRTY_def B_VALID_def buf0_def)
  have lk: "\<not> sl_locked (b_lock buf0)" "b_refcnt buf0 = 0" "b_dev buf0 = 0"
    by (simp_all add: buf0_def initsleeplock_def)
  have "cache_ok demo_state"
    by (auto simp: cache_ok_def demo_state_def lk lessThan_atLeast0)
  then have b: "bio_inv demo_state"
    by (rule bio_invI) (auto simp: demo_state_def fl lk split: if_splits)
  have "only_held demo_state {}" by (auto simp: only_held_def demo_state_def lk)
  with b show "quiet demo_state" by (simp add: quiet_def)
  have d: "dirty_blocks demo_state = {100}"
    by (auto simp: dirty_blocks_def dirty_at_def demo_state_def fl layout_simps split: if_splits)
  have "disk_ok 1000 30 2 (disk demo_state)"
    by (simp add: disk_ok_def demo_state_def demo_sb_def log_area_def layout_simps)
  with b d show "log_inv demo_state"
    by (auto simp: log_inv_def demo_state_def log_area_def inj_on_def)
qed

lemma demo_state_fields [simp]:
  "klog demo_state = \<lparr>log_start = 2, log_size = 30, outstanding = 1, committing = False, log_dev = 1,
     lh_n = 1, lh_block = (\<lambda>_. 100)\<rparr>" "disksize demo_state = 1000" "trace demo_state = []"
  by (simp_all add: demo_state_def)

lemma demo_state_view: "view demo_state 100 = (\<lambda>_. 7)" "disk demo_state 100 = (\<lambda>_. 0)"
proof -
  have "is_valid (bufs demo_state 0)" "b_dev (bufs demo_state 0) = 1" "b_blockno (bufs demo_state 0) = 100"
    by (simp_all add: demo_state_def is_valid_def B_VALID_def)
  then have "view demo_state 100 = b_data (bufs demo_state 0)"
    using bio_inv_cache [OF quietD(1) [OF demo_state_ok(1)]] by (intro view_cached) (simp_all add: layout_simps)
  then show "view demo_state 100 = (\<lambda>_. 7)" by (simp add: demo_state_def)
  show "disk demo_state 100 = (\<lambda>_. 0)" by (simp add: demo_state_def)
qed

section \<open>Properties\<close>

text \<open>
  C1. Crash atomicity of \<open>commit\<close>: from a quiet state satisfying the log invariant, \<open>commit\<close> returns,
  and for every number \<open>k\<close> of its disk writes that reach the disk before a crash, rebooting
  (\<open>binit\<close>, \<open>initlog\<close>) on that disk returns and shows on every block outside the log either the
  disk before the transaction (\<open>k \<le> n\<close>, the header not yet written) or all of the transaction's writes.
\<close>

theorem commit_crash_atomic:
  fixes s :: "'a kstate_scheme"
  assumes "log_inv s" and "quiet s" and "0 < lh_n (klog s)"
  shows "\<exists>s1 ws. commit s = Ok s1 \<and> trace s1 = trace s @ ws \<and>
    length ws = 2 * nat (lh_n (klog s)) + 2 \<and>
    (\<forall>k (r :: 'a kstate_scheme). disk r = apply_writes (take k ws) (disk s) \<and> disksize r = disksize s \<longrightarrow>
      (\<exists>s'. initlog 1 (binit r) = Ok s' \<and>
        (\<forall>b. b \<notin> log_area (log_start (klog s)) (log_size (klog s)) \<longrightarrow>
          view s' b = (if k \<le> nat (lh_n (klog s)) then disk s b else view s b))))"
proof -
  let ?ws = "commit_writes (view s) (klog s)"
  from commit_inv [OF assms(1,2)] assms(3) obtain s1 where s1: "commit s = Ok s1"
    "trace s1 = trace s @ ?ws" by auto
  have "\<exists>s'. initlog 1 (binit r) = Ok s' \<and>
      (\<forall>b. b \<notin> log_area (log_start (klog s)) (log_size (klog s)) \<longrightarrow>
        view s' b = (if k \<le> nat (lh_n (klog s)) then disk s b else view s b))"
    if r: "disk r = apply_writes (take k ?ws) (disk s)" "disksize r = disksize s"
    for k and r :: "'a kstate_scheme"
  proof -
    note c = crash_disk [where k = k, OF assms(1,2), folded r]
    from initlog_spec [OF c(1)] show ?thesis using c(3) by metis
  qed
  with s1 show ?thesis by (intro exI [of _ s1] exI [of _ ?ws]) (simp add: commit_writes_def)
qed

theorem commit_crash_atomic_witness:
  "\<exists>s1 ws. commit demo_state = Ok s1 \<and> trace s1 = ws \<and> length ws = 4 \<and>
    (\<forall>r. disk r = apply_writes (take 2 ws) (disk demo_state) \<and> disksize r = 1000 \<longrightarrow>
      (\<exists>s'. initlog 1 (binit r) = Ok (s' :: kstate) \<and> view s' 100 = (\<lambda>_. 7))) \<and>
    (\<forall>r. disk r = apply_writes (take 1 ws) (disk demo_state) \<and> disksize r = 1000 \<longrightarrow>
      (\<exists>s'. initlog 1 (binit r) = Ok (s' :: kstate) \<and> view s' 100 = (\<lambda>_. 0)))"
proof -
  have out: "100 \<notin> log_area 2 30" by (simp add: log_area_def)
  from commit_crash_atomic [OF demo_state_ok(2,1)] obtain s1 ws where
    s1: "commit demo_state = Ok s1" "trace s1 = ws" "length ws = 4" and
    k: "\<And>k r. disk (r :: kstate) = apply_writes (take k ws) (disk demo_state) \<Longrightarrow> disksize r = 1000 \<Longrightarrow>
      \<exists>s'. initlog 1 (binit r) = Ok s' \<and> (\<forall>b. b \<notin> log_area 2 30 \<longrightarrow>
        view s' b = (if k \<le> 1 then disk demo_state b else view demo_state b))" by auto
  show ?thesis
    using s1 k [of _ 2] k [of _ 1] out demo_state_view by (intro exI [of _ s1] exI [of _ ws]) fastforce
qed

text \<open>
  C2. Recovery can itself be interrupted: on any disk with a well-formed log \<open>initlog\<close> returns with the
  blocks outside the log as the abstract \<open>replay\<close> says and an empty log, and a second crash after any
  prefix of its writes followed by another \<open>initlog\<close> gives the same contents.
\<close>

theorem recovery_refines_replay_idempotent:
  fixes r :: "'a kstate_scheme"
  assumes ok: "disk_ok (disksize r) sz h (disk r)"
  shows "\<exists>s1 ws. initlog 1 (binit r) = Ok s1 \<and> log_inv s1 \<and> lh_n (klog s1) = 0 \<and> trace s1 = trace r @ ws \<and>
    (\<forall>b. b \<notin> log_area h sz \<longrightarrow> view s1 b = replay h (disk r) b) \<and>
    (\<forall>k (r' :: 'a kstate_scheme). disk r' = apply_writes (take k ws) (disk r) \<and> disksize r' = disksize r \<longrightarrow>
      (\<exists>s2. initlog 1 (binit r') = Ok s2 \<and> (\<forall>b. b \<notin> log_area h sz \<longrightarrow> view s2 b = view s1 b)))"
proof -
  let ?ws = "install_writes (disk r) (disk_log h (disk r))"
  from initlog_spec [OF ok] obtain s1 where s1: "initlog 1 (binit r) = Ok s1" "log_inv s1"
    "lh_n (klog s1) = 0" "trace s1 = trace r @ ?ws"
    "\<And>b. b \<notin> log_area h sz \<Longrightarrow> view s1 b = replay h (disk r) b" by metis
  have "\<exists>s2. initlog 1 (binit r') = Ok s2 \<and> (\<forall>b. b \<notin> log_area h sz \<longrightarrow> view s2 b = view s1 b)"
    if r': "disk r' = apply_writes (take k ?ws) (disk r)" "disksize r' = disksize r"
    for k and r' :: "'a kstate_scheme"
  proof -
    note c = install_prefix [where k = k, OF ok, folded r']
    from initlog_spec [OF c(1)] show ?thesis using c(2) s1(5) by metis
  qed
  with s1 show ?thesis by (intro exI [of _ s1] exI [of _ ?ws]) blast
qed

lemma demo_disk_ok:
  "disk_ok (disksize demo_state) 30 2 (disk demo_state)"
  "disk_ok 1000 30 2 ((disk demo_state)(2 := set_u32 (set_u32 (\<lambda>_. 0) 0 1) 1 100, 3 := (\<lambda>_. 9)))"
  using log_invD(3) [OF demo_state_ok(2)]
  by (simp_all add: disk_ok_def log_area_def layout_simps inj_on_def demo_state_def)

theorem recovery_refines_replay_idempotent_witness:
  "\<exists>s1. initlog 1 (binit (demo_state\<lparr>disk := (disk demo_state)
      (2 := set_u32 (set_u32 (\<lambda>_. 0) 0 1) 1 100, 3 := (\<lambda>_. 9))\<rparr>)) = Ok s1 \<and> view s1 100 = (\<lambda>_. 9)"
proof -
  let ?d = "(disk demo_state)(2 := set_u32 (set_u32 (\<lambda>_. 0) 0 1) 1 100, 3 := (\<lambda>_. 9))"
  have "disk_ok (disksize (demo_state\<lparr>disk := ?d\<rparr>)) 30 2 (disk (demo_state\<lparr>disk := ?d\<rparr>))"
    using demo_disk_ok(2) by simp
  from recovery_refines_replay_idempotent [OF this] obtain s1 where
    "initlog 1 (binit (demo_state\<lparr>disk := ?d\<rparr>)) = Ok s1"
    "\<forall>b. b \<notin> log_area 2 30 \<longrightarrow> view s1 b = replay 2 ?d b" by auto
  then show ?thesis by (simp add: replay_def log_area_def)
qed

text \<open>
  C3. The last \<open>end_op\<close> makes the transaction durable: with one operation outstanding and no buffer held,
  \<open>end_op\<close> returns, every block outside the log is on disk as clients last saw it, the log is empty again
  and the invariant holds for the next transaction.
\<close>

theorem end_op_durable:
  assumes "log_inv s" and "quiet s" and "outstanding (klog s) = 1" and "\<not> committing (klog s)"
  shows "\<exists>s'. end_op s = Ok s' \<and> log_inv s' \<and> quiet s' \<and> outstanding (klog s') = 0 \<and>
    \<not> committing (klog s') \<and> lh_n (klog s') = 0 \<and> view s' = disk s' \<and>
    (\<forall>b. b \<notin> log_area (log_start (klog s)) (log_size (klog s)) \<longrightarrow> disk s' b = view s b)"
  using end_op_last [OF assms] by metis

theorem end_op_durable_witness:
  "\<exists>s'. end_op demo_state = Ok s' \<and> disk s' 100 = (\<lambda>_. 7) \<and> lh_n (klog s') = 0"
  using end_op_durable [OF demo_state_ok(2,1)] demo_state_view(1) by (auto simp: log_area_def)

text \<open>
  C4. \<open>log_write\<close> on a held buffer of a block outside the log: it returns exactly when the header has room
  and a transaction is open, and then keeps the log invariant, changes no block as clients see it,
  pins the block, and adds it to the header at most once (absorption).
\<close>

theorem log_write_correct:
  assumes I: "log_inv s" and h: "held s i b" and sz: "b < disksize s"
    and b: "b \<notin> insert 1 (log_area (log_start (klog s)) (log_size (klog s)))"
  shows "((\<exists>s'. log_write i s = Ok s') \<longleftrightarrow>
      lh_n (klog s) < int LOGSIZE \<and> lh_n (klog s) < log_size (klog s) - 1 \<and> 1 \<le> outstanding (klog s)) \<and>
    (\<forall>s'. log_write i s = Ok s' \<longrightarrow> log_inv s' \<and> view s' = view s \<and> disk s' = disk s \<and>
      dirty_blocks s' = insert b (dirty_blocks s) \<and>
      lh_n (klog s') = lh_n (klog s) + (if b \<in> dirty_blocks s then 0 else 1))"
proof (intro conjI allI impI)
  fix s' assume ok: "log_write i s = Ok s'"
  note J = log_invD [OF I] and W = log_write_bio [OF log_invD(1) [OF I] h ok]
  have "lh_n (log_add b (klog s)) = lh_n (klog s) + (if b \<in> dirty_blocks s then 0 else 1)"
    unfolding J(11) by (rule log_slot_cases [of "klog s" b]) (auto simp: log_add_def intro: rev_image_eqI)
  then show "lh_n (klog s') = lh_n (klog s) + (if b \<in> dirty_blocks s then 0 else 1)" using W(10) by simp
  show "log_inv s'" by (rule log_write_inv [OF I h sz b ok])
  show "view s' = view s" "disk s' = disk s" "dirty_blocks s' = insert b (dirty_blocks s)" by (fact W)+
qed (simp add: log_write_Ok)

lemma log_inv_same_store:
  assumes I: "log_inv s" and "bio_inv s'" and st: "same_store s s'"
  shows "log_inv s'"
  using I assms(2) same_storeD [OF st] more_klog(1) [OF same_storeD(7) [OF st]] by (simp add: log_inv_def)

theorem log_write_correct_witness:
  "\<exists>i s s'. bread 1 200 demo_state = Ok (i, s) \<and> log_write i s = Ok s' \<and> lh_n (klog s') = 2 \<and> log_inv s'"
proof -
  have d: "dirty_blocks demo_state = {100}" using log_invD(11) [OF demo_state_ok(2)] by auto
  have "200 < disksize demo_state" "card (dirty_blocks demo_state) < NBUF" by (simp_all add: d layout_simps)
  from bread_one [OF demo_state_ok(1) this] obtain i s where r: "bread 1 200 demo_state = Ok (i, s)"
    "bio_inv s" "held s i 200" "same_store demo_state s" by metis
  note st = same_storeD [OF r(4)] and k = more_klog(1) [OF same_storeD(7) [OF r(4)]]
  have "log_inv s" by (rule log_inv_same_store [OF demo_state_ok(2) r(2,4)])
  from log_write_correct [OF this r(3)] r(1) show ?thesis
    using st(4,5) k d by (auto simp: log_area_def layout_simps)
qed

end
