(* ===== verification/Fs_Blocks.thy ===== *)
theory Fs_Blocks
  imports Recovery
begin

text \<open>
  Disk blocks of the file system (\<open>bzero\<close>, \<open>balloc\<close>, \<open>bfree\<close> of \<open>fs.c\<close>) and the relation
  \<open>changes M s s'\<close> by which every operation above the log is specified: only the blocks \<open>M\<close>
  change as clients see them, no buffer locked before is touched, nothing reaches the disk, and the
  log invariant is kept when \<open>M\<close> lies outside the log.
\<close>

section \<open>State and operations\<close>

definition BPB :: nat where [layout_simps]: "BPB = 4096"
definition NINODE :: nat where [layout_simps]: "NINODE = 50"
definition NDIRECT :: nat where [layout_simps]: "NDIRECT = 11"
definition NINDIRECT :: nat where [layout_simps]: "NINDIRECT = 128"
definition MAXFILE :: nat where [layout_simps]: "MAXFILE = NDIRECT + NINDIRECT + NINDIRECT * NINDIRECT"

record inode =
  i_dev :: u32
  i_inum :: u32
  i_ref :: int
  i_lock :: sleeplock
  i_valid :: bool
  i_type :: u16
  i_major :: u16
  i_minor :: u16
  i_nlink :: u16
  i_size :: u32
  i_addrs :: "u32 list"

record fstate = kstate +
  fsb :: superblock
  icache :: "nat \<Rightarrow> inode"

definition BBLOCK :: "nat \<Rightarrow> superblock \<Rightarrow> u32" where
  "BBLOCK b sb = of_nat (b div BPB) + sb_bmapstart sb"

text \<open>\<open>memset (bp->data, 0, BSIZE)\<close>; the offsets past \<open>BSIZE\<close> are not part of a block.\<close>

definition bzero :: "u32 \<Rightarrow> u32 \<Rightarrow> 'a kstate_scheme \<Rightarrow> 'a kstate_scheme res" where
  "bzero dv bno s =
     bnd (bread dv bno s) (\<lambda>(bp, s).
     let s = set_data bp (\<lambda>_. 0) s in
     bnd (log_write bp s) (\<lambda>s.
     brelse bp s))"

text \<open>Bit \<open>bi\<close> of a bitmap block: byte \<open>bi / 8\<close>, mask \<open>1 << (bi % 8)\<close>.\<close>

definition bmask :: "nat \<Rightarrow> u8" where "bmask bi = push_bit (bi mod 8) 1"

function balloc_from :: "nat \<Rightarrow> u32 \<Rightarrow> nat \<Rightarrow> 'a fstate_scheme \<Rightarrow> (u32 \<times> 'a fstate_scheme) res" where
  "balloc_from sz dv b s =
     (if b < sz then
        bnd (bread dv (BBLOCK b (fsb s)) s) (\<lambda>(bp, s).
        case List.find (\<lambda>bi. b_data (bufs s bp) (bi div 8) AND bmask bi = 0) [0..<min BPB (sz - b)] of
          Some bi \<Rightarrow>
            let d = b_data (bufs s bp);
                s = set_data bp (d(bi div 8 := d (bi div 8) OR bmask bi)) s in
            bnd (log_write bp s) (\<lambda>s.
            bnd (brelse bp s) (\<lambda>s.
            bnd (bzero dv (of_nat (b + bi)) s) (\<lambda>s.
            Ok (of_nat (b + bi), s))))
        | None \<Rightarrow>
            bnd (brelse bp s) (\<lambda>s.
            balloc_from sz dv (b + BPB) s))
      else Panic ''balloc: out of blocks'')"
  by pat_completeness auto
termination by (relation "measure (\<lambda>(sz, dv, b, s). sz - b)") (auto simp: layout_simps)

declare balloc_from.simps [simp del]

definition balloc :: "u32 \<Rightarrow> 'a fstate_scheme \<Rightarrow> (u32 \<times> 'a fstate_scheme) res" where
  "balloc dv s = balloc_from (unat (sb_size (fsb s))) dv 0 s"

definition bfree :: "u32 \<Rightarrow> u32 \<Rightarrow> 'a fstate_scheme \<Rightarrow> 'a fstate_scheme res" where
  "bfree dv b s =
     bnd (readsb dv s) (\<lambda>(sb, s).
     let s = s\<lparr>fsb := sb\<rparr> in
     bnd (bread dv (BBLOCK (unat b) (fsb s)) s) (\<lambda>(bp, s).
     let bi = unat b mod BPB; d = b_data (bufs s bp) in
     if d (bi div 8) AND bmask bi = 0 then Panic ''freeing free block''
     else
       let s = set_data bp (d(bi div 8 := d (bi div 8) AND NOT (bmask bi))) s in
       bnd (log_write bp s) (\<lambda>s.
       brelse bp s)))"

section \<open>What an operation changes\<close>

definition home :: "'a kstate_scheme \<Rightarrow> u32 \<Rightarrow> bool" where
  "home s b \<longleftrightarrow> b < disksize s \<and> b \<notin> insert 1 (log_area (log_start (klog s)) (log_size (klog s)))"

definition log_same :: "logrec \<Rightarrow> logrec \<Rightarrow> bool" where
  "log_same l l' \<longleftrightarrow> log_start l' = log_start l \<and> log_size l' = log_size l \<and> log_dev l' = log_dev l \<and>
     outstanding l' = outstanding l \<and> committing l' = committing l"

definition changes :: "u32 set \<Rightarrow> 'a kstate_scheme \<Rightarrow> 'a kstate_scheme \<Rightarrow> bool" where
  "changes M s s' \<longleftrightarrow> bio_inv s' \<and>
     (\<forall>i. sl_locked (b_lock (bufs s i)) \<longrightarrow> bufs s' i = bufs s i) \<and>
     disk s' = disk s \<and> trace s' = trace s \<and> disksize s' = disksize s \<and> mypid s' = mypid s \<and>
     log_same (klog s) (klog s') \<and>
     (\<forall>b. b \<notin> M \<longrightarrow> view s' b = view s b) \<and>
     (log_inv s \<and> (\<forall>b\<in>M. home s b) \<longrightarrow> log_inv s')"

lemma changesD:
  assumes "changes M s s'"
  shows "bio_inv s'" "\<And>i. sl_locked (b_lock (bufs s i)) \<Longrightarrow> bufs s' i = bufs s i"
    "disk s' = disk s" "trace s' = trace s" "disksize s' = disksize s" "mypid s' = mypid s"
    "log_same (klog s) (klog s')" "\<And>b. b \<notin> M \<Longrightarrow> view s' b = view s b"
    "log_inv s \<Longrightarrow> (\<And>b. b \<in> M \<Longrightarrow> home s b) \<Longrightarrow> log_inv s'"
  using assms by (auto simp: changes_def)

lemma changes_home: "changes M s s' \<Longrightarrow> home s' b = home s b"
  by (simp add: changes_def home_def log_same_def)

lemma changes_refl: "bio_inv s \<Longrightarrow> changes M s s"
  by (simp add: changes_def log_same_def)

lemma changes_trans:
  assumes c: "changes M s s1" and d: "changes N s1 s2"
  shows "changes (M \<union> N) s s2"
proof -
  have lk: "bufs s2 i = bufs s i" if "sl_locked (b_lock (bufs s i))" for i
    using changesD(2) [OF c that] changesD(2) [OF d, of i] that by simp
  have li: "log_inv s2" if "log_inv s" "\<And>b. b \<in> M \<union> N \<Longrightarrow> home s b"
    using changesD(9) [OF d changesD(9) [OF c]] that changes_home [OF c] by blast
  show ?thesis
    unfolding changes_def using changesD [OF c] changesD [OF d] lk li by (auto simp: log_same_def)
qed

lemma changes_mono: "changes M s s' \<Longrightarrow> M \<subseteq> N \<Longrightarrow> changes N s s'"
  by (auto simp: changes_def)

lemma changes_held:
  assumes "changes M s s'" "held s i b"
  shows "held s' i b" "bufs s' i = bufs s i" "synced s i \<Longrightarrow> synced s' i"
proof -
  note lk = held_facts(6) [OF assms(2)]
  show eq: "bufs s' i = bufs s i" by (rule changesD(2) [OF assms(1) lk])
  then show "held s' i b" using assms(2) changesD(6) [OF assms(1)] by (simp add: held_def)
  show "synced s i \<Longrightarrow> synced s' i" using eq changesD(3) [OF assms(1)] by (simp add: synced_def)
qed

text \<open>The two access patterns: read a block; read, modify, log and release it.\<close>

lemma bread_changes:
  assumes inv: "bio_inv s" and r: "bread 1 b s = Ok (i, s1)"
  shows "changes {} s s1" "held s1 i b" "synced s1 i" "b_data (bufs s1 i) = view s b"
    "\<not> sl_locked (b_lock (bufs s i))" "view s1 = view s" "kstate.more s1 = kstate.more s"
    "\<And>j. j \<noteq> i \<Longrightarrow> bufs s1 j = bufs s j"
proof -
  note sp = bread_spec [OF inv r] and k = more_klog [OF bread_spec(12) [OF inv r]]
  show "held s1 i b" "synced s1 i" "b_data (bufs s1 i) = view s b" "\<not> sl_locked (b_lock (bufs s i))"
    "view s1 = view s" "kstate.more s1 = kstate.more s" "\<And>j. j \<noteq> i \<Longrightarrow> bufs s1 j = bufs s j"
    using sp k by simp_all
  have "same_store s s1" using sp by (simp add: same_store_def)
  then have "log_inv s \<Longrightarrow> log_inv s1" using log_inv_same_store sp(1) by blast
  moreover have "bufs s1 j = bufs s j" if "sl_locked (b_lock (bufs s j))" for j
    using sp(13,14) that by metis
  ultimately show "changes {} s s1" using sp k by (simp add: changes_def log_same_def)
qed

lemma brelse_changes:
  assumes inv: "bio_inv s1" and h: "held s1 i b" and sy: "synced s1 i" and r: "brelse i s1 = Ok s2"
  shows "bio_inv s2" "view s2 = view s1" "disk s2 = disk s1" "trace s2 = trace s1"
    "disksize s2 = disksize s1" "mypid s2 = mypid s1" "klog s2 = klog s1" "kstate.more s2 = kstate.more s1"
    "dirty_blocks s2 = dirty_blocks s1" "\<And>j. j \<noteq> i \<Longrightarrow> bufs s2 j = bufs s1 j"
    "log_inv s1 \<Longrightarrow> log_inv s2"
proof -
  from brelse_spec [OF inv h sy] r obtain
    e: "bio_inv s2" "view s2 = view s1"
    "dirty_blocks s2 = dirty_blocks s1" "disk s2 = disk s1" "trace s2 = trace s1"
    "disksize s2 = disksize s1" "mypid s2 = mypid s1" "bio.more s2 = bio.more s1"
    and e': "\<And>k. k \<noteq> i \<Longrightarrow> bufs s2 k = bufs s1 k" by (metis res.inject(1))
  have "same_store s1 s2" using e by (simp add: same_store_def)
  then show "log_inv s1 \<Longrightarrow> log_inv s2" using log_inv_same_store e(1) by blast
  show "klog s2 = klog s1" "kstate.more s2 = kstate.more s1" using more_klog [OF e(8)] by simp_all
  show "\<And>j. j \<noteq> i \<Longrightarrow> bufs s2 j = bufs s1 j" by (rule e')
  show "bio_inv s2" "view s2 = view s1" "disk s2 = disk s1" "trace s2 = trace s1"
    "disksize s2 = disksize s1" "mypid s2 = mypid s1" "dirty_blocks s2 = dirty_blocks s1" by (fact e)+
qed

lemma close_ro:
  assumes inv: "bio_inv s" and r: "bread 1 b s = Ok (i, s1)" and c: "changes M s1 s2"
    and e: "brelse i s2 = Ok s3"
  shows "changes M s s3" "view s3 = view s2" "kstate.more s3 = kstate.more s2"
proof -
  note B = bread_changes [OF inv r]
  note R = brelse_changes [OF changesD(1) [OF c] changes_held(1) [OF c B(2)] changes_held(3) [OF c B(2,3)] e]
  show "view s3 = view s2" "kstate.more s3 = kstate.more s2" by (fact R)+
  have lk: "bufs s3 j = bufs s j" if "sl_locked (b_lock (bufs s j))" for j
  proof -
    have "j \<noteq> i" using B(5) that by metis
    then show ?thesis using B(8) R(10) changesD(2) [OF c, of j] that by metis
  qed
  have li: "log_inv s3" if "log_inv s" "\<And>b. b \<in> M \<Longrightarrow> home s b"
    using changesD(9) [OF B(1)] changesD(9) [OF c] changes_home [OF B(1)] R(11) that by blast
  show "changes M s s3"
    unfolding changes_def using R changesD [OF c] changesD [OF B(1)] lk li by (auto simp: log_same_def)
qed

lemma log_inv_set_data:
  assumes "log_inv s" "held s i b"
  shows "log_inv (set_data i d s)"
proof -
  note sp = set_data_spec [OF log_invD(1) [OF assms(1)] assms(2), of d]
  have "klog (set_data i d s) = klog s" using more_klog(1) [of "set_data i d s" s] by simp
  then show ?thesis using assms(1) sp(1,4) by (simp add: log_inv_def)
qed

lemma close_rw:
  fixes s :: "'a kstate_scheme"
  assumes inv: "bio_inv s" and r: "bread 1 b s = Ok (i, s1)" and c: "changes M s1 s2"
    and w: "log_write i (set_data i d s2) = Ok s3" and e: "brelse i s3 = Ok s4"
  shows "changes (insert b M) s s4" "view s4 = (view s2)(b := d)" "kstate.more s4 = kstate.more s2"
proof -
  note B = bread_changes [OF inv r] note C = changesD [OF c] note h2 = changes_held(1) [OF c B(2)]
  note D = set_data_spec [OF C(1) h2, of d]
  note W = log_write_bio [OF D(1,2) w]
  note R = brelse_changes [OF W(1,2,3) e]
  have more: "klog (set_data i d s2) = klog s2" "kstate.more (set_data i d s2) = kstate.more s2"
    using more_klog [of "set_data i d s2" s2] by simp_all
  show v: "view s4 = (view s2)(b := d)" using R(2) W(4) D(3) by simp
  show "kstate.more s4 = kstate.more s2" using R(8) W(11) more by simp
  have lk: "bufs s4 j = bufs s j" if "sl_locked (b_lock (bufs s j))" for j
  proof -
    have j: "j \<noteq> i" using B(5) that by metis
    have "bufs s2 j = bufs s j" using B(8) [OF j] C(2) [of j] that by metis
    then show ?thesis using R(10) [OF j] W(12) [OF j] j by simp
  qed
  have li: "log_inv s4" if "log_inv s" and hm: "\<And>x. x \<in> insert b M \<Longrightarrow> home s x"
  proof -
    have h1: "home s1 x = home s x" for x using changes_home [OF B(1)] .
    have "log_inv s2" using C(9) changesD(9) [OF B(1) that(1)] hm h1 by blast
    moreover have "home s2 b" using changes_home [OF c] h1 hm by simp
    ultimately have "log_inv s3"
      using log_write_inv [OF log_inv_set_data [OF _ h2] D(2) _ _ w] by (simp add: home_def more)
    then show ?thesis by (rule R(11))
  qed
  have "log_same (klog s) (klog s4)"
    using C(7) changesD(7) [OF B(1)] R(7) W(10) by (simp add: log_same_def more log_add_def)
  moreover have "disk s4 = disk s" "trace s4 = trace s" "disksize s4 = disksize s" "mypid s4 = mypid s"
    using C(3-6) changesD(3-6) [OF B(1)] R(3-6) W(6-9) by simp_all
  moreover have "view s4 x = view s x" if "x \<notin> insert b M" for x
    using that v C(8) [of x] B(6) by simp
  ultimately show "changes (insert b M) s s4"
    unfolding changes_def using R(1) lk li by blast
qed

lemma more_fs:
  assumes "kstate.more s' = kstate.more s"
  shows "fsb s' = fsb s" "icache s' = icache s" "fstate.more s' = fstate.more s"
  using assms by (cases s; cases s'; simp)+

lemma bzero_spec:
  assumes inv: "bio_inv s" and ok: "bzero 1 b s = Ok s'"
  shows "changes {b} s s'" "view s' = (view s)(b := (\<lambda>_. 0))" "kstate.more s' = kstate.more s"
proof -
  from ok obtain i s1 s2 where r: "bread 1 b s = Ok (i, s1)"
    "log_write i (set_data i (\<lambda>_. 0) s1) = Ok s2" "brelse i s2 = Ok s'"
    by (auto simp: bzero_def res_simps)
  note B = bread_changes [OF inv r(1)]
  note C = close_rw [OF inv r(1) changes_refl [OF changesD(1) [OF B(1)], of "{}"] r(2,3)]
  show "changes {b} s s'" "view s' = (view s)(b := (\<lambda>_. 0))" "kstate.more s' = kstate.more s"
    using C B(6,7) by simp_all
qed

section \<open>The free map\<close>

definition used :: "superblock \<Rightarrow> (u32 \<Rightarrow> bytes) \<Rightarrow> nat \<Rightarrow> bool" where
  "used sb v b \<longleftrightarrow> v (BBLOCK b sb) (b mod BPB div 8) AND bmask (b mod BPB) \<noteq> 0"

definition mark :: "nat \<Rightarrow> bytes \<Rightarrow> bytes" where
  "mark b d = d(b mod BPB div 8 := d (b mod BPB div 8) OR bmask (b mod BPB))"

definition unmark :: "nat \<Rightarrow> bytes \<Rightarrow> bytes" where
  "unmark b d = d(b mod BPB div 8 := d (b mod BPB div 8) AND NOT (bmask (b mod BPB)))"

lemma bmask_bit: "x AND bmask n \<noteq> 0 \<longleftrightarrow> bit x (n mod 8)"
  by (simp add: bmask_def bit_iff_and_push_bit_not_eq_0)

lemma bmask_bits [simp]:
  "bit (bmask n) k \<longleftrightarrow> k = n mod 8" "bit (x OR bmask n) k \<longleftrightarrow> bit x k \<or> k = n mod 8"
  "k < 8 \<Longrightarrow> bit (x AND NOT (bmask n)) k \<longleftrightarrow> bit x k \<and> k \<noteq> n mod 8"
proof -
  have lt: "n mod 8 < 8" by simp
  show b: "bit (bmask n) k \<longleftrightarrow> k = n mod 8" for k
    using lt by (auto simp: bmask_def bit_simps)
  show "bit (x OR bmask n) k \<longleftrightarrow> bit x k \<or> k = n mod 8" by (simp add: bit_simps b)
  show "k < 8 \<Longrightarrow> bit (x AND NOT (bmask n)) k \<longleftrightarrow> bit x k \<and> k \<noteq> n mod 8" by (simp add: bit_simps b)
qed

lemma used_bit: "used sb v b \<longleftrightarrow> bit (v (BBLOCK b sb) (b mod BPB div 8)) (b mod 8)"
proof -
  have "b mod BPB mod 8 = b mod 8" by (simp add: layout_simps mod_mod_cancel)
  then show ?thesis unfolding used_def bmask_bit by simp
qed

lemma BBLOCK_inj:
  assumes "BBLOCK b sb = BBLOCK c sb" "b < 2 ^ 32" "c < 2 ^ 32"
  shows "b div BPB = c div BPB"
proof -
  have "of_nat (b div BPB) = (of_nat (c div BPB) :: u32)" using assms(1) by (simp add: BBLOCK_def)
  then have "unat (of_nat (b div BPB) :: u32) = unat (of_nat (c div BPB) :: u32)" by simp
  moreover have "b div BPB < 2 ^ 32" "c div BPB < 2 ^ 32"
    using assms(2,3) div_le_dividend [of b BPB] div_le_dividend [of c BPB] by linarith+
  ultimately show ?thesis by (simp only: unat_of_nat_u32)
qed

lemma bit_pos_inj:
  fixes b c :: nat
  assumes "b div BPB = c div BPB" "b mod BPB div 8 = c mod BPB div 8" "b mod 8 = c mod 8"
  shows "b = c"
proof -
  have "n = n div BPB * BPB + (n mod BPB div 8 * 8 + n mod 8)" for n :: nat
  proof -
    have "n mod BPB mod 8 = n mod 8" by (simp add: layout_simps mod_mod_cancel)
    then have "n mod BPB = n mod BPB div 8 * 8 + n mod 8" by (metis div_mult_mod_eq)
    then show ?thesis by (metis div_mult_mod_eq)
  qed
  from this [of b] this [of c] assms show ?thesis by metis
qed

lemma used_mark:
  assumes "b < 2 ^ 32" "c < 2 ^ 32"
  shows "used sb (v(BBLOCK b sb := mark b (v (BBLOCK b sb)))) c \<longleftrightarrow> used sb v c \<or> c = b"
    "used sb (v(BBLOCK b sb := unmark b (v (BBLOCK b sb)))) c \<longleftrightarrow> used sb v c \<and> c \<noteq> b"
proof -
  have m: "b mod BPB mod 8 = b mod 8" by (simp add: layout_simps mod_mod_cancel)
  have *: "BBLOCK c sb = BBLOCK b sb \<Longrightarrow> c mod BPB div 8 = b mod BPB div 8 \<Longrightarrow> c mod 8 = b mod 8 \<Longrightarrow> c = b"
    using BBLOCK_inj [of c sb b] bit_pos_inj assms by blast
  show "used sb (v(BBLOCK b sb := mark b (v (BBLOCK b sb)))) c \<longleftrightarrow> used sb v c \<or> c = b"
    using * by (auto simp: used_bit mark_def m)
  show "used sb (v(BBLOCK b sb := unmark b (v (BBLOCK b sb)))) c \<longleftrightarrow> used sb v c \<and> c \<noteq> b"
    using * by (auto simp: used_bit unmark_def m)
qed

lemma mark_pos:
  assumes "BPB dvd b" "bi < BPB"
  shows "BBLOCK (b + bi) sb = BBLOCK b sb" "(b + bi) mod BPB = bi"
  using assms by (auto simp: BBLOCK_def layout_simps elim!: dvdE)

lemma balloc_from_spec:
  fixes s :: "'a fstate_scheme"
  assumes "bio_inv s" "balloc_from sz 1 b s = Ok (a, s')" "BPB dvd b" "sz < 2 ^ 32"
  shows "\<exists>n. a = of_nat n \<and> b \<le> n \<and> n < sz \<and> \<not> used (fsb s) (view s) n \<and>
    (\<forall>m. b \<le> m \<and> m < n \<longrightarrow> used (fsb s) (view s) m) \<and> changes {BBLOCK n (fsb s), a} s s' \<and>
    view s' = (view s)(BBLOCK n (fsb s) := mark n (view s (BBLOCK n (fsb s))), a := (\<lambda>_. 0)) \<and>
    kstate.more s' = kstate.more s"
  using assms
proof (induction "sz - b" arbitrary: b s rule: less_induct)
  case less
  let ?sb = "fsb s" let ?B = "BBLOCK b ?sb" let ?r = "[0..<min BPB (sz - b)]"
  note ok = less.prems(2) [unfolded balloc_from.simps [of sz 1 b s]]
  have b: "b < sz" using ok by (auto split: if_splits)
  from ok b obtain i s1 where r: "bread 1 ?B s = Ok (i, s1)" by (auto simp: res_simps)
  note B = bread_changes [OF less.prems(1) r]
  have d: "b_data (bufs s1 i) = view s ?B" by (rule B(4))
  have u: "used ?sb (view s) (b + bi) \<longleftrightarrow> view s ?B (bi div 8) AND bmask bi \<noteq> 0" if "bi < BPB" for bi
    using mark_pos [OF less.prems(3) that] by (simp add: used_def)
  let ?F = "List.find (\<lambda>bi. view s ?B (bi div 8) AND bmask bi = 0) ?r"
  show ?case
  proof (cases ?F)
    case None
    then have full: "used ?sb (view s) (b + bi)" if "bi < BPB" "b + bi < sz" for bi
      using that u [OF that(1)] by (auto simp: find_None_iff)
    from ok b r None d obtain s2 where e: "brelse i s1 = Ok s2" "balloc_from sz 1 (b + BPB) s2 = Ok (a, s')"
      by (auto simp: res_simps)
    note C = close_ro [OF less.prems(1) r changes_refl [OF changesD(1) [OF B(1)], of "{}"] e(1)]
    have fs: "fsb s2 = ?sb" "view s2 = view s" "kstate.more s2 = kstate.more s"
      using more_fs(1) [of s2 s] C(2,3) B(6,7) by simp_all
    have dec: "sz - (b + BPB) < sz - b" "BPB dvd b + BPB" using b less.prems(3) by (auto simp: layout_simps)
    from less.hyps [OF dec(1) changesD(1) [OF C(1)] e(2) dec(2) less.prems(4)]
    obtain n where n: "a = of_nat n" "b + BPB \<le> n" "n < sz" "\<not> used ?sb (view s) n"
      "\<And>m. b + BPB \<le> m \<Longrightarrow> m < n \<Longrightarrow> used ?sb (view s) m" "changes {BBLOCK n ?sb, a} s2 s'"
      "view s' = (view s)(BBLOCK n ?sb := mark n (view s (BBLOCK n ?sb)), a := (\<lambda>_. 0))"
      "kstate.more s' = kstate.more s2" unfolding fs(1,2) by metis
    have "used ?sb (view s) m" if "b \<le> m" "m < n" for m
      using n(3,5) full [of "m - b"] that by (cases "b + BPB \<le> m") auto
    moreover have "changes {BBLOCK n ?sb, a} s s'" using changes_trans [OF C(1) n(6)] by simp
    ultimately show ?thesis using n fs(3) by (intro exI [of _ n]) auto
  next
    case (Some bi)
    then have bi: "bi < BPB" "b + bi < sz" "view s ?B (bi div 8) AND bmask bi = 0"
      "\<And>m. m < bi \<Longrightarrow> view s ?B (m div 8) AND bmask m \<noteq> 0"
      using find_upt_least [OF Some] by auto
    note mp = mark_pos [OF less.prems(3) bi(1)]
    let ?n = "b + bi" let ?d = "mark ?n (view s ?B)"
    have dm: "(view s ?B)(bi div 8 := view s ?B (bi div 8) OR bmask bi) = ?d" by (simp add: mark_def mp)
    from ok b r Some d dm obtain s2 s3 where e: "log_write i (set_data i ?d s1) = Ok s2" "brelse i s2 = Ok s3"
      "bzero 1 (of_nat ?n) s3 = Ok s'" "a = of_nat ?n" by (auto simp: res_simps Let_def)
    note C = close_rw [OF less.prems(1) r changes_refl [OF changesD(1) [OF B(1)], of "{}"] e(1,2)]
    note Z = bzero_spec [OF changesD(1) [OF C(1)] e(3)]
    have "changes {BBLOCK ?n ?sb, a} s s'" using changes_trans [OF C(1) Z(1)] by (simp add: mp e(4) insert_commute)
    moreover have "view s' = (view s)(BBLOCK ?n ?sb := mark ?n (view s (BBLOCK ?n ?sb)), a := (\<lambda>_. 0))"
      using Z(2) C(2) B(6) e(4) by (simp add: mp)
    moreover have "kstate.more s' = kstate.more s" using Z(3) C(3) B(7) by simp
    moreover have "\<not> used ?sb (view s) ?n" using u [OF bi(1)] bi(3) by simp
    moreover have "used ?sb (view s) m" if "b \<le> m" "m < ?n" for m
      using u [of "m - b"] bi(1) bi(4) [of "m - b"] that by simp
    ultimately show ?thesis using bi(2) e(4) by (intro exI [of _ ?n]) simp
  qed
qed

lemma balloc_spec:
  fixes s :: "'a fstate_scheme"
  assumes "bio_inv s" "balloc 1 s = Ok (a, s')"
  shows "a < sb_size (fsb s)" "\<not> used (fsb s) (view s) (unat a)"
    "\<And>m. m < unat a \<Longrightarrow> used (fsb s) (view s) m" "changes {BBLOCK (unat a) (fsb s), a} s s'"
    "view s' = (view s)(BBLOCK (unat a) (fsb s) := mark (unat a) (view s (BBLOCK (unat a) (fsb s))),
       a := (\<lambda>_. 0))"
    "kstate.more s' = kstate.more s"
proof -
  have lt: "unat (sb_size (fsb s)) < 2 ^ 32" by (rule unat_u32_lt)
  from balloc_from_spec [OF assms(1) assms(2) [unfolded balloc_def] _ lt]
  obtain n where n: "a = of_nat n" "n < unat (sb_size (fsb s))" "\<not> used (fsb s) (view s) n"
    "\<And>m. m < n \<Longrightarrow> used (fsb s) (view s) m" "changes {BBLOCK n (fsb s), a} s s'"
    "view s' = (view s)(BBLOCK n (fsb s) := mark n (view s (BBLOCK n (fsb s))), a := (\<lambda>_. 0))"
    "kstate.more s' = kstate.more s" by auto
  have "unat a = n" using n(1,2) lt by (simp add: unat_of_nat_u32)
  with n show "a < sb_size (fsb s)" "\<not> used (fsb s) (view s) (unat a)"
    "\<And>m. m < unat a \<Longrightarrow> used (fsb s) (view s) m" "changes {BBLOCK (unat a) (fsb s), a} s s'"
    "view s' = (view s)(BBLOCK (unat a) (fsb s) := mark (unat a) (view s (BBLOCK (unat a) (fsb s))),
       a := (\<lambda>_. 0))"
    "kstate.more s' = kstate.more s" by (auto simp: word_less_nat_alt)
qed

lemma readsb_changes:
  assumes inv: "bio_inv s" and ok: "readsb 1 s = Ok (sb, s')"
  shows "sb = decode_sb (view s 1)" "changes {} s s'" "view s' = view s" "kstate.more s' = kstate.more s"
proof -
  from ok obtain i s1 where r: "bread 1 1 s = Ok (i, s1)" "brelse i s1 = Ok s'"
    "sb = decode_sb (b_data (bufs s1 i))" by (auto simp: readsb_def res_simps)
  note B = bread_changes [OF inv r(1)]
  note C = close_ro [OF inv r(1) changes_refl [OF changesD(1) [OF B(1)], of "{}"] r(2)]
  show "sb = decode_sb (view s 1)" "changes {} s s'" "view s' = view s" "kstate.more s' = kstate.more s"
    using C B r(3) by simp_all
qed

lemma bfree_spec:
  fixes s :: "'a fstate_scheme"
  assumes inv: "bio_inv s" and sb: "fsb s = decode_sb (view s 1)" and ok: "bfree 1 b s = Ok s'"
  shows "used (fsb s) (view s) (unat b)" "changes {BBLOCK (unat b) (fsb s)} s s'"
    "view s' = (view s)(BBLOCK (unat b) (fsb s) := unmark (unat b) (view s (BBLOCK (unat b) (fsb s))))"
    "kstate.more s' = kstate.more s"
proof -
  let ?B = "BBLOCK (unat b) (fsb s)"
  from ok obtain sb' s0 where r0: "readsb 1 s = Ok (sb', s0)" by (auto simp: bfree_def res_simps)
  note R = readsb_changes [OF inv r0]
  have sbe: "sb' = fsb s" using R(1) sb by simp
  have same: "s0\<lparr>fsb := fsb s\<rparr> = s0" using more_fs(1) [OF R(4)] by simp
  from ok obtain i s1 s2 where r: "bread 1 ?B s0 = Ok (i, s1)"
    "b_data (bufs s1 i) (unat b mod BPB div 8) AND bmask (unat b mod BPB) \<noteq> 0"
    "log_write i (set_data i (unmark (unat b) (b_data (bufs s1 i))) s1) = Ok s2" "brelse i s2 = Ok s'"
    using more_fs(1) [OF R(4)]
    by (auto simp: bfree_def r0 same sbe res_simps Let_def unmark_def split: if_splits)
  note B = bread_changes [OF changesD(1) [OF R(2)] r(1)]
  have d: "b_data (bufs s1 i) = view s ?B" using B(4) R(3) by simp
  note C = close_rw [OF changesD(1) [OF R(2)] r(1) changes_refl [OF changesD(1) [OF B(1)], of "{}"] r(3,4)]
  show "used (fsb s) (view s) (unat b)" using r(2) d by (simp add: used_def)
  show "changes {?B} s s'" using changes_trans [OF R(2) C(1)] by simp
  show "view s' = (view s)(?B := unmark (unat b) (view s ?B))" using C(2) B(6) R(3) d by simp
  show "kstate.more s' = kstate.more s" using C(3) B(7) R(4) by simp
qed

text \<open>
  Layout of the disk: \<open>mkfs\<close> puts the boot block, superblock, log, inodes and bitmap below the data.
  Every block below \<open>datastart\<close> is marked in use.
\<close>

definition datastart :: "superblock \<Rightarrow> nat" where
  "datastart sb = unat (sb_bmapstart sb) + unat (sb_size sb) div BPB + 1"

definition map_ok :: "superblock \<Rightarrow> (u32 \<Rightarrow> bytes) \<Rightarrow> bool" where
  "map_ok sb v \<longleftrightarrow> datastart sb \<le> unat (sb_size sb) \<and> decode_sb (v 1) = sb \<and> 1 < unat (sb_bmapstart sb) \<and>
     (\<forall>b<datastart sb. used sb v b)"

lemma unat_BBLOCK:
  assumes "map_ok sb v" "b \<le> unat (sb_size sb)"
  shows "unat (BBLOCK b sb) = b div BPB + unat (sb_bmapstart sb)" "unat (BBLOCK b sb) < datastart sb"
proof -
  have le: "b div BPB \<le> unat (sb_size sb) div BPB" using assms(2) by (rule div_le_mono)
  then have "b div BPB + unat (sb_bmapstart sb) < 2 ^ 32"
    using assms(1) unat_u32_lt [of "sb_size sb"] by (auto simp: map_ok_def datastart_def)
  then show "unat (BBLOCK b sb) = b div BPB + unat (sb_bmapstart sb)"
    using unat_of_nat_u32 [of "b div BPB + unat (sb_bmapstart sb)"] by (simp add: BBLOCK_def)
  with le show "unat (BBLOCK b sb) < datastart sb" by (simp add: datastart_def)
qed

text \<open>A block changed by the allocator is a bitmap block or the block itself.\<close>

lemma used_cong:
  assumes "v' (BBLOCK b sb) = v (BBLOCK b sb)"
  shows "used sb v' b = used sb v b"
  using assms by (simp add: used_def)

lemma balloc_map:
  fixes s :: "'a fstate_scheme"
  assumes inv: "bio_inv s" and ok: "balloc 1 s = Ok (a, s')" and m: "map_ok (fsb s) (view s)"
  shows "datastart (fsb s) \<le> unat a" "a < sb_size (fsb s)" "view s' a = (\<lambda>_. 0)"
    "\<And>b. b \<noteq> a \<Longrightarrow> datastart (fsb s) \<le> unat b \<Longrightarrow> view s' b = view s b"
    "\<And>b. b < unat (sb_size (fsb s)) \<Longrightarrow> used (fsb s) (view s') b \<longleftrightarrow> used (fsb s) (view s) b \<or> b = unat a"
    "map_ok (fsb s) (view s')" "\<And>b. unat b < unat (sb_bmapstart (fsb s)) \<Longrightarrow> view s' b = view s b"
proof -
  let ?sb = "fsb s" let ?v = "view s" let ?B = "BBLOCK (unat a) ?sb"
  note A = balloc_spec [OF inv ok]
  show lt: "a < sb_size ?sb" by (rule A(1))
  show ds: "datastart ?sb \<le> unat a" using m A(2) by (meson linorder_not_le map_ok_def)
  show "view s' a = (\<lambda>_. 0)" by (simp add: A(5))
  have sz: "unat (sb_size ?sb) < 2 ^ 32" by (rule unat_u32_lt)
  have ua: "unat a \<le> unat (sb_size ?sb)" using lt by (simp add: word_less_nat_alt)
  have BB: "unat (BBLOCK b ?sb) < datastart ?sb" if "b \<le> unat (sb_size ?sb)" for b
    by (rule unat_BBLOCK(2) [OF m that])
  show "view s' b = ?v b" if "b \<noteq> a" "datastart ?sb \<le> unat b" for b
    using that BB [OF ua] by (auto simp: A(5))
  show low: "view s' b = ?v b" if b: "unat b < unat (sb_bmapstart ?sb)" for b
  proof -
    have "b \<noteq> a" using b ds by (auto simp: datastart_def)
    moreover have "b \<noteq> ?B" using b unat_BBLOCK(1) [OF m ua] by auto
    ultimately show ?thesis by (simp add: A(5))
  qed
  show us: "used ?sb (view s') b \<longleftrightarrow> used ?sb ?v b \<or> b = unat a" if b: "b < unat (sb_size ?sb)" for b
  proof -
    have "BBLOCK b ?sb \<noteq> a" using BB [of b] b ds by auto
    then have "used ?sb (view s') b = used ?sb (?v(?B := mark (unat a) (?v ?B))) b"
      by (intro used_cong) (simp add: A(5))
    moreover have "unat a < 2 ^ 32" "b < 2 ^ 32" using ua b sz by auto
    ultimately show ?thesis using used_mark(1) by blast
  qed
  have "view s' 1 = ?v 1" using m by (intro low) (simp add: map_ok_def)
  then show "map_ok ?sb (view s')" using m us by (auto simp: map_ok_def)
qed

lemma bfree_map:
  fixes s :: "'a fstate_scheme"
  assumes inv: "bio_inv s" and ok: "bfree 1 a s = Ok s'" and m: "map_ok (fsb s) (view s)"
    and a: "datastart (fsb s) \<le> unat a" "a < sb_size (fsb s)"
  shows "\<And>b. datastart (fsb s) \<le> unat b \<Longrightarrow> view s' b = view s b"
    "\<And>b. b < unat (sb_size (fsb s)) \<Longrightarrow> used (fsb s) (view s') b \<longleftrightarrow> used (fsb s) (view s) b \<and> b \<noteq> unat a"
    "map_ok (fsb s) (view s')" "\<And>b. unat b < unat (sb_bmapstart (fsb s)) \<Longrightarrow> view s' b = view s b"
proof -
  let ?sb = "fsb s" let ?v = "view s" let ?B = "BBLOCK (unat a) ?sb"
  have sbd: "?sb = decode_sb (?v 1)" using m by (simp add: map_ok_def)
  note F = bfree_spec [OF inv sbd ok]
  have ua: "unat a \<le> unat (sb_size ?sb)" using a(2) by (simp add: word_less_nat_alt)
  have sz: "unat (sb_size ?sb) < 2 ^ 32" by (rule unat_u32_lt)
  have BB: "unat ?B < datastart ?sb" by (rule unat_BBLOCK(2) [OF m ua])
  show "view s' b = ?v b" if "datastart ?sb \<le> unat b" for b
    using that BB by (auto simp: F(3))
  show low: "view s' b = ?v b" if b: "unat b < unat (sb_bmapstart ?sb)" for b
    using b unat_BBLOCK(1) [OF m ua] by (auto simp: F(3))
  show us: "used ?sb (view s') b \<longleftrightarrow> used ?sb ?v b \<and> b \<noteq> unat a" if "b < unat (sb_size ?sb)" for b
    unfolding F(3) using used_mark(2) [of "unat a" b ?sb ?v] that ua sz by simp
  have "view s' 1 = ?v 1" using m by (intro low) (simp add: map_ok_def)
  then show "map_ok ?sb (view s')" using m us a(1) by (auto simp: map_ok_def)
qed

end
