(* ===== verification/Fs_Inode.thy ===== *)
theory Fs_Inode
  imports Fs_Blocks
begin

text \<open>
  Inodes (\<open>fs.c\<close>): the on-disk inode and its codec, the inode cache with its reference counts and
  locks, the block tree of a file (direct, single indirect and, an addition of this kernel, double
  indirect), truncation, and reading and writing file contents.

  What is shown is in \<open>Fs_File\<close>; this theory has the operations, the codec and the cache.
\<close>

section \<open>On-disk inodes\<close>

definition IPB :: nat where [layout_simps]: "IPB = 8"
definition NADDRS :: nat where [layout_simps]: "NADDRS = NDIRECT + 1 + 1"
definition T_DIR :: u16 where "T_DIR = 1"
definition T_FILE :: u16 where "T_FILE = 2"
definition T_DEV :: u16 where "T_DEV = 3"
definition NDEV :: int where "NDEV = 10"

record dinode =
  d_type :: u16
  d_major :: u16
  d_minor :: u16
  d_nlink :: u16
  d_size :: u32
  d_addrs :: "u32 list"

definition IBLOCK :: "u32 \<Rightarrow> superblock \<Rightarrow> u32" where
  "IBLOCK i sb = i div 8 + sb_inodestart sb"

definition dip_off :: "u32 \<Rightarrow> nat" where
  "dip_off inum = 64 * (unat inum mod IPB)"

definition decode_dinode :: "nat \<Rightarrow> bytes \<Rightarrow> dinode" where
  "decode_dinode p d = \<lparr>d_type = ld16 d p, d_major = ld16 d (p + 2), d_minor = ld16 d (p + 4),
     d_nlink = ld16 d (p + 6), d_size = ld32 d (p + 8),
     d_addrs = map (\<lambda>i. ld32 d (p + 12 + 4 * i)) [0..<NADDRS]\<rparr>"

definition encode_dinode :: "dinode \<Rightarrow> nat \<Rightarrow> bytes \<Rightarrow> bytes" where
  "encode_dinode di p d =
     fold (\<lambda>i d. st32 d (p + 12 + 4 * i) (d_addrs di ! i)) [0..<NADDRS]
       (st32 (st16 (st16 (st16 (st16 d p (d_type di)) (p + 2) (d_major di)) (p + 4) (d_minor di))
         (p + 6) (d_nlink di)) (p + 8) (d_size di))"

definition load_dinode :: "dinode \<Rightarrow> inode \<Rightarrow> inode" where
  "load_dinode di ip = ip\<lparr>i_type := d_type di, i_major := d_major di, i_minor := d_minor di,
     i_nlink := d_nlink di, i_size := d_size di, i_addrs := d_addrs di\<rparr>"

definition to_dinode :: "inode \<Rightarrow> dinode" where
  "to_dinode ip = \<lparr>d_type = i_type ip, d_major = i_major ip, d_minor = i_minor ip,
     d_nlink = i_nlink ip, d_size = i_size ip, d_addrs = i_addrs ip\<rparr>"

section \<open>The inode cache\<close>

definition upd_inode :: "nat \<Rightarrow> (inode \<Rightarrow> inode) \<Rightarrow> 'a fstate_scheme \<Rightarrow> 'a fstate_scheme" where
  "upd_inode ip f s = s\<lparr>icache := (icache s)(ip := f (icache s ip))\<rparr>"

definition iinit :: "u32 \<Rightarrow> 'a fstate_scheme \<Rightarrow> 'a fstate_scheme res" where
  "iinit dv s =
     (let s = s\<lparr>icache := (\<lambda>i. if i < NINODE then (icache s i)\<lparr>i_lock := initsleeplock\<rparr> else icache s i)\<rparr> in
      bnd (readsb dv s) (\<lambda>(sb, s).
      Ok (s\<lparr>fsb := sb\<rparr>)))"

definition iget :: "u32 \<Rightarrow> u32 \<Rightarrow> 'a fstate_scheme \<Rightarrow> (nat \<times> 'a fstate_scheme) res" where
  "iget dv inum s =
     (case List.find (\<lambda>i. 0 < i_ref (icache s i) \<and> i_dev (icache s i) = dv \<and> i_inum (icache s i) = inum)
            [0..<NINODE] of
        Some i \<Rightarrow> Ok (i, upd_inode i (\<lambda>x. x\<lparr>i_ref := i_ref x + 1\<rparr>) s)
      | None \<Rightarrow>
          (case List.find (\<lambda>i. i_ref (icache s i) = 0) [0..<NINODE] of
             None \<Rightarrow> Panic ''iget: no inodes''
           | Some i \<Rightarrow> Ok (i, upd_inode i (\<lambda>x. x\<lparr>i_dev := dv, i_inum := inum, i_ref := 1, i_valid := False\<rparr>) s)))"

definition idup :: "nat \<Rightarrow> 'a fstate_scheme \<Rightarrow> 'a fstate_scheme" where
  "idup ip s = upd_inode ip (\<lambda>x. x\<lparr>i_ref := i_ref x + 1\<rparr>) s"

fun ialloc_from :: "u32 \<Rightarrow> u16 \<Rightarrow> nat \<Rightarrow> nat \<Rightarrow> 'a fstate_scheme \<Rightarrow> (nat \<times> 'a fstate_scheme) res" where
  "ialloc_from dv ty inum 0 s = Panic ''ialloc: no inodes''"
| "ialloc_from dv ty inum (Suc k) s =
     bnd (bread dv (IBLOCK (of_nat inum) (fsb s)) s) (\<lambda>(bp, s).
     let d = b_data (bufs s bp); p = dip_off (of_nat inum) in
     if d_type (decode_dinode p d) = 0 then
       let s = set_data bp (st16 (\<lambda>j. if p \<le> j \<and> j < p + 64 then 0 else d j) p ty) s in
       bnd (log_write bp s) (\<lambda>s.
       bnd (brelse bp s) (\<lambda>s.
       iget dv (of_nat inum) s))
     else
       bnd (brelse bp s) (\<lambda>s.
       ialloc_from dv ty (Suc inum) k s))"

definition ialloc :: "u32 \<Rightarrow> u16 \<Rightarrow> 'a fstate_scheme \<Rightarrow> (nat \<times> 'a fstate_scheme) res" where
  "ialloc dv ty s = ialloc_from dv ty 1 (unat (sb_ninodes (fsb s)) - 1) s"

definition iupdate :: "nat \<Rightarrow> 'a fstate_scheme \<Rightarrow> 'a fstate_scheme res" where
  "iupdate ip s =
     bnd (bread (i_dev (icache s ip)) (IBLOCK (i_inum (icache s ip)) (fsb s)) s) (\<lambda>(bp, s).
     let s = set_data bp (encode_dinode (to_dinode (icache s ip)) (dip_off (i_inum (icache s ip)))
               (b_data (bufs s bp))) s in
     bnd (log_write bp s) (\<lambda>s.
     brelse bp s))"

definition ilock :: "nat \<Rightarrow> 'a fstate_scheme \<Rightarrow> 'a fstate_scheme res" where
  "ilock ip s =
     (if i_ref (icache s ip) < 1 then Panic ''ilock''
      else bnd (acquiresleep (mypid s) (i_lock (icache s ip))) (\<lambda>lk.
        let s = upd_inode ip (\<lambda>x. x\<lparr>i_lock := lk\<rparr>) s in
        if \<not> i_valid (icache s ip) then
          bnd (bread (i_dev (icache s ip)) (IBLOCK (i_inum (icache s ip)) (fsb s)) s) (\<lambda>(bp, s).
          let di = decode_dinode (dip_off (i_inum (icache s ip))) (b_data (bufs s bp));
              s = upd_inode ip (load_dinode di) s in
          bnd (brelse bp s) (\<lambda>s.
          let s = upd_inode ip (\<lambda>x. x\<lparr>i_valid := True\<rparr>) s in
          if i_type (icache s ip) = 0 then Panic ''ilock: no type'' else Ok s))
        else Ok s))"

definition iunlock :: "nat \<Rightarrow> 'a fstate_scheme \<Rightarrow> 'a fstate_scheme res" where
  "iunlock ip s =
     (if \<not> holdingsleep (mypid s) (i_lock (icache s ip)) \<or> i_ref (icache s ip) < 1 then Panic ''iunlock''
      else Ok (upd_inode ip (\<lambda>x. x\<lparr>i_lock := releasesleep (i_lock x)\<rparr>) s))"

section \<open>The block tree\<close>

text \<open>\<open>if((addr = ip->addrs[k]) == 0) ip->addrs[k] = addr = balloc(ip->dev)\<close>\<close>

definition bmap_root :: "nat \<Rightarrow> nat \<Rightarrow> 'a fstate_scheme \<Rightarrow> (u32 \<times> 'a fstate_scheme) res" where
  "bmap_root ip k s =
     (let addr = i_addrs (icache s ip) ! k in
      if addr = 0 then
        bnd (balloc (i_dev (icache s ip)) s) (\<lambda>(addr, s).
        Ok (addr, upd_inode ip (\<lambda>x. x\<lparr>i_addrs := (i_addrs x)[k := addr]\<rparr>) s))
      else Ok (addr, s))"

text \<open>Entry \<open>j\<close> of the index block \<open>addr\<close>, allocated if it is empty.\<close>

definition bmap_entry :: "u32 \<Rightarrow> u32 \<Rightarrow> nat \<Rightarrow> 'a fstate_scheme \<Rightarrow> (u32 \<times> 'a fstate_scheme) res" where
  "bmap_entry dv addr j s =
     bnd (bread dv addr s) (\<lambda>(bp, s).
     let addr = get_u32 (b_data (bufs s bp)) j in
     bnd (if addr = 0 then
            bnd (balloc dv s) (\<lambda>(addr, s).
            let s = set_data bp (set_u32 (b_data (bufs s bp)) j addr) s in
            bnd (log_write bp s) (\<lambda>s.
            Ok (addr, s)))
          else Ok (addr, s)) (\<lambda>(addr, s).
     bnd (brelse bp s) (\<lambda>s.
     Ok (addr, s))))"

definition bmap :: "nat \<Rightarrow> nat \<Rightarrow> 'a fstate_scheme \<Rightarrow> (u32 \<times> 'a fstate_scheme) res" where
  "bmap ip bn s =
     (let dv = i_dev (icache s ip) in
      if bn < NDIRECT then bmap_root ip bn s
      else let bn = bn - NDIRECT in
      if bn < NINDIRECT then
        bnd (bmap_root ip NDIRECT s) (\<lambda>(addr, s).
        bmap_entry dv addr bn s)
      else let bn = bn - NINDIRECT in
      if bn < NINDIRECT * NINDIRECT then
        bnd (bmap_root ip (NDIRECT + 1) s) (\<lambda>(addr, s).
        bnd (bmap_entry dv addr (bn div NINDIRECT) s) (\<lambda>(addr, s).
        bmap_entry dv addr (bn mod NINDIRECT) s))
      else Panic ''bmap: out of range'')"

definition free_entries :: "u32 \<Rightarrow> nat \<Rightarrow> 'a fstate_scheme \<Rightarrow> 'a fstate_scheme res" where
  "free_entries dv bp s =
     foreach (\<lambda>j s. let a = get_u32 (b_data (bufs s bp)) j in if a \<noteq> 0 then bfree dv a s else Ok s)
       [0..<NINDIRECT] s"

definition free_indirect :: "u32 \<Rightarrow> u32 \<Rightarrow> 'a fstate_scheme \<Rightarrow> 'a fstate_scheme res" where
  "free_indirect dv a s =
     bnd (bread dv a s) (\<lambda>(bp, s).
     bnd (free_entries dv bp s) (\<lambda>s.
     bnd (brelse bp s) (\<lambda>s.
     bfree dv a s)))"

definition free_double :: "u32 \<Rightarrow> u32 \<Rightarrow> 'a fstate_scheme \<Rightarrow> 'a fstate_scheme res" where
  "free_double dv a s =
     bnd (bread dv a s) (\<lambda>(bp, s).
     bnd (foreach (\<lambda>k s. let a = get_u32 (b_data (bufs s bp)) k in
            if a \<noteq> 0 then free_indirect dv a s else Ok s) [0..<NINDIRECT] s) (\<lambda>s.
     bnd (brelse bp s) (\<lambda>s.
     bfree dv a s)))"

text \<open>Freeing what hangs off \<open>ip->addrs[k]\<close>, when there is anything, and clearing the entry.\<close>

definition trunc_root ::
    "(u32 \<Rightarrow> 'a fstate_scheme \<Rightarrow> 'a fstate_scheme res) \<Rightarrow> nat \<Rightarrow> nat \<Rightarrow> 'a fstate_scheme \<Rightarrow> 'a fstate_scheme res" where
  "trunc_root fr ip k s =
     (let a = i_addrs (icache s ip) ! k in
      if a \<noteq> 0 then
        bnd (fr a s) (\<lambda>s.
        Ok (upd_inode ip (\<lambda>x. x\<lparr>i_addrs := (i_addrs x)[k := 0]\<rparr>) s))
      else Ok s)"

definition itrunc :: "nat \<Rightarrow> 'a fstate_scheme \<Rightarrow> 'a fstate_scheme res" where
  "itrunc ip s =
     (let dv = i_dev (icache s ip) in
      bnd (foreach (trunc_root (bfree dv) ip) [0..<NDIRECT] s) (\<lambda>s.
      bnd (trunc_root (free_indirect dv) ip NDIRECT s) (\<lambda>s.
      bnd (trunc_root (free_double dv) ip (NDIRECT + 1) s) (\<lambda>s.
      iupdate ip (upd_inode ip (\<lambda>x. x\<lparr>i_size := 0\<rparr>) s)))))"

definition iput :: "nat \<Rightarrow> 'a fstate_scheme \<Rightarrow> 'a fstate_scheme res" where
  "iput ip s =
     bnd (acquiresleep (mypid s) (i_lock (icache s ip))) (\<lambda>lk.
     let s = upd_inode ip (\<lambda>x. x\<lparr>i_lock := lk\<rparr>) s in
     bnd (if i_valid (icache s ip) \<and> i_nlink (icache s ip) = 0 \<and> i_ref (icache s ip) = 1 then
            bnd (itrunc ip s) (\<lambda>s.
            bnd (iupdate ip (upd_inode ip (\<lambda>x. x\<lparr>i_type := 0\<rparr>) s)) (\<lambda>s.
            Ok (upd_inode ip (\<lambda>x. x\<lparr>i_valid := False\<rparr>) s)))
          else Ok s) (\<lambda>s.
     let s = upd_inode ip (\<lambda>x. x\<lparr>i_lock := releasesleep (i_lock x)\<rparr>) s in
     Ok (upd_inode ip (\<lambda>x. x\<lparr>i_ref := i_ref x - 1\<rparr>) s)))"

definition iunlockput :: "nat \<Rightarrow> 'a fstate_scheme \<Rightarrow> 'a fstate_scheme res" where
  "iunlockput ip s = bnd (iunlock ip s) (iput ip)"

section \<open>Reading and writing contents\<close>

record stat =
  st_type :: u16
  st_dev :: u32
  st_ino :: u32
  st_nlink :: u16
  st_size :: u32

definition stati :: "nat \<Rightarrow> 'a fstate_scheme \<Rightarrow> stat" where
  "stati ip s = (let i = icache s ip in
     \<lparr>st_type = i_type i, st_dev = i_dev i, st_ino = i_inum i, st_nlink = i_nlink i, st_size = i_size i\<rparr>)"

text \<open>
  The device switch \<open>devsw\<close> is a table of function pointers filled at run time; it is a parameter of
  the operations that consult it. A reader returns the result and the bytes put at \<open>dst\<close>; a
  source buffer is a function from offsets to bytes.
\<close>

type_synonym 's dev_read = "nat \<Rightarrow> (nat \<Rightarrow> u32 \<Rightarrow> 's \<Rightarrow> (int \<times> u8 list \<times> 's) res) option"
type_synonym 's dev_write = "nat \<Rightarrow> (nat \<Rightarrow> bytes \<Rightarrow> u32 \<Rightarrow> 's \<Rightarrow> (int \<times> 's) res) option"

definition chunk :: "nat \<Rightarrow> nat \<Rightarrow> nat" where
  "chunk off rem = min rem (BSIZE - off mod BSIZE)"

lemma chunk_pos: "0 < rem \<Longrightarrow> 0 < chunk off rem"
  by (simp add: chunk_def layout_simps)

lemma chunk_le: "chunk off rem \<le> rem"
  by (simp add: chunk_def)

function readi_loop :: "nat \<Rightarrow> nat \<Rightarrow> nat \<Rightarrow> 'a fstate_scheme \<Rightarrow> (u8 list \<times> 'a fstate_scheme) res" where
  "readi_loop ip off rem s =
     (if rem = 0 then Ok ([], s)
      else
        bnd (bmap ip (off div BSIZE) s) (\<lambda>(addr, s).
        bnd (bread (i_dev (icache s ip)) addr s) (\<lambda>(bp, s).
        let m = chunk off rem;
            bs = map (b_data (bufs s bp)) [off mod BSIZE..<off mod BSIZE + m] in
        bnd (brelse bp s) (\<lambda>s.
        bnd (readi_loop ip (off + m) (rem - m) s) (\<lambda>(bs', s).
        Ok (bs @ bs', s))))))"
  by pat_completeness auto
termination by (relation "measure (\<lambda>(ip, off, rem, s). rem)") (auto simp: chunk_pos)

declare readi_loop.simps [simp del]

definition readi :: "'a fstate_scheme dev_read \<Rightarrow> nat \<Rightarrow> u32 \<Rightarrow> u32 \<Rightarrow> 'a fstate_scheme \<Rightarrow>
    (int \<times> u8 list \<times> 'a fstate_scheme) res" where
  "readi dr ip off n s =
     (let i = icache s ip in
      if i_type i = T_DEV then
        (if sint (i_major i) < 0 \<or> NDEV \<le> sint (i_major i) then Ok (-1, [], s)
         else (case dr (nat (sint (i_major i))) of
             None \<Rightarrow> Ok (-1, [], s)
           | Some rd \<Rightarrow> rd ip n s))
      else if i_size i < off \<or> off + n < off then Ok (-1, [], s)
      else
        let n = (if i_size i < off + n then i_size i - off else n) in
        bnd (readi_loop ip (unat off) (unat n) s) (\<lambda>(bs, s).
        Ok (sint n, bs, s)))"

function writei_loop :: "nat \<Rightarrow> bytes \<Rightarrow> nat \<Rightarrow> nat \<Rightarrow> nat \<Rightarrow> 'a fstate_scheme \<Rightarrow> 'a fstate_scheme res" where
  "writei_loop ip src pos off rem s =
     (if rem = 0 then Ok s
      else
        bnd (bmap ip (off div BSIZE) s) (\<lambda>(addr, s).
        bnd (bread (i_dev (icache s ip)) addr s) (\<lambda>(bp, s).
        let m = chunk off rem;
            s = set_data bp (blit (b_data (bufs s bp)) (off mod BSIZE) src pos m) s in
        bnd (log_write bp s) (\<lambda>s.
        bnd (brelse bp s) (\<lambda>s.
        writei_loop ip src (pos + m) (off + m) (rem - m) s)))))"
  by pat_completeness auto
termination by (relation "measure (\<lambda>(ip, src, pos, off, rem, s). rem)") (auto simp: chunk_pos)

declare writei_loop.simps [simp del]

definition writei :: "'a fstate_scheme dev_write \<Rightarrow> nat \<Rightarrow> bytes \<Rightarrow> u32 \<Rightarrow> u32 \<Rightarrow> 'a fstate_scheme \<Rightarrow>
    (int \<times> 'a fstate_scheme) res" where
  "writei dw ip src off n s =
     (let i = icache s ip in
      if i_type i = T_DEV then
        (if sint (i_major i) < 0 \<or> NDEV \<le> sint (i_major i) then Ok (-1, s)
         else (case dw (nat (sint (i_major i))) of
             None \<Rightarrow> Ok (-1, s)
           | Some wr \<Rightarrow> wr ip src n s))
      else if i_size i < off \<or> off + n < off then Ok (-1, s)
      else if of_nat (MAXFILE * BSIZE) < off + n then Ok (-1, s)
      else
        bnd (writei_loop ip src 0 (unat off) (unat n) s) (\<lambda>s.
        if 0 < n \<and> i_size (icache s ip) < off + n then
          bnd (iupdate ip (upd_inode ip (\<lambda>x. x\<lparr>i_size := off + n\<rparr>) s)) (\<lambda>s.
          Ok (sint n, s))
        else Ok (sint n, s)))"

section \<open>The codec of on-disk inodes\<close>

lemma addrs_fold:
  "ld32 (fold (\<lambda>i d. st32 d (p + 4 * i) (as ! i)) [0..<n] d) (p + 4 * j) =
     (if j < n then as ! j else ld32 d (p + 4 * j))"
proof (induction n)
  case (Suc n)
  have "p + 4 * n + 4 \<le> p + 4 * j \<or> p + 4 * j + 4 \<le> p + 4 * n" if "j \<noteq> n" using that by auto
  then show ?case using Suc by (cases "j = n") (auto simp: ld32_st32_other)
qed simp

lemma addrs_fold_other:
  assumes "q < p \<or> p + 4 * n \<le> q"
  shows "fold (\<lambda>i d. st32 d (p + 4 * i) (as ! i)) [0..<n] d q = d q"
  using assms by (induction n) (auto simp: st32_def)

lemma ld16_cong: "d p = d' p \<Longrightarrow> d (p + 1) = d' (p + 1) \<Longrightarrow> ld16 d p = ld16 d' p"
  by (simp add: ld16_def)

lemma decode_encode_dinode:
  assumes "length (d_addrs di) = NADDRS"
  shows "decode_dinode p (encode_dinode di p d) = di"
proof -
  let ?h = "st32 (st16 (st16 (st16 (st16 d p (d_type di)) (p + 2) (d_major di)) (p + 4) (d_minor di))
         (p + 6) (d_nlink di)) (p + 8) (d_size di)"
  let ?e = "encode_dinode di p d"
  have low: "?e q = ?h q" if "q < p + 12" for q
    using addrs_fold_other [of q "p + 12"] that by (simp add: encode_dinode_def add.assoc)
  have "ld16 ?e q = ld16 ?h q" if "q + 1 < p + 12" for q using that by (intro ld16_cong low) auto
  then have "ld16 ?e p = d_type di" "ld16 ?e (p + 2) = d_major di" "ld16 ?e (p + 4) = d_minor di"
    "ld16 ?e (p + 6) = d_nlink di" by (simp_all add: field_simps_mem)
  moreover have "ld32 ?e (p + 8) = d_size di"
    using ld32_cong [of "p + 8" ?e ?h] low by (simp add: field_simps_mem)
  moreover have "map (\<lambda>i. ld32 ?e (p + 12 + 4 * i)) [0..<NADDRS] = d_addrs di"
    using assms addrs_fold [of "p + 12"] by (intro nth_equalityI) (simp_all add: encode_dinode_def)
  ultimately show ?thesis by (simp add: decode_dinode_def)
qed

lemma encode_dinode_outside: "q < p \<or> p + 64 \<le> q \<Longrightarrow> encode_dinode di p d q = d q"
proof -
  assume q: "q < p \<or> p + 64 \<le> q"
  have "q < p + 12 \<or> p + 12 + 4 * NADDRS \<le> q" using q by (auto simp: layout_simps)
  from addrs_fold_other [OF this] q show ?thesis
    unfolding encode_dinode_def by (auto simp: field_simps_mem add.assoc)
qed

lemma decode_dinode_cong:
  assumes "\<And>q. p \<le> q \<Longrightarrow> q < p + 64 \<Longrightarrow> d q = d' q"
  shows "decode_dinode p d = decode_dinode p d'"
proof -
  have "ld16 d (p + k) = ld16 d' (p + k)" if "k < 63" for k using assms that by (intro ld16_cong) auto
  from this [of 0] this [of 2] this [of 4] this [of 6]
  have "ld16 d p = ld16 d' p" "ld16 d (p + 2) = ld16 d' (p + 2)" "ld16 d (p + 4) = ld16 d' (p + 4)"
    "ld16 d (p + 6) = ld16 d' (p + 6)" by simp_all
  moreover have "ld32 d (p + k) = ld32 d' (p + k)" if "k < 61" for k using assms that by (intro ld32_cong) auto
  then have "ld32 d (p + 8) = ld32 d' (p + 8)"
    "map (\<lambda>i. ld32 d (p + 12 + 4 * i)) [0..<NADDRS] = map (\<lambda>i. ld32 d' (p + 12 + 4 * i)) [0..<NADDRS]"
    by (auto simp: layout_simps add.assoc)
  ultimately show ?thesis by (simp add: decode_dinode_def)
qed

text \<open>Two inodes of one block do not overlap.\<close>

lemma decode_encode_other:
  assumes "dip_off j \<noteq> dip_off i"
  shows "decode_dinode (dip_off j) (encode_dinode di (dip_off i) d) = decode_dinode (dip_off j) d"
proof (rule decode_dinode_cong)
  fix q assume "dip_off j \<le> q" "q < dip_off j + 64"
  moreover have "64 * a \<le> q \<Longrightarrow> q < 64 * a + 64 \<Longrightarrow> 64 * a \<noteq> 64 * b \<Longrightarrow> q < 64 * b \<or> 64 * b + 64 \<le> q"
    for a b :: nat by (cases a b rule: linorder_cases) auto
  ultimately have "q < dip_off i \<or> dip_off i + 64 \<le> q"
    using assms unfolding dip_off_def by blast
  then show "encode_dinode di (dip_off i) d q = d q" by (rule encode_dinode_outside)
qed

section \<open>Contracts of the simple inode operations\<close>

lemma icache_update_frame [simp]:
  "bio_inv (icache_update f s) = bio_inv s" "held (icache_update f s) i b = held s i b"
  "synced (icache_update f s) i = synced s i" "view (icache_update f s) = view s"
  "dirty_blocks (icache_update f s) = dirty_blocks s" "log_inv (icache_update f s) = log_inv s"
  by (simp_all add: bio_inv_def cache_ok_def held_def synced_def fun_eq_iff view_def dirty_blocks_def
      log_inv_def cong: option.case_cong)

lemma changes_icache [simp]:
  "changes M s (icache_update f s') = changes M s s'"
  "changes M (icache_update f s) s' = changes M s s'"
  by (simp_all add: changes_def home_def)

lemma upd_inode_frame [simp]:
  "bio_inv (upd_inode ip f s) = bio_inv s" "held (upd_inode ip f s) i b = held s i b"
  "synced (upd_inode ip f s) i = synced s i" "view (upd_inode ip f s) = view s"
  "changes M s0 (upd_inode ip f s) = changes M s0 s" "changes M (upd_inode ip f s) s0 = changes M s s0"
  "fsb (upd_inode ip f s) = fsb s" "icache (upd_inode ip f s) = (icache s)(ip := f (icache s ip))"
  "fstate.more (upd_inode ip f s) = fstate.more s" "bufs (upd_inode ip f s) = bufs s"
  "mypid (upd_inode ip f s) = mypid s" "klog (upd_inode ip f s) = klog s" "disksize (upd_inode ip f s) = disksize s"
  by (simp_all add: upd_inode_def)

lemma more_fsI:
  assumes "fsb s' = fsb s" "icache s' = icache s" "fstate.more s' = fstate.more s"
  shows "kstate.more s' = kstate.more s"
  using assms by (cases s; cases s') simp

lemma iupdate_spec:
  fixes s :: "'a fstate_scheme"
  assumes inv: "bio_inv s" and dev: "i_dev (icache s ip) = 1" and ok: "iupdate ip s = Ok s'"
  defines "ib \<equiv> IBLOCK (i_inum (icache s ip)) (fsb s)"
  shows "changes {ib} s s'" "kstate.more s' = kstate.more s"
    "view s' = (view s)(ib := encode_dinode (to_dinode (icache s ip)) (dip_off (i_inum (icache s ip))) (view s ib))"
proof -
  from ok dev obtain i s1 where r: "bread 1 ib s = Ok (i, s1)" by (auto simp: iupdate_def ib_def res_simps)
  note B = bread_changes [OF inv r] note F = more_fs [OF B(7)]
  from ok dev r obtain s2 where w: "log_write i (set_data i (encode_dinode (to_dinode (icache s ip))
      (dip_off (i_inum (icache s ip))) (view s ib)) s1) = Ok s2" "brelse i s2 = Ok s'"
    by (auto simp: iupdate_def ib_def res_simps Let_def F B(4))
  note C = close_rw [OF inv r changes_refl [OF changesD(1) [OF B(1)], of "{}"] w]
  show "changes {ib} s s'" "kstate.more s' = kstate.more s"
    "view s' = (view s)(ib := encode_dinode (to_dinode (icache s ip)) (dip_off (i_inum (icache s ip))) (view s ib))"
    using C B(6,7) by simp_all
qed

lemma ilock_spec:
  fixes s :: "'a fstate_scheme"
  assumes inv: "bio_inv s" and dev: "i_dev (icache s ip) = 1" and ok: "ilock ip s = Ok s'"
  defines "x \<equiv> icache s ip"
  defines "x' \<equiv> (if i_valid x then x
    else load_dinode (decode_dinode (dip_off (i_inum x)) (view s (IBLOCK (i_inum x) (fsb s)))) x)"
  shows "changes {} s s'" "view s' = view s" "fsb s' = fsb s" "fstate.more s' = fstate.more s" "1 \<le> i_ref x"
    "\<not> sl_locked (i_lock x)" "i_valid x \<or> i_type x' \<noteq> 0"
    "icache s' = (icache s)(ip := x'\<lparr>i_lock := \<lparr>sl_locked = True, sl_pid = mypid s\<rparr>, i_valid := True\<rparr>)"
proof -
  let ?lk = "\<lparr>sl_locked = True, sl_pid = mypid s\<rparr>"
  let ?s0 = "upd_inode ip (\<lambda>x. x\<lparr>i_lock := ?lk\<rparr>) s"
  from ok show ref: "1 \<le> i_ref x" and free: "\<not> sl_locked (i_lock x)"
    by (auto simp: ilock_def x_def acquiresleep_def res_simps split: if_splits)
  have aq: "acquiresleep (mypid s) (i_lock x) = Ok ?lk" using free by (simp add: acquiresleep_def)
  have "changes {} s s' \<and> view s' = view s \<and> fsb s' = fsb s \<and> fstate.more s' = fstate.more s \<and>
    (i_valid x \<or> i_type x' \<noteq> 0) \<and> icache s' = (icache s)(ip := x'\<lparr>i_lock := ?lk, i_valid := True\<rparr>)"
  proof (cases "i_valid x")
    case True
    then have "s' = ?s0" using ok ref aq by (simp add: ilock_def x_def [symmetric] Let_def)
    moreover have v: "x\<lparr>i_lock := ?lk, i_valid := True\<rparr> = x\<lparr>i_lock := ?lk\<rparr>" using True by (cases x) simp
    ultimately show ?thesis using True inv by (simp add: x'_def changes_refl v) (simp add: x_def)
  next
    case False
    let ?ib = "IBLOCK (i_inum x) (fsb s)"
    from ok ref aq False dev obtain i s1 where r: "bread 1 ?ib ?s0 = Ok (i, s1)"
      by (auto simp: ilock_def x_def [symmetric] Let_def res_simps)
    have inv0: "bio_inv ?s0" using inv by simp
    note B = bread_changes [OF inv0 r] note F = more_fs [OF B(7)]
    let ?d = "load_dinode (decode_dinode (dip_off (i_inum x)) (view s ?ib))"
    from ok ref aq False dev r obtain s2 where e: "brelse i (upd_inode ip ?d s1) = Ok s2"
      "s' = upd_inode ip (\<lambda>x. x\<lparr>i_valid := True\<rparr>) s2" "i_type (icache s' ip) \<noteq> 0"
      using B(4) by (auto simp: ilock_def x_def [symmetric] Let_def res_simps F split: if_splits)
    have c: "changes {} s1 (upd_inode ip ?d s1)" using changes_refl [OF changesD(1) [OF B(1)]] by simp
    note C = close_ro [OF inv0 r c e(1)] note G = more_fs [OF C(3)]
    show ?thesis using C(1,2) G F B(6) e(2,3) False
      by (auto simp: x'_def x_def [symmetric] load_dinode_def fun_eq_iff)
  qed
  then show "changes {} s s'" "view s' = view s" "fsb s' = fsb s" "fstate.more s' = fstate.more s"
    "i_valid x \<or> i_type x' \<noteq> 0"
    "icache s' = (icache s)(ip := x'\<lparr>i_lock := ?lk, i_valid := True\<rparr>)" by auto
qed

end
