(* ===== verification/Fs_File.thy ===== *)
theory Fs_File
  imports Fs_Inode
begin

text \<open>
  Correctness of file contents. The block tree of an inode is described by \<open>sa\<close>, the address at a
  path into it (innermost index first); \<open>tree_ok\<close> says that its addresses are data blocks marked in
  use and pairwise distinct. \<open>bmap\<close> only ever grows the tree, and from that \<open>writei\<close> and
  \<open>readi\<close> are shown to implement a byte array, and \<open>itrunc\<close> to free exactly the tree.
\<close>

section \<open>Paths\<close>

fun sa :: "(u32 \<Rightarrow> bytes) \<Rightarrow> u32 list \<Rightarrow> nat list \<Rightarrow> u32" where
  "sa v as [] = 0"
| "sa v as [i] = as ! i"
| "sa v as (j # k # p) = (let a = sa v as (k # p) in if a = 0 then 0 else get_u32 (v a) j)"

definition vpath :: "nat list \<Rightarrow> bool" where
  "vpath p \<longleftrightarrow> (\<exists>i. p = [i] \<and> i < NADDRS) \<or>
     (\<exists>j. p = [j, NDIRECT] \<and> j < NINDIRECT) \<or>
     (\<exists>k. p = [k, NDIRECT + 1] \<and> k < NINDIRECT) \<or>
     (\<exists>l k. p = [l, k, NDIRECT + 1] \<and> l < NINDIRECT \<and> k < NINDIRECT)"

text \<open>The paths of data blocks; the others lead to index blocks.\<close>

definition dpath :: "nat list \<Rightarrow> bool" where
  "dpath p \<longleftrightarrow> (\<exists>i. p = [i] \<and> i < NDIRECT) \<or> (\<exists>j. p = [j, NDIRECT] \<and> j < NINDIRECT) \<or>
     (\<exists>l k. p = [l, k, NDIRECT + 1] \<and> l < NINDIRECT \<and> k < NINDIRECT)"

definition path_of :: "nat \<Rightarrow> nat list" where
  "path_of bn =
     (if bn < NDIRECT then [bn]
      else if bn < NDIRECT + NINDIRECT then [bn - NDIRECT, NDIRECT]
      else let c = bn - NDIRECT - NINDIRECT in [c mod NINDIRECT, c div NINDIRECT, NDIRECT + 1])"

lemma dpath_vpath: "dpath p \<Longrightarrow> vpath p"
  by (auto simp: dpath_def vpath_def layout_simps)

lemma vpath_parent: "vpath (j # k # p) \<Longrightarrow> vpath (k # p)" "vpath (j # k # p) \<Longrightarrow> \<not> dpath (k # p)"
  by (auto simp: vpath_def dpath_def layout_simps)

lemma vpath_simps [simp]: "\<not> vpath []" "vpath [i] \<longleftrightarrow> i < NADDRS"
  by (auto simp: vpath_def layout_simps)

lemma path_of_dpath: "bn < MAXFILE \<Longrightarrow> dpath (path_of bn)"
  by (auto simp: path_of_def dpath_def Let_def layout_simps)

lemma path_of_inj:
  assumes "path_of m = path_of n"
  shows "m = n"
proof -
  consider "m < NDIRECT" | "NDIRECT \<le> m" "m < NDIRECT + NINDIRECT" | "NDIRECT + NINDIRECT \<le> m" by linarith
  then show ?thesis
  proof cases
    case 3
    let ?c = "m - NDIRECT - NINDIRECT" and ?e = "n - NDIRECT - NINDIRECT"
    have n: "NDIRECT + NINDIRECT \<le> n" and eq: "?c mod NINDIRECT = ?e mod NINDIRECT" "?c div NINDIRECT = ?e div NINDIRECT"
      using assms 3 by (auto simp: path_of_def Let_def split: if_splits)
    have "?c = ?e" using eq by (metis div_mult_mod_eq)
    with 3 n show ?thesis by linarith
  qed (use assms in \<open>auto simp: path_of_def Let_def split: if_splits\<close>)
qed

section \<open>Well-formed trees and how they grow\<close>

definition tree_ok :: "superblock \<Rightarrow> (u32 \<Rightarrow> bytes) \<Rightarrow> u32 list \<Rightarrow> bool" where
  "tree_ok sb v as \<longleftrightarrow> length as = NADDRS \<and>
     (\<forall>p. vpath p \<and> sa v as p \<noteq> 0 \<longrightarrow>
        datastart sb \<le> unat (sa v as p) \<and> sa v as p < sb_size sb \<and> used sb v (unat (sa v as p))) \<and>
     (\<forall>p q. vpath p \<and> vpath q \<and> sa v as p = sa v as q \<and> sa v as p \<noteq> 0 \<longrightarrow> p = q)"

lemma tree_okD:
  assumes "tree_ok sb v as"
  shows "length as = NADDRS"
    "\<And>p. vpath p \<Longrightarrow> sa v as p \<noteq> 0 \<Longrightarrow> datastart sb \<le> unat (sa v as p)"
    "\<And>p. vpath p \<Longrightarrow> sa v as p \<noteq> 0 \<Longrightarrow> sa v as p < sb_size sb"
    "\<And>p. vpath p \<Longrightarrow> sa v as p \<noteq> 0 \<Longrightarrow> used sb v (unat (sa v as p))"
    "\<And>p q. vpath p \<Longrightarrow> vpath q \<Longrightarrow> sa v as p = sa v as q \<Longrightarrow> sa v as p \<noteq> 0 \<Longrightarrow> p = q"
  using assms by (auto simp: tree_ok_def)

lemma tree_ok_cong:
  assumes T: "tree_ok sb v as" and sa: "\<And>p. vpath p \<Longrightarrow> sa v' as p = sa v as p"
    and us: "\<And>p. vpath p \<Longrightarrow> sa v as p \<noteq> 0 \<Longrightarrow> used sb v' (unat (sa v as p))"
  shows "tree_ok sb v' as"
  unfolding tree_ok_def
proof (intro conjI allI impI)
  fix p assume "vpath p \<and> sa v' as p \<noteq> 0"
  then show "datastart sb \<le> unat (sa v' as p)" "sa v' as p < sb_size sb" "used sb v' (unat (sa v' as p))"
    using sa [of p] us [of p] tree_okD(2,3) [OF T, of p] by auto
next
  fix p q assume "vpath p \<and> vpath q \<and> sa v' as p = sa v' as q \<and> sa v' as p \<noteq> 0"
  then show "p = q" using sa [of p] sa [of q] tree_okD(5) [OF T, of p q] by auto
qed (rule tree_okD(1) [OF T])

lemma sa_extend:
  assumes new: "sa v as p0 = 0" "a \<noteq> 0" "v' a = (\<lambda>_. 0)"
    and root: "\<And>i. i < NADDRS \<Longrightarrow> as' ! i = (if p0 = [i] then a else as ! i)"
    and entry: "\<And>j k q. vpath (j # k # q) \<Longrightarrow> sa v as (k # q) \<noteq> 0 \<Longrightarrow>
      get_u32 (v' (sa v as (k # q))) j = (if p0 = j # k # q then a else get_u32 (v (sa v as (k # q))) j)"
    and parent: "\<And>j k q. p0 = j # k # q \<Longrightarrow> sa v as (k # q) \<noteq> 0"
  shows "vpath q \<Longrightarrow> sa v' as' q = (if q = p0 then a else sa v as q)"
proof (induction q)
  case (Cons j q)
  show ?case
  proof (cases q)
    case Nil
    then show ?thesis using root [of j] Cons.prems by auto
  next
    case (Cons k p)
    have IH: "sa v' as' q = (if q = p0 then a else sa v as q)"
      using Cons.IH vpath_parent(1) Cons.prems \<open>q = k # p\<close> by blast
    show ?thesis
    proof (cases "q = p0")
      case True
      have e: "p0 = k # p" using True \<open>q = k # p\<close> by simp
      have "sa v' as' (k # p) = a" "sa v as (k # p) = 0" using IH True new(1) e \<open>q = k # p\<close> by simp_all
      then show ?thesis using new(2,3) unfolding e \<open>q = k # p\<close> by simp
    next
      case False
      then show ?thesis
        using IH entry [of j k p] parent [of j k p] Cons.prems \<open>q = k # p\<close> by (auto simp: Let_def)
    qed
  qed
qed simp

text \<open>A tree whose index blocks are unchanged.\<close>

lemma sa_cong:
  assumes "\<And>k q j. vpath (j # k # q) \<Longrightarrow> sa v as (k # q) \<noteq> 0 \<Longrightarrow>
      get_u32 (v' (sa v as (k # q))) j = get_u32 (v (sa v as (k # q))) j"
  shows "vpath q \<Longrightarrow> sa v' as q = sa v as q"
proof (induction q)
  case (Cons j q)
  then show ?case
    using assms [of j "hd q" "tl q"] vpath_parent(1) [of j "hd q" "tl q"]
    by (cases q) (auto simp: Let_def)
qed simp

definition cont :: "(u32 \<Rightarrow> bytes) \<Rightarrow> u32 list \<Rightarrow> nat list \<Rightarrow> bytes" where
  "cont v as p = (if sa v as p = 0 then (\<lambda>_. 0) else v (sa v as p))"

text \<open>Blocks in use that belong to something else.\<close>

definition foreign :: "superblock \<Rightarrow> (u32 \<Rightarrow> bytes) \<Rightarrow> u32 list \<Rightarrow> u32 \<Rightarrow> bool" where
  "foreign sb v as b \<longleftrightarrow> datastart sb \<le> unat b \<and> b < sb_size sb \<and> used sb v (unat b) \<and>
     (\<forall>p. vpath p \<longrightarrow> sa v as p \<noteq> b)"

text \<open>The blocks the allocator and the data path write: from the bitmap to the end of the disk.\<close>

definition darea :: "superblock \<Rightarrow> u32 set" where
  "darea sb = {b. unat (sb_bmapstart sb) \<le> unat b \<and> b < sb_size sb}"

definition fs_ok :: "nat \<Rightarrow> 'a fstate_scheme \<Rightarrow> bool" where
  "fs_ok ip s \<longleftrightarrow> bio_inv s \<and> map_ok (fsb s) (view s) \<and> i_dev (icache s ip) = 1 \<and>
     tree_ok (fsb s) (view s) (i_addrs (icache s ip))"

definition grown :: "nat \<Rightarrow> 'a fstate_scheme \<Rightarrow> 'a fstate_scheme \<Rightarrow> bool" where
  "grown ip s s' \<longleftrightarrow> fs_ok ip s' \<and> changes (darea (fsb s)) s s' \<and>
     fsb s' = fsb s \<and> fstate.more s' = fstate.more s \<and>
     (\<forall>j. j \<noteq> ip \<longrightarrow> icache s' j = icache s j) \<and>
     (icache s' ip)\<lparr>i_addrs := []\<rparr> = (icache s ip)\<lparr>i_addrs := []\<rparr> \<and>
     (\<forall>p. vpath p \<and> sa (view s) (i_addrs (icache s ip)) p \<noteq> 0 \<longrightarrow>
        sa (view s') (i_addrs (icache s' ip)) p = sa (view s) (i_addrs (icache s ip)) p) \<and>
     (\<forall>p. dpath p \<longrightarrow> cont (view s') (i_addrs (icache s' ip)) p = cont (view s) (i_addrs (icache s ip)) p) \<and>
     (\<forall>b. foreign (fsb s) (view s) (i_addrs (icache s ip)) b \<longrightarrow>
        view s' b = view s b \<and> foreign (fsb s) (view s') (i_addrs (icache s' ip)) b)"

lemma grown_refl: "fs_ok ip s \<Longrightarrow> grown ip s s"
  by (simp add: grown_def fs_ok_def changes_refl)

lemma grownD:
  assumes "grown ip s s'"
  shows "fs_ok ip s'" "changes (darea (fsb s)) s s'" "fsb s' = fsb s" "fstate.more s' = fstate.more s"
    "\<And>j. j \<noteq> ip \<Longrightarrow> icache s' j = icache s j" "(icache s' ip)\<lparr>i_addrs := []\<rparr> = (icache s ip)\<lparr>i_addrs := []\<rparr>"
    "\<And>p. vpath p \<Longrightarrow> sa (view s) (i_addrs (icache s ip)) p \<noteq> 0 \<Longrightarrow>
       sa (view s') (i_addrs (icache s' ip)) p = sa (view s) (i_addrs (icache s ip)) p"
    "\<And>p. dpath p \<Longrightarrow> cont (view s') (i_addrs (icache s' ip)) p = cont (view s) (i_addrs (icache s ip)) p"
    "\<And>b. foreign (fsb s) (view s) (i_addrs (icache s ip)) b \<Longrightarrow> view s' b = view s b"
    "\<And>b. foreign (fsb s) (view s) (i_addrs (icache s ip)) b \<Longrightarrow> foreign (fsb s) (view s') (i_addrs (icache s' ip)) b"
  using assms by (simp_all add: grown_def)

lemma grownI:
  assumes "fs_ok ip s'" "changes (darea (fsb s)) s s'" "fsb s' = fsb s" "fstate.more s' = fstate.more s"
    "\<And>j. j \<noteq> ip \<Longrightarrow> icache s' j = icache s j" "(icache s' ip)\<lparr>i_addrs := []\<rparr> = (icache s ip)\<lparr>i_addrs := []\<rparr>"
    "\<And>p. vpath p \<Longrightarrow> sa (view s) (i_addrs (icache s ip)) p \<noteq> 0 \<Longrightarrow>
       sa (view s') (i_addrs (icache s' ip)) p = sa (view s) (i_addrs (icache s ip)) p"
    "\<And>p. dpath p \<Longrightarrow> cont (view s') (i_addrs (icache s' ip)) p = cont (view s) (i_addrs (icache s ip)) p"
    "\<And>b. foreign (fsb s) (view s) (i_addrs (icache s ip)) b \<Longrightarrow> view s' b = view s b"
    "\<And>b. foreign (fsb s) (view s) (i_addrs (icache s ip)) b \<Longrightarrow> foreign (fsb s) (view s') (i_addrs (icache s' ip)) b"
  shows "grown ip s s'"
  using assms by (simp add: grown_def)

lemma addrs_only:
  assumes "x\<lparr>i_addrs := []\<rparr> = y\<lparr>i_addrs := []\<rparr>"
  shows "i_dev x = i_dev y" "i_inum x = i_inum y" "i_ref x = i_ref y" "i_lock x = i_lock y"
    "i_valid x = i_valid y" "i_type x = i_type y" "i_major x = i_major y" "i_minor x = i_minor y"
    "i_nlink x = i_nlink y" "i_size x = i_size y"
  using assms by (cases x; cases y; simp)+

lemma grown_trans:
  assumes a: "grown ip s s1" and b: "grown ip s1 s2"
  shows "grown ip s s2"
proof -
  note A = grownD [OF a] note B = grownD [OF b, unfolded A(3)]
  have "changes (darea (fsb s)) s s2"
    using changes_trans [OF A(2) B(2)] by simp
  moreover have "vpath p \<and> sa (view s) (i_addrs (icache s ip)) p \<noteq> 0 \<Longrightarrow>
      sa (view s2) (i_addrs (icache s2 ip)) p = sa (view s) (i_addrs (icache s ip)) p" for p
    using A(7) [of p] B(7) [of p] by metis
  ultimately show ?thesis
    unfolding grown_def using A(4-6) B(1,3-6) A(8) B(8) A(9,10) B(9,10) by (intro conjI allI impI) metis+
qed

section \<open>One allocation in the tree\<close>

text \<open>Block \<open>a\<close> was free and is now in use, zeroed, and entered at path \<open>p0\<close>.\<close>

lemma tree_extend:
  assumes T: "tree_ok sb v as" and m: "map_ok sb v"
    and fresh: "\<not> used sb v (unat a)" "datastart sb \<le> unat a" "a < sb_size sb" "v' a = (\<lambda>_. 0)"
    and us: "\<And>b. b < unat (sb_size sb) \<Longrightarrow> used sb v' b \<longleftrightarrow> used sb v b \<or> b = unat a"
    and p0: "vpath p0" "sa v as p0 = 0" "length as' = NADDRS"
    and root: "\<And>i. i < NADDRS \<Longrightarrow> as' ! i = (if p0 = [i] then a else as ! i)"
    and entry: "\<And>j k q. vpath (j # k # q) \<Longrightarrow> sa v as (k # q) \<noteq> 0 \<Longrightarrow>
      get_u32 (v' (sa v as (k # q))) j = (if p0 = j # k # q then a else get_u32 (v (sa v as (k # q))) j)"
    and parent: "\<And>j k q. p0 = j # k # q \<Longrightarrow> sa v as (k # q) \<noteq> 0"
    and data: "\<And>p. dpath p \<Longrightarrow> sa v as p \<noteq> 0 \<Longrightarrow> v' (sa v as p) = v (sa v as p)"
  shows "\<And>q. vpath q \<Longrightarrow> sa v' as' q = (if q = p0 then a else sa v as q)"
    and "tree_ok sb v' as'" and "\<And>p. dpath p \<Longrightarrow> cont v' as' p = cont v as p"
    and "\<And>b. foreign sb v as b \<Longrightarrow> foreign sb v' as' b"
proof -
  note D = tree_okD [OF T]
  have a0: "a \<noteq> 0" using fresh(2) by (auto simp: datastart_def)
  show ext: "sa v' as' q = (if q = p0 then a else sa v as q)" if "vpath q" for q
    by (rule sa_extend [OF p0(2) a0 fresh(4) root entry parent that])
  have new: "sa v as p \<noteq> a" if "vpath p" for p using D(4) [OF that] fresh(1) a0 by metis
  have lt: "unat b < unat (sb_size sb)" if "b < sb_size sb" for b using that by (simp add: word_less_nat_alt)
  show "tree_ok sb v' as'"
    unfolding tree_ok_def
  proof (intro conjI allI impI)
    fix p assume p: "vpath p \<and> sa v' as' p \<noteq> 0"
    then have e: "sa v' as' p = (if p = p0 then a else sa v as p)" using ext by simp
    show "datastart sb \<le> unat (sa v' as' p)" "sa v' as' p < sb_size sb"
      using e p D(2,3) [of p] fresh(2,3) by (auto split: if_splits)
    then show "used sb v' (unat (sa v' as' p))"
      using us [OF lt] e p D(4) [of p] by (auto split: if_splits)
  next
    fix p q assume "vpath p \<and> vpath q \<and> sa v' as' p = sa v' as' q \<and> sa v' as' p \<noteq> 0"
    then show "p = q" using ext [of p] ext [of q] new [of p] new [of q] D(5) [of p q] by (auto split: if_splits)
  qed (rule p0(3))
  show "cont v' as' p = cont v as p" if p: "dpath p" for p
    using ext [OF dpath_vpath [OF p]] p0(2) fresh(4) data [OF p] a0 by (auto simp: cont_def)
  show "foreign sb v' as' b" if b: "foreign sb v as b" for b
  proof -
    have "b \<noteq> a" using b fresh(1) by (auto simp: foreign_def)
    then show ?thesis using b ext us [OF lt, of b] by (auto simp: foreign_def)
  qed
qed

lemma darea_meta:
  assumes "map_ok sb v"
  shows "b \<le> unat (sb_size sb) \<Longrightarrow> BBLOCK b sb \<in> darea sb"
    and "datastart sb \<le> unat a \<Longrightarrow> a < sb_size sb \<Longrightarrow> a \<in> darea sb"
proof -
  show "BBLOCK b sb \<in> darea sb" if "b \<le> unat (sb_size sb)"
    using unat_BBLOCK [OF assms that] assms by (auto simp: darea_def map_ok_def word_less_nat_alt)
  show "a \<in> darea sb" if "datastart sb \<le> unat a" "a < sb_size sb"
    using that by (simp add: darea_def datastart_def)
qed

lemma balloc_darea:
  assumes "bio_inv s" "balloc 1 s = Ok (a, s')" "map_ok (fsb s) (view s)"
  shows "changes (darea (fsb s)) s s'"
proof (rule changes_mono [OF balloc_spec(4) [OF assms(1,2)]])
  have "unat a \<le> unat (sb_size (fsb s))"
    using balloc_spec(1) [OF assms(1,2)] by (simp add: word_less_nat_alt)
  then show "{BBLOCK (unat a) (fsb s), a} \<subseteq> darea (fsb s)"
    using darea_meta [OF assms(3)] balloc_map(1,2) [OF assms] by simp
qed

lemma balloc_keep:
  assumes "bio_inv s" "balloc 1 s = Ok (a, s')" "map_ok (fsb s) (view s)"
    and "datastart (fsb s) \<le> unat b" "used (fsb s) (view s) (unat b)"
  shows "view s' b = view s b"
proof (rule balloc_map(4) [OF assms(1-3) _ assms(4)])
  show "b \<noteq> a" using assms(5) balloc_spec(2) [OF assms(1,2)] by auto
qed

lemma fs_okD:
  assumes "fs_ok ip s"
  shows "bio_inv s" "map_ok (fsb s) (view s)" "i_dev (icache s ip) = 1"
    "tree_ok (fsb s) (view s) (i_addrs (icache s ip))"
  using assms by (simp_all add: fs_ok_def)

lemma grown_alloc:
  fixes s s' :: "'a fstate_scheme" and ip :: nat
  defines "v \<equiv> view s" and "v' \<equiv> view s'" and "sb \<equiv> fsb s"
    and "as \<equiv> i_addrs (icache s ip)" and "as' \<equiv> i_addrs (icache s' ip)"
  assumes ok: "fs_ok ip s"
    and fresh: "\<not> used sb v (unat a)" "datastart sb \<le> unat a" "a < sb_size sb" "v' a = (\<lambda>_. 0)"
    and us: "\<And>b. b < unat (sb_size sb) \<Longrightarrow> used sb v' b \<longleftrightarrow> used sb v b \<or> b = unat a"
    and np: "vpath np" "sa v as np = 0" "length as' = NADDRS"
    and root: "\<And>i. i < NADDRS \<Longrightarrow> as' ! i = (if np = [i] then a else as ! i)"
    and entry: "\<And>j k q. vpath (j # k # q) \<Longrightarrow> sa v as (k # q) \<noteq> 0 \<Longrightarrow>
      get_u32 (v' (sa v as (k # q))) j = (if np = j # k # q then a else get_u32 (v (sa v as (k # q))) j)"
    and parent: "\<And>j k q. np = j # k # q \<Longrightarrow> sa v as (k # q) \<noteq> 0"
    and data: "\<And>p. dpath p \<Longrightarrow> sa v as p \<noteq> 0 \<Longrightarrow> v' (sa v as p) = v (sa v as p)"
    and keep: "\<And>b. foreign sb v as b \<Longrightarrow> v' b = v b"
    and m': "map_ok sb v'" and ch: "changes (darea sb) s s'" and sb': "fsb s' = sb"
    and more: "fstate.more s' = fstate.more s" and ic: "\<And>j. j \<noteq> ip \<Longrightarrow> icache s' j = icache s j"
      "(icache s' ip)\<lparr>i_addrs := []\<rparr> = (icache s ip)\<lparr>i_addrs := []\<rparr>"
  shows "grown ip s s' \<and> sa v' as' np = a \<and> a \<noteq> 0"
proof -
  note O = fs_okD [OF ok, folded sb_def v_def as_def]
  note ext = tree_extend [where v = v and v' = v' and as = as and as' = as' and ?p0.0 = np and sb = sb and a = a]
  have X1: "tree_ok sb v' as'"
    by (rule ext(2)) (fact O(4) O(2) fresh us np root entry parent data)+
  have X2: "sa v' as' q = (if q = np then a else sa v as q)" if "vpath q" for q
    by (rule ext(1)) (fact O(4) O(2) fresh us np root entry parent data that)+
  have X3: "cont v' as' p = cont v as p" if "dpath p" for p
    by (rule ext(3)) (fact O(4) O(2) fresh us np root entry parent data that)+
  have X4: "foreign sb v' as' b" if "foreign sb v as b" for b
    by (rule ext(4)) (fact O(4) O(2) fresh us np root entry parent data that)+
  have "sa v' as' np = a" using X2 [OF np(1)] by simp
  moreover have "a \<noteq> 0" using fresh(2) by (auto simp: datastart_def)
  moreover have "grown ip s s'"
  proof (rule grownI, fold sb_def v_def v'_def as_def as'_def)
    show "fs_ok ip s'"
      using changesD(1) [OF ch] m' O(3) X1 addrs_only(1) [OF ic(2)] sb'
      by (simp add: fs_ok_def v'_def as'_def)
    show "sa v' as' p = sa v as p" if "vpath p" "sa v as p \<noteq> 0" for p
      using X2 [OF that(1)] that(2) np(2) by auto
  qed (fact ch sb' more ic X3 X4 keep)+
  ultimately show ?thesis by blast
qed

lemma bmap_root_spec:
  fixes s :: "'a fstate_scheme"
  assumes ok: "fs_ok ip s" and k: "k < NADDRS" and r: "bmap_root ip k s = Ok (a, s')"
  shows "grown ip s s' \<and> sa (view s') (i_addrs (icache s' ip)) [k] = a \<and> a \<noteq> 0"
proof (cases "i_addrs (icache s ip) ! k = 0")
  case False
  with r ok show ?thesis by (auto simp: bmap_root_def grown_refl)
next
  case True
  note O = fs_okD [OF ok] let ?as = "i_addrs (icache s ip)"
  from r True O(3) obtain s1 where b: "balloc 1 s = Ok (a, s1)"
    and s': "s' = upd_inode ip (\<lambda>x. x\<lparr>i_addrs := (i_addrs x)[k := a]\<rparr>) s1"
    by (auto simp: bmap_root_def res_simps)
  note S = balloc_spec [OF O(1) b] note A = balloc_map [OF O(1) b O(2)] note M = more_fs [OF S(6)]
  note D = tree_okD [OF O(4)]
  have v': "view s' = view s1" and as': "i_addrs (icache s' ip) = ?as[k := a]" by (simp_all add: s' M)
  have keep: "view s1 (sa (view s) ?as p) = view s (sa (view s) ?as p)"
    if "vpath p" "sa (view s) ?as p \<noteq> 0" for p
    using balloc_keep [OF O(1) b O(2)] D(2,4) [OF that] by blast
  show ?thesis
  proof (rule grown_alloc [where np = "[k]", OF ok S(2)], unfold v' as')
    show "get_u32 (view s1 (sa (view s) ?as (k' # q))) j =
        (if [k] = j # k' # q then a else get_u32 (view s (sa (view s) ?as (k' # q))) j)"
      if "vpath (j # k' # q)" "sa (view s) ?as (k' # q) \<noteq> 0" for j k' q
      using keep [OF vpath_parent(1) [OF that(1)] that(2)] by simp
    show "view s1 b = view s b" if "foreign (fsb s) (view s) ?as b" for b
      using that balloc_keep [OF O(1) b O(2)] by (simp add: foreign_def)
    show "changes (darea (fsb s)) s s'" using balloc_darea [OF O(1) b O(2)] by (simp add: s')
  qed (use A k True D(1) keep dpath_vpath in \<open>auto simp: s' M nth_list_update\<close>)
qed

lemma grown_same:
  assumes ok: "fs_ok ip s" and ch: "changes {} s s'" and v: "view s' = view s"
    and more: "kstate.more s' = kstate.more s"
  shows "grown ip s s'"
proof -
  note M = more_fs [OF more]
  have "fs_ok ip s'" using ok changesD(1) [OF ch] by (simp add: fs_ok_def v M)
  then show ?thesis using changes_mono [OF ch] by (intro grownI) (simp_all add: v M)
qed

lemma used_meta_cong:
  assumes "map_ok sb v" "b < unat (sb_size sb)" "datastart sb \<le> unat A"
  shows "used sb (v(A := x)) b = used sb v b"
proof (rule used_cong)
  have "unat (BBLOCK b sb) < datastart sb" using assms(1,2) by (intro unat_BBLOCK(2)) auto
  then show "(v(A := x)) (BBLOCK b sb) = v (BBLOCK b sb)" using assms(3) by auto
qed

lemma map_ok_data:
  assumes "map_ok sb v" "datastart sb \<le> unat A"
  shows "map_ok sb (v(A := x))"
proof -
  have "datastart sb \<le> unat (sb_size sb)" using assms(1) by (simp add: map_ok_def)
  moreover have "A \<noteq> 1" using assms by (auto simp: map_ok_def datastart_def)
  ultimately show ?thesis
    using assms(1) used_meta_cong [OF assms(1) _ assms(2), of _ x] by (simp add: map_ok_def)
qed

lemma bmap_entry_spec:
  fixes s :: "'a fstate_scheme"
  assumes ok: "fs_ok ip s" and vp: "vpath (j # k # q)"
    and A: "sa (view s) (i_addrs (icache s ip)) (k # q) = A" "A \<noteq> 0"
    and r: "bmap_entry 1 A j s = Ok (a, s')"
  shows "grown ip s s' \<and> sa (view s') (i_addrs (icache s' ip)) (j # k # q) = a \<and> a \<noteq> 0"
proof -
  note O = fs_okD [OF ok] let ?as = "i_addrs (icache s ip)" let ?v = "view s" and ?sb = "fsb s"
  note D = tree_okD [OF O(4)]
  from r obtain i s1 where rd: "bread 1 A s = Ok (i, s1)" by (auto simp: bmap_entry_def res_simps)
  note B = bread_changes [OF O(1) rd] note M1 = more_fs [OF B(7)]
  have slot: "get_u32 (b_data (bufs s1 i)) j = sa ?v ?as (j # k # q)" using A B(4) by simp
  show ?thesis
  proof (cases "sa ?v ?as (j # k # q) = 0")
    case False
    from r rd slot False have e: "brelse i s1 = Ok s'" "a = sa ?v ?as (j # k # q)"
      by (auto simp: bmap_entry_def res_simps Let_def split: if_splits)
    note C = close_ro [OF O(1) rd changes_refl [OF changesD(1) [OF B(1)], of "{}"] e(1)]
    have more: "kstate.more s' = kstate.more s" and v: "view s' = ?v" using C(2,3) B(6,7) by simp_all
    show ?thesis using grown_same [OF ok C(1) v more] False e(2) by (simp add: v more_fs [OF more])
  next
    case True
    from r rd slot True obtain s2 s3 where b: "balloc 1 s1 = Ok (a, s2)"
      and w: "log_write i (set_data i (set_u32 (b_data (bufs s2 i)) j a) s2) = Ok s3" "brelse i s3 = Ok s'"
      by (auto simp: bmap_entry_def res_simps Let_def split: if_splits)
    have m1: "map_ok (fsb s1) (view s1)" using O(2) by (simp add: M1 B(6))
    note S = balloc_spec [OF changesD(1) [OF B(1)] b, unfolded M1 B(6)]
    note L = balloc_map [OF changesD(1) [OF B(1)] b m1, unfolded M1 B(6)]
    note K = balloc_keep [OF changesD(1) [OF B(1)] b m1, unfolded M1 B(6)]
    have d2: "b_data (bufs s2 i) = ?v A" using changes_held(2) [OF S(4) B(2)] B(4) by simp
    note C = close_rw [OF O(1) rd balloc_darea [OF changesD(1) [OF B(1)] b m1] w, unfolded M1 d2]
    have more: "kstate.more s' = kstate.more s" using C(3) S(6) B(7) by simp
    note M = more_fs [OF more]
    have Ads: "datastart ?sb \<le> unat A" "A < sb_size ?sb" "used ?sb ?v (unat A)"
      using D(2-4) [OF vpath_parent(1) [OF vp]] A by simp_all
    have Aa: "A \<noteq> a" using Ads(3) S(2) by auto
    have keep: "view s' b = ?v b" if "datastart ?sb \<le> unat b" "used ?sb ?v (unat b)" "b \<noteq> A" for b
      using K [OF that(1,2)] that(3) by (simp add: C(2))
    have tk: "view s' (sa ?v ?as p) = ?v (sa ?v ?as p)"
      if "vpath p" "sa ?v ?as p \<noteq> 0" "sa ?v ?as p \<noteq> A" for p
      using keep D(2,4) [OF that(1,2)] that(3) by blast
    have uniq: "p = k # q" if "vpath p" "sa ?v ?as p = A" for p
      using D(5) [OF that(1) vpath_parent(1) [OF vp]] that(2) A by simp
    show ?thesis
    proof (rule grown_alloc [where np = "j # k # q", OF ok S(2) L(1,2)], unfold M)
      show "view s' a = (\<lambda>_. 0)" using L(3) Aa by (simp add: C(2))
      show "used ?sb (view s') b \<longleftrightarrow> used ?sb ?v b \<or> b = unat a" if "b < unat (sb_size ?sb)" for b
        using used_meta_cong [OF L(6) that Ads(1)] L(5) [OF that] by (simp add: C(2))
      show "map_ok ?sb (view s')" using map_ok_data [OF L(6) Ads(1)] by (simp add: C(2))
      have "A \<in> darea ?sb" using darea_meta(2) [OF O(2) Ads(1,2)] .
      then show "changes (darea ?sb) s s'" using C(1) by (simp add: insert_absorb)
      show "get_u32 (view s' (sa ?v ?as (k' # p))) i =
          (if j # k # q = i # k' # p then a else get_u32 (?v (sa ?v ?as (k' # p))) i)"
        if "vpath (i # k' # p)" "sa ?v ?as (k' # p) \<noteq> 0" for i k' p
      proof (cases "sa ?v ?as (k' # p) = A")
        case True
        then have "k' # p = k # q" by (rule uniq [OF vpath_parent(1) [OF that(1)]])
        then show ?thesis using True by (auto simp: C(2))
      next
        case False
        then show ?thesis using tk [OF vpath_parent(1) [OF that(1)] that(2)] A(1) by auto
      qed
      show "view s' (sa ?v ?as p) = ?v (sa ?v ?as p)" if "dpath p" "sa ?v ?as p \<noteq> 0" for p
        using tk [OF dpath_vpath [OF that(1)] that(2)] uniq dpath_vpath [OF that(1)] that(1) vpath_parent(2) [OF vp]
        by blast
      show "view s' b = ?v b" if "foreign ?sb ?v ?as b" for b
        using that keep A(1) vpath_parent(1) [OF vp] by (auto simp: foreign_def)
    qed (use vp True A D(1) in \<open>auto simp: M\<close>)
  qed
qed

lemma bmap_spec:
  fixes s :: "'a fstate_scheme"
  assumes ok: "fs_ok ip s" and r: "bmap ip bn s = Ok (a, s')"
  shows "grown ip s s'" "sa (view s') (i_addrs (icache s' ip)) (path_of bn) = a" "a \<noteq> 0" "bn < MAXFILE"
proof -
  have dv: "i_dev (icache s ip) = 1" using ok by (simp add: fs_ok_def)
  let ?T = "\<lambda>s. sa (view s) (i_addrs (icache s ip))"
  have "grown ip s s' \<and> ?T s' (path_of bn) = a \<and> a \<noteq> 0 \<and> bn < MAXFILE"
  proof -
    consider (d) "bn < NDIRECT" | (i) "NDIRECT \<le> bn" "bn - NDIRECT < NINDIRECT"
      | (dd) "NDIRECT \<le> bn" "NINDIRECT \<le> bn - NDIRECT" "bn - NDIRECT - NINDIRECT < NINDIRECT * NINDIRECT"
      using r by (auto simp: bmap_def Let_def split: if_splits)
    then show ?thesis
    proof cases
      case d
      then have "bmap_root ip bn s = Ok (a, s')" "bn < NADDRS" using r by (simp_all add: bmap_def layout_simps)
      from bmap_root_spec [OF ok this(2,1)] d show ?thesis by (simp add: path_of_def layout_simps)
    next
      case i
      let ?j = "bn - NDIRECT"
      from i r dv obtain a1 s1 where e: "bmap_root ip NDIRECT s = Ok (a1, s1)" "bmap_entry 1 a1 ?j s1 = Ok (a, s')"
        by (auto simp: bmap_def Let_def res_simps)
      have "NDIRECT < NADDRS" by (simp add: layout_simps)
      from bmap_root_spec [OF ok this e(1)] have g: "grown ip s s1" "?T s1 [NDIRECT] = a1" "a1 \<noteq> 0" by auto
      have "vpath (?j # NDIRECT # [])" using i by (auto simp: vpath_def)
      from bmap_entry_spec [OF grownD(1) [OF g(1)] this g(2,3) e(2)] grown_trans [OF g(1)] i
      show ?thesis by (auto simp: path_of_def layout_simps)
    next
      case dd
      let ?c = "bn - NDIRECT - NINDIRECT" let ?k = "?c div NINDIRECT" and ?l = "?c mod NINDIRECT"
      from dd r dv obtain a1 s1 a2 s2 where e: "bmap_root ip (NDIRECT + 1) s = Ok (a1, s1)"
        "bmap_entry 1 a1 ?k s1 = Ok (a2, s2)" "bmap_entry 1 a2 ?l s2 = Ok (a, s')"
        by (auto simp: bmap_def Let_def res_simps)
      have lt: "NDIRECT + 1 < NADDRS" "?k < NINDIRECT" "?l < NINDIRECT"
        using dd(3) by (auto simp: layout_simps less_mult_imp_div_less)
      from bmap_root_spec [OF ok lt(1) e(1)]
      have g: "grown ip s s1" "?T s1 [NDIRECT + 1] = a1" "a1 \<noteq> 0" by auto
      have vp: "vpath (?k # (NDIRECT + 1) # [])" "vpath (?l # ?k # [NDIRECT + 1])" using lt by (auto simp: vpath_def)
      from bmap_entry_spec [OF grownD(1) [OF g(1)] vp(1) g(2,3) e(2)]
      have h: "grown ip s1 s2" "?T s2 [?k, NDIRECT + 1] = a2" "a2 \<noteq> 0" by auto
      from bmap_entry_spec [OF grownD(1) [OF h(1)] vp(2) h(2,3) e(3)]
      have "grown ip s2 s'" "?T s' [?l, ?k, NDIRECT + 1] = a" "a \<noteq> 0" by auto
      moreover have "path_of bn = [?l, ?k, NDIRECT + 1]" using dd by (auto simp: path_of_def Let_def)
      moreover have "bn < MAXFILE" using dd by (simp add: layout_simps)
      ultimately show ?thesis using grown_trans [OF g(1) grown_trans [OF h(1)]] by simp
    qed
  qed
  then show "grown ip s s'" "?T s' (path_of bn) = a" "a \<noteq> 0" "bn < MAXFILE" by auto
qed

section \<open>File contents as a byte array\<close>

definition fbyte :: "(u32 \<Rightarrow> bytes) \<Rightarrow> u32 list \<Rightarrow> nat \<Rightarrow> u8" where
  "fbyte v as x = cont v as (path_of (x div BSIZE)) (x mod BSIZE)"

abbreviation file_byte :: "nat \<Rightarrow> 'a fstate_scheme \<Rightarrow> nat \<Rightarrow> u8" where
  "file_byte ip s \<equiv> fbyte (view s) (i_addrs (icache s ip))"

lemma chunk_pos_in:
  assumes "off \<le> x" "x < off + chunk off rem"
  shows "x div BSIZE = off div BSIZE" "x mod BSIZE = off mod BSIZE + (x - off)"
proof -
  let ?d = "x - off"
  have x: "x = off div BSIZE * BSIZE + (off mod BSIZE + ?d)" using assms(1) by simp
  have lt: "off mod BSIZE + ?d < BSIZE" using assms by (simp add: chunk_def layout_simps)
  have gen: "(q * n + r) div n = q \<and> (q * n + r) mod n = r" if "r < n" for q n r :: nat using that by simp
  from gen [OF lt, of "off div BSIZE"] x
  show "x div BSIZE = off div BSIZE" "x mod BSIZE = off mod BSIZE + (x - off)" by metis+
qed

lemma chunk_pos_out:
  assumes "x div BSIZE = off div BSIZE" "\<not> (off \<le> x \<and> x < off + chunk off rem)"
  shows "x mod BSIZE < off mod BSIZE \<or> off mod BSIZE + chunk off rem \<le> x mod BSIZE"
proof -
  have "x = off div BSIZE * BSIZE + x mod BSIZE" "off = off div BSIZE * BSIZE + off mod BSIZE"
    using assms(1) by (metis div_mult_mod_eq)+
  then show ?thesis using assms(2) by linarith
qed

text \<open>What the data path does to the tree and to everything else; the contents are stated apart.\<close>

definition evolves :: "nat \<Rightarrow> 'a fstate_scheme \<Rightarrow> 'a fstate_scheme \<Rightarrow> bool" where
  "evolves ip s s' \<longleftrightarrow> fs_ok ip s' \<and> changes (darea (fsb s)) s s' \<and> fsb s' = fsb s \<and>
     fstate.more s' = fstate.more s \<and> (\<forall>j. j \<noteq> ip \<longrightarrow> icache s' j = icache s j) \<and>
     (icache s' ip)\<lparr>i_addrs := []\<rparr> = (icache s ip)\<lparr>i_addrs := []\<rparr> \<and>
     (\<forall>p. vpath p \<and> sa (view s) (i_addrs (icache s ip)) p \<noteq> 0 \<longrightarrow>
        sa (view s') (i_addrs (icache s' ip)) p = sa (view s) (i_addrs (icache s ip)) p) \<and>
     (\<forall>b. foreign (fsb s) (view s) (i_addrs (icache s ip)) b \<longrightarrow>
        view s' b = view s b \<and> foreign (fsb s) (view s') (i_addrs (icache s' ip)) b)"

lemma evolvesD:
  assumes "evolves ip s s'"
  shows "fs_ok ip s'" "changes (darea (fsb s)) s s'" "fsb s' = fsb s" "fstate.more s' = fstate.more s"
    "\<And>j. j \<noteq> ip \<Longrightarrow> icache s' j = icache s j" "(icache s' ip)\<lparr>i_addrs := []\<rparr> = (icache s ip)\<lparr>i_addrs := []\<rparr>"
    "\<And>p. vpath p \<Longrightarrow> sa (view s) (i_addrs (icache s ip)) p \<noteq> 0 \<Longrightarrow>
       sa (view s') (i_addrs (icache s' ip)) p = sa (view s) (i_addrs (icache s ip)) p"
    "\<And>b. foreign (fsb s) (view s) (i_addrs (icache s ip)) b \<Longrightarrow> view s' b = view s b"
    "\<And>b. foreign (fsb s) (view s) (i_addrs (icache s ip)) b \<Longrightarrow> foreign (fsb s) (view s') (i_addrs (icache s' ip)) b"
  using assms by (simp_all add: evolves_def)

lemma evolvesI:
  assumes "fs_ok ip s'" "changes (darea (fsb s)) s s'" "fsb s' = fsb s" "fstate.more s' = fstate.more s"
    "\<And>j. j \<noteq> ip \<Longrightarrow> icache s' j = icache s j" "(icache s' ip)\<lparr>i_addrs := []\<rparr> = (icache s ip)\<lparr>i_addrs := []\<rparr>"
    "\<And>p. vpath p \<Longrightarrow> sa (view s) (i_addrs (icache s ip)) p \<noteq> 0 \<Longrightarrow>
       sa (view s') (i_addrs (icache s' ip)) p = sa (view s) (i_addrs (icache s ip)) p"
    "\<And>b. foreign (fsb s) (view s) (i_addrs (icache s ip)) b \<Longrightarrow>
       view s' b = view s b \<and> foreign (fsb s) (view s') (i_addrs (icache s' ip)) b"
  shows "evolves ip s s'"
  using assms by (simp add: evolves_def)

lemma grown_evolves: "grown ip s s' \<Longrightarrow> evolves ip s s'"
  by (simp add: grown_def evolves_def)

lemma evolves_refl: "fs_ok ip s \<Longrightarrow> evolves ip s s"
  by (rule grown_evolves [OF grown_refl])

lemma evolves_trans:
  assumes a: "evolves ip s s1" and b: "evolves ip s1 s2"
  shows "evolves ip s s2"
proof -
  note A = evolvesD [OF a] note B = evolvesD [OF b, unfolded A(3)]
  have "changes (darea (fsb s)) s s2" using changes_trans [OF A(2) B(2)] by simp
  moreover have "vpath p \<and> sa (view s) (i_addrs (icache s ip)) p \<noteq> 0 \<Longrightarrow>
      sa (view s2) (i_addrs (icache s2 ip)) p = sa (view s) (i_addrs (icache s ip)) p" for p
    using A(7) [of p] B(7) [of p] by metis
  ultimately show ?thesis
    unfolding evolves_def using A(4-6) B(1,3-6) A(8,9) B(8,9) by (intro conjI allI impI) metis+
qed

lemma grown_fbyte:
  assumes "grown ip s s'" "x div BSIZE < MAXFILE"
  shows "file_byte ip s' x = file_byte ip s x"
  using grownD(8) [OF assms(1) path_of_dpath [OF assms(2)]] by (simp add: fbyte_def)

text \<open>Overwriting one data block.\<close>

lemma data_write:
  fixes s :: "'a fstate_scheme"
  assumes ok: "fs_ok ip s" and p: "dpath p" and a: "sa (view s) (i_addrs (icache s ip)) p = a" "a \<noteq> 0"
    and ch: "changes {a} s s'" and v: "view s' = (view s)(a := d)" and more: "kstate.more s' = kstate.more s"
  shows "evolves ip s s'"
    "dpath q \<Longrightarrow> cont (view s') (i_addrs (icache s' ip)) q =
       (if q = p then d else cont (view s) (i_addrs (icache s ip)) q)"
    "sa (view s') (i_addrs (icache s' ip)) p = a"
proof -
  note O = fs_okD [OF ok] note D = tree_okD [OF O(4)] note M = more_fs [OF more]
  let ?as = "i_addrs (icache s ip)" let ?v = "view s" and ?sb = "fsb s"
  have ads: "datastart ?sb \<le> unat a" "a < sb_size ?sb" using D(2,3) [OF dpath_vpath [OF p]] a by auto
  have only: "r = p" if "vpath r" "sa ?v ?as r = a" for r
    using D(5) [OF that(1) dpath_vpath [OF p]] that(2) a by simp
  have index: "sa ?v ?as (k # r) \<noteq> a" if "vpath (j # k # r)" for j k r
    using only [OF vpath_parent(1) [OF that]] vpath_parent(2) [OF that] p by blast
  have sa: "sa (view s') ?as r = sa ?v ?as r" if "vpath r" for r
    by (rule sa_cong [OF _ that]) (use index in \<open>simp add: v\<close>)
  show "sa (view s') (i_addrs (icache s' ip)) p = a" using sa [OF dpath_vpath [OF p]] a by (simp add: M)
  have us: "used ?sb (view s') b = used ?sb ?v b" if "b < unat (sb_size ?sb)" for b
    using used_meta_cong [OF O(2) that ads(1)] by (simp add: v)
  have lt: "unat b < unat (sb_size ?sb)" if "b < sb_size ?sb" for b using that by (simp add: word_less_nat_alt)
  have "tree_ok ?sb (view s') ?as"
    using us [OF lt] D(3,4) by (intro tree_ok_cong [OF O(4) sa]) blast+
  then have ok': "fs_ok ip s'"
    using changesD(1) [OF ch] map_ok_data [OF O(2) ads(1)] O(3) by (simp add: fs_ok_def M v)
  have ch': "changes (darea ?sb) s s'"
    using changes_mono [OF ch] darea_meta(2) [OF O(2) ads] by simp
  have frame: "view s' b = ?v b \<and> foreign ?sb (view s') ?as b" if b: "foreign ?sb ?v ?as b" for b
  proof
    have "b \<noteq> a" using b a dpath_vpath [OF p] by (auto simp: foreign_def)
    then show "view s' b = ?v b" by (simp add: v)
    show "foreign ?sb (view s') ?as b" using b us [OF lt, of b] sa unfolding foreign_def by metis
  qed
  show "evolves ip s s'"
  proof (rule evolvesI [OF ok' ch'], unfold M)
    show "sa (view s') ?as r = sa ?v ?as r" if "vpath r" for r by (rule sa [OF that])
    show "view s' b = ?v b \<and> foreign ?sb (view s') ?as b" if "foreign ?sb ?v ?as b" for b by (rule frame [OF that])
  qed simp_all
  assume q: "dpath q"
  show "cont (view s') (i_addrs (icache s' ip)) q = (if q = p then d else cont ?v ?as q)"
  proof (cases "q = p")
    case True
    then show ?thesis using sa [OF dpath_vpath [OF q]] a by (simp add: cont_def M v)
  next
    case False
    then have "sa ?v ?as q \<noteq> a" using only [OF dpath_vpath [OF q]] by blast
    then show ?thesis using sa [OF dpath_vpath [OF q]] False by (simp add: cont_def M v)
  qed
qed

lemma writei_loop_spec:
  fixes s :: "'a fstate_scheme"
  assumes "fs_ok ip s" "writei_loop ip src pos off rem s = Ok s'"
  shows "evolves ip s s' \<and> (\<forall>x. x div BSIZE < MAXFILE \<longrightarrow>
    file_byte ip s' x = (if off \<le> x \<and> x < off + rem then src (pos + (x - off)) else file_byte ip s x))"
  using assms
proof (induction rem arbitrary: s pos off rule: less_induct)
  case (less rem)
  show ?case
  proof (cases "rem = 0")
    case True
    then have "s' = s" using less.prems(2) by (simp add: writei_loop.simps)
    with True less.prems(1) show ?thesis by (auto simp: evolves_refl)
  next
    case False
    let ?m = "chunk off rem" let ?bn = "off div BSIZE"
    note st = less.prems(2) [unfolded writei_loop.simps [of ip src pos off rem s]]
    from st False obtain a s1 where b: "bmap ip ?bn s = Ok (a, s1)" by (auto simp: res_simps)
    note G = bmap_spec [OF less.prems(1) b] note ok1 = grownD(1) [OF G(1)] note O = fs_okD [OF ok1]
    from st False b O(3) obtain i s2 where rd: "bread 1 a s1 = Ok (i, s2)" by (auto simp: res_simps)
    note B = bread_changes [OF O(1) rd] note M2 = more_fs [OF B(7)]
    let ?d = "blit (view s1 a) (off mod BSIZE) src pos ?m"
    from st False b O(3) rd obtain s3 s4 where w: "log_write i (set_data i ?d s2) = Ok s3" "brelse i s3 = Ok s4"
      and rest: "writei_loop ip src (pos + ?m) (off + ?m) (rem - ?m) s4 = Ok s'"
      by (auto simp: res_simps Let_def B(4))
    note C = close_rw [OF O(1) rd changes_refl [OF changesD(1) [OF B(1)], of "{}"] w]
    have v4: "view s4 = (view s1)(a := ?d)" and more4: "kstate.more s4 = kstate.more s1"
      using C(2,3) B(6,7) by simp_all
    note dp = path_of_dpath [OF G(4)]
    note W = data_write [OF ok1 dp G(2,3) C(1) v4 more4]
    have m: "rem - ?m < rem" "?m \<le> rem" using False chunk_pos [of rem off] chunk_le by auto
    note IH = less.IH [OF m(1) evolvesD(1) [OF W(1)] rest]
    have ev: "evolves ip s s'" using evolves_trans [OF grown_evolves [OF G(1)] evolves_trans [OF W(1)]] IH by blast
    have "file_byte ip s' x = (if off \<le> x \<and> x < off + rem then src (pos + (x - off)) else file_byte ip s x)"
      if x: "x div BSIZE < MAXFILE" for x
    proof -
      have s4: "file_byte ip s4 x = (if off \<le> x \<and> x < off + ?m then src (pos + (x - off)) else file_byte ip s x)"
      proof (cases "x div BSIZE = ?bn")
        case True
        have old: "view s1 a (x mod BSIZE) = file_byte ip s x"
          using grown_fbyte [OF G(1) x] G(2,3) True by (simp add: fbyte_def cont_def)
        have "file_byte ip s4 x = ?d (x mod BSIZE)" using W(2) [OF dp] True by (simp add: fbyte_def)
        also have "\<dots> = (if off \<le> x \<and> x < off + ?m then src (pos + (x - off)) else view s1 a (x mod BSIZE))"
        proof (cases "off \<le> x \<and> x < off + ?m")
          case True
          then obtain k where k: "x = off + k" "k < ?m" by (metis le_Suc_ex nat_add_left_cancel_less)
          with chunk_pos_in(2) [of off x rem] show ?thesis by (simp add: blit_def)
        next
          case False
          then show ?thesis
            using chunk_pos_out [OF \<open>x div BSIZE = ?bn\<close> False]
              blit_out [of "x mod BSIZE" "off mod BSIZE" ?m "view s1 a" src pos] by auto
        qed
        finally show ?thesis using old by simp
      next
        case False
        then have "path_of (x div BSIZE) \<noteq> path_of ?bn" using path_of_inj by blast
        then have "file_byte ip s4 x = file_byte ip s1 x"
          using W(2) [OF path_of_dpath [OF x]] by (simp add: fbyte_def)
        moreover have "\<not> (off \<le> x \<and> x < off + ?m)" using chunk_pos_in(1) [of off x rem] False by blast
        ultimately show ?thesis using grown_fbyte [OF G(1) x] by auto
      qed
      have "file_byte ip s' x = (if off + ?m \<le> x \<and> x < off + ?m + (rem - ?m)
          then src (pos + ?m + (x - (off + ?m))) else file_byte ip s4 x)" using IH x by blast
      then show ?thesis using s4 m(2) by auto
    qed
    with ev show ?thesis by blast
  qed
qed

lemma readi_loop_spec:
  fixes s :: "'a fstate_scheme"
  assumes "fs_ok ip s" "readi_loop ip off rem s = Ok (bs, s')"
  shows "grown ip s s' \<and> bs = map (file_byte ip s) [off..<off + rem] \<and>
    (\<forall>x. off \<le> x \<and> x < off + rem \<longrightarrow> x div BSIZE < MAXFILE)"
  using assms
proof (induction rem arbitrary: s off bs rule: less_induct)
  case (less rem)
  show ?case
  proof (cases "rem = 0")
    case True
    then show ?thesis using less.prems by (simp add: readi_loop.simps grown_refl)
  next
    case False
    let ?m = "chunk off rem" let ?bn = "off div BSIZE"
    note st = less.prems(2) [unfolded readi_loop.simps [of ip off rem s]]
    from st False obtain a s1 where b: "bmap ip ?bn s = Ok (a, s1)" by (auto simp: res_simps)
    note G = bmap_spec [OF less.prems(1) b] note ok1 = grownD(1) [OF G(1)] note O = fs_okD [OF ok1]
    from st False b O(3) obtain i s2 where rd: "bread 1 a s1 = Ok (i, s2)" by (auto simp: res_simps)
    note B = bread_changes [OF O(1) rd]
    from st False b O(3) rd obtain s3 bs' where e: "brelse i s2 = Ok s3"
      and rest: "readi_loop ip (off + ?m) (rem - ?m) s3 = Ok (bs', s')"
      and bs: "bs = map (view s1 a) [off mod BSIZE..<off mod BSIZE + ?m] @ bs'"
      by (auto simp: res_simps Let_def B(4))
    note C = close_ro [OF O(1) rd changes_refl [OF changesD(1) [OF B(1)], of "{}"] e]
    have "view s3 = view s1" "kstate.more s3 = kstate.more s1" using C(2,3) B(6,7) by simp_all
    from grown_same [OF ok1 C(1) this] have g3: "grown ip s s3" by (rule grown_trans [OF G(1)])
    have m: "rem - ?m < rem" "?m \<le> rem" using False chunk_pos [of rem off] chunk_le by auto
    note IH = less.IH [OF m(1) grownD(1) [OF g3] rest]
    have blk: "view s1 a (x mod BSIZE) = file_byte ip s x" if "off \<le> x" "x < off + ?m" for x
      using grown_fbyte [OF G(1), of x] G(2,3,4) chunk_pos_in(1) [OF that] by (simp add: fbyte_def cont_def)
    have "map (view s1 a) [off mod BSIZE..<off mod BSIZE + ?m] = map (file_byte ip s) [off..<off + ?m]"
    proof (rule nth_equalityI)
      fix k assume "k < length (map (view s1 a) [off mod BSIZE..<off mod BSIZE + ?m])"
      then have k: "k < ?m" by simp
      then show "map (view s1 a) [off mod BSIZE..<off mod BSIZE + ?m] ! k = map (file_byte ip s) [off..<off + ?m] ! k"
        using blk [of "off + k"] chunk_pos_in(2) [of off "off + k" rem] by simp
    qed simp
    moreover have "map (file_byte ip s3) [off + ?m..<off + rem] = map (file_byte ip s) [off + ?m..<off + rem]"
      using grown_fbyte [OF g3] IH m(2) by (intro map_cong) auto
    then have "bs' = map (file_byte ip s) [off + ?m..<off + rem]" using IH m(2) by simp
    moreover have "[off..<off + rem] = [off..<off + ?m] @ [off + ?m..<off + rem]"
      using m(2) upt_add_eq_append [of off "off + ?m" "rem - ?m"] by simp
    ultimately have "bs = map (file_byte ip s) [off..<off + rem]" using bs by simp
    moreover have "x div BSIZE < MAXFILE" if "off \<le> x" "x < off + rem" for x
      using IH m(2) that chunk_pos_in(1) [of off x rem] G(4) by (cases "x < off + ?m") auto
    ultimately show ?thesis using grown_trans [OF g3] IH by blast
  qed
qed

section \<open>Writing an inode back\<close>

text \<open>A block below the bitmap, other than the superblock: an inode block.\<close>

definition iblock_ok :: "superblock \<Rightarrow> u32 \<Rightarrow> bool" where
  "iblock_ok sb b \<longleftrightarrow> unat b < unat (sb_bmapstart sb) \<and> b \<noteq> 1"

lemma used_low:
  assumes "map_ok sb v" "iblock_ok sb b" "n \<le> unat (sb_size sb)"
  shows "used sb (v(b := d)) n = used sb v n"
proof (rule used_cong)
  have "BBLOCK n sb \<noteq> b" using unat_BBLOCK(1) [OF assms(1,3)] assms(2) by (auto simp: iblock_ok_def)
  then show "(v(b := d)) (BBLOCK n sb) = v (BBLOCK n sb)" by simp
qed

lemma low_write:
  fixes s :: "'a fstate_scheme"
  assumes ok: "fs_ok ip s" and ib: "iblock_ok (fsb s) b" and v: "view s' = (view s)(b := d)"
    and more: "kstate.more s' = kstate.more s" and inv: "bio_inv s'"
  shows "fs_ok ip s'" "x div BSIZE < MAXFILE \<Longrightarrow> file_byte ip s' x = file_byte ip s x"
    "foreign (fsb s) (view s) (i_addrs (icache s ip)) c \<Longrightarrow>
       view s' c = view s c \<and> foreign (fsb s) (view s') (i_addrs (icache s' ip)) c"
    "vpath r \<Longrightarrow> sa (view s') (i_addrs (icache s' ip)) r = sa (view s) (i_addrs (icache s ip)) r"
proof -
  note O = fs_okD [OF ok] note D = tree_okD [OF O(4)] note M = more_fs [OF more]
  let ?as = "i_addrs (icache s ip)" let ?v = "view s" and ?sb = "fsb s"
  have hi: "c \<noteq> b" if "datastart ?sb \<le> unat c" for c
    using that ib by (auto simp: iblock_ok_def datastart_def)
  have sa: "sa (view s') ?as r = sa ?v ?as r" if "vpath r" for r
    by (rule sa_cong [OF _ that]) (use hi D(2) vpath_parent(1) in \<open>simp add: v\<close>)
  then show "vpath r \<Longrightarrow> sa (view s') (i_addrs (icache s' ip)) r = sa ?v ?as r" by (simp add: M)
  have us: "used ?sb (view s') n = used ?sb ?v n" if "n \<le> unat (sb_size ?sb)" for n
    using used_low [OF O(2) ib that] by (simp add: v)
  have lt: "unat c \<le> unat (sb_size ?sb)" if "c < sb_size ?sb" for c using that by (simp add: word_less_nat_alt)
  have "tree_ok ?sb (view s') ?as"
    using us [OF lt] D(3,4) by (intro tree_ok_cong [OF O(4) sa]) blast+
  moreover have "map_ok ?sb (view s')"
    using O(2) us ib by (auto simp: map_ok_def iblock_ok_def v)
  ultimately show "fs_ok ip s'" using O(3) inv by (simp add: fs_ok_def M)
  show "file_byte ip s' x = file_byte ip s x" if "x div BSIZE < MAXFILE"
  proof -
    have p: "vpath (path_of (x div BSIZE))" using dpath_vpath [OF path_of_dpath [OF that]] .
    show ?thesis using sa [OF p] hi [OF D(2) [OF p]] by (auto simp: fbyte_def cont_def M v)
  qed
  show "view s' c = ?v c \<and> foreign ?sb (view s') (i_addrs (icache s' ip)) c" if "foreign ?sb ?v ?as c"
    using that hi [of c] us [OF lt, of c] sa by (auto simp: foreign_def M v)
qed

section \<open>The byte-array contract of readi and writei\<close>

lemma unat_clip:
  fixes off n size :: u32
  assumes "off \<le> size" "off \<le> off + n"
  shows "unat (if size < off + n then size - off else n) = min (unat n) (unat size - unat off)"
    and "unat (off + n) = unat off + unat n"
proof -
  have s: "unat (off + n) = unat off + unat n" using assms(2) by (simp add: unat_plus_simple)
  show "unat (off + n) = unat off + unat n" by (rule s)
  show "unat (if size < off + n then size - off else n) = min (unat n) (unat size - unat off)"
    using s assms(1) by (auto simp: word_less_nat_alt unat_sub word_le_nat_alt)
qed

lemma sint_small_nat: "unat (w :: u32) < 2 ^ 31 \<Longrightarrow> sint w = int (unat w)"
proof -
  assume "unat w < 2 ^ 31"
  then have "int (unat w) < int (2 ^ 31)" by (simp only: of_nat_less_iff)
  then have "uint w < 2 ^ 31" by simp
  then show ?thesis using sint_small [of "uint w"] by simp
qed

lemma readi_spec:
  fixes s :: "'a fstate_scheme"
  assumes ok: "fs_ok ip s" and ty: "i_type (icache s ip) \<noteq> T_DEV"
    and rng: "off \<le> i_size (icache s ip)" "off \<le> off + n"
    and r: "readi dr ip off n s = Ok (r, bs, s')"
  defines "m \<equiv> min (unat n) (unat (i_size (icache s ip)) - unat off)"
  shows "grown ip s s'" "bs = map (file_byte ip s) [unat off..<unat off + m]" "r = int m"
proof -
  let ?n = "if i_size (icache s ip) < off + n then i_size (icache s ip) - off else n"
  have um: "unat ?n = m" using unat_clip(1) [OF rng] by (simp add: m_def)
  have nb: "\<not> (i_size (icache s ip) < off \<or> off + n < off)" using rng by auto
  from r ty nb have l: "readi_loop ip (unat off) (unat ?n) s = Ok (bs, s')" and rr: "r = sint ?n"
    by (auto simp: readi_def Let_def res_simps split: if_splits)
  note L = readi_loop_spec [OF ok l, unfolded um]
  from L show "grown ip s s'" "bs = map (file_byte ip s) [unat off..<unat off + m]" by auto
  have "m < 2 ^ 31"
  proof (cases "m = 0")
    case False
    then have "(unat off + m - 1) div BSIZE < MAXFILE" using L by simp
    then have "unat off + m - 1 < MAXFILE * BSIZE" by (simp add: div_less_iff_less_mult layout_simps)
    then show ?thesis by (simp add: layout_simps)
  qed simp
  then show "r = int m" using rr sint_small_nat [of ?n] um by simp
qed

lemma writei_spec:
  fixes s :: "'a fstate_scheme"
  assumes ok: "fs_ok ip s" and ty: "i_type (icache s ip) \<noteq> T_DEV"
    and ib: "iblock_ok (fsb s) (IBLOCK (i_inum (icache s ip)) (fsb s))"
    and rng: "off \<le> i_size (icache s ip)" "off \<le> off + n" "unat off + unat n \<le> MAXFILE * BSIZE"
    and r: "writei dw ip src off n s = Ok (r, s')"
  shows "r = int (unat n)" "fs_ok ip s'" "fsb s' = fsb s" "fstate.more s' = fstate.more s"
    "unat (i_size (icache s' ip)) = max (unat (i_size (icache s ip))) (unat off + unat n)"
    "\<And>x. x div BSIZE < MAXFILE \<Longrightarrow> file_byte ip s' x =
       (if unat off \<le> x \<and> x < unat off + unat n then src (x - unat off) else file_byte ip s x)"
    "\<And>b. foreign (fsb s) (view s) (i_addrs (icache s ip)) b \<Longrightarrow>
       view s' b = view s b \<and> foreign (fsb s) (view s') (i_addrs (icache s' ip)) b"
    "\<And>j. j \<noteq> ip \<Longrightarrow> icache s' j = icache s j" "i_type (icache s' ip) = i_type (icache s ip)"
    "i_inum (icache s' ip) = i_inum (icache s ip)"
    "changes (insert (IBLOCK (i_inum (icache s ip)) (fsb s)) (darea (fsb s))) s s'"
    "i_size (icache s ip) < off + n \<Longrightarrow>
       decode_dinode (dip_off (i_inum (icache s ip))) (view s' (IBLOCK (i_inum (icache s ip)) (fsb s))) =
         to_dinode (icache s' ip)"
proof -
  let ?i = "icache s ip" let ?ib = "IBLOCK (i_inum ?i) (fsb s)"
  have sum: "unat (off + n) = unat off + unat n" by (rule unat_clip(2) [OF rng(1,2)])
  have big: "\<not> (of_nat (MAXFILE * BSIZE) < off + n)"
    using rng(3) sum by (simp add: word_less_nat_alt layout_simps)
  have nb: "\<not> (i_size ?i < off \<or> off + n < off)" using rng by auto
  from r ty nb big obtain s1 where l: "writei_loop ip src 0 (unat off) (unat n) s = Ok s1"
    and tail: "(if 0 < n \<and> i_size (icache s1 ip) < off + n then
          bnd (iupdate ip (upd_inode ip (\<lambda>x. x\<lparr>i_size := off + n\<rparr>) s1)) (\<lambda>s. Ok (sint n, s))
        else Ok (sint n, s1)) = Ok (r, s')"
    by (auto simp: writei_def Let_def res_simps split: if_splits)
  note L = writei_loop_spec [OF ok l] note E = evolvesD [OF conjunct1 [OF L]]
  note U = addrs_only [OF E(6)] note O = fs_okD [OF E(1)]
  have "unat n < 2 ^ 31" using rng(3) by (simp add: layout_simps)
  then have rn: "sint n = int (unat n)" by (rule sint_small_nat)
  have by1: "file_byte ip s1 x = (if unat off \<le> x \<and> x < unat off + unat n then src (x - unat off) else file_byte ip s x)"
    if "x div BSIZE < MAXFILE" for x using L that by simp
  have all: "r = int (unat n) \<and> fs_ok ip s' \<and> fsb s' = fsb s \<and> fstate.more s' = fstate.more s \<and>
    unat (i_size (icache s' ip)) = max (unat (i_size ?i)) (unat off + unat n) \<and>
    (\<forall>x. x div BSIZE < MAXFILE \<longrightarrow> file_byte ip s' x = file_byte ip s1 x) \<and>
    (\<forall>b. foreign (fsb s) (view s) (i_addrs ?i) b \<longrightarrow>
       view s' b = view s b \<and> foreign (fsb s) (view s') (i_addrs (icache s' ip)) b) \<and>
    (\<forall>j. j \<noteq> ip \<longrightarrow> icache s' j = icache s j) \<and> i_type (icache s' ip) = i_type ?i \<and>
    i_inum (icache s' ip) = i_inum ?i \<and> changes (insert ?ib (darea (fsb s))) s s' \<and>
    (i_size ?i < off + n \<longrightarrow> decode_dinode (dip_off (i_inum ?i)) (view s' ?ib) = to_dinode (icache s' ip))"
  proof (cases "0 < n \<and> i_size ?i < off + n")
    case False
    then have s': "s' = s1" "r = sint n" using tail U(10) by auto
    have mx: "unat off + unat n \<le> unat (i_size ?i)"
      using False sum rng(1) by (auto simp: word_less_nat_alt word_le_nat_alt)
    then have "\<not> i_size ?i < off + n" using sum by (simp add: word_less_nat_alt)
    then show ?thesis
      using s' rn E U O mx changes_mono [OF E(2), of "insert ?ib (darea (fsb s))"]
      by (simp add: fs_ok_def max_def subset_insertI)
  next
    case True
    let ?s2 = "upd_inode ip (\<lambda>x. x\<lparr>i_size := off + n\<rparr>) s1"
    from tail True U(10) have up: "iupdate ip ?s2 = Ok s'" and rr: "r = sint n"
      by (auto simp: res_simps)
    have inv2: "bio_inv ?s2" and dev2: "i_dev (icache ?s2 ip) = 1" using O(1,3) by simp_all
    have ibe: "IBLOCK (i_inum (icache ?s2 ip)) (fsb ?s2) = ?ib" using U(2) E(3) by simp
    note P = iupdate_spec [OF inv2 dev2 up, unfolded ibe]
    have ok2: "fs_ok ip ?s2" using E(1) by (simp add: fs_ok_def)
    have ib2: "iblock_ok (fsb ?s2) ?ib" using ib E(3) by simp
    note W = low_write [OF ok2 ib2 P(3,2) changesD(1) [OF P(1)]] note M = more_fs [OF P(2)]
    have "changes (insert ?ib (darea (fsb s))) s s'"
      using changes_trans [OF E(2) P(1) [unfolded upd_inode_frame]] by simp
    moreover have "length (d_addrs (to_dinode (icache ?s2 ip))) = NADDRS"
      using tree_okD(1) [OF O(4)] by (simp add: to_dinode_def)
    from decode_encode_dinode [OF this, of "dip_off (i_inum ?i)"]
    have "decode_dinode (dip_off (i_inum ?i)) (view s' ?ib) = to_dinode (icache s' ip)"
      using U(2) by (simp add: P(3) M)
    moreover have "unat (i_size ?i) < unat off + unat n" using True sum by (simp add: word_less_nat_alt)
    ultimately show ?thesis
      using W(1-3) rr rn E(3,4,5,8,9) U M sum by (simp add: max_def)
  qed
  then show "r = int (unat n)" "fs_ok ip s'" "fsb s' = fsb s" "fstate.more s' = fstate.more s"
    "unat (i_size (icache s' ip)) = max (unat (i_size ?i)) (unat off + unat n)"
    "\<And>x. x div BSIZE < MAXFILE \<Longrightarrow> file_byte ip s' x =
       (if unat off \<le> x \<and> x < unat off + unat n then src (x - unat off) else file_byte ip s x)"
    "\<And>b. foreign (fsb s) (view s) (i_addrs ?i) b \<Longrightarrow>
       view s' b = view s b \<and> foreign (fsb s) (view s') (i_addrs (icache s' ip)) b"
    "\<And>j. j \<noteq> ip \<Longrightarrow> icache s' j = icache s j" "i_type (icache s' ip) = i_type ?i"
    "i_inum (icache s' ip) = i_inum ?i" "changes (insert ?ib (darea (fsb s))) s s'"
    "i_size ?i < off + n \<Longrightarrow> decode_dinode (dip_off (i_inum ?i)) (view s' ?ib) = to_dinode (icache s' ip)"
    using by1 by auto
qed

end
