(* ===== verification/Fs_Trunc.thy ===== *)
theory Fs_Trunc
  imports Fs_File
begin

text \<open>
  Truncation of inodes: \<open>itrunc\<close> frees exactly the blocks of the tree.
\<close>

section \<open>Freeing sets of blocks\<close>

definition freed :: "u32 set \<Rightarrow> 'a fstate_scheme \<Rightarrow> 'a fstate_scheme \<Rightarrow> bool" where
  "freed F s s' \<longleftrightarrow> bio_inv s' \<and> map_ok (fsb s) (view s') \<and> changes (darea (fsb s)) s s' \<and>
     fsb s' = fsb s \<and> fstate.more s' = fstate.more s \<and>
     (\<forall>b. datastart (fsb s) \<le> unat b \<or> unat b < unat (sb_bmapstart (fsb s)) \<longrightarrow> view s' b = view s b) \<and>
     (\<forall>b<unat (sb_size (fsb s)). used (fsb s) (view s') b \<longleftrightarrow> used (fsb s) (view s) b \<and> b \<notin> unat ` F)"

lemma freedD:
  assumes "freed F s s'"
  shows "bio_inv s'" "map_ok (fsb s) (view s')" "changes (darea (fsb s)) s s'" "fsb s' = fsb s"
    "fstate.more s' = fstate.more s" "\<And>b. datastart (fsb s) \<le> unat b \<Longrightarrow> view s' b = view s b"
    "\<And>b. unat b < unat (sb_bmapstart (fsb s)) \<Longrightarrow> view s' b = view s b"
    "\<And>b. b < unat (sb_size (fsb s)) \<Longrightarrow> used (fsb s) (view s') b \<longleftrightarrow> used (fsb s) (view s) b \<and> b \<notin> unat ` F"
  using assms by (simp_all add: freed_def)

lemma freed_empty: "bio_inv s \<Longrightarrow> map_ok (fsb s) (view s) \<Longrightarrow> freed {} s s"
  by (simp add: freed_def changes_refl)

lemma freed_trans:
  assumes a: "freed F s s1" and b: "freed G s1 s2"
  shows "freed (F \<union> G) s s2"
proof -
  note A = freedD [OF a] note B = freedD [OF b, unfolded A(4)]
  have "changes (darea (fsb s)) s s2" using changes_trans [OF A(3) B(3)] by simp
  then show ?thesis unfolding freed_def using A(4-8) B(1,2,4-8) by (simp add: image_Un)
qed

lemma freed_same:
  assumes "freed F s s1" "changes {} s1 s2" "view s2 = view s1" "fsb s2 = fsb s1" "fstate.more s2 = fstate.more s1"
  shows "freed F s s2"
  using assms changes_trans [OF freedD(3) [OF assms(1)] assms(2)] changesD(1) [OF assms(2)]
  by (simp add: freed_def)

lemma freed_icache [simp]:
  "freed F s (upd_inode ip f s') = freed F s s'" "freed F (upd_inode ip f s) s' = freed F s s'"
  by (simp_all add: freed_def)

lemma bfree_freed:
  assumes inv: "bio_inv s" and m: "map_ok (fsb s) (view s)" and ok: "bfree 1 a s = Ok s'"
    and a: "datastart (fsb s) \<le> unat a" "a < sb_size (fsb s)"
  shows "freed {a} s s'" "kstate.more s' = kstate.more s" "used (fsb s) (view s) (unat a)"
proof -
  have sbd: "fsb s = decode_sb (view s 1)" using m by (simp add: map_ok_def)
  note S = bfree_spec [OF inv sbd ok] note M = bfree_map [OF inv ok m a] note E = more_fs [OF S(4)]
  have "unat a \<le> unat (sb_size (fsb s))" using a(2) by (simp add: word_less_nat_alt)
  then have "BBLOCK (unat a) (fsb s) \<in> darea (fsb s)" by (rule darea_meta(1) [OF m])
  then have "changes (darea (fsb s)) s s'" using changes_mono [OF S(2)] by simp
  then show "freed {a} s s'" using changesD(1) M E by (auto simp: freed_def)
  show "kstate.more s' = kstate.more s" by (rule S(4))
  show "used (fsb s) (view s) (unat a)" by (rule S(1))
qed

text \<open>The entries of an index block, and the block with them.\<close>

definition entries :: "bytes \<Rightarrow> u32 set" where
  "entries d = {get_u32 d j |j. j < NINDIRECT \<and> get_u32 d j \<noteq> 0}"

abbreviation datablocks :: "superblock \<Rightarrow> u32 set" where
  "datablocks sb \<equiv> {b. datastart sb \<le> unat b \<and> b < sb_size sb}"

text \<open>A loop that frees, for each non-zero entry of the held block, the set \<open>G\<close> of that entry.\<close>

lemma free_loop:
  fixes s :: "'a fstate_scheme"
  assumes inv: "bio_inv s" and m: "map_ok (fsb s) (view s)" and h: "held s bp A"
    and step: "\<And>a t t'. a \<in> entries (view s A) \<Longrightarrow> bio_inv t \<Longrightarrow> map_ok (fsb t) (view t) \<Longrightarrow> fsb t = fsb s \<Longrightarrow>
      (\<And>b. datastart (fsb s) \<le> unat b \<Longrightarrow> view t b = view s b) \<Longrightarrow> fr a t = Ok t' \<Longrightarrow>
      freed (G a) t t' \<and> kstate.more t' = kstate.more t"
    and ok: "foreach (\<lambda>j t. let a = get_u32 (b_data (bufs t bp)) j in if a \<noteq> 0 then fr a t else Ok t) [0..<NINDIRECT] s = Ok s'"
  shows "freed (\<Union>(G ` entries (view s A))) s s' \<and> kstate.more s' = kstate.more s"
proof -
  let ?d = "view s A"
  let ?P = "\<lambda>ys t. freed (\<Union>(G ` {get_u32 ?d j |j. j \<in> set ys \<and> get_u32 ?d j \<noteq> 0})) s t \<and> kstate.more t = kstate.more s"
  have "?P [0..<NINDIRECT] s'"
    using ok
  proof (rule foreach_invariant)
    show "?P [] s" using freed_empty [OF inv m] by simp
    fix ys j t t'
    assume sub: "set (ys @ [j]) \<subseteq> set [0..<NINDIRECT]" and P: "?P ys t"
      and st: "(let a = get_u32 (b_data (bufs t bp)) j in if a \<noteq> 0 then fr a t else Ok t) = Ok t'"
    note T = freedD [OF conjunct1 [OF P]]
    have d: "b_data (bufs t bp) = ?d"
      using changes_held(2) [OF T(3) h] held_view [OF inv h] by simp
    show "?P (ys @ [j]) t'"
    proof (cases "get_u32 ?d j = 0")
      case True
      then have "t' = t" using st d by simp
      moreover have "{get_u32 ?d i |i. i \<in> set (ys @ [j]) \<and> get_u32 ?d i \<noteq> 0} =
          {get_u32 ?d i |i. i \<in> set ys \<and> get_u32 ?d i \<noteq> 0}" using True by auto
      ultimately show ?thesis using P by simp
    next
      case False
      then have fr: "fr (get_u32 ?d j) t = Ok t'" using st d by simp
      have en: "get_u32 ?d j \<in> entries ?d" using sub False by (auto simp: entries_def)
      have "map_ok (fsb t) (view t)" using T(2,4) by simp
      with step [OF en T(1) _ T(4) T(6) fr]
      have g: "freed (G (get_u32 ?d j)) t t'" "kstate.more t' = kstate.more t" by auto
      have "{get_u32 ?d i |i. i \<in> set (ys @ [j]) \<and> get_u32 ?d i \<noteq> 0} =
          insert (get_u32 ?d j) {get_u32 ?d i |i. i \<in> set ys \<and> get_u32 ?d i \<noteq> 0}" using False by auto
      then show ?thesis using freed_trans [OF conjunct1 [OF P] g(1)] g(2) P by (simp add: Un_commute)
    qed
  qed
  moreover have "{get_u32 ?d j |j. j \<in> set [0..<NINDIRECT] \<and> get_u32 ?d j \<noteq> 0} = entries ?d"
    by (auto simp: entries_def)
  ultimately show ?thesis by simp
qed

text \<open>Read block \<open>a\<close>, run a loop that frees \<open>F\<close> while it is held, release it and free it.\<close>

lemma free_block:
  fixes s :: "'a fstate_scheme"
  assumes inv: "bio_inv s" and m: "map_ok (fsb s) (view s)" and a: "a \<in> datablocks (fsb s)"
    and loop: "\<And>i s1 s2. bio_inv s1 \<Longrightarrow> map_ok (fsb s1) (view s1) \<Longrightarrow> fsb s1 = fsb s \<Longrightarrow> view s1 = view s \<Longrightarrow>
      held s1 i a \<Longrightarrow> body i s1 = Ok s2 \<Longrightarrow> freed F s1 s2 \<and> kstate.more s2 = kstate.more s1"
    and ok: "bnd (bread 1 a s) (\<lambda>(i, s). bnd (body i s) (\<lambda>s. bnd (brelse i s) (\<lambda>s. bfree 1 a s))) = Ok s'"
  shows "freed (insert a F) s s' \<and> kstate.more s' = kstate.more s"
proof -
  from ok obtain i s1 s2 s3 where e: "bread 1 a s = Ok (i, s1)" "body i s1 = Ok s2" "brelse i s2 = Ok s3"
    "bfree 1 a s3 = Ok s'" by (auto simp: res_simps)
  note B = bread_changes [OF inv e(1)] note M1 = more_fs [OF B(7)]
  have m1: "map_ok (fsb s1) (view s1)" using m by (simp add: M1 B(6))
  from loop [OF changesD(1) [OF B(1)] m1 M1(1) B(6,2) e(2)]
  have f: "freed F s1 s2" and more2: "kstate.more s2 = kstate.more s1" by auto
  note D = freedD [OF f, unfolded M1 B(6)]
  note C = close_ro [OF inv e(1) D(3) e(3)]
  have more3: "kstate.more s3 = kstate.more s" using C(3) more2 B(7) by simp
  note M3 = more_fs [OF more3]
  have f3: "freed F s s3"
    using C(1,2) D(2,5-8) M3 changesD(1) [OF C(1)] by (simp add: freed_def)
  have m3: "map_ok (fsb s3) (view s3)" using freedD(2) [OF f3] by (simp add: M3)
  have "datastart (fsb s3) \<le> unat a" "a < sb_size (fsb s3)" using a by (simp_all add: M3)
  note G = bfree_freed [OF freedD(1) [OF f3] m3 e(4) this]
  show ?thesis using freed_trans [OF f3 G(1)] G(2) more3 by simp
qed

lemma free_indirect_spec:
  fixes s :: "'a fstate_scheme"
  assumes inv: "bio_inv s" and m: "map_ok (fsb s) (view s)"
    and a: "a \<in> datablocks (fsb s)" "entries (view s a) \<subseteq> datablocks (fsb s)"
    and ok: "free_indirect 1 a s = Ok s'"
  shows "freed (insert a (entries (view s a))) s s'" "kstate.more s' = kstate.more s"
proof -
  have loop: "freed (entries (view s a)) s1 s2 \<and> kstate.more s2 = kstate.more s1"
    if "bio_inv s1" "map_ok (fsb s1) (view s1)" "fsb s1 = fsb s" "view s1 = view s" "held s1 i a"
      "free_entries 1 i s1 = Ok s2" for i and s1 s2 :: "'a fstate_scheme"
  proof -
    have st: "freed {b} t t' \<and> kstate.more t' = kstate.more t"
      if "b \<in> entries (view s1 a)" "bio_inv t" "map_ok (fsb t) (view t)" "fsb t = fsb s1" "bfree 1 b t = Ok t'"
      for b and t t' :: "'a fstate_scheme"
      using bfree_freed [OF that(2,3,5)] that a(2) \<open>fsb s1 = fsb s\<close> \<open>view s1 = view s\<close> by auto
    have "freed (\<Union>((\<lambda>b. {b}) ` entries (view s1 a))) s1 s2 \<and> kstate.more s2 = kstate.more s1"
      by (rule free_loop [where fr = "bfree 1", OF that(1,2,5) _ that(6) [unfolded free_entries_def]]) (rule st)
    then show ?thesis using that(4) by simp
  qed
  have "bnd (bread 1 a s) (\<lambda>(i, s). bnd (free_entries 1 i s) (\<lambda>s. bnd (brelse i s) (\<lambda>s. bfree 1 a s))) = Ok s'"
    using ok by (simp add: free_indirect_def)
  then have "freed (insert a (entries (view s a))) s s' \<and> kstate.more s' = kstate.more s"
    by (rule free_block [where body = "free_entries 1", OF inv m a(1), rotated]) (rule loop)
  then show "freed (insert a (entries (view s a))) s s'" "kstate.more s' = kstate.more s" by auto
qed

lemma free_double_spec:
  fixes s :: "'a fstate_scheme"
  assumes inv: "bio_inv s" and m: "map_ok (fsb s) (view s)"
    and a: "a \<in> datablocks (fsb s)" "entries (view s a) \<subseteq> datablocks (fsb s)"
      "\<And>b. b \<in> entries (view s a) \<Longrightarrow> entries (view s b) \<subseteq> datablocks (fsb s)"
    and ok: "free_double 1 a s = Ok s'"
  defines "F \<equiv> \<Union>b\<in>entries (view s a). insert b (entries (view s b))"
  shows "freed (insert a F) s s'" "kstate.more s' = kstate.more s"
proof -
  let ?body = "\<lambda>i. foreach (\<lambda>k s. let a = get_u32 (b_data (bufs s i)) k in
            if a \<noteq> 0 then free_indirect 1 a s else Ok s) [0..<NINDIRECT]"
  have loop: "freed F s1 s2 \<and> kstate.more s2 = kstate.more s1"
    if "bio_inv s1" "map_ok (fsb s1) (view s1)" "fsb s1 = fsb s" "view s1 = view s" "held s1 i a"
      "?body i s1 = Ok s2" for i and s1 s2 :: "'a fstate_scheme"
  proof -
    have st: "freed (insert b (entries (view s b))) t t' \<and> kstate.more t' = kstate.more t"
      if "b \<in> entries (view s1 a)" "bio_inv t" "map_ok (fsb t) (view t)" "fsb t = fsb s1"
        "\<And>b. datastart (fsb s1) \<le> unat b \<Longrightarrow> view t b = view s1 b" "free_indirect 1 b t = Ok t'"
      for b and t t' :: "'a fstate_scheme"
    proof -
      have b: "b \<in> entries (view s a)" "b \<in> datablocks (fsb t)"
        using that(1,4) a(2) \<open>view s1 = view s\<close> \<open>fsb s1 = fsb s\<close> by auto
      have v: "view t b = view s b" using that(4,5) b(2) \<open>view s1 = view s\<close> by simp
      have "entries (view t b) \<subseteq> datablocks (fsb t)"
        using a(3) [OF b(1)] v that(4) \<open>fsb s1 = fsb s\<close> by simp
      from free_indirect_spec [OF that(2,3) b(2) this that(6)] show ?thesis using v by simp
    qed
    have "freed (\<Union>((\<lambda>b. insert b (entries (view s b))) ` entries (view s1 a))) s1 s2 \<and>
        kstate.more s2 = kstate.more s1"
      by (rule free_loop [where fr = "free_indirect 1", OF that(1,2,5) _ that(6)]) (rule st)
    then show ?thesis using that(4) by (simp add: F_def)
  qed
  have "bnd (bread 1 a s) (\<lambda>(i, s). bnd (?body i s) (\<lambda>s. bnd (brelse i s) (\<lambda>s. bfree 1 a s))) = Ok s'"
    using ok by (simp add: free_double_def)
  then have "freed (insert a F) s s' \<and> kstate.more s' = kstate.more s"
    by (rule free_block [where body = ?body, OF inv m a(1), rotated]) (rule loop)
  then show "freed (insert a F) s s'" "kstate.more s' = kstate.more s" by auto
qed

lemma trunc_root_spec:
  fixes s :: "'a fstate_scheme"
  assumes inv: "bio_inv s" and m: "map_ok (fsb s) (view s)"
    and fr: "\<And>s'. i_addrs (icache s ip) ! k \<noteq> 0 \<Longrightarrow> fr (i_addrs (icache s ip) ! k) s = Ok s' \<Longrightarrow>
      freed F s s' \<and> kstate.more s' = kstate.more s"
    and z: "i_addrs (icache s ip) ! k = 0 \<Longrightarrow> F = {}"
    and ok: "trunc_root fr ip k s = Ok s'"
  shows "freed F s s'" "icache s' = (icache s)(ip := (icache s ip)\<lparr>i_addrs := (i_addrs (icache s ip))[k := 0]\<rparr>)"
proof -
  let ?a = "i_addrs (icache s ip) ! k"
  have "freed F s s' \<and> icache s' = (icache s)(ip := (icache s ip)\<lparr>i_addrs := (i_addrs (icache s ip))[k := 0]\<rparr>)"
  proof (cases "?a = 0")
    case True
    then have "s' = s" using ok by (simp add: trunc_root_def)
    moreover have "(i_addrs (icache s ip))[k := 0] = i_addrs (icache s ip)"
      using True list_update_id [of "i_addrs (icache s ip)" k] by simp
    ultimately show ?thesis using freed_empty [OF inv m] z [OF True] by simp
  next
    case False
    from ok False obtain s1 where e: "fr ?a s = Ok s1"
      "s' = upd_inode ip (\<lambda>x. x\<lparr>i_addrs := (i_addrs x)[k := 0]\<rparr>) s1"
      by (auto simp: trunc_root_def Let_def res_simps)
    from fr [OF False e(1)] more_fs [of s1 s] show ?thesis by (simp add: e(2))
  qed
  then show "freed F s s'" "icache s' = (icache s)(ip := (icache s ip)\<lparr>i_addrs := (i_addrs (icache s ip))[k := 0]\<rparr>)"
    by auto
qed

section \<open>Truncating a file\<close>

definition tree_blocks :: "(u32 \<Rightarrow> bytes) \<Rightarrow> u32 list \<Rightarrow> u32 set" where
  "tree_blocks v as = {sa v as p |p. vpath p \<and> sa v as p \<noteq> 0}"

definition direct_blocks :: "u32 list \<Rightarrow> u32 set" where
  "direct_blocks as = {as ! i |i. i < NDIRECT \<and> as ! i \<noteq> 0}"

definition ind_blocks :: "(u32 \<Rightarrow> bytes) \<Rightarrow> u32 \<Rightarrow> u32 set" where
  "ind_blocks v a = (if a = 0 then {} else insert a (entries (v a)))"

definition dbl_blocks :: "(u32 \<Rightarrow> bytes) \<Rightarrow> u32 \<Rightarrow> u32 set" where
  "dbl_blocks v a = (if a = 0 then {} else insert a (\<Union>b\<in>entries (v a). insert b (entries (v b))))"

lemma tree_blocks_split:
  "tree_blocks v as = direct_blocks as \<union> ind_blocks v (as ! NDIRECT) \<union> dbl_blocks v (as ! (NDIRECT + 1))"
proof (intro equalityI subsetI)
  fix b assume "b \<in> tree_blocks v as"
  then obtain p where p: "vpath p" "b = sa v as p" "b \<noteq> 0" by (auto simp: tree_blocks_def)
  from p(1) consider (r) i where "p = [i]" "i < NADDRS" | (i) j where "p = [j, NDIRECT]" "j < NINDIRECT"
    | (k) k where "p = [k, NDIRECT + 1]" "k < NINDIRECT"
    | (l) l k where "p = [l, k, NDIRECT + 1]" "l < NINDIRECT" "k < NINDIRECT" unfolding vpath_def by blast
  then show "b \<in> direct_blocks as \<union> ind_blocks v (as ! NDIRECT) \<union> dbl_blocks v (as ! (NDIRECT + 1))"
  proof cases
    case r
    then consider "i < NDIRECT" | "i = NDIRECT" | "i = NDIRECT + 1" by (auto simp: layout_simps) linarith
    then show ?thesis using p r by cases (auto simp: direct_blocks_def ind_blocks_def dbl_blocks_def)
  next
    case i
    then show ?thesis using p by (auto simp: ind_blocks_def entries_def Let_def split: if_splits)
  next
    case k
    then show ?thesis using p by (auto simp: dbl_blocks_def entries_def Let_def split: if_splits)
  next
    case l
    then have nz: "as ! (NDIRECT + 1) \<noteq> 0" "get_u32 (v (as ! (NDIRECT + 1))) k \<noteq> 0"
      "b = get_u32 (v (get_u32 (v (as ! (NDIRECT + 1))) k)) l"
      using p by (auto simp: Let_def split: if_splits)
    then have "get_u32 (v (as ! (NDIRECT + 1))) k \<in> entries (v (as ! (NDIRECT + 1)))"
      "b \<in> entries (v (get_u32 (v (as ! (NDIRECT + 1))) k))" using l p(3) by (auto simp: entries_def)
    then show ?thesis using nz(1) by (auto simp: dbl_blocks_def)
  qed
next
  have vp: "vpath [i]" if "i < NADDRS" for i using that by simp
  have lt: "NDIRECT < NADDRS" "NDIRECT + 1 < NADDRS" by (simp_all add: layout_simps)
  have in_tree: "sa v as p \<in> tree_blocks v as" if "vpath p" "sa v as p \<noteq> 0" for p
    using that by (auto simp: tree_blocks_def)
  fix b assume "b \<in> direct_blocks as \<union> ind_blocks v (as ! NDIRECT) \<union> dbl_blocks v (as ! (NDIRECT + 1))"
  then consider (d) "b \<in> direct_blocks as" | (i) "b \<in> ind_blocks v (as ! NDIRECT)"
    | (dd) "b \<in> dbl_blocks v (as ! (NDIRECT + 1))" by blast
  then show "b \<in> tree_blocks v as"
  proof cases
    case d
    then obtain i where "i < NDIRECT" "b = as ! i" "b \<noteq> 0" by (auto simp: direct_blocks_def)
    then show ?thesis using in_tree [of "[i]"] lt by simp
  next
    case i
    then have nz: "as ! NDIRECT \<noteq> 0" by (auto simp: ind_blocks_def)
    with i consider "b = as ! NDIRECT" | j where "j < NINDIRECT" "b = get_u32 (v (as ! NDIRECT)) j" "b \<noteq> 0"
      by (auto simp: ind_blocks_def entries_def)
    then show ?thesis
    proof cases
      case 1 then show ?thesis using in_tree [of "[NDIRECT]"] nz lt by simp
    next
      case 2 then show ?thesis using in_tree [of "[j, NDIRECT]"] nz by (simp add: vpath_def)
    qed
  next
    case dd
    let ?a = "as ! (NDIRECT + 1)"
    from dd have nz: "?a \<noteq> 0" by (auto simp: dbl_blocks_def)
    with dd consider "b = ?a" | k where "k < NINDIRECT" "b = get_u32 (v ?a) k" "b \<noteq> 0"
      | k l where "k < NINDIRECT" "get_u32 (v ?a) k \<noteq> 0" "l < NINDIRECT" "b = get_u32 (v (get_u32 (v ?a) k)) l" "b \<noteq> 0"
      by (auto simp: dbl_blocks_def entries_def)
    then show ?thesis
    proof cases
      case 1 then show ?thesis using in_tree [of "[NDIRECT + 1]"] nz lt by simp
    next
      case 2 then show ?thesis using in_tree [of "[k, NDIRECT + 1]"] nz by (simp add: vpath_def)
    next
      case 3 then show ?thesis using in_tree [of "[l, k, NDIRECT + 1]"] nz by (simp add: vpath_def)
    qed
  qed
qed

lemma trunc_direct:
  fixes s :: "'a fstate_scheme"
  assumes inv: "bio_inv s" and m: "map_ok (fsb s) (view s)" and len: "length (i_addrs (icache s ip)) = NADDRS"
    and db: "direct_blocks (i_addrs (icache s ip)) \<subseteq> datablocks (fsb s)"
    and ok: "foreach (trunc_root (bfree 1) ip) [0..<NDIRECT] s = Ok s'"
  shows "freed (direct_blocks (i_addrs (icache s ip))) s s'"
    "\<And>j. j \<noteq> ip \<Longrightarrow> icache s' j = icache s j" "(icache s' ip)\<lparr>i_addrs := []\<rparr> = (icache s ip)\<lparr>i_addrs := []\<rparr>"
    "length (i_addrs (icache s' ip)) = NADDRS"
    "\<And>i. i < NADDRS \<Longrightarrow> i_addrs (icache s' ip) ! i = (if i < NDIRECT then 0 else i_addrs (icache s ip) ! i)"
proof -
  let ?as = "i_addrs (icache s ip)"
  let ?P = "\<lambda>ys t. freed {?as ! i |i. i \<in> set ys \<and> ?as ! i \<noteq> 0} s t \<and> (\<forall>j. j \<noteq> ip \<longrightarrow> icache t j = icache s j) \<and>
    (icache t ip)\<lparr>i_addrs := []\<rparr> = (icache s ip)\<lparr>i_addrs := []\<rparr> \<and> length (i_addrs (icache t ip)) = NADDRS \<and>
    (\<forall>i<NADDRS. i_addrs (icache t ip) ! i = (if i \<in> set ys then 0 else ?as ! i))"
  have "?P [0..<NDIRECT] s'"
    using ok
  proof (rule foreach_invariant)
    show "?P [] s" using freed_empty [OF inv m] len by simp
    fix ys k t t'
    assume sub: "set (ys @ [k]) \<subseteq> set [0..<NDIRECT]" and P: "?P ys t" and st: "trunc_root (bfree 1) ip k t = Ok t'"
    note T = freedD [OF conjunct1 [OF P]]
    have k: "k < NDIRECT" "k < NADDRS" using sub by (auto simp: layout_simps)
    let ?F = "if k \<in> set ys \<or> ?as ! k = 0 then {} else {?as ! k}"
    have tk: "i_addrs (icache t ip) ! k = (if k \<in> set ys then 0 else ?as ! k)" using P k by blast
    have mt: "map_ok (fsb t) (view t)" using T(2,4) by simp
    have fr: "freed ?F t t1 \<and> kstate.more t1 = kstate.more t"
      if nz: "i_addrs (icache t ip) ! k \<noteq> 0" and b: "bfree 1 (i_addrs (icache t ip) ! k) t = Ok t1" for t1
    proof -
      have e: "i_addrs (icache t ip) ! k = ?as ! k" "k \<notin> set ys" "?as ! k \<noteq> 0" using tk nz by (auto split: if_splits)
      then have "?as ! k \<in> datablocks (fsb t)" using db k T(4) by (auto simp: direct_blocks_def)
      then show ?thesis using bfree_freed [OF T(1) mt b] e by simp
    qed
    have z: "i_addrs (icache t ip) ! k = 0 \<Longrightarrow> ?F = {}" using tk by (auto split: if_splits)
    note rs = trunc_root_spec [where F = ?F, OF T(1) mt _ _ st]
    have R1: "freed ?F t t'" by (rule rs(1)) (fact fr z)+
    have R2: "icache t' = (icache t)(ip := (icache t ip)\<lparr>i_addrs := (i_addrs (icache t ip))[k := 0]\<rparr>)"
      by (rule rs(2)) (fact fr z)+
    have "{?as ! i |i. i \<in> set (ys @ [k]) \<and> ?as ! i \<noteq> 0} = {?as ! i |i. i \<in> set ys \<and> ?as ! i \<noteq> 0} \<union> ?F" by auto
    then have "freed {?as ! i |i. i \<in> set (ys @ [k]) \<and> ?as ! i \<noteq> 0} s t'"
      using freed_trans [OF conjunct1 [OF P] R1] by simp
    then show "?P (ys @ [k]) t'" using P k by (simp add: R2 nth_list_update)
  qed
  moreover have "{?as ! i |i. i \<in> set [0..<NDIRECT] \<and> ?as ! i \<noteq> 0} = direct_blocks ?as" by (auto simp: direct_blocks_def)
  ultimately show "freed (direct_blocks ?as) s s'" "\<And>j. j \<noteq> ip \<Longrightarrow> icache s' j = icache s j"
    "(icache s' ip)\<lparr>i_addrs := []\<rparr> = (icache s ip)\<lparr>i_addrs := []\<rparr>" "length (i_addrs (icache s' ip)) = NADDRS"
    "\<And>i. i < NADDRS \<Longrightarrow> i_addrs (icache s' ip) ! i = (if i < NDIRECT then 0 else ?as ! i)" by auto
qed

lemma tree_datablocks:
  assumes "tree_ok sb v as"
  shows "tree_blocks v as \<subseteq> datablocks sb"
  using tree_okD(2,3) [OF assms] by (auto simp: tree_blocks_def)

lemma itrunc_spec:
  fixes s :: "'a fstate_scheme"
  assumes ok: "fs_ok ip s" and ib: "iblock_ok (fsb s) (IBLOCK (i_inum (icache s ip)) (fsb s))"
    and r: "itrunc ip s = Ok s'"
  defines "F \<equiv> tree_blocks (view s) (i_addrs (icache s ip))"
    and "x \<equiv> (icache s ip)\<lparr>i_size := 0, i_addrs := replicate NADDRS 0\<rparr>"
  shows "icache s' = (icache s)(ip := x)" "fsb s' = fsb s" "fstate.more s' = fstate.more s"
    "\<And>b. b < unat (sb_size (fsb s)) \<Longrightarrow> used (fsb s) (view s') b \<longleftrightarrow> used (fsb s) (view s) b \<and> b \<notin> unat ` F"
    "\<And>b. datastart (fsb s) \<le> unat b \<Longrightarrow> view s' b = view s b"
    "decode_dinode (dip_off (i_inum (icache s ip))) (view s' (IBLOCK (i_inum (icache s ip)) (fsb s))) = to_dinode x"
    "bio_inv s'" "map_ok (fsb s) (view s')"
    "changes (insert (IBLOCK (i_inum (icache s ip)) (fsb s)) (darea (fsb s))) s s'"
proof -
  note O = fs_okD [OF ok] let ?as = "i_addrs (icache s ip)" let ?v = "view s" and ?sb = "fsb s"
  let ?ib = "IBLOCK (i_inum (icache s ip)) ?sb"
  have db: "direct_blocks ?as \<subseteq> datablocks ?sb" "ind_blocks ?v (?as ! NDIRECT) \<subseteq> datablocks ?sb"
    "dbl_blocks ?v (?as ! (NDIRECT + 1)) \<subseteq> datablocks ?sb"
    using tree_datablocks [OF O(4)] unfolding tree_blocks_split by blast+
  from r O(3) obtain s1 s2 s3 where e: "foreach (trunc_root (bfree 1) ip) [0..<NDIRECT] s = Ok s1"
    "trunc_root (free_indirect 1) ip NDIRECT s1 = Ok s2"
    "trunc_root (free_double 1) ip (NDIRECT + 1) s2 = Ok s3"
    "iupdate ip (upd_inode ip (\<lambda>x. x\<lparr>i_size := 0\<rparr>) s3) = Ok s'"
    by (auto simp: itrunc_def Let_def res_simps)
  note A = trunc_direct [OF O(1,2) tree_okD(1) [OF O(4)] db(1) e(1)]
  note A' = freedD [OF A(1)]
  have lt: "NDIRECT < NADDRS" "NDIRECT + 1 < NADDRS" by (simp_all add: layout_simps)
  have as1: "i_addrs (icache s1 ip) ! NDIRECT = ?as ! NDIRECT" "i_addrs (icache s1 ip) ! (NDIRECT + 1) = ?as ! (NDIRECT + 1)"
    using A(5) lt by simp_all
  have v1: "view s1 b = ?v b" if "b \<in> datablocks ?sb" for b using A'(6) that by simp
  have m1: "map_ok (fsb s1) (view s1)" using A'(2,4) by simp
  let ?F1 = "ind_blocks ?v (?as ! NDIRECT)"
  have fr1: "freed ?F1 s1 t \<and> kstate.more t = kstate.more s1"
    if nz: "i_addrs (icache s1 ip) ! NDIRECT \<noteq> 0" and f: "free_indirect 1 (i_addrs (icache s1 ip) ! NDIRECT) s1 = Ok t" for t
  proof -
    have a: "?as ! NDIRECT \<in> datablocks ?sb" "entries (?v (?as ! NDIRECT)) \<subseteq> datablocks ?sb" "?as ! NDIRECT \<noteq> 0"
      using db(2) nz as1 by (auto simp: ind_blocks_def)
    then have "i_addrs (icache s1 ip) ! NDIRECT \<in> datablocks (fsb s1)"
      "entries (view s1 (i_addrs (icache s1 ip) ! NDIRECT)) \<subseteq> datablocks (fsb s1)"
      using v1 [OF a(1)] as1 A'(4) by simp_all
    from free_indirect_spec [OF A'(1) m1 this f] show ?thesis
      using as1 v1 [OF a(1)] a(3) by (simp add: ind_blocks_def)
  qed
  have z1: "i_addrs (icache s1 ip) ! NDIRECT = 0 \<Longrightarrow> ?F1 = {}" using as1 by (simp add: ind_blocks_def)
  note rs1 = trunc_root_spec [where F = ?F1, OF A'(1) m1 _ _ e(2)]
  have B1: "freed ?F1 s1 s2" by (rule rs1(1)) (fact fr1 z1)+
  have B2: "icache s2 = (icache s1)(ip := (icache s1 ip)\<lparr>i_addrs := (i_addrs (icache s1 ip))[NDIRECT := 0]\<rparr>)"
    by (rule rs1(2)) (fact fr1 z1)+
  have f2: "freed (direct_blocks ?as \<union> ?F1) s s2" using freed_trans [OF A(1) B1] by simp
  note B' = freedD [OF f2]
  have as2: "i_addrs (icache s2 ip) ! (NDIRECT + 1) = ?as ! (NDIRECT + 1)" using as1 A(4) lt by (simp add: B2)
  have v2: "view s2 b = ?v b" if "b \<in> datablocks ?sb" for b using B'(6) that by simp
  have m2: "map_ok (fsb s2) (view s2)" using B'(2,4) by simp
  let ?F2 = "dbl_blocks ?v (?as ! (NDIRECT + 1))"
  have fr2: "freed ?F2 s2 t \<and> kstate.more t = kstate.more s2"
    if nz: "i_addrs (icache s2 ip) ! (NDIRECT + 1) \<noteq> 0"
      and f: "free_double 1 (i_addrs (icache s2 ip) ! (NDIRECT + 1)) s2 = Ok t" for t
  proof -
    let ?a = "?as ! (NDIRECT + 1)"
    have a: "?a \<in> datablocks ?sb" "entries (?v ?a) \<subseteq> datablocks ?sb" "?a \<noteq> 0"
      "\<And>b. b \<in> entries (?v ?a) \<Longrightarrow> entries (?v b) \<subseteq> datablocks ?sb"
      using db(3) nz as2 by (auto simp: dbl_blocks_def)
    have va: "view s2 ?a = ?v ?a" by (rule v2 [OF a(1)])
    have vb: "view s2 b = ?v b" if "b \<in> entries (?v ?a)" for b using v2 a(2) that by blast
    have "?a \<in> datablocks (fsb s2)" "entries (view s2 ?a) \<subseteq> datablocks (fsb s2)"
      "\<And>b. b \<in> entries (view s2 ?a) \<Longrightarrow> entries (view s2 b) \<subseteq> datablocks (fsb s2)"
      using a(1,2,4) va vb B'(4) by auto
    from free_double_spec [OF B'(1) m2 this f [unfolded as2]] show ?thesis
      using va vb a(3) by (simp add: dbl_blocks_def)
  qed
  have z2: "i_addrs (icache s2 ip) ! (NDIRECT + 1) = 0 \<Longrightarrow> ?F2 = {}" using as2 by (simp add: dbl_blocks_def)
  note rs2 = trunc_root_spec [where F = ?F2, OF B'(1) m2 _ _ e(3)]
  have C1: "freed ?F2 s2 s3" by (rule rs2(1)) (fact fr2 z2)+
  have C2: "icache s3 = (icache s2)(ip := (icache s2 ip)\<lparr>i_addrs := (i_addrs (icache s2 ip))[NDIRECT + 1 := 0]\<rparr>)"
    by (rule rs2(2)) (fact fr2 z2)+
  have f3: "freed F s s3" using freed_trans [OF f2 C1] by (simp add: F_def tree_blocks_split Un_assoc)
  note C' = freedD [OF f3]
  have "i_addrs (icache s3 ip) = replicate NADDRS 0"
    using A(4,5) by (intro nth_equalityI) (auto simp: B2 C2 nth_list_update layout_simps)
  then have x3: "(icache s3 ip)\<lparr>i_size := 0\<rparr> = x"
    using A(3) by (cases "icache s3 ip"; cases "icache s1 ip"; cases "icache s ip") (auto simp: B2 C2 x_def)
  let ?s4 = "upd_inode ip (\<lambda>x. x\<lparr>i_size := 0\<rparr>) s3"
  have ic4: "icache ?s4 = (icache s)(ip := x)" using A(2) x3 by (auto simp: B2 C2 fun_eq_iff)
  have inv4: "bio_inv ?s4" and dev4: "i_dev (icache ?s4 ip) = 1" using C'(1) O(3) unfolding ic4 by (simp_all add: x_def)
  have ibe: "IBLOCK (i_inum (icache ?s4 ip)) (fsb ?s4) = ?ib" "i_inum x = i_inum (icache s ip)"
    unfolding ic4 using C'(4) by (simp_all add: x_def)
  note P = iupdate_spec [OF inv4 dev4 e(4), unfolded ibe] note M = more_fs [OF P(2)]
  show "icache s' = (icache s)(ip := x)" using M(2) ic4 by simp
  show "fsb s' = ?sb" "fstate.more s' = fstate.more s" using M C'(4,5) by simp_all
  have vs: "view s' = (view s3)(?ib := encode_dinode (to_dinode x) (dip_off (i_inum (icache s ip))) (view s3 ?ib))"
    using P(3) ibe(2) unfolding ic4 by simp
  show "view s' b = ?v b" if "datastart ?sb \<le> unat b" for b
    using C'(6) [OF that] that ib by (auto simp: vs iblock_ok_def datastart_def)
  have us: "used ?sb (view s') b = used ?sb (view s3) b" if "b \<le> unat (sb_size ?sb)" for b
    unfolding vs by (rule used_low [OF C'(2) ib that])
  then show "used ?sb (view s') b \<longleftrightarrow> used ?sb ?v b \<and> b \<notin> unat ` F" if "b < unat (sb_size ?sb)" for b
    using C'(8) [OF that] that by simp
  show "map_ok ?sb (view s')" using C'(2) us ib by (auto simp: map_ok_def vs iblock_ok_def)
  have "length (d_addrs (to_dinode x)) = NADDRS" by (simp add: x_def to_dinode_def)
  from decode_encode_dinode [OF this]
  show "decode_dinode (dip_off (i_inum (icache s ip))) (view s' ?ib) = to_dinode x" by (simp add: vs)
  show "changes (insert ?ib (darea ?sb)) s s'"
    using changes_trans [OF C'(3) P(1) [unfolded upd_inode_frame]] by simp
  then show "bio_inv s'" by (rule changesD(1))
qed

end
