(* ===== verification/Fs_Cache.thy ===== *)
theory Fs_Cache
  imports Fs_Trunc Slots
begin

text \<open>
  The inode cache: \<open>iget\<close> and \<open>idup\<close> keep at most one live entry per inode and count its
  references; \<open>iput\<close> on the last reference of an unlinked inode frees it on disk.
\<close>

section \<open>The cache invariant\<close>

definition icache_ok :: "(nat \<Rightarrow> inode) \<Rightarrow> bool" where
  "icache_ok c \<longleftrightarrow> (\<forall>i<NINODE. 0 \<le> i_ref (c i)) \<and>
     (\<forall>i<NINODE. \<forall>j<NINODE. 0 < i_ref (c i) \<and> 0 < i_ref (c j) \<and> i_dev (c i) = i_dev (c j) \<and>
        i_inum (c i) = i_inum (c j) \<longrightarrow> i = j)"

definition icache_recycle :: "u32 \<Rightarrow> u32 \<Rightarrow> (nat \<Rightarrow> inode) \<Rightarrow> (nat \<times> (nat \<Rightarrow> inode)) option" where
  "icache_recycle dv inum = scan_claim NINODE (\<lambda>x. i_ref x = 0)
     (\<lambda>x. x\<lparr>i_dev := dv, i_inum := inum, i_ref := 1, i_valid := False\<rparr>)"

interpretation itable: slot_table NINODE "\<lambda>x. i_ref x = 0" "icache_recycle dv inum"
  unfolding icache_recycle_def by (rule scan_claim_table) simp

lemma iget_def_recycle:
  "iget dv inum s =
     (case List.find (\<lambda>i. 0 < i_ref (icache s i) \<and> i_dev (icache s i) = dv \<and> i_inum (icache s i) = inum)
            [0..<NINODE] of
        Some i \<Rightarrow> Ok (i, upd_inode i (\<lambda>x. x\<lparr>i_ref := i_ref x + 1\<rparr>) s)
      | None \<Rightarrow> (case icache_recycle dv inum (icache s) of
           None \<Rightarrow> Panic ''iget: no inodes'' | Some (i, c) \<Rightarrow> Ok (i, s\<lparr>icache := c\<rparr>)))"
  by (simp add: iget_def icache_recycle_def scan_claim_def upd_inode_def split: option.split)

definition live :: "(nat \<Rightarrow> inode) \<Rightarrow> u32 \<Rightarrow> u32 \<Rightarrow> nat \<Rightarrow> bool" where
  "live c dv inum i \<longleftrightarrow> i < NINODE \<and> 0 < i_ref (c i) \<and> i_dev (c i) = dv \<and> i_inum (c i) = inum"

lemma icache_ok_unique: "icache_ok c \<Longrightarrow> live c dv inum i \<Longrightarrow> live c dv inum j \<Longrightarrow> j = i"
  by (simp add: icache_ok_def live_def)

lemma icache_ok_upd:
  assumes "icache_ok c" "i < NINODE" "0 \<le> i_ref x"
    and "0 < i_ref x \<Longrightarrow> (\<And>j. live c (i_dev x) (i_inum x) j \<Longrightarrow> j = i)"
  shows "icache_ok (c(i := x))"
proof -
  have "a = b" if "a < NINODE" "b < NINODE" "0 < i_ref ((c(i := x)) a)" "0 < i_ref ((c(i := x)) b)"
    "i_dev ((c(i := x)) a) = i_dev ((c(i := x)) b)" "i_inum ((c(i := x)) a) = i_inum ((c(i := x)) b)" for a b
  proof -
    consider "a = i" "b = i" | "a = i" "b \<noteq> i" | "a \<noteq> i" "b = i" | "a \<noteq> i" "b \<noteq> i" by blast
    then show ?thesis
    proof cases
      case 2 then show ?thesis using that assms(4) [of b] by (simp add: live_def)
    next
      case 3 then show ?thesis using that assms(4) [of a] by (simp add: live_def)
    next
      case 4 then show ?thesis using that assms(1) unfolding icache_ok_def by auto
    qed simp
  qed
  moreover have "0 \<le> i_ref ((c(i := x)) a)" if "a < NINODE" for a
    using assms(1,3) that by (simp add: icache_ok_def)
  ultimately show ?thesis unfolding icache_ok_def by blast
qed

lemma iget_cases:
  assumes ok: "iget dv inum s = Ok (i, s')"
  obtains (hit) "live (icache s) dv inum i" "icache s' = (icache s)(i := (icache s i)\<lparr>i_ref := i_ref (icache s i) + 1\<rparr>)"
      "\<exists>c. s' = s\<lparr>icache := c\<rparr>"
  | (miss) "\<And>j. \<not> live (icache s) dv inum j" "i < NINODE" "i_ref (icache s i) = 0" "\<forall>j<i. i_ref (icache s j) \<noteq> 0"
      "icache s' = (icache s)(i := (icache s i)\<lparr>i_dev := dv, i_inum := inum, i_ref := 1, i_valid := False\<rparr>)"
      "\<exists>c. s' = s\<lparr>icache := c\<rparr>"
proof (cases "List.find (\<lambda>i. 0 < i_ref (icache s i) \<and> i_dev (icache s i) = dv \<and> i_inum (icache s i) = inum) [0..<NINODE]")
  case (Some k)
  then have e: "i = k" "s' = upd_inode i (\<lambda>x. x\<lparr>i_ref := i_ref x + 1\<rparr>) s" using ok by (auto simp: iget_def)
  have "live (icache s) dv inum i" using find_upt_least(1,2) [OF Some] e(1) by (simp add: live_def)
  then show thesis by (rule hit) (auto simp: e(2) upd_inode_def)
next
  case None
  with ok obtain c where c: "icache_recycle dv inum (icache s) = Some (i, c)" "s' = s\<lparr>icache := c\<rparr>"
    by (auto simp: iget_def_recycle split: option.splits)
  have nl: "\<not> live (icache s) dv inum j" for j using None by (auto simp: find_None_iff live_def)
  have "c = (icache s)(i := (icache s i)\<lparr>i_dev := dv, i_inum := inum, i_ref := 1, i_valid := False\<rparr>)"
    using c(1) by (auto simp: icache_recycle_def scan_claim_def)
  with nl itable.slot [OF c(1)] itable.least [OF c(1)] show thesis by (intro miss) (auto simp: c(2))
qed

lemma full_cache: "card {j. j < NINODE \<and> 0 < i_ref (c j)} = 50 \<longleftrightarrow> (\<forall>j<NINODE. 0 < i_ref (c j))"
proof
  assume h: "card {j. j < NINODE \<and> 0 < i_ref (c j)} = 50"
  have "{j. j < NINODE \<and> 0 < i_ref (c j)} = {..<NINODE}"
    by (rule card_subset_eq) (use h in \<open>auto simp: layout_simps\<close>)
  then show "\<forall>j<NINODE. 0 < i_ref (c j)" by blast
next
  assume "\<forall>j<NINODE. 0 < i_ref (c j)"
  then have "{j. j < NINODE \<and> 0 < i_ref (c j)} = {..<NINODE}" by auto
  then show "card {j. j < NINODE \<and> 0 < i_ref (c j)} = 50" by (simp add: layout_simps)
qed

text \<open>
  C11. \<open>iget\<close> returns the one entry of the cache that stands for the inode, and keeps the invariant that no two live entries name the same
  inode. If the inode is cached, it is the entry that stands for it, with one more reference and everything else as it was; otherwise
  it is the first entry without references, which now names the inode, has one reference and is marked as not read from disk, so
  that nothing of its former inode is ever taken for the new one. Every other entry and the rest of the state stay as they were. It panics exactly
  when the inode is not cached and all fifty entries are referenced.
\<close>

theorem iget_correct:
  assumes c: "icache_ok (icache s)"
  shows "(case iget dv inum s of
     Ok (i, s') \<Rightarrow> icache_ok (icache s') \<and> (\<forall>j. live (icache s') dv inum j \<longleftrightarrow> j = i) \<and>
       (if \<exists>j. live (icache s) dv inum j
        then live (icache s) dv inum i \<and> icache s' i = (icache s i)\<lparr>i_ref := i_ref (icache s i) + 1\<rparr>
        else i_ref (icache s i) = 0 \<and> (\<forall>j<i. i_ref (icache s j) \<noteq> 0) \<and> i_ref (icache s' i) = 1 \<and> \<not> i_valid (icache s' i)) \<and>
       (\<forall>j. j \<noteq> i \<longrightarrow> icache s' j = icache s j) \<and> (\<exists>c. s' = s\<lparr>icache := c\<rparr>)
   | Panic m \<Rightarrow> m = ''iget: no inodes''
   | Blocked \<Rightarrow> False) \<and>
   ((\<exists>m. iget dv inum s = Panic m) \<longleftrightarrow> card {j. j < NINODE \<and> 0 < i_ref (icache s j)} = 50 \<and> (\<forall>j. \<not> live (icache s) dv inum j))"
proof (cases "iget dv inum s")
  case (Ok r)
  obtain i s' where r: "r = (i, s')" by fastforce
  with Ok have ok: "iget dv inum s = Ok (i, s')" by simp
  then show ?thesis
  proof (cases rule: iget_cases)
    case hit
    have u: "j = i" if "live (icache s) dv inum j" for j
      by (rule icache_ok_unique [OF c hit(1) that])
    have "icache_ok (icache s')"
      unfolding hit(2)
    proof (rule icache_ok_upd [OF c])
      show "i < NINODE" "0 \<le> i_ref ((icache s i)\<lparr>i_ref := i_ref (icache s i) + 1\<rparr>)"
        using hit(1) by (simp_all add: live_def)
      fix j assume "live (icache s) (i_dev ((icache s i)\<lparr>i_ref := i_ref (icache s i) + 1\<rparr>))
        (i_inum ((icache s i)\<lparr>i_ref := i_ref (icache s i) + 1\<rparr>)) j"
      then show "j = i" using hit(1) by (intro u) (simp add: live_def)
    qed
    moreover have "live (icache s') dv inum j \<longleftrightarrow> j = i" for j
    proof (cases "j = i")
      case True then show ?thesis using hit(1) by (simp add: hit(2) live_def)
    next
      case False
      then have "\<not> live (icache s) dv inum j" using u by blast
      then show ?thesis using False by (simp add: hit(2) live_def)
    qed
    moreover have "(\<exists>j. live (icache s) dv inum j) = True" using hit(1) by blast
    ultimately show ?thesis using Ok r hit by auto
  next
    case miss
    have "icache_ok (icache s')"
      unfolding miss(5) by (rule icache_ok_upd [OF c]) (use miss(1,2) in auto)
    moreover have "live (icache s') dv inum j \<longleftrightarrow> j = i" for j
      using miss(1) [of j] miss(2) by (cases "j = i") (simp_all add: miss(5) live_def)
    moreover have "\<not> (\<forall>j<NINODE. 0 < i_ref (icache s j))" using miss(2,3) by force
    ultimately show ?thesis using Ok r miss full_cache [of "icache s"] by simp
  qed
next
  case (Panic m)
  then have n: "icache_recycle dv inum (icache s) = None" "m = ''iget: no inodes''"
    "List.find (\<lambda>i. 0 < i_ref (icache s i) \<and> i_dev (icache s i) = dv \<and> i_inum (icache s i) = inum) [0..<NINODE] = None"
    by (auto simp: iget_def_recycle split: option.splits)
  have "i_ref (icache s j) \<noteq> 0 \<and> 0 \<le> i_ref (icache s j)" if "j < NINODE" for j
    using n(1) itable.full [of dv inum "icache s"] c that by (simp add: icache_ok_def)
  then have "0 < i_ref (icache s j)" if "j < NINODE" for j using that by force
  moreover have "\<not> live (icache s) dv inum j" for j using n(3) by (auto simp: find_None_iff live_def)
  ultimately show ?thesis using Panic n(2) full_cache [of "icache s"] by simp
next
  case Blocked
  then show ?thesis by (auto simp: iget_def_recycle split: option.splits)
qed

theorem iget_correct_witness:
  "\<exists>s. icache_ok (icache s) \<and> (\<exists>i s'. iget 1 7 (s :: fstate) = Ok (i, s') \<and> i_ref (icache s' i) = 1 \<and> \<not> i_valid (icache s' i))"
proof -
  let ?x = "\<lparr>i_dev = 0, i_inum = 0, i_ref = 0, i_lock = initsleeplock, i_valid = True, i_type = 0, i_major = 0,
    i_minor = 0, i_nlink = 0, i_size = 0, i_addrs = []\<rparr>"
  obtain s0 :: fstate where "True" by blast
  let ?s = "s0\<lparr>icache := (\<lambda>_. ?x)\<rparr>"
  have c: "icache_ok (icache ?s)" by (simp add: icache_ok_def)
  have z: "{j. j < NINODE \<and> 0 < i_ref (icache ?s j)} = {}" "\<not> live (icache ?s) 1 7 j" for j by (simp_all add: live_def)
  have "iget 1 7 ?s \<noteq> Blocked" "\<And>m. iget 1 7 ?s \<noteq> Panic m"
    using iget_correct [OF c, of 1 7] z(1) by (auto split: res.splits)
  then obtain i s' where r: "iget 1 7 ?s = Ok (i, s')" by (cases "iget 1 7 ?s") auto
  have "i_ref (icache s' i) = 1 \<and> \<not> i_valid (icache s' i)" using iget_correct [OF c, of 1 7] r z(2) by simp
  with c r show ?thesis by blast
qed

section \<open>Dropping a reference\<close>

lemma iput_keep:
  assumes ok: "iput ip s = Ok s'"
    and keep: "\<not> (i_valid (icache s ip) \<and> i_nlink (icache s ip) = 0 \<and> i_ref (icache s ip) = 1)"
  shows "\<not> sl_locked (i_lock (icache s ip))"
    "s' = upd_inode ip (\<lambda>x. x\<lparr>i_lock := releasesleep (i_lock x), i_ref := i_ref x - 1\<rparr>) s"
proof -
  from ok show free: "\<not> sl_locked (i_lock (icache s ip))"
    by (auto simp: iput_def acquiresleep_def split: if_splits)
  show "s' = upd_inode ip (\<lambda>x. x\<lparr>i_lock := releasesleep (i_lock x), i_ref := i_ref x - 1\<rparr>) s"
    using ok keep free
    by (auto simp: iput_def acquiresleep_def releasesleep_def Let_def upd_inode_def split: if_splits)
qed

lemma iput_free:
  fixes s :: "'a fstate_scheme"
  assumes f: "fs_ok ip s" and ib: "iblock_ok (fsb s) (IBLOCK (i_inum (icache s ip)) (fsb s))"
    and drop: "i_valid (icache s ip)" "i_nlink (icache s ip) = 0" "i_ref (icache s ip) = 1"
    and ok: "iput ip s = Ok s'"
  defines "F \<equiv> tree_blocks (view s) (i_addrs (icache s ip))"
    and "ib \<equiv> IBLOCK (i_inum (icache s ip)) (fsb s)"
  shows "i_ref (icache s' ip) = 0" "\<not> i_valid (icache s' ip)" "\<not> sl_locked (i_lock (icache s' ip))"
    "\<And>j. j \<noteq> ip \<Longrightarrow> icache s' j = icache s j"
    "\<And>b. b < unat (sb_size (fsb s)) \<Longrightarrow> used (fsb s) (view s') b \<longleftrightarrow> used (fsb s) (view s) b \<and> b \<notin> unat ` F"
    "d_type (decode_dinode (dip_off (i_inum (icache s ip))) (view s' ib)) = 0"
    "\<And>b. datastart (fsb s) \<le> unat b \<Longrightarrow> view s' b = view s b"
    "changes (insert ib (darea (fsb s))) s s'"
proof -
  let ?x = "icache s ip" let ?lk = "\<lparr>sl_locked = True, sl_pid = mypid s\<rparr>"
  let ?s0 = "upd_inode ip (\<lambda>x. x\<lparr>i_lock := ?lk\<rparr>) s"
  from ok have free: "\<not> sl_locked (i_lock ?x)" by (auto simp: iput_def acquiresleep_def split: if_splits)
  have aq: "acquiresleep (mypid s) (i_lock ?x) = Ok ?lk" using free by (simp add: acquiresleep_def)
  from ok aq drop obtain s1 s2 where e: "itrunc ip ?s0 = Ok s1"
    "iupdate ip (upd_inode ip (\<lambda>x. x\<lparr>i_type := 0\<rparr>) s1) = Ok s2"
    "s' = upd_inode ip (\<lambda>x. x\<lparr>i_ref := i_ref x - 1\<rparr>) (upd_inode ip (\<lambda>x. x\<lparr>i_lock := releasesleep (i_lock x)\<rparr>)
       (upd_inode ip (\<lambda>x. x\<lparr>i_valid := False\<rparr>) s2))"
    by (auto simp: iput_def Let_def res_simps)
  have f0: "fs_ok ip ?s0" using f by (simp add: fs_ok_def)
  have ib0: "iblock_ok (fsb ?s0) (IBLOCK (i_inum (icache ?s0 ip)) (fsb ?s0))" using ib by simp
  note T = itrunc_spec [OF f0 ib0 e(1)]
  let ?y = "?x\<lparr>i_lock := ?lk, i_size := 0, i_addrs := replicate NADDRS 0\<rparr>"
  have ic1: "icache s1 = (icache s)(ip := ?y)" using T(1) by simp
  let ?s1 = "upd_inode ip (\<lambda>x. x\<lparr>i_type := 0\<rparr>) s1"
  have inv1: "bio_inv ?s1" and dev1: "i_dev (icache ?s1 ip) = 1"
    using T(7) fs_okD(3) [OF f] by (simp_all add: ic1)
  have ibe: "IBLOCK (i_inum (icache ?s1 ip)) (fsb ?s1) = ib" using T(2) by (simp add: ic1 ib_def)
  note P = iupdate_spec [OF inv1 dev1 e(2), unfolded ibe] note M = more_fs [OF P(2)]
  have ic: "icache s' = (icache s)(ip := ?y\<lparr>i_type := 0, i_valid := False, i_lock := releasesleep ?lk, i_ref := 0\<rparr>)"
    using drop(3) by (simp add: e(3) M ic1)
  show "i_ref (icache s' ip) = 0" "\<not> i_valid (icache s' ip)" "\<not> sl_locked (i_lock (icache s' ip))"
    "\<And>j. j \<noteq> ip \<Longrightarrow> icache s' j = icache s j" by (simp_all add: ic releasesleep_def)
  have v: "view s' = (view s1)(ib := encode_dinode (to_dinode (?y\<lparr>i_type := 0\<rparr>)) (dip_off (i_inum ?x)) (view s1 ib))"
    using P(3) by (simp add: e(3) ic1)
  have ibok: "iblock_ok (fsb s) ib" using ib by (simp add: ib_def)
  show "view s' b = view s b" if "datastart (fsb s) \<le> unat b" for b
    using T(5) [of b] that ibok by (auto simp: v iblock_ok_def datastart_def)
  have m1: "map_ok (fsb s) (view s1)" using T(8) by simp
  show "used (fsb s) (view s') b \<longleftrightarrow> used (fsb s) (view s) b \<and> b \<notin> unat ` F" if "b < unat (sb_size (fsb s))" for b
    using used_low [OF m1 ibok, of b] T(4) [of b] that by (simp add: v F_def)
  have "length (d_addrs (to_dinode (?y\<lparr>i_type := 0\<rparr>))) = NADDRS" by (simp add: to_dinode_def)
  from decode_encode_dinode [OF this, of "dip_off (i_inum ?x)"]
  show "d_type (decode_dinode (dip_off (i_inum ?x)) (view s' ib)) = 0" by (simp add: v to_dinode_def)
  have "changes (insert ib (darea (fsb s))) s s1" using T(9) by (simp add: ib_def)
  from changes_trans [OF this P(1) [unfolded upd_inode_frame]]
  show "changes (insert ib (darea (fsb s))) s s'" by (simp add: e(3) insert_absorb)
qed

end
