(* ===== verification/Fs_Progress.thy ===== *)
theory Fs_Progress
  imports Fs_File
begin

text \<open>
  Operations of the file system return: inside a transaction, with free blocks on the disk, room in
  the log and in the buffer cache, none of the panics of \<open>bget\<close>, \<open>balloc\<close> and \<open>log_write\<close> is
  reached and no buffer is waited for. \<open>spent c s s'\<close> bounds by \<open>c\<close> the log entries an operation
  uses; writing a block that is already in the transaction costs nothing.
\<close>

section \<open>Accesses to single blocks\<close>

definition ready :: "nat set \<Rightarrow> 'a kstate_scheme \<Rightarrow> bool" where
  "ready H s \<longleftrightarrow> log_inv s \<and> only_held s H \<and> 1 \<le> outstanding (klog s)"

definition room :: "nat \<Rightarrow> 'a kstate_scheme \<Rightarrow> bool" where
  "room c s \<longleftrightarrow> lh_n (klog s) + int c < 29 \<and> lh_n (klog s) + int c < log_size (klog s) - 1"

definition spent :: "nat \<Rightarrow> 'a kstate_scheme \<Rightarrow> 'a kstate_scheme \<Rightarrow> bool" where
  "spent c s s' \<longleftrightarrow> lh_n (klog s') \<le> lh_n (klog s) + int c \<and> dirty_blocks s \<subseteq> dirty_blocks s' \<and>
     log_size (klog s') = log_size (klog s)"

lemma readyD:
  assumes "ready H s"
  shows "log_inv s" "bio_inv s" "only_held s H" "1 \<le> outstanding (klog s)"
  using assms log_invD(1) by (auto simp: ready_def)

lemma spent_refl [simp]: "spent c s s"
  by (simp add: spent_def)

lemma spent_trans: "spent c s s1 \<Longrightarrow> spent c' s1 s2 \<Longrightarrow> spent (c + c') s s2"
  by (auto simp: spent_def)

lemma spent_mono: "spent c s s' \<Longrightarrow> c \<le> c' \<Longrightarrow> spent c' s s'"
  by (auto simp: spent_def)

lemma room_spent: "room (c + c') s \<Longrightarrow> spent c s s1 \<Longrightarrow> room c' s1"
  by (auto simp: room_def spent_def)

lemma room_le: "room n s \<Longrightarrow> spent c s s1 \<Longrightarrow> c + c' \<le> n \<Longrightarrow> room c' s1"
  by (auto simp: room_def spent_def)

lemma room_mono: "room c s \<Longrightarrow> c' \<le> c \<Longrightarrow> room c' s"
  by (auto simp: room_def)

lemma dirty_room:
  assumes "log_inv s" "room c s"
  shows "card (dirty_blocks s) < 29"
proof -
  note L = log_invD [OF assms(1)]
  have "card (dirty_blocks s) \<le> card {..<nat (lh_n (klog s))}"
    unfolding L(11) by (rule card_image_le) simp
  then show ?thesis using L(5) assms(2) by (auto simp: room_def)
qed

lemma ready_bread:
  assumes r: "ready H s" and m: "room c s" and H: "card H \<le> 1" and b: "b < disksize s"
    and o: "\<forall>i\<in>H. b_blockno (bufs s i) \<noteq> b"
  obtains i s1 where "bread 1 b s = Ok (i, s1)" "ready (insert i H) s1" "i \<notin> H" "spent 0 s s1"
proof -
  note R = readyD [OF r]
  have "\<exists>i s'. bread 1 b s = Ok (i, s')"
    by (rule bread_avail [OF R(2,3) b]) (use o dirty_room [OF R(1) m] H in \<open>auto simp: layout_simps\<close>)
  then obtain i s1 where e: "bread 1 b s = Ok (i, s1)" by blast
  note C = bread_changes [OF R(2) e] and S = bread_spec [OF R(2) e]
  have k: "klog s1 = klog s" using more_klog [OF S(12)] by simp
  have "log_inv s1" using changesD(9) [OF C(1) R(1)] by simp
  then have "ready (insert i H) s1" using only_held_bread [OF R(2) e R(3)] R(4) k by (simp add: ready_def)
  moreover have "spent 0 s s1" using S(6) k by (simp add: spent_def)
  ultimately show ?thesis using that e only_held_bread(2) [OF R(2) e R(3)] by blast
qed

lemma log_slot_dirty:
  assumes "log_inv s" "b \<in> dirty_blocks s"
  shows "log_add b (klog s) = klog s"
proof -
  note L = log_invD [OF assms(1)]
  obtain t where t: "t < nat (lh_n (klog s))" "lh_block (klog s) t = b" using assms(2) L(11) by auto
  have "log_slot (klog s) b \<noteq> nat (lh_n (klog s))"
    by (cases rule: log_slot_cases [of "klog s" b]) (use t in auto)
  then show ?thesis by (simp add: log_add_def)
qed

lemma ready_write:
  assumes r: "ready H s" and m: "room (if b \<in> dirty_blocks s then 0 else 1) s" and h: "held s i b" and b: "home s b"
  obtains s1 where "log_write i (set_data i d s) = Ok s1" "ready H s1"
    "spent (if b \<in> dirty_blocks s then 0 else 1) s s1" "b \<in> dirty_blocks s1"
proof -
  note R = readyD [OF r] let ?s = "set_data i d s"
  note D = set_data_spec [OF R(2) h, of d]
  have kl: "klog ?s = klog s" by (simp add: set_data_def upd_buf_def)
  have ok: "\<exists>s1. log_write i ?s = Ok s1"
    using m R(4) kl by (auto simp: log_write_Ok room_def layout_simps split: if_splits)
  then obtain s1 where e: "log_write i ?s = Ok s1" by blast
  note W = log_write_bio [OF D(1,2) e]
  have I: "log_inv ?s" by (rule log_inv_set_data [OF R(1) h])
  have hb: "b < disksize ?s" "b \<notin> insert 1 (log_area (log_start (klog ?s)) (log_size (klog ?s)))"
    using b kl by (simp_all add: home_def)
  have "log_inv s1" by (rule log_write_inv [OF I D(2) hb e])
  moreover have "only_held s1 H"
  proof (rule only_held_same)
    show "only_held ?s H" using R(3) by simp
    show "b_lock (bufs s1 j) = b_lock (bufs ?s j)" for j using W(12) [of j] W(13) by (cases "j = i") auto
    show "b_refcnt (bufs s1 j) = b_refcnt (bufs ?s j)" for j using W(12) [of j] W(14) by (cases "j = i") auto
  qed
  moreover have lg: "klog s1 = log_add b (klog s)" using W(10) kl by simp
  moreover have "outstanding (log_add b l) = outstanding l" "log_size (log_add b l) = log_size l"
    "lh_n (log_add b l) \<le> lh_n l + 1" for l by (simp_all add: log_add_def)
  ultimately have "ready H s1" "spent (if b \<in> dirty_blocks s then 0 else 1) s s1"
    using R(4) W(5) D(4) log_slot_dirty [OF R(1), of b] by (auto simp: ready_def spent_def)
  then show ?thesis using that e W(5) by blast
qed

lemma ready_brelse:
  assumes r: "ready H s" and h: "held s i b" and sy: "synced s i" and i: "i \<in> H"
  obtains s1 where "brelse i s = Ok s1" "ready (H - {i}) s1" "spent 0 s s1"
proof -
  note R = readyD [OF r]
  obtain s1 where s1: "brelse i s = Ok s1" "\<And>j. j \<noteq> i \<Longrightarrow> bufs s1 j = bufs s j"
    "bufs s1 i = (bufs s i)\<lparr>b_lock := releasesleep (b_lock (bufs s i)), b_refcnt := b_refcnt (bufs s i) - 1\<rparr>"
    using brelse_spec [OF R(2) h sy] by metis
  note B = brelse_changes [OF R(2) h sy s1(1)]
  have "only_held s1 (H - {i})"
    by (rule only_held_brelse [OF R(3) held_facts(1) [OF h] i s1(2,3)])
  then have "ready (H - {i}) s1" using B(11) [OF R(1)] B(7) R(4) by (simp add: ready_def)
  moreover have "spent 0 s s1" using B(7,9) by (simp add: spent_def)
  ultimately show ?thesis using that s1(1) by blast
qed

lemma ready_rw:
  assumes r: "ready H s" and m: "room (if b \<in> dirty_blocks s then 0 else 1) s" and H: "card H \<le> 1" and b: "home s b"
    and o: "\<forall>i\<in>H. b_blockno (bufs s i) \<noteq> b"
  obtains i s1 s2 s3 where "bread 1 b s = Ok (i, s1)" "log_write i (set_data i (g (b_data (bufs s1 i))) s1) = Ok s2"
    "brelse i s2 = Ok s3" "ready H s3" "spent (if b \<in> dirty_blocks s then 0 else 1) s s3" "b \<in> dirty_blocks s3"
proof -
  have bd: "b < disksize s" using b by (simp add: home_def)
  obtain i s1 where r1: "bread 1 b s = Ok (i, s1)" "ready (insert i H) s1" "i \<notin> H" "spent 0 s s1"
    by (rule ready_bread [OF r m H bd o])
  note C = bread_changes [OF readyD(2) [OF r] r1(1)] and S = bread_spec [OF readyD(2) [OF r] r1(1)]
  let ?c = "if b \<in> dirty_blocks s then 0 else 1 :: nat"
  have d1: "dirty_blocks s1 = dirty_blocks s" by (rule S(6))
  have m1: "room (if b \<in> dirty_blocks s1 then 0 else 1) s1"
    by (rule room_le [OF m r1(4)]) (simp add: d1)
  have h1: "home s1 b" using b changes_home [OF C(1)] by simp
  obtain s2 where w: "log_write i (set_data i (g (b_data (bufs s1 i))) s1) = Ok s2" "ready (insert i H) s2"
    "spent (if b \<in> dirty_blocks s1 then 0 else 1) s1 s2" "b \<in> dirty_blocks s2"
    by (rule ready_write [OF r1(2) m1 C(2) h1, of "g (b_data (bufs s1 i))"])
  note D = set_data_spec [OF readyD(2) [OF r1(2)] C(2), of "g (b_data (bufs s1 i))"]
  note W = log_write_bio [OF D(1,2) w(1)]
  obtain s3 where e: "brelse i s2 = Ok s3" "ready (insert i H - {i}) s3" "spent 0 s2 s3"
    by (rule ready_brelse [OF w(2) W(2,3)]) simp
  have "spent ?c s s3" using spent_trans [OF spent_trans [OF r1(4) w(3)] e(3)] d1 by simp
  moreover have "b \<in> dirty_blocks s3" using w(4) e(3) by (auto simp: spent_def)
  ultimately show ?thesis using that r1 w e by simp
qed

lemma bzero_ready:
  assumes "ready H s" "room 1 s" "card H \<le> 1" "home s b" "\<forall>i\<in>H. b_blockno (bufs s i) \<noteq> b"
  obtains s' where "bzero 1 b s = Ok s'" "ready H s'" "spent 1 s s'" "b \<in> dirty_blocks s'"
proof -
  obtain i s1 s2 s3 where e: "bread 1 b s = Ok (i, s1)" "log_write i (set_data i (\<lambda>_. 0) s1) = Ok s2"
    "brelse i s2 = Ok s3" "ready H s3" "spent (if b \<in> dirty_blocks s then 0 else 1) s s3" "b \<in> dirty_blocks s3"
    by (rule ready_rw [OF assms(1) room_mono [OF assms(2)] assms(3-5), where g = "\<lambda>_ _. 0"]) simp
  have "bzero 1 b s = Ok s3" using e(1-3) by (simp add: bzero_def)
  then show ?thesis using that e(4,6) spent_mono [OF e(5), of 1] by auto
qed

section \<open>Allocation\<close>

lemma held_kept:
  assumes "changes M s s'" "only_held s H" "i \<in> H"
  shows "bufs s' i = bufs s i"
  using changesD(2) [OF assms(1), of i] assms(2,3) by (auto simp: only_held_def)

lemma balloc_from_ready:
  fixes s :: "'a fstate_scheme"
  assumes "ready H s" "room 2 s" "card H \<le> 1" "BPB dvd b" "sz < 2 ^ 32"
    and "\<exists>n. b \<le> n \<and> n < sz \<and> \<not> used (fsb s) (view s) n"
    and "\<forall>n. n < sz \<longrightarrow> home s (BBLOCK n (fsb s)) \<and> (\<not> used (fsb s) (view s) n \<longrightarrow> home s (of_nat n))"
    and "\<forall>i\<in>H. used (fsb s) (view s) (unat (b_blockno (bufs s i))) \<and>
      (\<forall>n. n < sz \<longrightarrow> BBLOCK n (fsb s) \<noteq> b_blockno (bufs s i))"
  shows "\<exists>a s'. balloc_from sz 1 b s = Ok (a, s') \<and> ready H s' \<and> spent 2 s s' \<and> a \<in> dirty_blocks s'"
  using assms
proof (induction "sz - b" arbitrary: b s rule: less_induct)
  case less
  let ?sb = "fsb s" let ?B = "BBLOCK b ?sb" let ?r = "[0..<min BPB (sz - b)]"
  note R = readyD [OF less.prems(1)]
  have b: "b < sz" using less.prems(6) by auto
  have hB: "home s ?B" using less.prems(7) b by simp
  have oB: "\<forall>i\<in>H. b_blockno (bufs s i) \<noteq> ?B" using less.prems(8) b by metis
  have m1: "room 1 s" by (rule room_mono [OF less.prems(2)]) simp
  have u: "used ?sb (view s) (b + bi) \<longleftrightarrow> view s ?B (bi div 8) AND bmask bi \<noteq> 0" if "bi < BPB" for bi
    using mark_pos [OF less.prems(4) that] by (simp add: used_def)
  let ?F = "List.find (\<lambda>bi. view s ?B (bi div 8) AND bmask bi = 0) ?r"
  show ?case
  proof (cases ?F)
    case None
    then have full: "used ?sb (view s) (b + bi)" if "bi < BPB" "b + bi < sz" for bi
      using that u [OF that(1)] by (auto simp: find_None_iff)
    have bB: "?B < disksize s" using hB by (simp add: home_def)
    obtain i s1 where r: "bread 1 ?B s = Ok (i, s1)" "ready (insert i H) s1" "i \<notin> H" "spent 0 s s1"
      by (rule ready_bread [OF less.prems(1) m1 less.prems(3) bB oB])
    note C = bread_changes [OF R(2) r(1)]
    obtain s2 where e: "brelse i s1 = Ok s2" "ready (insert i H - {i}) s2" "spent 0 s1 s2"
      by (rule ready_brelse [OF r(2) C(2,3)]) simp
    note D = close_ro [OF R(2) r(1) changes_refl [OF changesD(1) [OF C(1)], of "{}"] e(1)]
    have fs: "fsb s2 = ?sb" "view s2 = view s" using more_fs(1) [of s2 s] D(2,3) C(6,7) by simp_all
    have sp: "spent 0 s s2" using spent_trans [OF r(4) e(3)] by simp
    have m2: "room 2 s2" using room_spent [OF _ sp, of 2] less.prems(2) by (simp only: add_0)
    have hs: "home s2 x = home s x" for x by (rule changes_home [OF D(1)])
    have kb: "bufs s2 j = bufs s j" if "j \<in> H" for j by (rule held_kept [OF D(1) R(3) that])
    obtain n where n: "b \<le> n" "n < sz" "\<not> used ?sb (view s) n" using less.prems(6) by blast
    then have "b + BPB \<le> n" using full [of "n - b"] less_diff_conv2 [of b n BPB] by (cases "b + BPB \<le> n") (auto simp: add.commute)
    then have ex: "\<exists>n. b + BPB \<le> n \<and> n < sz \<and> \<not> used ?sb (view s) n" using n by blast
    have dec: "sz - (b + BPB) < sz - b" "BPB dvd b + BPB" using b less.prems(4) by (auto simp: layout_simps)
    have "\<exists>a s'. balloc_from sz 1 (b + BPB) s2 = Ok (a, s') \<and> ready H s' \<and> spent 2 s2 s' \<and> a \<in> dirty_blocks s'"
      by (rule less.hyps [OF dec(1) _ _ less.prems(3) dec(2) less.prems(5)])
        (use e(2) r(3) m2 less.prems(7,8) ex hs kb fs in auto)
    then obtain a s' where f: "balloc_from sz 1 (b + BPB) s2 = Ok (a, s')" "ready H s'" "spent 2 s2 s'" "a \<in> dirty_blocks s'"
      by blast
    have "balloc_from sz 1 b s = Ok (a, s')"
      using b r(1) None C(4) e(1) f(1) by (subst balloc_from.simps) simp
    moreover have "spent 2 s s'" using spent_trans [OF sp f(3)] by (simp only: add_0)
    ultimately show ?thesis using f by blast
  next
    case (Some bi)
    then have bi: "bi < BPB" "b + bi < sz" "view s ?B (bi div 8) AND bmask bi = 0"
      using find_upt_least [OF Some] by auto
    define n where "n = b + bi"
    let ?g = "\<lambda>d :: bytes. d(bi div 8 := d (bi div 8) OR bmask bi)"
    have nu: "\<not> used ?sb (view s) n" using u [OF bi(1)] bi(3) by (simp add: n_def)
    obtain i s1 s2 s3 where e: "bread 1 ?B s = Ok (i, s1)" "log_write i (set_data i (?g (b_data (bufs s1 i))) s1) = Ok s2"
      "brelse i s2 = Ok s3" "ready H s3" "spent (if ?B \<in> dirty_blocks s then 0 else 1) s s3"
      by (rule ready_rw [OF less.prems(1) room_mono [OF m1] less.prems(3) hB oB, where g = ?g]) simp
    note C = bread_changes [OF R(2) e(1)]
    note D = close_rw [OF R(2) e(1) changes_refl [OF changesD(1) [OF C(1)], of "{}"] e(2,3)]
    have kb: "bufs s3 j = bufs s j" if "j \<in> H" for j by (rule held_kept [OF D(1) R(3) that])
    have un: "unat (of_nat n :: u32) = n" using bi(2) [folded n_def] less.prems(5) by (simp add: unat_of_nat_u32)
    have "\<forall>j\<in>H. b_blockno (bufs s3 j) \<noteq> of_nat n"
    proof (intro ballI notI)
      fix j assume j: "j \<in> H" "b_blockno (bufs s3 j) = of_nat n"
      then have "used ?sb (view s) (unat (b_blockno (bufs s3 j)))" 
        using bspec [OF less.prems(8) j(1)] kb [OF j(1)] by simp
      then show False using j(2) un nu by simp
    qed
    moreover have "home s3 (of_nat n)" using less.prems(7) bi(2) [folded n_def] nu changes_home [OF D(1)] by simp
    moreover have "spent 1 s s3" by (rule spent_mono [OF e(5)]) simp
    moreover from this have "room 1 s3" using room_spent [of 1 1 s s3] less.prems(2) by (simp only: one_add_one)
    ultimately obtain s' where z: "bzero 1 (of_nat n) s3 = Ok s'" "ready H s'" "spent 1 s3 s'" "of_nat n \<in> dirty_blocks s'"
      using bzero_ready [OF e(4) _ less.prems(3)] by metis
    have "balloc_from sz 1 b s = Ok (of_nat n, s')"
      using b e(1-3) Some C(4) z(1) by (subst balloc_from.simps) (simp add: Let_def n_def)
    moreover have "spent 2 s s'" using spent_trans [OF \<open>spent 1 s s3\<close> z(3)] by (simp only: one_add_one)
    ultimately show ?thesis using z by blast
  qed
qed

text \<open>The bitmap and data blocks of the file system lie on the disk, outside the log.\<close>

definition geom :: "'a fstate_scheme \<Rightarrow> bool" where
  "geom s \<longleftrightarrow> sb_size (fsb s) \<le> disksize s \<and> (\<forall>b\<in>darea (fsb s). home s b)"

definition nfree :: "'a fstate_scheme \<Rightarrow> nat" where
  "nfree s = card {b. b < unat (sb_size (fsb s)) \<and> \<not> used (fsb s) (view s) b}"

lemma nfree_cong:
  assumes m: "map_ok (fsb s) v" and sb: "fsb s' = fsb s" and v: "\<And>b. unat b < datastart (fsb s) \<Longrightarrow> view s' b = view s b"
  shows "nfree s' = nfree s"
proof -
  have "used (fsb s) (view s') b = used (fsb s) (view s) b" if "b < unat (sb_size (fsb s))" for b
    using v [OF unat_BBLOCK(2) [OF m less_imp_le [OF that]]] by (simp add: used_def)
  then show ?thesis unfolding nfree_def sb by (intro arg_cong [where f = card]) auto
qed

lemma geom_changes: "geom s \<Longrightarrow> changes M s s' \<Longrightarrow> fsb s' = fsb s \<Longrightarrow> geom s'"
  using changes_home [of M s s'] changesD(5) [of M s s'] by (simp add: geom_def)

lemma balloc_ready:
  fixes s :: "'a fstate_scheme"
  assumes r: "ready H s" "room 2 s" "card H \<le> 1" and m: "map_ok (fsb s) (view s)" and g: "geom s" and n: "0 < nfree s"
    and H: "\<forall>i\<in>H. datastart (fsb s) \<le> unat (b_blockno (bufs s i)) \<and> used (fsb s) (view s) (unat (b_blockno (bufs s i)))"
  shows "\<exists>a s'. balloc 1 s = Ok (a, s') \<and> ready H s' \<and> spent 2 s s' \<and> a \<in> dirty_blocks s' \<and> nfree s' + 1 = nfree s"
proof -
  let ?sz = "unat (sb_size (fsb s))"
  have "\<exists>b. b < ?sz \<and> \<not> used (fsb s) (view s) b" using n by (fastforce simp: nfree_def card_gt_0_iff)
  moreover have "home s (BBLOCK b (fsb s))" if "b < ?sz" for b
    using darea_meta(1) [OF m, of b] that g by (simp add: geom_def)
  moreover have "home s (of_nat b)" if b: "b < ?sz" "\<not> used (fsb s) (view s) b" for b
  proof -
    have "unat (of_nat b :: u32) = b" using b(1) unat_u32_lt [of "sb_size (fsb s)"] by (simp add: unat_of_nat_u32)
    moreover have "datastart (fsb s) \<le> b" using m b(2) by (auto simp: map_ok_def not_le [symmetric])
    ultimately have "of_nat b \<in> darea (fsb s)" using darea_meta(2) [OF m, of "of_nat b"] b(1) by (simp add: word_less_nat_alt)
    then show ?thesis using g by (simp add: geom_def)
  qed
  moreover have "BBLOCK b (fsb s) \<noteq> c" if "b < ?sz" "datastart (fsb s) \<le> unat c" for b c
    using unat_BBLOCK(2) [OF m, of b] that by auto
  ultimately have "\<exists>a s'. balloc_from ?sz 1 0 s = Ok (a, s') \<and> ready H s' \<and> spent 2 s s' \<and> a \<in> dirty_blocks s'"
    using H unat_u32_lt [of "sb_size (fsb s)"] by (intro balloc_from_ready [OF r]) auto
  then obtain a s' where f: "balloc 1 s = Ok (a, s')" "ready H s'" "spent 2 s s'" "a \<in> dirty_blocks s'"
    by (auto simp: balloc_def)
  note B = balloc_spec [OF readyD(2) [OF r(1)] f(1)] and M = balloc_map [OF readyD(2) [OF r(1)] f(1) m]
  have sb: "fsb s' = fsb s" using more_fs [OF B(6)] by simp
  let ?U = "{b. b < ?sz \<and> \<not> used (fsb s) (view s) b}"
  have "{b. b < unat (sb_size (fsb s')) \<and> \<not> used (fsb s') (view s') b} = ?U - {unat a}"
    unfolding sb using M(5) by auto
  moreover have "unat a \<in> ?U" using B(1,2) by (simp add: word_less_nat_alt)
  ultimately have "nfree s' + 1 = nfree s" using n by (simp add: nfree_def card_Diff_singleton)
  then show ?thesis using f by blast
qed

section \<open>Mapping and writing file blocks\<close>

definition fs_ready :: "nat \<Rightarrow> 'a fstate_scheme \<Rightarrow> bool" where
  "fs_ready ip s \<longleftrightarrow> fs_ok ip s \<and> ready {} s \<and> geom s"

lemma ready_icache [simp]: "ready H (s\<lparr>icache := c\<rparr>) = ready H s" "spent n s (t\<lparr>icache := c\<rparr>) = spent n s t"
  "dirty_blocks (s\<lparr>icache := c\<rparr>) = dirty_blocks s" "nfree (s\<lparr>icache := c\<rparr>) = nfree s"
  by (simp_all add: ready_def spent_def nfree_def only_held_def dirty_blocks_def)

lemma bmap_root_ready:
  fixes s :: "'a fstate_scheme"
  assumes f: "fs_ready ip s" and m: "room 2 s" and k: "k < NADDRS" and n: "0 < nfree s"
  obtains (hit) a where "bmap_root ip k s = Ok (a, s)"
  | (new) a s' where "bmap_root ip k s = Ok (a, s')" "fs_ready ip s'" "spent 2 s s'" "a \<in> dirty_blocks s'"
      "nfree s \<le> nfree s' + 1"
proof (cases "i_addrs (icache s ip) ! k = 0")
  case False
  then show ?thesis by (intro hit) (simp add: bmap_root_def)
next
  case True
  have F: "fs_ok ip s" "ready {} s" "geom s" using f by (auto simp: fs_ready_def)
  note O = fs_okD [OF F(1)]
  obtain a s1 where b: "balloc 1 s = Ok (a, s1)" "ready {} s1" "spent 2 s s1" "a \<in> dirty_blocks s1" "nfree s1 + 1 = nfree s"
    using balloc_ready [OF F(2) m _ O(2) F(3) n] by auto
  let ?s' = "upd_inode ip (\<lambda>x. x\<lparr>i_addrs := (i_addrs x)[k := a]\<rparr>) s1"
  have r: "bmap_root ip k s = Ok (a, ?s')" using True b(1) O(3) by (simp add: bmap_root_def)
  have g: "grown ip s ?s'" using bmap_root_spec [OF F(1) k r] by simp
  have "geom ?s'" by (rule geom_changes [OF F(3) grownD(2) [OF g] grownD(3) [OF g]])
  moreover have "fs_ok ip ?s'" by (rule grownD(1) [OF g])
  ultimately show ?thesis using b r by (intro new [of a ?s']) (simp_all add: fs_ready_def upd_inode_def)
qed

lemma bmap_entry_ready:
  fixes s :: "'a fstate_scheme"
  assumes f: "fs_ready ip s" and vp: "vpath (j # k # q)"
    and A: "sa (view s) (i_addrs (icache s ip)) (k # q) = A" "A \<noteq> 0"
    and m: "room (if A \<in> dirty_blocks s then 2 else 3) s" and n: "0 < nfree s"
  obtains (hit) a s' where "bmap_entry 1 A j s = Ok (a, s')" "fs_ready ip s'" "spent 0 s s'" "nfree s' = nfree s"
  | (new) a s' where "bmap_entry 1 A j s = Ok (a, s')" "fs_ready ip s'"
      "spent (if A \<in> dirty_blocks s then 2 else 3) s s'" "a \<in> dirty_blocks s'" "nfree s \<le> nfree s' + 1"
proof -
  have F: "fs_ok ip s" "ready {} s" "geom s" using f by (auto simp: fs_ready_def)
  note O = fs_okD [OF F(1)] note R = readyD [OF F(2)]
  have Ad: "datastart (fsb s) \<le> unat A" "A < sb_size (fsb s)" "used (fsb s) (view s) (unat A)"
    using tree_okD [OF O(4)] vpath_parent [OF vp] A by metis+
  have hA: "home s A" using darea_meta(2) [OF O(2) Ad(1,2)] F(3) by (simp add: geom_def)
  then have bA: "A < disksize s" by (simp add: home_def)
  have m2: "room 2 s" by (rule room_mono [OF m]) simp
  obtain i s1 where r1: "bread 1 A s = Ok (i, s1)" "ready {i} s1" "spent 0 s s1"
    using ready_bread [OF F(2) m2 _ bA] by auto
  note C = bread_changes [OF R(2) r1(1)] and S = bread_spec [OF R(2) r1(1)]
  have fs1: "fsb s1 = fsb s" "icache s1 = icache s" using more_fs [OF C(7)] by auto
  let ?e = "get_u32 (b_data (bufs s1 i)) j"
  show ?thesis
  proof (cases "?e = 0")
    case False
    obtain s2 where e: "brelse i s1 = Ok s2" "ready ({i} - {i}) s2" "spent 0 s1 s2"
      by (rule ready_brelse [OF r1(2) C(2,3)]) simp
    have r: "bmap_entry 1 A j s = Ok (?e, s2)" using r1(1) False e(1) by (simp add: bmap_entry_def Let_def)
    have g: "grown ip s s2" using bmap_entry_spec [OF F(1) vp A r] by simp
    note D = close_ro [OF R(2) r1(1) changes_refl [OF changesD(1) [OF C(1)], of "{}"] e(1)]
    have "fs_ready ip s2"
      using grownD(1) [OF g] e(2) geom_changes [OF F(3) grownD(2) [OF g] grownD(3) [OF g]] by (simp add: fs_ready_def)
    moreover have "nfree s2 = nfree s" using grownD(3) [OF g] D(2) C(6) by (simp add: nfree_def)
    ultimately show ?thesis using hit [OF r] spent_trans [OF r1(3) e(3)] by simp
  next
    case True
    have m1: "room (if A \<in> dirty_blocks s then 2 else 3) s1"
      using room_spent [of 0 _ s s1] m r1(3) by (simp only: add_0)
    have m12: "room 2 s1" by (rule room_mono [OF m1]) simp
    have H: "\<forall>l\<in>{i}. datastart (fsb s1) \<le> unat (b_blockno (bufs s1 l)) \<and> used (fsb s1) (view s1) (unat (b_blockno (bufs s1 l)))"
      using held_facts(3) [OF C(2)] Ad fs1 C(6) by simp
    have g1: "geom s1" by (rule geom_changes [OF F(3) C(1) fs1(1)])
    have n1: "nfree s1 = nfree s" using fs1 C(6) by (simp add: nfree_def)
    obtain a s2 where b: "balloc 1 s1 = Ok (a, s2)" "ready {i} s2" "spent 2 s1 s2" "a \<in> dirty_blocks s2" "nfree s2 + 1 = nfree s"
      using balloc_ready [OF r1(2) m12 _ _ g1 _ H] O(2) fs1 C(6) n n1 by auto
    note BS = balloc_spec [OF readyD(2) [OF r1(2)] b(1)]
    have h2: "held s2 i A" "bufs s2 i = bufs s1 i" using changes_held [OF BS(4) C(2)] by auto
    have hm: "home s2 A" using hA changes_home [OF C(1)] changes_home [OF BS(4)] by simp
    have d12: "A \<in> dirty_blocks s \<Longrightarrow> A \<in> dirty_blocks s2" using r1(3) b(3) by (auto simp: spent_def)
    have m2': "room (if A \<in> dirty_blocks s2 then 0 else 1) s2"
      by (rule room_le [OF m1 b(3)]) (use d12 in auto)
    obtain s3 where w: "log_write i (set_data i (set_u32 (b_data (bufs s2 i)) j a) s2) = Ok s3" "ready {i} s3"
      "spent (if A \<in> dirty_blocks s2 then 0 else 1) s2 s3"
      by (rule ready_write [OF b(2) m2' h2(1) hm, where d = "set_u32 (b_data (bufs s2 i)) j a"])
    note D = set_data_spec [OF readyD(2) [OF b(2)] h2(1), of "set_u32 (b_data (bufs s2 i)) j a"]
    note W = log_write_bio [OF D(1,2) w(1)]
    obtain s4 where e: "brelse i s3 = Ok s4" "ready ({i} - {i}) s4" "spent 0 s3 s4"
      by (rule ready_brelse [OF w(2) W(2,3)]) simp
    have r: "bmap_entry 1 A j s = Ok (a, s4)"
      using r1(1) True b(1) w(1) e(1) by (simp add: bmap_entry_def Let_def)
    have g: "grown ip s s4" using bmap_entry_spec [OF F(1) vp A r] by simp
    have fr: "fs_ready ip s4"
      using grownD(1) [OF g] e(2) geom_changes [OF F(3) grownD(2) [OF g] grownD(3) [OF g]] by (simp add: fs_ready_def)
    have "spent (0 + 2 + (if A \<in> dirty_blocks s2 then 0 else 1) + 0) s s4"
      by (rule spent_trans [OF spent_trans [OF spent_trans [OF r1(3) b(3)] w(3)] e(3)])
    then have sp: "spent (if A \<in> dirty_blocks s then 2 else 3) s s4" by (rule spent_mono) (use d12 in auto)
    have v4: "view s4 b = view s2 b" if "b \<noteq> A" for b
      using brelse_changes(2) [OF W(1,2,3) e(1)] W(4) D(3) that by simp
    have sb4: "fsb s4 = fsb s" "fsb s2 = fsb s" using grownD(3) [OF g] more_fs [OF BS(6)] fs1 by auto
    have nf: "nfree s4 = nfree s2"
    proof (rule nfree_cong [of s2 "view s"])
      show "view s4 b = view s2 b" if "unat b < datastart (fsb s2)" for b by (rule v4) (use that Ad(1) sb4 in auto)
    qed (use sb4 O(2) in auto)
    show ?thesis using new [OF r fr sp] b(4,5) nf w(3) e(3) by (auto simp: spent_def)
  qed
qed

definition got :: "nat \<Rightarrow> nat \<Rightarrow> 'a fstate_scheme \<Rightarrow> u32 \<Rightarrow> 'a fstate_scheme \<Rightarrow> bool" where
  "got ip c s a s' \<longleftrightarrow> fs_ready ip s' \<and> nfree s \<le> nfree s' + 1 \<and>
     (spent 0 s s' \<or> spent c s s' \<and> a \<in> dirty_blocks s')"

lemma bmap_root_got:
  assumes "fs_ready ip s" "room 2 s" "k < NADDRS" "0 < nfree s"
  obtains a s' where "bmap_root ip k s = Ok (a, s')" "got ip 2 s a s'"
    "sa (view s') (i_addrs (icache s' ip)) [k] = a" "a \<noteq> 0" "i_dev (icache s' ip) = 1"
proof -
  have f: "fs_ok ip s" using assms(1) by (simp add: fs_ready_def)
  have "\<exists>a s'. bmap_root ip k s = Ok (a, s') \<and> got ip 2 s a s'"
    using assms(1) by (cases rule: bmap_root_ready [OF assms]) (auto simp: got_def)
  then obtain a s' where r: "bmap_root ip k s = Ok (a, s')" "got ip 2 s a s'" by blast
  have "fs_ok ip s'" using r(2) by (simp add: got_def fs_ready_def)
  then show ?thesis using that r bmap_root_spec [OF f assms(3) r(1)] fs_okD(3) by blast
qed

lemma bmap_entry_got:
  assumes "fs_ready ip s" "vpath (j # k # q)" "sa (view s) (i_addrs (icache s ip)) (k # q) = A" "A \<noteq> 0"
    "room (if A \<in> dirty_blocks s then 2 else 3) s" "0 < nfree s"
  obtains a s' where "bmap_entry 1 A j s = Ok (a, s')" "got ip (if A \<in> dirty_blocks s then 2 else 3) s a s'"
    "sa (view s') (i_addrs (icache s' ip)) (j # k # q) = a" "a \<noteq> 0"
proof -
  have f: "fs_ok ip s" using assms(1) by (simp add: fs_ready_def)
  have "\<exists>a s'. bmap_entry 1 A j s = Ok (a, s') \<and> got ip (if A \<in> dirty_blocks s then 2 else 3) s a s'"
  proof (cases rule: bmap_entry_ready [OF assms])
    case (1 a s') then show ?thesis unfolding got_def by (intro exI [of _ a] exI [of _ s'] conjI disjI1) simp_all
  next
    case (2 a s') then show ?thesis unfolding got_def by (intro exI [of _ a] exI [of _ s'] conjI disjI2) simp_all
  qed
  then obtain a s' where r: "bmap_entry 1 A j s = Ok (a, s')" "got ip (if A \<in> dirty_blocks s then 2 else 3) s a s'" by blast
  then show ?thesis using that bmap_entry_spec [OF f assms(2,3,4) r(1)] by blast
qed

text \<open>Two steps of a walk through the block tree, and their cost.\<close>

lemma got_trans:
  assumes "spent x s s1 \<or> spent y s s1 \<and> a \<in> dirty_blocks s1"
    and "got ip (if a \<in> dirty_blocks s1 then 2 else 3) s1 b s2" "x \<le> y" "x + 3 \<le> z" "y \<le> w" "y + 2 \<le> z" "x \<le> w"
  shows "spent w s s2 \<or> spent z s s2 \<and> b \<in> dirty_blocks s2"
proof -
  have h: "spent 0 s1 s2 \<or> spent (if a \<in> dirty_blocks s1 then 2 else 3) s1 s2 \<and> b \<in> dirty_blocks s2"
    using assms(2) by (simp add: got_def)
  from h show ?thesis
  proof
    assume e: "spent 0 s1 s2"
    from assms(1) have "spent y s s1" using spent_mono [OF _ assms(3)] by blast
    from spent_mono [OF spent_trans [OF this e], of w] assms(5) show ?thesis by simp
  next
    assume e: "spent (if a \<in> dirty_blocks s1 then 2 else 3) s1 s2 \<and> b \<in> dirty_blocks s2"
    show ?thesis
    proof (cases "a \<in> dirty_blocks s1")
      case True
      from assms(1) have "spent y s s1" using spent_mono [OF _ assms(3)] by blast
      from spent_mono [OF spent_trans [OF this], of 2 s2 z] assms(6) e True show ?thesis by simp
    next
      case False
      then have "spent x s s1" using assms(1) by blast
      from spent_mono [OF spent_trans [OF this], of 3 s2 z] assms(4) e False show ?thesis by simp
    qed
  qed
qed

lemma room_step:
  assumes "room 6 s" "spent x s s1 \<or> spent y s s1 \<and> a \<in> dirty_blocks s1" "x \<le> 3" "y \<le> 4"
  shows "room (if a \<in> dirty_blocks s1 then 2 else 3) s1"
  using assms room_le [OF assms(1), of x s1 "if a \<in> dirty_blocks s1 then 2 else 3"] room_le [OF assms(1), of y s1 2] by auto

lemma bmap_ready:
  fixes s :: "'a fstate_scheme"
  assumes f: "fs_ready ip s" and m: "room 6 s" and bn: "bn < MAXFILE" and n: "3 \<le> nfree s"
  shows "\<exists>a s'. bmap ip bn s = Ok (a, s') \<and> fs_ready ip s' \<and> nfree s \<le> nfree s' + 3 \<and>
    (spent 5 s s' \<or> spent 6 s s' \<and> a \<in> dirty_blocks s')"
proof -
  have m2: "room 2 s" by (rule room_mono [OF m]) simp
  have n0: "0 < nfree s" using n by simp
  have dv: "i_dev (icache s ip) = 1" using f fs_okD(3) by (auto simp: fs_ready_def)
  consider (d) "bn < NDIRECT" | (i) "NDIRECT \<le> bn" "bn < NDIRECT + NINDIRECT"
    | (dd) "NDIRECT + NINDIRECT \<le> bn" "bn - NDIRECT - NINDIRECT < NINDIRECT * NINDIRECT"
    using bn by (fastforce simp: MAXFILE_def)
  then show ?thesis
  proof cases
    case d
    then have "bn < NADDRS" by (simp add: NADDRS_def)
    then obtain a s' where r: "bmap_root ip bn s = Ok (a, s')" "got ip 2 s a s'" using bmap_root_got [OF f m2 _ n0] by metis
    then show ?thesis using d spent_mono [of 0 s s' 5] spent_mono [of 2 s s' 6] by (auto simp: bmap_def got_def)
  next
    case i
    have k: "NDIRECT < NADDRS" by (simp add: NADDRS_def)
    obtain a s1 where r: "bmap_root ip NDIRECT s = Ok (a, s1)" "got ip 2 s a s1"
      "sa (view s1) (i_addrs (icache s1 ip)) [NDIRECT] = a" "a \<noteq> 0" by (rule bmap_root_got [OF f m2 k n0])
    have f1: "fs_ready ip s1" "nfree s \<le> nfree s1 + 1" and sp: "spent 0 s s1 \<or> spent 2 s s1 \<and> a \<in> dirty_blocks s1"
      using r(2) by (auto simp: got_def)
    have vp: "vpath [bn - NDIRECT, NDIRECT]" using i by (auto simp: vpath_def)
    obtain b s2 where e: "bmap_entry 1 a (bn - NDIRECT) s1 = Ok (b, s2)" "got ip (if a \<in> dirty_blocks s1 then 2 else 3) s1 b s2"
      by (rule bmap_entry_got [OF f1(1) vp r(3,4) room_step [OF m sp]]) (use f1(2) n in auto)
    have "spent 5 s s2 \<or> spent 6 s s2 \<and> b \<in> dirty_blocks s2" by (rule got_trans [OF sp e(2)]) auto
    moreover have "bn - NDIRECT < NINDIRECT" using i by linarith
    then have "bmap ip bn s = Ok (b, s2)" using i r(1) e(1) dv by (simp add: bmap_def Let_def)
    ultimately show ?thesis using e(2) f1(2) by (auto simp: got_def)
  next
    case dd
    let ?c = "bn - NDIRECT - NINDIRECT"
    have k: "NDIRECT + 1 < NADDRS" by (simp add: NADDRS_def)
    obtain a s1 where r: "bmap_root ip (NDIRECT + 1) s = Ok (a, s1)" "got ip 2 s a s1"
      "sa (view s1) (i_addrs (icache s1 ip)) [NDIRECT + 1] = a" "a \<noteq> 0" by (rule bmap_root_got [OF f m2 k n0])
    have f1: "fs_ready ip s1" "nfree s \<le> nfree s1 + 1" and sp: "spent 0 s s1 \<or> spent 2 s s1 \<and> a \<in> dirty_blocks s1"
      using r(2) by (auto simp: got_def)
    have lt: "?c div NINDIRECT < NINDIRECT" "?c mod NINDIRECT < NINDIRECT"
      using dd(2) by (auto simp: less_mult_imp_div_less) (simp add: layout_simps)
    have vp: "vpath [?c div NINDIRECT, NDIRECT + 1]" "vpath [?c mod NINDIRECT, ?c div NINDIRECT, NDIRECT + 1]"
      using lt by (auto simp: vpath_def)
    obtain b s2 where e: "bmap_entry 1 a (?c div NINDIRECT) s1 = Ok (b, s2)" "got ip (if a \<in> dirty_blocks s1 then 2 else 3) s1 b s2"
      "sa (view s2) (i_addrs (icache s2 ip)) [?c div NINDIRECT, NDIRECT + 1] = b" "b \<noteq> 0"
      by (rule bmap_entry_got [OF f1(1) vp(1) r(3,4) room_step [OF m sp]]) (use f1(2) n in auto)
    have f2: "fs_ready ip s2" "nfree s1 \<le> nfree s2 + 1" using e(2) by (auto simp: got_def)
    have sp2: "spent 2 s s2 \<or> spent 4 s s2 \<and> b \<in> dirty_blocks s2" by (rule got_trans [OF sp e(2)]) auto
    obtain c s3 where g: "bmap_entry 1 b (?c mod NINDIRECT) s2 = Ok (c, s3)" "got ip (if b \<in> dirty_blocks s2 then 2 else 3) s2 c s3"
      by (rule bmap_entry_got [OF f2(1) vp(2) e(3,4) room_step [OF m sp2]]) (use f1(2) f2(2) n in auto)
    have "spent 5 s s3 \<or> spent 6 s s3 \<and> c \<in> dirty_blocks s3" by (rule got_trans [OF sp2 g(2)]) auto
    moreover have "\<not> bn < NDIRECT" "\<not> bn - NDIRECT < NINDIRECT" using dd(1) by linarith+
    then have "bmap ip bn s = Ok (c, s3)" using dd(2) r(1) e(1) g(1) dv by (simp add: bmap_def Let_def)
    ultimately show ?thesis using g(2) f1(2) f2(2) by (auto simp: got_def)
  qed
qed

lemma data_ready:
  fixes s :: "'a fstate_scheme"
  assumes f: "fs_ready ip s" and m: "room (if a \<in> dirty_blocks s then 0 else 1) s" and p: "dpath p"
    and a: "sa (view s) (i_addrs (icache s ip)) p = a" "a \<noteq> 0"
  obtains i s1 s2 s3 where "bread 1 a s = Ok (i, s1)" "log_write i (set_data i (g (b_data (bufs s1 i))) s1) = Ok s2"
    "brelse i s2 = Ok s3" "fs_ready ip s3" "spent (if a \<in> dirty_blocks s then 0 else 1) s s3" "nfree s3 = nfree s"
proof -
  have F: "fs_ok ip s" "ready {} s" "geom s" using f by (auto simp: fs_ready_def)
  note O = fs_okD [OF F(1)]
  have ad: "datastart (fsb s) \<le> unat a" "a < sb_size (fsb s)"
    using tree_okD [OF O(4)] dpath_vpath [OF p] a by metis+
  have h: "home s a" using darea_meta(2) [OF O(2) ad] F(3) by (simp add: geom_def)
  obtain i s1 s2 s3 where e: "bread 1 a s = Ok (i, s1)" "log_write i (set_data i (g (b_data (bufs s1 i))) s1) = Ok s2"
    "brelse i s2 = Ok s3" "ready {} s3" "spent (if a \<in> dirty_blocks s then 0 else 1) s s3"
    by (rule ready_rw [OF F(2) m _ h, where g = g]) auto
  note C = bread_changes [OF readyD(2) [OF F(2)] e(1)]
  note D = close_rw [OF readyD(2) [OF F(2)] e(1) changes_refl [OF changesD(1) [OF C(1)], of "{}"] e(2,3)]
  have v: "view s3 = (view s)(a := g (b_data (bufs s1 i)))" using D(2) C(6) by simp
  have more: "kstate.more s3 = kstate.more s" using D(3) C(7) by simp
  have ev: "evolves ip s s3" by (rule data_write(1) [OF F(1) p a D(1) v more])
  have "fs_ready ip s3"
    using evolvesD(1) [OF ev] e(4) geom_changes [OF F(3) evolvesD(2) [OF ev] evolvesD(3) [OF ev]] by (simp add: fs_ready_def)
  moreover have "nfree s3 = nfree s"
    by (rule nfree_cong [OF O(2) evolvesD(3) [OF ev]]) (use v ad in auto)
  ultimately show ?thesis using that e by blast
qed

definition nblocks :: "nat \<Rightarrow> nat \<Rightarrow> nat" where
  "nblocks off rem = (off mod BSIZE + rem + (BSIZE - 1)) div BSIZE"

lemma nblocks_step:
  assumes "0 < rem"
  shows "rem - chunk off rem = 0 \<and> 1 \<le> nblocks off rem \<or>
    nblocks off rem = Suc (nblocks (off + chunk off rem) (rem - chunk off rem))"
proof (cases "rem \<le> BSIZE - off mod BSIZE")
  case True
  then have "rem - chunk off rem = 0" by (simp add: chunk_def)
  moreover have "1 \<le> nblocks off rem"
    using assms by (simp add: nblocks_def layout_simps less_eq_div_iff_mult_less_eq)
  ultimately show ?thesis by simp
next
  case False
  have o: "off mod BSIZE < BSIZE" by (simp add: layout_simps)
  have c: "chunk off rem = BSIZE - off mod BSIZE" using False by (simp add: chunk_def)
  have z: "(off + chunk off rem) mod BSIZE = 0"
  proof -
    have "off + chunk off rem = BSIZE * (off div BSIZE) + BSIZE"
      using mult_div_mod_eq [of BSIZE off] o c by linarith
    then show ?thesis by simp
  qed
  have e: "off mod BSIZE + rem + (BSIZE - 1) = (rem - chunk off rem + (BSIZE - 1)) + BSIZE"
    using False o c by linarith
  have "nblocks off rem = Suc (nblocks (off + chunk off rem) (rem - chunk off rem))"
    unfolding nblocks_def e z by (subst div_add_self2) (simp_all add: layout_simps)
  then show ?thesis by simp
qed

lemma writei_loop_ready:
  fixes s :: "'a fstate_scheme"
  assumes "fs_ready ip s" "room (6 * nblocks off rem) s" "3 * nblocks off rem \<le> nfree s" "off + rem \<le> MAXFILE * BSIZE"
  shows "\<exists>s'. writei_loop ip src pos off rem s = Ok s' \<and> fs_ready ip s' \<and> spent (6 * nblocks off rem) s s' \<and>
    nfree s \<le> nfree s' + 3 * nblocks off rem"
  using assms
proof (induction ip src pos off rem s rule: writei_loop.induct)
  case (1 ip src pos off rem s)
  show ?case
  proof (cases "rem = 0")
    case True
    then show ?thesis using "1.prems" by (intro exI [of _ s]) (simp add: writei_loop.simps)
  next
    case False
    then have n1: "1 \<le> nblocks off rem" using nblocks_step [of rem off] by auto
    have m6: "room 6 s" and f3: "3 \<le> nfree s" using room_mono [OF "1.prems"(2), of 6] "1.prems"(3) n1 by auto
    have bn: "off div BSIZE < MAXFILE" using "1.prems"(4) False by (intro less_mult_imp_div_less) simp
    obtain a s1 where b: "bmap ip (off div BSIZE) s = Ok (a, s1)" "fs_ready ip s1" "nfree s \<le> nfree s1 + 3"
      "spent 5 s s1 \<or> spent 6 s s1 \<and> a \<in> dirty_blocks s1" using bmap_ready [OF "1.prems"(1) m6 bn f3] by blast
    have F: "fs_ok ip s" "fs_ok ip s1" using "1.prems"(1) b(2) by (auto simp: fs_ready_def)
    note B = bmap_spec [OF F(1) b(1)]
    have dv: "i_dev (icache s1 ip) = 1" by (rule fs_okD(3) [OF F(2)])
    let ?c = "chunk off rem" let ?g = "\<lambda>d. blit d (off mod BSIZE) src pos ?c"
    have m1: "room (if a \<in> dirty_blocks s1 then 0 else 1) s1"
      using b(4) room_le [OF m6, of 5 s1 "if a \<in> dirty_blocks s1 then 0 else 1"] room_le [OF m6, of 6 s1 0] by auto
    obtain i s2 s3 s4 where e: "bread 1 a s1 = Ok (i, s2)" "log_write i (set_data i (?g (b_data (bufs s2 i))) s2) = Ok s3"
      "brelse i s3 = Ok s4" "fs_ready ip s4" "spent (if a \<in> dirty_blocks s1 then 0 else 1) s1 s4" "nfree s4 = nfree s1"
      by (rule data_ready [OF b(2) m1 path_of_dpath [OF bn] B(2,3), where g = ?g])
    have s64: "spent 6 s s4"
      using b(4) spent_trans [of 5 s s1 1 s4] spent_trans [of 6 s s1 0 s4] e(5) spent_mono [OF e(5), of 1] by (auto split: if_splits)
    have st: "writei_loop ip src pos off rem s = writei_loop ip src (pos + ?c) (off + ?c) (rem - ?c) s4"
      using False b(1) dv e(1-3) by (subst writei_loop.simps) (simp add: Let_def)
    show ?thesis
    proof (cases "rem - ?c = 0")
      case True
      then have "writei_loop ip src pos off rem s = Ok s4" unfolding st by (simp add: writei_loop.simps)
      then show ?thesis using e(4,6) b(3) spent_mono [OF s64, of "6 * nblocks off rem"] n1 by auto
    next
      case more: False
      let ?n = "nblocks (off + ?c) (rem - ?c)"
      have n: "nblocks off rem = Suc ?n" using nblocks_step [of rem off] False more by auto
      have "room (6 * ?n) s4" by (rule room_le [OF "1.prems"(2) s64]) (simp add: n)
      moreover have "3 * ?n \<le> nfree s4" using "1.prems"(3) b(3) e(6) n by simp
      moreover have "off + ?c + (rem - ?c) \<le> MAXFILE * BSIZE" using "1.prems"(4) more by simp
      ultimately obtain s' where r: "writei_loop ip src (pos + ?c) (off + ?c) (rem - ?c) s4 = Ok s'" "fs_ready ip s'"
        "spent (6 * ?n) s4 s'" "nfree s4 \<le> nfree s' + 3 * ?n"
        using "1.IH" [OF False b(1) refl, of "(i, s2)" i s2 ?c _ s3 s4] e dv by (auto simp: Let_def)
      have "spent (6 * nblocks off rem) s s'" using spent_trans [OF s64 r(3)] n by simp
      then show ?thesis using r st b(3) e(6) n by auto
    qed
  qed
qed

lemma readi_loop_ready:
  fixes s :: "'a fstate_scheme"
  assumes "fs_ready ip s" "room (6 * nblocks off rem) s" "3 * nblocks off rem \<le> nfree s" "off + rem \<le> MAXFILE * BSIZE"
  shows "\<exists>bs s'. readi_loop ip off rem s = Ok (bs, s') \<and> fs_ready ip s' \<and> spent (6 * nblocks off rem) s s'"
  using assms
proof (induction ip off rem s rule: readi_loop.induct)
  case (1 ip off rem s)
  show ?case
  proof (cases "rem = 0")
    case True
    then show ?thesis using "1.prems" by (intro exI [of _ "[]"] exI [of _ s]) (simp add: readi_loop.simps)
  next
    case False
    then have n1: "1 \<le> nblocks off rem" using nblocks_step [of rem off] by auto
    have m6: "room 6 s" and f3: "3 \<le> nfree s" using room_mono [OF "1.prems"(2), of 6] "1.prems"(3) n1 by auto
    have bn: "off div BSIZE < MAXFILE" using "1.prems"(4) False by (intro less_mult_imp_div_less) simp
    obtain a s1 where b: "bmap ip (off div BSIZE) s = Ok (a, s1)" "fs_ready ip s1" "nfree s \<le> nfree s1 + 3"
      "spent 5 s s1 \<or> spent 6 s s1 \<and> a \<in> dirty_blocks s1" using bmap_ready [OF "1.prems"(1) m6 bn f3] by blast
    have F: "fs_ok ip s" "fs_ok ip s1" "ready {} s1" "geom s1" using "1.prems"(1) b(2) by (auto simp: fs_ready_def)
    note B = bmap_spec [OF F(1) b(1)] and O = fs_okD [OF F(2)]
    have sp: "spent 6 s s1" using b(4) spent_mono [of 5 s s1 6] by auto
    have ad: "datastart (fsb s1) \<le> unat a" "a < sb_size (fsb s1)"
      using tree_okD [OF O(4)] dpath_vpath [OF path_of_dpath [OF bn]] B(2,3) by metis+
    have "home s1 a" using darea_meta(2) [OF O(2) ad] F(4) by (simp add: geom_def)
    then have da: "a < disksize s1" by (simp add: home_def)
    have m0: "room 0 s1" by (rule room_le [OF m6 sp]) simp
    obtain i s2 where r: "bread 1 a s1 = Ok (i, s2)" "ready {i} s2" "spent 0 s1 s2"
      using ready_bread [OF F(3) m0 _ da] by auto
    note C = bread_changes [OF readyD(2) [OF F(3)] r(1)]
    obtain s3 where e: "brelse i s2 = Ok s3" "ready ({i} - {i}) s3" "spent 0 s2 s3"
      by (rule ready_brelse [OF r(2) C(2,3)]) simp
    note D = close_ro [OF readyD(2) [OF F(3)] r(1) changes_refl [OF changesD(1) [OF C(1)], of "{}"] e(1)]
    have more: "kstate.more s3 = kstate.more s1" and v: "view s3 = view s1" using D(2,3) C(6,7) by auto
    have fs3: "fsb s3 = fsb s1" "icache s3 = icache s1" using more_fs [OF more] by auto
    have f3': "fs_ready ip s3"
      using F e(2) geom_changes [OF F(4) D(1) fs3(1)] changesD(1) [OF D(1)] fs3 v by (simp add: fs_ready_def fs_ok_def)
    have nf: "nfree s3 = nfree s1" using fs3 v by (simp add: nfree_def)
    have s63: "spent 6 s s3" using spent_trans [OF sp spent_trans [OF r(3) e(3)]] by simp
    let ?c = "chunk off rem" let ?bs = "map (b_data (bufs s2 i)) [off mod BSIZE..<off mod BSIZE + ?c]"
    have st: "readi_loop ip off rem s = bnd (readi_loop ip (off + ?c) (rem - ?c) s3) (\<lambda>(bs', s). Ok (?bs @ bs', s))"
      using False b(1) O(3) r(1) e(1) by (subst readi_loop.simps) (simp add: Let_def)
    show ?thesis
    proof (cases "rem - ?c = 0")
      case True
      then have "readi_loop ip off rem s = Ok (?bs, s3)" unfolding st by (simp add: readi_loop.simps)
      then show ?thesis using f3' spent_mono [OF s63, of "6 * nblocks off rem"] n1 by auto
    next
      case nz: False
      let ?n = "nblocks (off + ?c) (rem - ?c)"
      have n: "nblocks off rem = Suc ?n" using nblocks_step [of rem off] False nz by auto
      have "room (6 * ?n) s3" by (rule room_le [OF "1.prems"(2) s63]) (simp add: n)
      moreover have "3 * ?n \<le> nfree s3" using "1.prems"(3) b(3) nf n by simp
      moreover have "off + ?c + (rem - ?c) \<le> MAXFILE * BSIZE" using "1.prems"(4) nz by simp
      ultimately obtain bs s' where q: "readi_loop ip (off + ?c) (rem - ?c) s3 = Ok (bs, s')" "fs_ready ip s'"
        "spent (6 * ?n) s3 s'"
        using "1.IH" [OF False b(1) refl, of "(i, s2)" i s2 ?c ?bs s3] e r O(3) f3' by (auto simp: Let_def)
      have "spent (6 * nblocks off rem) s s'" using spent_trans [OF s63 q(3)] n by simp
      then show ?thesis using q st by auto
    qed
  qed
qed

lemma iupdate_ready:
  fixes s :: "'a fstate_scheme"
  assumes r: "ready {} s" and m: "room 1 s" and dv: "i_dev (icache s ip) = 1"
    and h: "home s (IBLOCK (i_inum (icache s ip)) (fsb s))"
  obtains s' where "iupdate ip s = Ok s'" "ready {} s'" "spent 1 s s'"
proof -
  let ?b = "IBLOCK (i_inum (icache s ip)) (fsb s)"
  let ?g = "encode_dinode (to_dinode (icache s ip)) (dip_off (i_inum (icache s ip)))"
  obtain i s1 s2 s3 where e: "bread 1 ?b s = Ok (i, s1)" "log_write i (set_data i (?g (b_data (bufs s1 i))) s1) = Ok s2"
    "brelse i s2 = Ok s3" "ready {} s3" "spent (if ?b \<in> dirty_blocks s then 0 else 1) s s3"
    by (rule ready_rw [OF r room_mono [OF m] _ h, where g = ?g]) auto
  have "icache s1 = icache s" using more_fs [OF bread_changes(7) [OF readyD(2) [OF r] e(1)]] by simp
  then have "iupdate ip s = Ok s3" using e(1-3) dv by (simp add: iupdate_def Let_def)
  then show ?thesis using that e(4) spent_mono [OF e(5), of 1] by auto
qed

lemma writei_ready:
  fixes s :: "'a fstate_scheme"
  assumes f: "fs_ready ip s" and ty: "i_type (icache s ip) \<noteq> T_DEV"
    and h: "home s (IBLOCK (i_inum (icache s ip)) (fsb s))" and ib: "iblock_ok (fsb s) (IBLOCK (i_inum (icache s ip)) (fsb s))"
    and rng: "off \<le> i_size (icache s ip)" "off \<le> off + n" "unat off + unat n \<le> MAXFILE * BSIZE"
    and m: "room (6 * nblocks (unat off) (unat n) + 1) s" and nf: "3 * nblocks (unat off) (unat n) \<le> nfree s"
  obtains r s' where "writei dw ip src off n s = Ok (r, s')" "ready {} s'" "spent (6 * nblocks (unat off) (unat n) + 1) s s'"
    "nfree s \<le> nfree s' + 3 * nblocks (unat off) (unat n)"
proof -
  have F: "fs_ok ip s" using f by (simp add: fs_ready_def)
  have m0: "room (6 * nblocks (unat off) (unat n)) s" by (rule room_mono [OF m]) simp
  obtain s1 where l: "writei_loop ip src 0 (unat off) (unat n) s = Ok s1" "fs_ready ip s1"
    "spent (6 * nblocks (unat off) (unat n)) s s1" "nfree s \<le> nfree s1 + 3 * nblocks (unat off) (unat n)"
    using writei_loop_ready [OF f m0 nf rng(3)] by blast
  have ev: "evolves ip s s1" using writei_loop_spec [OF F l(1)] by simp
  have mf: "unat (of_nat (MAXFILE * BSIZE) :: u32) = MAXFILE * BSIZE" by (rule unat_of_nat_u32) (simp add: layout_simps)
  have "unat (off + n) = unat off + unat n"
    by (rule unat_add_u32) (use rng(3) in \<open>simp add: layout_simps\<close>)
  then have le: "\<not> of_nat (MAXFILE * BSIZE) < off + n" using rng(3) mf by (simp only: word_less_nat_alt not_less)
  have c: "\<not> i_size (icache s ip) < off" "\<not> off + n < off" using rng(1,2) by simp_all
  have st: "writei dw ip src off n s = (if 0 < n \<and> i_size (icache s1 ip) < off + n
      then bnd (iupdate ip (upd_inode ip (\<lambda>x. x\<lparr>i_size := off + n\<rparr>) s1)) (\<lambda>s. Ok (sint n, s)) else Ok (sint n, s1))"
    using ty c le l(1) by (simp only: writei_def Let_def if_False bnd.simps simp_thms)
  show ?thesis
  proof (cases "0 < n \<and> i_size (icache s1 ip) < off + n")
    case False
    then have "writei dw ip src off n s = Ok (sint n, s1)" unfolding st by (simp only: if_False)
    moreover have "spent (6 * nblocks (unat off) (unat n) + 1) s s1" by (rule spent_mono [OF l(3)]) simp
    ultimately show ?thesis using that l(2,4) by (simp add: fs_ready_def)
  next
    case True
    let ?s2 = "upd_inode ip (\<lambda>x. x\<lparr>i_size := off + n\<rparr>) s1"
    have eq: "(icache s1 ip)\<lparr>i_addrs := []\<rparr> = (icache s ip)\<lparr>i_addrs := []\<rparr>" by (rule evolvesD(6) [OF ev])
    have inum: "i_inum (icache s1 ip) = i_inum (icache s ip)" "i_dev (icache s1 ip) = i_dev (icache s ip)"
      using arg_cong [OF eq, of i_inum] arg_cong [OF eq, of i_dev] by simp_all
    have c2: "ready {} ?s2" "room 1 ?s2"
      using l(2) room_le [OF m l(3), of 1] by (simp_all add: fs_ready_def upd_inode_def room_def)
    have "home ?s2 b = home s1 b" for b by (simp add: home_def)
    then have h2: "home ?s2 (IBLOCK (i_inum (icache ?s2 ip)) (fsb ?s2))"
      using h inum evolvesD(3) [OF ev] changes_home [OF evolvesD(2) [OF ev]] by simp
    obtain s' where u: "iupdate ip ?s2 = Ok s'" "ready {} s'" "spent 1 ?s2 s'"
      by (rule iupdate_ready [OF c2 _ h2]) (use inum fs_okD(3) [OF F] in simp)
    have "spent 1 s1 s'" using u(3) by (simp add: spent_def upd_inode_def)
    note spent = spent_trans [OF l(3) this]
    have b2: "bio_inv ?s2" "fs_ok ip s1" "i_dev (icache ?s2 ip) = 1"
      using c2(1) l(2) inum fs_okD(3) [OF F] by (auto simp: ready_def log_inv_def fs_ready_def)
    note U = iupdate_spec [OF b2(1,3) u(1)]
    have sb: "fsb s' = fsb s1" using more_fs(1) [OF U(2)] by simp
    have "used (fsb s1) (view s') b = used (fsb s1) (view s1) b" if "b < unat (sb_size (fsb s1))" for b
      using used_low [OF fs_okD(2) [OF b2(2)], of _ b] ib inum(1) evolvesD(3) [OF ev] that by (simp add: U(3))
    then have "nfree s' = nfree s1" unfolding nfree_def sb by (metis (mono_tags, lifting))
    with spent show ?thesis using that [of "sint n" s'] st True u(1,2) l(4) by simp
  qed
qed

lemma readi_ready:
  fixes s :: "'a fstate_scheme"
  assumes f: "fs_ready ip s" and ty: "i_type (icache s ip) \<noteq> T_DEV"
    and rng: "off \<le> i_size (icache s ip)" "off \<le> off + n" "unat (i_size (icache s ip)) \<le> MAXFILE * BSIZE"
  defines "c \<equiv> nblocks (unat off) (min (unat n) (unat (i_size (icache s ip)) - unat off))"
  assumes m: "room (6 * c) s" and nf: "3 * c \<le> nfree s"
  obtains r bs s' where "readi dr ip off n s = Ok (r, bs, s')" "fs_ready ip s'" "spent (6 * c) s s'"
proof -
  let ?sz = "i_size (icache s ip)" let ?n = "if ?sz < off + n then ?sz - off else n"
  have un: "unat ?n = min (unat n) (unat ?sz - unat off)" by (rule unat_clip [OF rng(1,2)])
  have "unat off + unat ?n \<le> MAXFILE * BSIZE" using un rng(1,3) by (simp add: word_le_nat_alt)
  then obtain bs s' where l: "readi_loop ip (unat off) (unat ?n) s = Ok (bs, s')" "fs_ready ip s'" "spent (6 * c) s s'"
    using readi_loop_ready [OF f, of "unat off" "unat ?n"] m nf un by (auto simp: c_def)
  have c: "\<not> ?sz < off" "\<not> off + n < off" using rng(1,2) by simp_all
  have "readi dr ip off n s = Ok (sint ?n, bs, s')"
    using ty c l(1) by (simp only: readi_def Let_def if_False bnd.simps simp_thms prod.case)
  then show ?thesis using that l by blast
qed

end
