(* ===== verification/Fs_Props.thy ===== *)
theory Fs_Props
  imports Fs_Progress Fs_Cache
begin

text \<open>
  The properties of blocks, inodes and files, with a small concrete file system on which they are
  exercised: 1000 blocks of which 0 to 71 are in use, and inode 1 in slot 0 of the cache, a file of
  one block (block 70).
\<close>

section \<open>A concrete file system\<close>

definition demo_inode :: inode where
  "demo_inode = \<lparr>i_dev = 1, i_inum = 1, i_ref = 1, i_lock = \<lparr>sl_locked = False, sl_pid = 0\<rparr>, i_valid = True,
     i_type = T_FILE, i_major = 0, i_minor = 0, i_nlink = 0, i_size = 512, i_addrs = 70 # replicate 12 0\<rparr>"

definition demo_fs :: fstate where
  "demo_fs = \<lparr>disk = (\<lambda>_ _. 0)(1 := encode_sb demo_sb (\<lambda>_. 0), 58 := (\<lambda>i. if i < 9 then 255 else 0)),
     disksize = 1000, trace = [], bufs = (\<lambda>_. buf0), lru = [0..<NBUF], mypid = 1,
     klog = \<lparr>log_start = 2, log_size = 30, outstanding = 1, committing = False, log_dev = 1, lh_n = 0,
       lh_block = (\<lambda>_. 0)\<rparr>,
     fsb = demo_sb, icache = (\<lambda>_. demo_inode\<lparr>i_ref := 0\<rparr>)(0 := demo_inode)\<rparr>"

lemma demo_fs_fields [simp]:
  "disksize demo_fs = 1000" "bufs demo_fs = (\<lambda>_. buf0)" "lru demo_fs = [0..<NBUF]" "fsb demo_fs = demo_sb"
  "icache demo_fs = (\<lambda>_. demo_inode\<lparr>i_ref := 0\<rparr>)(0 := demo_inode)"
  "klog demo_fs = \<lparr>log_start = 2, log_size = 30, outstanding = 1, committing = False, log_dev = 1, lh_n = 0,
     lh_block = (\<lambda>_. 0)\<rparr>"
  by (simp_all add: demo_fs_def)

lemma buf0_facts [simp]: "\<not> is_dirty buf0" "\<not> is_valid buf0" "\<not> sl_locked (b_lock buf0)" "b_refcnt buf0 = 0" "b_dev buf0 = 0"
  by (simp_all add: is_dirty_def is_valid_def B_DIRTY_def B_VALID_def buf0_def initsleeplock_def)

lemma demo_fs_view: "view demo_fs = (\<lambda>_ _. 0)(1 := encode_sb demo_sb (\<lambda>_. 0), 58 := (\<lambda>i. if i < 9 then 255 else 0))"
proof -
  have "List.find (\<lambda>i. False) [0..<NBUF] = None" by (simp add: find_None_iff)
  then have "view demo_fs b = disk demo_fs b" for b by (simp add: view_def)
  then show ?thesis by (simp add: fun_eq_iff demo_fs_def)
qed

lemma demo_fs_log: "bio_inv demo_fs" "only_held demo_fs {}" "log_inv demo_fs" "dirty_blocks demo_fs = {}"
proof -
  have "cache_ok demo_fs" by (auto simp: cache_ok_def lessThan_atLeast0)
  then show b: "bio_inv demo_fs" by (rule bio_invI) auto
  show "only_held demo_fs {}" by (auto simp: only_held_def)
  show d: "dirty_blocks demo_fs = {}" by (auto simp: dirty_blocks_def dirty_at_def)
  have "disk_ok 1000 30 2 (disk demo_fs)"
    by (simp add: disk_ok_def demo_fs_def demo_sb_def log_area_def layout_simps)
  then show "log_inv demo_fs"
    using b d by (simp add: log_inv_def) (simp add: demo_fs_def)
qed

lemma bmask_255: "(255 :: u8) AND bmask n \<noteq> 0"
proof
  assume z: "(255 :: u8) AND bmask n = 0"
  have "bit ((255 :: u8) AND bmask n) (n mod 8)"
    using bit_mask_iff [where ?'a = u8, of 8 "n mod 8"] by (simp add: bmask_bit bit_simps mask_eq_exp_minus_1)
  with z show False by simp
qed

lemma demo_used: "b < 1000 \<Longrightarrow> used demo_sb (view demo_fs) b \<longleftrightarrow> b < 72"
proof -
  assume b: "b < 1000"
  have "BBLOCK b demo_sb = 58" using b by (simp add: BBLOCK_def demo_sb_def layout_simps)
  moreover have "b mod BPB = b" using b by (simp add: layout_simps)
  moreover have "b div 8 < 9 \<longleftrightarrow> b < 72" by (simp add: div_less_iff_less_mult)
  ultimately show ?thesis by (simp add: used_def demo_fs_view bmask_255)
qed

lemma demo_map_ok: "map_ok demo_sb (view demo_fs)"
proof -
  have "used demo_sb (view demo_fs) b" if "b < datastart demo_sb" for b
    using that by (subst demo_used) (simp_all add: datastart_def demo_sb_def layout_simps)
  then show ?thesis
    by (simp add: map_ok_def demo_fs_view) (simp add: datastart_def demo_sb_def layout_simps)
qed

lemma demo_sa: "vpath p \<Longrightarrow> sa (view demo_fs) (70 # replicate 12 0) p = (if p = [0] then 70 else 0)"
  by (auto simp: vpath_def layout_simps nth_Cons Let_def split: nat.splits)

lemma demo_tree_ok: "tree_ok demo_sb (view demo_fs) (70 # replicate 12 0)"
proof -
  have "unat (70 :: u32) = 70" "(70 :: u32) < sb_size demo_sb" "datastart demo_sb \<le> 70"
    by (simp_all add: demo_sb_def datastart_def layout_simps)
  moreover have "used demo_sb (view demo_fs) 70" by (simp add: demo_used)
  ultimately show ?thesis
    by (auto simp: tree_ok_def demo_sa layout_simps split: if_splits)
qed

lemma demo_geom: "geom demo_fs"
proof -
  have "home demo_fs b" if b: "b \<in> darea demo_sb" for b
  proof -
    have "58 \<le> unat b" "b < 1000" using b by (auto simp: darea_def demo_sb_def)
    moreover from this(1) have "58 \<le> uint b" by (drule_tac of_nat_mono [where ?'a = int]) simp
    ultimately have "b \<noteq> 1" "b \<notin> log_area 2 30" unfolding log_area_def by auto
    with \<open>b < 1000\<close> show ?thesis by (simp add: home_def)
  qed
  then show ?thesis by (simp add: geom_def demo_sb_def)
qed

lemma demo_fs_ready: "fs_ready 0 demo_fs"
  using demo_fs_log demo_map_ok demo_tree_ok demo_geom
  by (simp add: fs_ready_def fs_ok_def ready_def demo_inode_def)

lemma demo_nfree: "nfree demo_fs = 928"
proof -
  have "{b. b < unat (sb_size (fsb demo_fs)) \<and> \<not> used (fsb demo_fs) (view demo_fs) b} = {72..<1000}"
  proof -
    have "unat (sb_size demo_sb) = 1000" by (simp add: demo_sb_def)
    then show ?thesis by (auto simp: demo_used not_less)
  qed
  then show ?thesis by (simp add: nfree_def)
qed

lemma demo_room: "c < 29 \<Longrightarrow> room c demo_fs"
  by (simp add: room_def)

lemma demo_iblock: "iblock_ok demo_sb (IBLOCK 1 demo_sb)" "home demo_fs (IBLOCK 1 demo_sb)"
  by (simp_all add: iblock_ok_def IBLOCK_def home_def log_area_def) (simp_all add: demo_sb_def)

section \<open>Writing and reading files\<close>

lemma writei_total:
  fixes s :: "'a fstate_scheme"
  assumes f: "fs_ready ip s" and ty: "i_type (icache s ip) \<noteq> T_DEV"
    and ib: "iblock_ok (fsb s) (IBLOCK (i_inum (icache s ip)) (fsb s))" "home s (IBLOCK (i_inum (icache s ip)) (fsb s))"
    and rng: "off \<le> i_size (icache s ip)" "off \<le> off + n" "unat off + unat n \<le> MAXFILE * BSIZE"
    and m: "room (6 * nblocks (unat off) (unat n) + 1) s" and nf: "3 * nblocks (unat off) (unat n) \<le> nfree s"
  obtains s' where "writei dw ip src off n s = Ok (int (unat n), s')" "fs_ready ip s'"
    "spent (6 * nblocks (unat off) (unat n) + 1) s s'" "nfree s \<le> nfree s' + 3 * nblocks (unat off) (unat n)"
proof -
  obtain r s' where w: "writei dw ip src off n s = Ok (r, s')" "ready {} s'"
    "spent (6 * nblocks (unat off) (unat n) + 1) s s'" "nfree s \<le> nfree s' + 3 * nblocks (unat off) (unat n)"
    by (rule writei_ready [OF f ty ib(2,1) rng m nf])
  have F: "fs_ok ip s" "geom s" using f by (simp_all add: fs_ready_def)
  note W = writei_spec [OF F(1) ty ib(1) rng w(1)]
  have "geom s'" using geom_changes [OF F(2) W(11) W(3)] .
  then show ?thesis using that w W(1,2) by (simp add: fs_ready_def)
qed

text \<open>
  C5. The function \<open>writei\<close> writes a file, and it always finishes when there is room for the write: given a
  start inside the file, a length that keeps the file within its maximum, enough free blocks and enough
  space left in the log (six log entries for each block touched and one for the inode), the call returns
  the number of bytes asked for and panics on no path. Afterwards the bytes of the file from the offset
  are the source's, every other byte of the file is as before, the size is the larger of the old
  size and the end of the write, the block tree is well formed again, and no allocated block that belongs to
  another file has changed.
\<close>
theorem writei_correct:
  fixes s :: "'a fstate_scheme"
  assumes f: "fs_ready ip s" and ty: "i_type (icache s ip) \<noteq> T_DEV"
    and ib: "iblock_ok (fsb s) (IBLOCK (i_inum (icache s ip)) (fsb s))" "home s (IBLOCK (i_inum (icache s ip)) (fsb s))"
    and rng: "off \<le> i_size (icache s ip)" "off \<le> off + n" "unat off + unat n \<le> MAXFILE * BSIZE"
    and m: "room (6 * nblocks (unat off) (unat n) + 1) s" and nf: "3 * nblocks (unat off) (unat n) \<le> nfree s"
  shows "\<exists>s'. writei dw ip src off n s = Ok (int (unat n), s') \<and> fs_ok ip s' \<and>
    unat (i_size (icache s' ip)) = max (unat (i_size (icache s ip))) (unat off + unat n) \<and>
    (\<forall>x. x div BSIZE < MAXFILE \<longrightarrow> file_byte ip s' x =
       (if unat off \<le> x \<and> x < unat off + unat n then src (x - unat off) else file_byte ip s x)) \<and>
    (\<forall>b. foreign (fsb s) (view s) (i_addrs (icache s ip)) b \<longrightarrow> view s' b = view s b)"
proof -
  obtain s' where w: "writei dw ip src off n s = Ok (int (unat n), s')" "fs_ready ip s'"
    by (rule writei_total [OF f ty ib rng m nf])
  have F: "fs_ok ip s" using f by (simp add: fs_ready_def)
  note W = writei_spec [OF F ty ib(1) rng w(1)]
  show ?thesis by (intro exI [of _ s'] conjI) (use w W(2,5-7) in auto)
qed

theorem writei_correct_witness:
  "\<exists>s'. writei (\<lambda>_. None) 0 (\<lambda>_. 7) 500 20 demo_fs = Ok (20, s') \<and> unat (i_size (icache s' 0)) = 520 \<and>
     file_byte 0 s' 511 = 7 \<and> file_byte 0 s' 519 = 7 \<and> file_byte 0 s' 3 = file_byte 0 demo_fs 3"
proof -
  have "nblocks 500 20 = 2" by (simp add: nblocks_def layout_simps)
  then obtain s' where "writei (\<lambda>_. None) 0 (\<lambda>_. 7) 500 20 demo_fs = Ok (20, s')" "unat (i_size (icache s' 0)) = 520"
    "\<forall>x. x div BSIZE < MAXFILE \<longrightarrow> file_byte 0 s' x = (if 500 \<le> x \<and> x < 520 then 7 else file_byte 0 demo_fs x)"
    using writei_correct [OF demo_fs_ready, of 500 20 "\<lambda>_. None" "\<lambda>_. 7"] demo_iblock demo_nfree demo_room [of 13]
    by (auto simp: demo_inode_def T_FILE_def T_DEV_def layout_simps)
  then show ?thesis by (auto simp: layout_simps)
qed

text \<open>
  C6. What was written is what is read back: after a write of \<open>n\<close> bytes at an offset of a file,
  \<open>readi\<close> at the same offset for the same length returns \<open>n\<close> and exactly those bytes. Both calls finish,
  given free blocks and log space for the blocks touched by the two.
\<close>
theorem writei_readi_roundtrip:
  fixes s :: "'a fstate_scheme"
  assumes f: "fs_ready ip s" and ty: "i_type (icache s ip) \<noteq> T_DEV"
    and ib: "iblock_ok (fsb s) (IBLOCK (i_inum (icache s ip)) (fsb s))" "home s (IBLOCK (i_inum (icache s ip)) (fsb s))"
    and rng: "off \<le> i_size (icache s ip)" "off \<le> off + n" "unat off + unat n \<le> MAXFILE * BSIZE"
      "unat (i_size (icache s ip)) \<le> MAXFILE * BSIZE"
    and m: "room (12 * nblocks (unat off) (unat n) + 1) s" and nf: "6 * nblocks (unat off) (unat n) \<le> nfree s"
  shows "\<exists>s' s''. writei dw ip src off n s = Ok (int (unat n), s') \<and>
    readi dr ip off n s' = Ok (int (unat n), map src [0..<unat n], s'')"
proof -
  let ?k = "nblocks (unat off) (unat n)"
  have m': "room (6 * ?k + 1) s" and nf': "3 * ?k \<le> nfree s" using room_mono [OF m, of "6 * ?k + 1"] nf by simp_all
  obtain s' where w: "writei dw ip src off n s = Ok (int (unat n), s')" "fs_ready ip s'"
    "spent (6 * ?k + 1) s s'" "nfree s \<le> nfree s' + 3 * ?k"
    by (rule writei_total [OF f ty ib rng(1-3) m' nf'])
  have F: "fs_ok ip s" "fs_ok ip s'" using f w(2) by (simp_all add: fs_ready_def)
  note W = writei_spec [OF F(1) ty ib(1) rng(1-3) w(1)]
  have sz: "off \<le> i_size (icache s' ip)" "unat (i_size (icache s' ip)) \<le> MAXFILE * BSIZE"
    "min (unat n) (unat (i_size (icache s' ip)) - unat off) = unat n"
    using W(5) rng(3,4) by (auto simp: word_le_nat_alt)
  have ty': "i_type (icache s' ip) \<noteq> T_DEV" using ty W(9) by simp
  have c: "room (6 * ?k) s'" "3 * ?k \<le> nfree s'" using room_le [OF m w(3)] nf w(4) by simp_all
  obtain r bs s'' where r: "readi dr ip off n s' = Ok (r, bs, s'')"
    by (rule readi_ready [OF w(2) ty' sz(1) rng(2) sz(2)]) (use c sz(3) in auto)
  note R = readi_spec [OF F(2) ty' sz(1) rng(2) r]
  have "x div BSIZE < MAXFILE" if "x < unat off + unat n" for x
    using that rng(3) by (intro less_mult_imp_div_less) simp
  then have "bs = map src [0..<unat n]"
    using R(2) sz(3) W(6) by (auto intro!: nth_equalityI)
  then show ?thesis using w(1) r R(3) sz(3) by auto
qed

theorem writei_readi_roundtrip_witness:
  "\<exists>s' s''. writei (\<lambda>_. None) 0 (\<lambda>i. of_nat i) 510 4 demo_fs = Ok (4, s') \<and>
     readi (\<lambda>_. None) 0 510 4 s' = Ok (4, [0, 1, 2, 3], s'')"
proof -
  have "nblocks 510 4 = 2" by (simp add: nblocks_def layout_simps)
  moreover have "map (\<lambda>i. of_nat i :: u8) [0..<4] = [0, 1, 2, 3]" by (simp add: upt_rec numeral_eq_Suc)
  ultimately show ?thesis
    using writei_readi_roundtrip [OF demo_fs_ready, of 510 4 "\<lambda>_. None" "\<lambda>i. of_nat i" "\<lambda>_. None"]
      demo_iblock demo_nfree demo_room [of 25]
    by (simp add: demo_inode_def T_FILE_def T_DEV_def layout_simps)
qed








section \<open>Allocation and the inode table\<close>

text \<open>
  C9. While a block is free, \<open>balloc\<close> returns one and cannot panic (two log entries are enough): it is the
  lowest free block, it was not in use before and is in use after, its contents are zero, no other block's bit of
  the free map changes, and exactly one block fewer is free.
\<close>
theorem balloc_correct:
  fixes s :: "'a fstate_scheme"
  assumes r: "ready {} s" "room 2 s" and m: "map_ok (fsb s) (view s)" and g: "geom s" and n: "0 < nfree s"
  shows "\<exists>a s'. balloc 1 s = Ok (a, s') \<and> a < sb_size (fsb s) \<and> \<not> used (fsb s) (view s) (unat a) \<and>
    (\<forall>b. b < unat a \<longrightarrow> used (fsb s) (view s) b) \<and> view s' a = (\<lambda>_. 0) \<and> nfree s' + 1 = nfree s \<and>
    (\<forall>b. b < unat (sb_size (fsb s)) \<longrightarrow> (used (fsb s) (view s') b \<longleftrightarrow> b = unat a \<or> used (fsb s) (view s) b))"
proof -
  obtain a s' where b: "balloc 1 s = Ok (a, s')" "nfree s' + 1 = nfree s"
    using balloc_ready [OF r _ m g n] by auto
  have inv: "bio_inv s" using r(1) by (simp add: ready_def log_inv_def)
  note B = balloc_spec [OF inv b(1)]
  have "used (fsb s) (view s') c \<longleftrightarrow> c = unat a \<or> used (fsb s) (view s) c" if "c < unat (sb_size (fsb s))" for c
    using balloc_map(5) [OF inv b(1) m that] by blast
  moreover have "view s' a = (\<lambda>_. 0)" by (simp add: B(5))
  ultimately show ?thesis using b B(1-3) by blast
qed

theorem balloc_correct_witness:
  "\<exists>s'. balloc 1 demo_fs = Ok (72, s') \<and> view s' 72 = (\<lambda>_. 0) \<and> nfree s' = 927"
proof -
  obtain a s' where b: "balloc 1 demo_fs = Ok (a, s')" "a < sb_size demo_sb" "\<not> used demo_sb (view demo_fs) (unat a)"
    "\<forall>b. b < unat a \<longrightarrow> used demo_sb (view demo_fs) b" "view s' a = (\<lambda>_. 0)" "nfree s' + 1 = 928"
    using balloc_correct [of demo_fs] demo_fs_ready demo_map_ok demo_geom demo_nfree demo_room [of 2]
    by (auto simp: fs_ready_def)
  have lt: "unat a < 1000" using b(2) by (simp add: demo_sb_def word_less_nat_alt)
  then have "72 \<le> unat a" using b(3) demo_used by simp
  moreover have "\<not> 72 < unat a" using b(4) demo_used [of 72] by auto
  ultimately have "unat a = unat (72 :: u32)" by simp
  then have "a = 72" by (simp only: word_unat_eq_iff)
  with b show ?thesis by auto
qed

text \<open>
  C10. Writing an inode back and reading it again loses nothing: \<open>iupdate\<close> (which needs one log entry)
  stores the inode so that decoding its slot of the inode table gives all the fields of the cached copy, the other
  seven inodes of that block decode as before, and no other block of the disk changes.
\<close>
theorem iupdate_roundtrip:
  fixes s :: "'a fstate_scheme"
  assumes r: "ready {} s" "room 1 s" and dv: "i_dev (icache s ip) = 1"
    and h: "home s (IBLOCK (i_inum (icache s ip)) (fsb s))" and len: "length (i_addrs (icache s ip)) = NADDRS"
  shows "\<exists>s'. iupdate ip s = Ok s' \<and>
    decode_dinode (dip_off (i_inum (icache s ip))) (view s' (IBLOCK (i_inum (icache s ip)) (fsb s))) = to_dinode (icache s ip) \<and>
    (\<forall>j. dip_off j \<noteq> dip_off (i_inum (icache s ip)) \<longrightarrow>
       decode_dinode (dip_off j) (view s' (IBLOCK (i_inum (icache s ip)) (fsb s))) =
       decode_dinode (dip_off j) (view s (IBLOCK (i_inum (icache s ip)) (fsb s)))) \<and>
    (\<forall>b. b \<noteq> IBLOCK (i_inum (icache s ip)) (fsb s) \<longrightarrow> view s' b = view s b)"
proof -
  obtain s' where u: "iupdate ip s = Ok s'" by (rule iupdate_ready [OF r dv h])
  have inv: "bio_inv s" using r(1) by (simp add: ready_def log_inv_def)
  show ?thesis
    by (intro exI [of _ s'])
      (use u len in \<open>simp add: iupdate_spec(3) [OF inv dv u] decode_encode_dinode decode_encode_other to_dinode_def\<close>)
qed

theorem iupdate_roundtrip_witness:
  "\<exists>s'. iupdate 0 demo_fs = Ok s' \<and> decode_dinode 64 (view s' 32) = to_dinode demo_inode \<and>
     decode_dinode 128 (view s' 32) = decode_dinode 128 (view demo_fs 32)"
proof -
  have "dip_off 1 = 64" "dip_off 2 = 128" "IBLOCK 1 demo_sb = 32"
    by (simp_all add: dip_off_def IBLOCK_def demo_sb_def layout_simps)
  moreover have "i_inum demo_inode = 1" "i_dev demo_inode = 1" "length (i_addrs demo_inode) = NADDRS"
    by (simp_all add: demo_inode_def layout_simps)
  moreover have "ready {} demo_fs" using demo_fs_ready by (simp add: fs_ready_def)
  ultimately show ?thesis
    using iupdate_roundtrip [of demo_fs 0] demo_iblock(2) demo_room [of 1]
    by (auto elim!: allE [of _ 2])
qed

end
