(* ===== verification/Reservation.thy ===== *)
theory Reservation
  imports Fs_Props
begin

text \<open>
  The reservation of log space in \<open>begin_op\<close> against what \<open>log_write\<close> accepts, on runs of three concurrent operations that
  each write as many blocks as they reserved.
\<close>

section \<open>Writing one more block\<close>

text \<open>A state inside a transaction with no buffer held, in which a further block can be read.\<close>

lemma ready_bread_any:
  assumes r: "ready {} s" and n: "lh_n (klog s) < 30" and b: "home s b"
  obtains i s1 where "bread 1 b s = Ok (i, s1)" "bio_inv s1" "held s1 i b" "only_held s1 {i}" "log_inv s1"
    "dirty_blocks s1 = dirty_blocks s" "klog s1 = klog s" "disksize s1 = disksize s"
proof -
  note R = readyD [OF r] and L = log_invD [OF readyD(1) [OF r]]
  have "card (dirty_blocks s) \<le> card {..<nat (lh_n (klog s))}" unfolding L(11) by (rule card_image_le) simp
  then have "\<exists>i s'. bread 1 b s = Ok (i, s')"
    using n b by (intro bread_avail [OF R(2,3)]) (auto simp: layout_simps home_def)
  then obtain i s1 where e: "bread 1 b s = Ok (i, s1)" by blast
  note C = bread_changes [OF R(2) e] and S = bread_spec [OF R(2) e]
  have "log_inv s1" using changesD(9) [OF C(1) R(1)] by simp
  then show ?thesis
    using that e S(1,2,6,9) more_klog [OF S(12)] only_held_bread(1) [OF R(2) e R(3)] by simp
qed

lemma bzero_logs:
  assumes r: "ready {} s" and n: "lh_n (klog s) < 29" "log_size (klog s) = 30" and b: "home s b" "b \<notin> dirty_blocks s"
  obtains s' where "bzero 1 b s = Ok s'" "ready {} s'" "lh_n (klog s') = lh_n (klog s) + 1" "log_size (klog s') = 30"
    "outstanding (klog s') = outstanding (klog s)" "dirty_blocks s' = insert b (dirty_blocks s)" "home s' = home s"
proof -
  note R = readyD [OF r] and L = log_invD [OF readyD(1) [OF r]]
  have n30: "lh_n (klog s) < 30" using n by simp
  obtain i s1 where e: "bread 1 b s = Ok (i, s1)" "bio_inv s1" "held s1 i b" "only_held s1 {i}" "log_inv s1"
      "dirty_blocks s1 = dirty_blocks s" "klog s1 = klog s" "disksize s1 = disksize s"
    by (rule ready_bread_any [OF r n30 b(1)])
  have r1: "ready {i} s1" using e R(4) by (simp add: ready_def)
  let ?s1 = "set_data i (\<lambda>_. 0) s1"
  note D = set_data_spec [OF e(2,3), of "\<lambda>_. 0"]
  have kl: "klog ?s1 = klog s" using e(7) by (simp add: set_data_def upd_buf_def)
  obtain s2 where w: "log_write i ?s1 = Ok s2" using n R(4) kl by (auto simp: log_write_Ok layout_simps)
  note W = log_write_bio [OF D(1,2) w]
  have I: "log_inv ?s1" by (rule log_inv_set_data [OF e(5,3)])
  have "b < disksize ?s1" "b \<notin> insert 1 (log_area (log_start (klog ?s1)) (log_size (klog ?s1)))"
    using b(1) kl e(8) by (simp_all add: home_def)
  then have I2: "log_inv s2" by (rule log_write_inv [OF I D(2) _ _ w])
  have "only_held s2 {i}"
  proof (rule only_held_same)
    show "only_held ?s1 {i}" using e(4) by simp
    show "b_lock (bufs s2 j) = b_lock (bufs ?s1 j)" for j using W(12) [of j] W(13) by (cases "j = i") auto
    show "b_refcnt (bufs s2 j) = b_refcnt (bufs ?s1 j)" for j using W(12) [of j] W(14) by (cases "j = i") auto
  qed
  moreover have "b \<notin> lh_block (klog s) ` {..<nat (lh_n (klog s))}" using b(2) L(11) by simp
  then have "log_slot (klog s) b = nat (lh_n (klog s))"
    by (cases rule: log_slot_cases [of "klog s" b]) (auto intro: rev_image_eqI)
  then have k2: "lh_n (klog s2) = lh_n (klog s) + 1" "outstanding (klog s2) = outstanding (klog s)" "log_size (klog s2) = log_size (klog s)"
      "log_start (klog s2) = log_start (klog s)"
    using W(10) kl by (simp_all add: log_add_def)
  ultimately have r2: "ready {i} s2" using I2 R(4) by (simp add: ready_def)
  obtain s3 where f: "brelse i s2 = Ok s3" "ready ({i} - {i}) s3" by (rule ready_brelse [OF r2 W(2,3)]) simp
  note B = brelse_changes [OF W(1-3) f(1)]
  have "bzero 1 b s = Ok s3" using e(1) w f(1) by (simp add: bzero_def)
  moreover have "dirty_blocks s3 = insert b (dirty_blocks s)" using B(9) W(5) D(4) e(6) by simp
  moreover have "home s3 c = home s c" for c using B(5,7) W(8) k2 e(8) by (simp add: home_def)
  ultimately show ?thesis using that f(2) B(7) k2 n(2) by (simp add: fun_eq_iff)
qed

lemma bzero_too_big:
  assumes "ready {} s" "lh_n (klog s) = 29" "log_size (klog s) = 30" "home s b"
  shows "bzero 1 b s = Panic ''too big a transaction''"
proof -
  have n: "lh_n (klog s) < 30" using assms(2) by simp
  obtain i s1 where e: "bread 1 b s = Ok (i, s1)" "klog s1 = klog s" by (rule ready_bread_any [OF assms(1) n assms(4)])
  then show ?thesis using assms(2,3) by (simp add: bzero_def log_write_def Let_def set_data_def upd_buf_def)
qed

lemma bzeros_log:
  assumes "ready {} s" "log_size (klog s) = 30" "lh_n (klog s) + int (length bs) \<le> 29" "\<forall>b\<in>set bs. home s b"
    "distinct bs" "set bs \<inter> dirty_blocks s = {}"
  shows "\<exists>s'. foreach (bzero 1) bs s = Ok s' \<and> ready {} s' \<and> lh_n (klog s') = lh_n (klog s) + int (length bs) \<and>
    log_size (klog s') = 30 \<and> outstanding (klog s') = outstanding (klog s) \<and> (\<forall>c. home s' c = home s c)"
  using assms
proof (induction bs arbitrary: s)
  case (Cons b bs)
  have n: "lh_n (klog s) < 29" using Cons.prems(3) by simp
  have h: "home s b" "b \<notin> dirty_blocks s" using Cons.prems by simp_all
  obtain s1 where s1: "bzero 1 b s = Ok s1" "ready {} s1" "lh_n (klog s1) = lh_n (klog s) + 1" "log_size (klog s1) = 30"
      "outstanding (klog s1) = outstanding (klog s)" "dirty_blocks s1 = insert b (dirty_blocks s)" "home s1 = home s"
    by (rule bzero_logs [OF Cons.prems(1) n Cons.prems(2) h])
  have p: "lh_n (klog s1) + int (length bs) \<le> 29" "\<forall>c\<in>set bs. home s1 c" "distinct bs" "set bs \<inter> dirty_blocks s1 = {}"
    using Cons.prems s1 by auto
  obtain s2 where "foreach (bzero 1) bs s1 = Ok s2" "ready {} s2" "lh_n (klog s2) = lh_n (klog s1) + int (length bs)"
      "log_size (klog s2) = 30" "outstanding (klog s2) = outstanding (klog s1)" "\<forall>c. home s2 c = home s1 c"
    using Cons.IH [OF s1(2,4) p] by blast
  then show ?case using s1 by simp
qed simp

section \<open>Three operations\<close>

text \<open>
  C36. The reservation of the log is one block too generous. With a log area of \<open>LOGSIZE\<close> = 30 blocks, the size \<open>mkfs\<close> writes, and an empty
  log, \<open>begin_op\<close> lets three operations in, which reserves their \<open>MAXOPBLOCKS\<close> = 10 blocks each. When the three together then write their
  thirty distinct blocks in any order, each by reading it, changing it and passing it to \<open>log_write\<close> as \<open>bzero\<close> does, the first
  twenty-nine are taken, and the thirtieth stops the kernel with the panic of \<open>log_write\<close>, although no operation exceeded its reservation.
\<close>
theorem log_reservation_too_big:
  assumes s: "log_inv s" "quiet s" "lh_n (klog s) = 0" "outstanding (klog s) = 0" "\<not> committing (klog s)" "log_size (klog s) = int LOGSIZE"
    and bs: "length bs = 3 * MAXOPBLOCKS" "distinct bs" "\<forall>b\<in>set bs. home s b"
  shows "\<exists>s3 s4. bnd (begin_op s) (\<lambda>s. bnd (begin_op s) begin_op) = Ok s3 \<and> outstanding (klog s3) = 3 \<and>
    foreach (bzero 1) (butlast bs) s3 = Ok s4 \<and> lh_n (klog s4) = 29 \<and> outstanding (klog s4) = 3 \<and>
    foreach (bzero 1) bs s3 = Panic ''too big a transaction''"
proof -
  let ?s3 = "s\<lparr>klog := (klog s)\<lparr>outstanding := 3\<rparr>\<rparr>"
  have b: "bnd (begin_op s) (\<lambda>s. bnd (begin_op s) begin_op) = Ok ?s3"
    using s(3-6) by (simp add: begin_op_def layout_simps)
  have r: "ready {} ?s3" using s(1,2) by (simp add: ready_def log_inv_flags quiet_def)
  have d: "dirty_blocks ?s3 = {}" using log_invD(11) [OF readyD(1) [OF r]] s(3) by simp
  have ne: "bs \<noteq> []" using bs(1) by (auto simp: layout_simps)
  have sub: "set (butlast bs) \<subseteq> set bs" by (auto dest: in_set_butlastD)
  have "\<exists>s4. foreach (bzero 1) (butlast bs) ?s3 = Ok s4 \<and> ready {} s4 \<and> lh_n (klog s4) = lh_n (klog ?s3) + int (length (butlast bs)) \<and>
      log_size (klog s4) = 30 \<and> outstanding (klog s4) = outstanding (klog ?s3) \<and> (\<forall>c. home s4 c = home ?s3 c)"
    using r s(3,6) d bs sub by (intro bzeros_log) (auto simp: layout_simps home_def distinct_butlast)
  then obtain s4 where s4: "foreach (bzero 1) (butlast bs) ?s3 = Ok s4" "ready {} s4" "lh_n (klog s4) = 29" "log_size (klog s4) = 30"
      "outstanding (klog s4) = 3" "\<forall>c. home s4 c = home ?s3 c"
    using s(3) bs(1) by (auto simp: layout_simps)
  have "home s (last bs)" using bs(3) ne by simp
  moreover have "home ?s3 (last bs) = home s (last bs)" by (simp add: home_def)
  ultimately have "home s4 (last bs)" using s4(6) by blast
  then have "bzero 1 (last bs) s4 = Panic ''too big a transaction''" by (rule bzero_too_big [OF s4(2-4)])
  then have "foreach (bzero 1) (butlast bs @ [last bs]) ?s3 = Panic ''too big a transaction''" using s4(1) by (simp add: foreach_append)
  then show ?thesis using b s4(1,3,5) ne by (intro exI [of _ ?s3] exI [of _ s4]) simp
qed

theorem log_reservation_too_big_witness:
  "\<exists>s3. bnd (begin_op (demo_fs\<lparr>klog := (klog demo_fs)\<lparr>outstanding := 0\<rparr>\<rparr>)) (\<lambda>s. bnd (begin_op s) begin_op) = Ok s3 \<and>
     foreach (bzero 1) (map of_nat [100..<130]) s3 = Panic ''too big a transaction''"
proof -
  let ?s = "demo_fs\<lparr>klog := (klog demo_fs)\<lparr>outstanding := 0\<rparr>\<rparr>" let ?bs = "map of_nat [100..<130] :: u32 list"
  have s: "log_inv ?s" "quiet ?s" using demo_fs_log unfolding log_inv_flags by (simp_all add: quiet_def)
  have "home ?s (of_nat b)" if "100 \<le> b" "b < 130" for b
  proof -
    have u: "uint (of_nat b :: u32) = int b" using that by (simp add: unsigned_of_nat take_bit_nat_eq_self)
    have "of_nat b \<noteq> (1 :: u32)"
    proof
      assume "of_nat b = (1 :: u32)"
      then have "int b = 1" unfolding u [symmetric] by simp
      then show False using that by simp
    qed
    then show ?thesis using that u by (simp add: home_def log_area_def word_less_def)
  qed
  then have "\<forall>b\<in>set ?bs. home ?s b" unfolding set_map set_upt by fastforce
  moreover have "distinct ?bs" by (simp add: upt_rec)
  moreover have "length ?bs = 3 * MAXOPBLOCKS" by (simp add: layout_simps)
  moreover have "lh_n (klog ?s) = 0" "outstanding (klog ?s) = 0" "\<not> committing (klog ?s)" "log_size (klog ?s) = int LOGSIZE"
    by (simp_all add: layout_simps)
  ultimately show ?thesis using log_reservation_too_big [OF s] by blast
qed

end
