(* ===== verification/Kstring.thy ===== *)
theory Kstring
  imports Prelude
begin

text \<open>
  The memory and string routines of \<open>string.c\<close>. Routines whose behaviour depends on where their
  arguments lie (\<open>memset\<close>, \<open>memmove\<close>, \<open>memcmp\<close>) work on a store from 32-bit addresses to
  bytes, with pointer arithmetic that wraps; the \<open>str*\<close> routines read and write separate
  arrays from their first byte on.
\<close>

type_synonym mem = "u32 \<Rightarrow> u8"

section \<open>Blocks of memory\<close>

text \<open>\<open>rep stosb\<close> and \<open>rep stosl\<close> of \<open>x86.h\<close>.\<close>

primrec stosb :: "u32 \<Rightarrow> u8 \<Rightarrow> nat \<Rightarrow> mem \<Rightarrow> mem" where
  "stosb a c 0 m = m"
| "stosb a c (Suc n) m = stosb (a + 1) c n (m(a := c))"

primrec stosl :: "u32 \<Rightarrow> u32 \<Rightarrow> nat \<Rightarrow> mem \<Rightarrow> mem" where
  "stosl a w 0 m = m"
| "stosl a w (Suc n) m = stosl (a + 4) w n
     (m(a := ucast w, a + 1 := ucast (drop_bit 8 w), a + 2 := ucast (drop_bit 16 w), a + 3 := ucast (drop_bit 24 w)))"

definition memset :: "u32 \<Rightarrow> u32 \<Rightarrow> u32 \<Rightarrow> mem \<Rightarrow> mem" where
  "memset dst c n m =
     (if sint dst mod 4 = 0 \<and> n mod 4 = 0 then
        let c = c AND 0xFF in
        stosl dst (push_bit 24 c OR push_bit 16 c OR push_bit 8 c OR c) (unat (n div 4)) m
      else stosb dst (ucast c) (unat n) m)"

primrec memcmp_loop :: "u32 \<Rightarrow> u32 \<Rightarrow> nat \<Rightarrow> mem \<Rightarrow> int" where
  "memcmp_loop s1 s2 0 m = 0"
| "memcmp_loop s1 s2 (Suc n) m =
     (if m s1 \<noteq> m s2 then uint (m s1) - uint (m s2) else memcmp_loop (s1 + 1) (s2 + 1) n m)"

definition memcmp :: "u32 \<Rightarrow> u32 \<Rightarrow> u32 \<Rightarrow> mem \<Rightarrow> int" where
  "memcmp v1 v2 n m = memcmp_loop v1 v2 (unat n) m"

primrec copy_down :: "u32 \<Rightarrow> u32 \<Rightarrow> nat \<Rightarrow> mem \<Rightarrow> mem" where
  "copy_down d s 0 m = m"
| "copy_down d s (Suc n) m = copy_down (d - 1) (s - 1) n (m(d - 1 := m (s - 1)))"

primrec copy_up :: "u32 \<Rightarrow> u32 \<Rightarrow> nat \<Rightarrow> mem \<Rightarrow> mem" where
  "copy_up d s 0 m = m"
| "copy_up d s (Suc n) m = copy_up (d + 1) (s + 1) n (m(d := m s))"

definition memmove :: "u32 \<Rightarrow> u32 \<Rightarrow> u32 \<Rightarrow> mem \<Rightarrow> mem" where
  "memmove d s n m =
     (if s < d \<and> s + n > d then copy_down (d + n) (s + n) (unat n) m
      else copy_up d s (unat n) m)"

definition memcpy :: "u32 \<Rightarrow> u32 \<Rightarrow> u32 \<Rightarrow> mem \<Rightarrow> mem" where
  "memcpy dst src n m = memmove dst src n m"

section \<open>Strings\<close>

fun strncmp_from :: "bytes \<Rightarrow> bytes \<Rightarrow> nat \<Rightarrow> nat \<Rightarrow> int" where
  "strncmp_from p q i n =
     (if 0 < n \<and> p i \<noteq> 0 \<and> p i = q i then strncmp_from p q (i + 1) (n - 1)
      else if n = 0 then 0
      else uint (p i) - uint (q i))"

declare strncmp_from.simps [simp del]

definition strncmp :: "bytes \<Rightarrow> bytes \<Rightarrow> nat \<Rightarrow> int" where
  "strncmp p q n = strncmp_from p q 0 n"

primrec strncpy_pad :: "bytes \<Rightarrow> nat \<Rightarrow> nat \<Rightarrow> bytes" where
  "strncpy_pad s i 0 = s"
| "strncpy_pad s i (Suc n) = strncpy_pad (s(i := 0)) (i + 1) n"

primrec strncpy_copy :: "bytes \<Rightarrow> bytes \<Rightarrow> nat \<Rightarrow> nat \<Rightarrow> bytes" where
  "strncpy_copy s t i 0 = s"
| "strncpy_copy s t i (Suc n) =
     (let s = s(i := t i) in
      if t i \<noteq> 0 then strncpy_copy s t (i + 1) n else strncpy_pad s (i + 1) n)"

definition strncpy :: "bytes \<Rightarrow> bytes \<Rightarrow> int \<Rightarrow> bytes" where
  "strncpy s t n = strncpy_copy s t 0 (nat n)"

primrec safe_copy :: "bytes \<Rightarrow> bytes \<Rightarrow> nat \<Rightarrow> nat \<Rightarrow> bytes" where
  "safe_copy s t i 0 = s(i := 0)"
| "safe_copy s t i (Suc n) =
     (let s = s(i := t i) in
      if t i \<noteq> 0 then safe_copy s t (i + 1) n else s(i + 1 := 0))"

definition safestrcpy :: "bytes \<Rightarrow> bytes \<Rightarrow> int \<Rightarrow> bytes" where
  "safestrcpy s t n = (if n \<le> 0 then s else safe_copy s t 0 (nat (n - 1)))"

partial_function (option) strlen_from :: "bytes \<Rightarrow> nat \<Rightarrow> nat option" where
  "strlen_from s n = (if s n = 0 then Some n else strlen_from s (n + 1))"

definition strlen :: "bytes \<Rightarrow> nat option" where
  "strlen s = strlen_from s 0"

text \<open>The string held by a field of \<open>n\<close> bytes, which need not be terminated.\<close>

definition cstr :: "nat \<Rightarrow> bytes \<Rightarrow> u8 list" where
  "cstr n s = takeWhile (\<lambda>c. c \<noteq> 0) (map s [0..<n])"

section \<open>The block routines\<close>

lemma word_offset_Suc:
  fixes a d :: u32
  assumes "a \<noteq> d"
  shows "unat (a - d) = Suc (unat (a - (d + 1)))"
proof -
  have "a - d \<noteq> 0" using assms by simp
  then have "unat (a - d - 1) = unat (a - d) - 1" "0 < unat (a - d)"
    by (simp_all add: unat_minus_one unat_gt_0)
  then show ?thesis by (simp add: diff_diff_eq)
qed

lemma stosb_fill:
  "n \<le> 2 ^ 32 \<Longrightarrow> stosb d c n m = (\<lambda>a. if unat (a - d) < n then c else m a)"
proof (induction n arbitrary: d m)
  case (Suc n)
  have "stosb d c (Suc n) m a = (if unat (a - d) < Suc n then c else m a)" for a
  proof (cases "a = d")
    case False
    then show ?thesis using Suc word_offset_Suc [OF False] by simp
  qed (use Suc in auto)
  then show ?case by blast
qed simp

lemma stosl_fill:
  assumes w: "ucast w = c" "ucast (drop_bit 8 w) = c" "ucast (drop_bit 16 w) = c" "ucast (drop_bit 24 w) = c"
  shows "stosl d w n m = stosb d c (4 * n) m"
proof (induction n arbitrary: d m)
  case (Suc n)
  have e: "4 * Suc n = Suc (Suc (Suc (Suc (4 * n))))" by simp
  show ?case unfolding e using Suc w by (simp add: add.assoc fun_upd_def)
qed simp

lemma word_bytes:
  fixes c :: u32
  defines "w \<equiv> push_bit 24 (c AND 0xFF) OR push_bit 16 (c AND 0xFF) OR push_bit 8 (c AND 0xFF) OR (c AND 0xFF)"
  shows "ucast w = (ucast c :: u8)" "ucast (drop_bit 8 w) = (ucast c :: u8)"
    "ucast (drop_bit 16 w) = (ucast c :: u8)" "ucast (drop_bit 24 w) = (ucast c :: u8)"
proof -
  have ff: "c AND 0xFF = take_bit 8 c" by (simp add: take_bit_eq_mask mask_eq_exp_minus_1)
  show "ucast w = (ucast c :: u8)" "ucast (drop_bit 8 w) = (ucast c :: u8)"
    "ucast (drop_bit 16 w) = (ucast c :: u8)" "ucast (drop_bit 24 w) = (ucast c :: u8)"
    unfolding w_def ff by (rule bit_word_eqI; auto simp: bit_simps)+
qed


lemmas u32_unat_eq = word_unat_eq_iff [where ?'a = 32]

lemma unat_add_off:
  fixes a d s :: u32
  assumes "unat d \<le> unat a" "unat s + (unat a - unat d) < 2 ^ 32"
  shows "unat (s + (a - d)) = unat s + (unat a - unat d)"
proof -
  have "unat (a - d) = unat a - unat d" using assms(1) by (simp add: unat_sub_u32)
  then show ?thesis using assms(2) by (simp add: unat_add_u32)
qed

lemma copy_up_spec:
  assumes "unat d + n \<le> 2 ^ 32" "unat s + n \<le> 2 ^ 32" "unat d \<le> unat s \<or> unat s + n \<le> unat d"
  shows "copy_up d s n m = (\<lambda>a. if unat d \<le> unat a \<and> unat a < unat d + n then m (s + (a - d)) else m a)"
  using assms
proof (induction n arbitrary: d s m)
  case (Suc n)
  show ?case
  proof (cases "n = 0")
    case True
    have "copy_up d s (Suc n) m a = (if unat d \<le> unat a \<and> unat a < unat d + Suc n then m (s + (a - d)) else m a)" for a
      using True word_unat_eq_iff [of a d] by (auto simp: le_less_Suc_eq)
    then show ?thesis by blast
  next
    case False
    with Suc.prems have d1: "unat (d + 1) = unat d + 1" "unat (s + 1) = unat s + 1"
      by (simp_all add: unat_add_u32)
    have IH: "copy_up (d + 1) (s + 1) n (m(d := m s)) =
      (\<lambda>a. if unat (d + 1) \<le> unat a \<and> unat a < unat (d + 1) + n then (m(d := m s)) (s + 1 + (a - (d + 1)))
           else (m(d := m s)) a)"
      by (rule Suc.IH) (use Suc.prems d1 in auto)
    show ?thesis
    proof
      fix a
      have e: "s + 1 + (a - (d + 1)) = s + (a - d)" by simp
      have "s + (a - d) \<noteq> d" if "unat d < unat a" "unat a < unat d + Suc n"
        using that Suc.prems unat_add_off [of d a s] by (auto simp: u32_unat_eq)
      then show "copy_up d s (Suc n) m a =
          (if unat d \<le> unat a \<and> unat a < unat d + Suc n then m (s + (a - d)) else m a)"
        using word_unat_eq_iff [of a d] by (cases "a = d") (auto simp: IH e d1)
    qed
  qed
qed (auto simp: fun_eq_iff)

lemma copy_down_spec:
  assumes "unat d + n \<le> 2 ^ 32" "unat s \<le> unat d"
  shows "copy_down (d + of_nat n) (s + of_nat n) n m =
    (\<lambda>a. if unat d \<le> unat a \<and> unat a < unat d + n then m (s + (a - d)) else m a)"
  using assms
proof (induction n arbitrary: m)
  case (Suc n)
  let ?D = "d + of_nat n" and ?S = "s + of_nat n"
  have D: "unat ?D = unat d + n" using Suc.prems by (simp add: unat_add_u32 unat_of_nat_u32)
  have "copy_down (d + of_nat (Suc n)) (s + of_nat (Suc n)) (Suc n) m = copy_down ?D ?S n (m(?D := m ?S))"
    by simp
  also have "\<dots> = (\<lambda>a. if unat d \<le> unat a \<and> unat a < unat d + n then (m(?D := m ?S)) (s + (a - d)) else (m(?D := m ?S)) a)"
    by (rule Suc.IH) (use Suc.prems in auto)
  also have "\<dots> = (\<lambda>a. if unat d \<le> unat a \<and> unat a < unat d + Suc n then m (s + (a - d)) else m a)"
  proof
    fix a
    have "s + (a - d) \<noteq> ?D" if "unat d \<le> unat a" "unat a < unat d + n"
      using that Suc.prems unat_add_off [of d a s] D by (auto simp: u32_unat_eq)
    then show "(if unat d \<le> unat a \<and> unat a < unat d + n then (m(?D := m ?S)) (s + (a - d)) else (m(?D := m ?S)) a) =
        (if unat d \<le> unat a \<and> unat a < unat d + Suc n then m (s + (a - d)) else m a)"
      using D by (cases "a = ?D") (simp, auto simp: word_unat_eq_iff [of a ?D])
  qed
  finally show ?case .
qed (auto simp: fun_eq_iff)

lemma memcmp_loop_eq: "memcmp_loop p q n m = 0 \<longleftrightarrow> (\<forall>k<n. m (p + of_nat k) = m (q + of_nat k))"
proof (induction n arbitrary: p q)
  case (Suc n)
  have "(\<forall>k<Suc n. m (p + of_nat k) = m (q + of_nat k)) \<longleftrightarrow>
      m p = m q \<and> (\<forall>k<n. m (p + 1 + of_nat k) = m (q + 1 + of_nat k))"
    by (simp add: All_less_Suc2 add.assoc)
  then show ?case using Suc [of "p + 1" "q + 1"] by (auto simp: word_uint_eq_iff)
qed simp

section \<open>The string routines\<close>

lemma strncmp_from_eq:
  "strncmp_from p q i n = 0 \<longleftrightarrow>
     takeWhile (\<lambda>c. c \<noteq> 0) (map p [i..<i + n]) = takeWhile (\<lambda>c. c \<noteq> 0) (map q [i..<i + n])"
proof (induction n arbitrary: i)
  case 0 show ?case by (simp add: strncmp_from.simps)
next
  case (Suc n)
  have "[i..<i + Suc n] = i # [i + 1..<i + 1 + n]" by (simp add: upt_conv_Cons)
  then show ?case using Suc [of "i + 1"]
    by (subst strncmp_from.simps) (auto simp: word_uint_eq_iff [where ?'a = 8])
qed

lemma strncmp_eq: "strncmp p q n = 0 \<longleftrightarrow> cstr n p = cstr n q"
  using strncmp_from_eq [of p q 0 n] by (simp add: strncmp_def cstr_def)

lemma strncpy_pad_eq: "strncpy_pad s i n = (\<lambda>j. if i \<le> j \<and> j < i + n then 0 else s j)"
  by (induction n arbitrary: s i) (auto simp: fun_eq_iff)

lemma strncpy_copy_eq:
  "strncpy_copy s t i n =
     (\<lambda>j. if i \<le> j \<and> j < i + n then (if \<exists>k. i \<le> k \<and> k \<le> j \<and> t k = 0 then 0 else t j) else s j)"
proof (induction n arbitrary: s i)
  case (Suc n)
  have ex: "(\<exists>k. i \<le> k \<and> k \<le> j \<and> t k = 0) \<longleftrightarrow> i \<le> j \<and> t i = 0 \<or> (\<exists>k. i + 1 \<le> k \<and> k \<le> j \<and> t k = 0)" for j
  proof
    assume "\<exists>k. i \<le> k \<and> k \<le> j \<and> t k = 0"
    then obtain k where "i \<le> k" "k \<le> j" "t k = 0" by blast
    then show "i \<le> j \<and> t i = 0 \<or> (\<exists>k. i + 1 \<le> k \<and> k \<le> j \<and> t k = 0)"
      by (cases "k = i") (auto intro: exI [of _ k])
  qed (auto intro: Suc_leD)
  have "strncpy_copy s t i (Suc n) j = (if i \<le> j \<and> j < i + Suc n
      then (if \<exists>k. i \<le> k \<and> k \<le> j \<and> t k = 0 then 0 else t j) else s j)" for j
    unfolding ex by (cases "t i = 0"; cases "j = i") (auto simp: Let_def Suc strncpy_pad_eq)
  then show ?case by blast
qed (auto simp: fun_eq_iff)

lemma strncpy_eq:
  "strncpy s t n = (\<lambda>j. if j < nat n then (if \<exists>k\<le>j. t k = 0 then 0 else t j) else s j)"
  by (simp add: strncpy_def strncpy_copy_eq cong: if_cong)

lemma takeWhile_nth_cong:
  assumes "length xs = length ys" "\<And>j. j < length ys \<Longrightarrow> \<forall>k<j. P (ys ! k) \<Longrightarrow> xs ! j = ys ! j"
  shows "takeWhile P xs = takeWhile P ys"
  using assms
proof (induction xs ys rule: list_induct2)
  case (Cons x xs y ys)
  have "x = y" using Cons.prems [of 0] by simp
  moreover have "takeWhile P xs = takeWhile P ys" if "P y"
    by (rule Cons.IH) (use Cons.prems [of "Suc _"] that in \<open>simp add: All_less_Suc2\<close>)
  ultimately show ?case by simp
qed simp

lemma cstr_cong: "(\<And>j. j < n \<Longrightarrow> \<forall>k<j. t k \<noteq> 0 \<Longrightarrow> s j = t j) \<Longrightarrow> cstr n s = cstr n t"
  unfolding cstr_def by (rule takeWhile_nth_cong) auto

lemma cstr_strncpy: "cstr n (strncpy s t (int n)) = cstr n t"
  by (rule cstr_cong) (auto simp: strncpy_eq le_less)

lemma safe_copy_prefix:
  "\<lbrakk>i \<le> j; j < i + n; \<forall>k. i \<le> k \<and> k < j \<longrightarrow> t k \<noteq> 0\<rbrakk> \<Longrightarrow> safe_copy s t i n j = t j"
  "j < i \<or> i + n < j \<Longrightarrow> safe_copy s t i n j = s j"
  "\<exists>k. i \<le> k \<and> k \<le> i + n \<and> safe_copy s t i n k = 0 \<and> (\<forall>l. i \<le> l \<and> l < k \<longrightarrow> t l \<noteq> 0)"
proof (induction n arbitrary: s i)
  case (Suc n)
  {
    case 1
    then show ?case
    proof (cases "j = i")
      case False
      with 1 show ?thesis using Suc.IH(1) [of "i + 1" "s(i := t i)"] by (simp add: fun_upd_def)
    next
      case True
      then show ?thesis using Suc.IH(2) [where i = "i + 1" and s = "s(i := t i)"] by (simp add: Let_def fun_upd_def)
    qed
  next
    case 2
    then show ?case using Suc.IH(2) [of "i + 1" "s(i := t i)"] by (auto simp: Let_def fun_upd_def)
  next
    case 3
    show ?case
    proof (cases "t i = 0")
      case True
      then show ?thesis by (intro exI [of _ i]) (auto simp: Let_def)
    next
      case False
      obtain k where k: "i + 1 \<le> k" "k \<le> i + 1 + n" "safe_copy (s(i := t i)) t (i + 1) n k = 0"
        "\<forall>l. i + 1 \<le> l \<and> l < k \<longrightarrow> t l \<noteq> 0"
        using Suc.IH(3) [of "i + 1" "s(i := t i)"] by blast
      have "t l \<noteq> 0" if "i \<le> l" "l < k" for l using that k(4) False by (cases "l = i") auto
      then show ?thesis using k False by (intro exI [of _ k]) (simp add: Let_def)
    qed
  }
qed auto

lemma cstr_safe_copy: "cstr (Suc m) (safe_copy s t 0 m) = cstr m t"
proof -
  let ?r = "safe_copy s t 0 m"
  obtain k where k: "k \<le> m" "?r k = 0" "\<forall>l<k. t l \<noteq> 0" using safe_copy_prefix(3) [of 0 m s t] by auto
  have eq: "?r j = t j" if "j < k" for j using safe_copy_prefix(1) [of 0 j m t s] that k by simp
  have "cstr (Suc m) ?r = map t [0..<k]"
  proof -
    have "map ?r [0..<Suc m] = map t [0..<k] @ 0 # map ?r [Suc k..<Suc m]"
      using k eq upt_add_eq_append [of 0 k "Suc m - k"] by (simp add: upt_conv_Cons del: upt_Suc)
    then show ?thesis unfolding cstr_def using k(3) by (simp add: takeWhile_append)
  qed
  moreover have "cstr m t = map t [0..<k]" if "k < m"
  proof -
    have "t k = 0" using safe_copy_prefix(1) [of 0 k m t s] k that by simp
    then have "map t [0..<m] = map t [0..<k] @ 0 # map t [Suc k..<m]"
      using that upt_add_eq_append [of 0 k "m - k"] by (simp add: upt_conv_Cons del: upt_Suc)
    then show ?thesis unfolding cstr_def using k(3) by (simp add: takeWhile_append)
  qed
  moreover have "cstr m t = map t [0..<k]" if "k = m"
    unfolding cstr_def using that k(3) by (simp add: takeWhile_eq_all_conv)
  ultimately show ?thesis using k(1) by (cases "k = m") auto
qed

lemma strlen_from_Some:
  assumes "s n = 0" "\<forall>k. i \<le> k \<and> k < n \<longrightarrow> s k \<noteq> 0" "i \<le> n"
  shows "strlen_from s i = Some n"
  using assms(3,2)
proof (induction rule: inc_induct)
  case base then show ?case using assms(1) by (simp add: strlen_from.simps)
next
  case (step m)
  then show ?case by (subst strlen_from.simps) simp
qed

lemma strlen_from_NUL: "strlen_from s i = Some n \<Longrightarrow> s n = 0"
  by (rule strlen_from.raw_induct [of "\<lambda>s i n. s n = 0"]) (auto split: if_splits)

lemma strlen_Some: "strlen s = Some n \<longleftrightarrow> s n = 0 \<and> (\<forall>k<n. s k \<noteq> 0)"
proof
  assume L: "strlen s = Some n"
  then have z: "s n = 0" unfolding strlen_def by (rule strlen_from_NUL)
  define k where "k = (LEAST k. s k = 0)"
  have k: "s k = 0" "\<forall>l<k. s l \<noteq> 0" unfolding k_def using z by (auto intro: LeastI dest: not_less_Least)
  then have "strlen s = Some k" unfolding strlen_def by (intro strlen_from_Some) auto
  with L k show "s n = 0 \<and> (\<forall>k<n. s k \<noteq> 0)" by simp
qed (auto simp: strlen_def intro: strlen_from_Some)

lemma memmove_eq:
  assumes "unat s + unat n < 2 ^ 32" "unat d + unat n < 2 ^ 32"
  shows "memmove d s n m =
    (\<lambda>a. if unat d \<le> unat a \<and> unat a < unat d + unat n then m (s + (a - d)) else m a)"
proof (cases "s < d \<and> d < s + n")
  case True
  then show ?thesis
    using copy_down_spec [of d "unat n" s m] assms by (simp add: memmove_def word_less_nat_alt)
next
  case False
  then have "unat d \<le> unat s \<or> unat s + unat n \<le> unat d"
    using assms by (auto simp: word_less_nat_alt unat_add_u32)
  then show ?thesis
    using copy_up_spec [of d "unat n" s m] assms False by (simp add: memmove_def if_not_P)
qed

lemma memset_eq: "memset dst c n m = (\<lambda>a. if unat (a - dst) < unat n then ucast c else m a)"
proof (cases "sint dst mod 4 = 0 \<and> n mod 4 = 0")
  case True
  have "unat (n mod 4) = unat n mod 4" "unat (n div 4) = unat n div 4" by (simp_all add: unat_mod unat_div)
  with True have "4 * unat (n div 4) = unat n"
    using mult_div_mod_eq [of 4 "unat n"] by simp
  then show ?thesis
    using True stosl_fill [OF word_bytes [of c]] stosb_fill [of "unat n" dst "ucast c" m] unat_u32_lt [of n]
    by (simp add: memset_def Let_def)
next
  case False
  then show ?thesis
    using stosb_fill [of "unat n" dst "ucast c" m] unat_u32_lt [of n] by (auto simp: memset_def)
qed

section \<open>Properties\<close>

text \<open>
  C13. \<open>memmove\<close> is a simultaneous copy: after \<open>memmove(d, s, n)\<close> byte \<open>d + k\<close> holds what
  \<open>s + k\<close> held before the call, for every \<open>k < n\<close> and however the two ranges overlap, and no
  other byte has changed; \<open>memcpy\<close> is the same routine. The ranges must not run past the end of the address space.
\<close>

theorem memmove_correct:
  assumes "unat s + unat n < 2 ^ 32" "unat d + unat n < 2 ^ 32"
  shows "(\<forall>k<unat n. memmove d s n m (d + of_nat k) = m (s + of_nat k)) \<and>
    (\<forall>a. a < d \<or> unat d + unat n \<le> unat a \<longrightarrow> memmove d s n m a = m a) \<and>
    memcpy d s n m = memmove d s n m"
proof (intro conjI allI impI)
  fix k assume k: "k < unat n"
  then have "unat (of_nat k :: u32) = k" using unat_u32_lt [of n] by (intro unat_of_nat_u32) simp
  then have "unat (d + of_nat k) = unat d + k" using assms k by (subst unat_add_u32) simp_all
  then show "memmove d s n m (d + of_nat k) = m (s + of_nat k)" using k by (simp add: memmove_eq [OF assms])
qed (auto simp: memmove_eq [OF assms] memcpy_def word_less_nat_alt)

theorem memmove_correct_witness:
  "map (memmove 101 100 3 (\<lambda>a. ucast a)) [100, 101, 102, 103, 104] = [100, 100, 101, 102, 104]"
proof -
  let ?m = "\<lambda>a :: u32. ucast a :: u8"
  have "memmove 101 100 3 ?m (101 + of_nat k) = ?m (100 + of_nat k)" if "k < 3" for k
    using memmove_correct [of 100 3 101 ?m] that by simp
  from this [of 0] this [of 1] this [of 2] show ?thesis
    using memmove_correct [of 100 3 101 ?m] by simp
qed

text \<open>
  C14. \<open>memset\<close> fills exactly the \<open>n\<close> bytes from \<open>dst\<close> on with the low byte of \<open>c\<close>: the
  path that stores 32-bit words has the effect of the loop that stores bytes.
\<close>

theorem memset_correct:
  "memset dst c n m = stosb dst (ucast c) (unat n) m \<and>
   (\<forall>a. memset dst c n m a = (if unat (a - dst) < unat n then ucast c else m a))"
  using stosb_fill [of "unat n" dst "ucast c" m] unat_u32_lt [of n] by (simp add: memset_eq)

text \<open>
  C15. Strings in fixed fields. \<open>strncmp\<close> and \<open>memcmp\<close> return 0 exactly on equal fields;
  \<open>strncpy\<close> stores the string of its source and zeroes the rest of the field; \<open>safestrcpy\<close> stores
  the longest prefix that leaves room for the terminator; none writes outside its \<open>n\<close> bytes;
  \<open>strlen\<close> returns the index of the first zero byte, when there is one.
\<close>

theorem string_fields:
  "(strncmp p q n = 0 \<longleftrightarrow> cstr n p = cstr n q) \<and>
   (memcmp a b k m = 0 \<longleftrightarrow> (\<forall>i<unat k. m (a + of_nat i) = m (b + of_nat i))) \<and>
   cstr n (strncpy s t (int n)) = cstr n t \<and>
   (\<forall>j. strncpy s t (int n) j = (if n \<le> j then s j else if \<exists>i\<le>j. t i = 0 then 0 else t j)) \<and>
   cstr (Suc n) (safestrcpy s t (int (Suc n))) = cstr n t \<and>
   (\<forall>j>n. safestrcpy s t (int (Suc n)) j = s j) \<and>
   (strlen s = Some n \<longleftrightarrow> s n = 0 \<and> (\<forall>i<n. s i \<noteq> 0))"
proof (intro conjI allI impI)
  show "safestrcpy s t (int (Suc n)) j = s j" if "n < j" for j
    using safe_copy_prefix(2) [of j 0 n s t] that by (simp add: safestrcpy_def)
  show "strncpy s t (int n) j = (if n \<le> j then s j else if \<exists>i\<le>j. t i = 0 then 0 else t j)" for j
    by (simp add: strncpy_eq)
qed (simp_all add: strncmp_eq memcmp_def memcmp_loop_eq cstr_strncpy safestrcpy_def cstr_safe_copy strlen_Some)

theorem string_fields_witness:
  "cstr 4 (strncpy (\<lambda>_. 9) (\<lambda>i. if i < 2 then 65 else 0) 4) = [65, 65] \<and>
   strncmp (\<lambda>i. if i < 2 then 65 else 0) (\<lambda>i. if i < 2 then 65 else 0) 4 = 0"
  using string_fields [of "\<lambda>i. if i < 2 then 65 else 0" "\<lambda>i. if i < 2 then 65 else 0" 4 0 0 0 "\<lambda>_. 0"
    "\<lambda>_. 9" "\<lambda>i. if i < 2 then 65 else 0"]
  by (simp add: cstr_def upt_conv_Cons)

end
