(* ===== verification/Kalloc.thy ===== *)
theory Kalloc
  imports Kstring
begin

text \<open>
  Physical memory: the address layout of \<open>memlayout.h\<close> and \<open>mmu.h\<close> and the page allocator of
  \<open>kalloc.c\<close>. Memory is one store from kernel virtual addresses to bytes. The free list is threaded
  through the free pages themselves, in their first word, exactly as in the code. The addresses
  \<open>end\<close> and \<open>data\<close>, which the linker provides, are constant fields of the state. The lock
  \<open>kmem.lock\<close> makes each operation atomic, so that the operations are functions on the state.
\<close>

section \<open>Address layout\<close>

definition PGSIZE :: u32 where "PGSIZE = 4096"
definition EXTMEM :: u32 where "EXTMEM = 0x100000"
definition PHYSTOP :: u32 where "PHYSTOP = 0xE000000"
definition DEVSPACE :: u32 where "DEVSPACE = 0xFE000000"
definition KERNBASE :: u32 where "KERNBASE = 0x80000000"
definition KERNLINK :: u32 where "KERNLINK = KERNBASE + EXTMEM"

definition V2P :: "u32 \<Rightarrow> u32" where "V2P a = a - KERNBASE"
definition P2V :: "u32 \<Rightarrow> u32" where "P2V a = a + KERNBASE"

definition PGROUNDUP :: "u32 \<Rightarrow> u32" where "PGROUNDUP sz = (sz + PGSIZE - 1) AND NOT (PGSIZE - 1)"
definition PGROUNDDOWN :: "u32 \<Rightarrow> u32" where "PGROUNDDOWN a = a AND NOT (PGSIZE - 1)"

text \<open>Loads and stores of 32-bit words.\<close>

definition mld32 :: "mem \<Rightarrow> u32 \<Rightarrow> u32" where
  "mld32 m a = ucast (m a) OR push_bit 8 (ucast (m (a + 1))) OR push_bit 16 (ucast (m (a + 2)))
     OR push_bit 24 (ucast (m (a + 3)))"

definition mst32 :: "mem \<Rightarrow> u32 \<Rightarrow> u32 \<Rightarrow> mem" where
  "mst32 m a w = m(a := ucast w, a + 1 := ucast (drop_bit 8 w), a + 2 := ucast (drop_bit 16 w),
     a + 3 := ucast (drop_bit 24 w))"

section \<open>The allocator\<close>

record kmem =
  kmem_mem :: mem
  freelist :: u32
  use_lock :: bool
  kend :: u32
  kdata :: u32

definition kfree :: "u32 \<Rightarrow> kmem \<Rightarrow> kmem res" where
  "kfree v k =
     (if v mod PGSIZE \<noteq> 0 \<or> v < kend k \<or> V2P v \<ge> PHYSTOP then Panic ''kfree''
      else
        let k = k\<lparr>kmem_mem := memset v 1 PGSIZE (kmem_mem k)\<rparr>;
            k = k\<lparr>kmem_mem := mst32 (kmem_mem k) v (freelist k)\<rparr> in
        Ok (k\<lparr>freelist := v\<rparr>))"

definition kalloc :: "kmem \<Rightarrow> u32 \<times> kmem" where
  "kalloc k =
     (let r = freelist k in
      (r, if r \<noteq> 0 then k\<lparr>freelist := mld32 (kmem_mem k) r\<rparr> else k))"

lemma kfree_bound: "kfree v k = Ok k' \<Longrightarrow> unat KERNBASE \<le> unat v \<and> unat v + 4096 \<le> unat KERNBASE + unat PHYSTOP"
proof -
  assume "kfree v k = Ok k'"
  then have m: "v mod PGSIZE = 0" and h: "V2P v < PHYSTOP" by (auto simp: kfree_def split: if_splits)
  have "unat (v mod PGSIZE) = 0" using m by simp
  then have m': "unat v mod 4096 = 0" by (simp add: unat_mod PGSIZE_def)
  have lt: "unat (v - KERNBASE) < 0xE000000" using h by (simp add: V2P_def PHYSTOP_def word_less_nat_alt)
  show ?thesis
  proof (cases "unat KERNBASE \<le> unat v")
    case True
    then have "unat (v - KERNBASE) = unat v - 0x80000000" by (simp add: unat_sub_u32 KERNBASE_def)
    with lt True m' have "unat v < 0x8E000000" "unat v mod 4096 = 0" by (auto simp: KERNBASE_def)
    moreover obtain q where q: "unat v = 4096 * q" using m' by (auto elim: dvdE dest: mod_0_imp_dvd)
    ultimately have "q < 581632" by simp
    then have "unat v + 4096 \<le> 0x8E000000" using q by linarith
    with True show ?thesis by (simp add: KERNBASE_def PHYSTOP_def)
  next
    case False
    then have "unat (v - KERNBASE) = 2 ^ 32 + unat v - 0x80000000"
      by (simp add: unat_sub_if' KERNBASE_def)
    with lt show ?thesis by simp
  qed
qed

function freerange_loop :: "u32 \<Rightarrow> u32 \<Rightarrow> kmem \<Rightarrow> kmem res" where
  "freerange_loop p vend k =
     (if p + PGSIZE \<le> vend then bnd (kfree p k) (\<lambda>k. freerange_loop (p + PGSIZE) vend k) else Ok k)"
  by auto
termination
proof (relation "measure (\<lambda>(p, _, _). 2 ^ 32 - unat p)", goal_cases)
  case (2 p vend k k')
  from kfree_bound [OF 2(2)] have "unat (p + PGSIZE) = unat p + 4096"
    by (subst unat_add_u32) (simp_all add: PGSIZE_def KERNBASE_def PHYSTOP_def)
  then show ?case using unat_u32_lt [of p] by simp
qed simp

declare freerange_loop.simps [simp del]

definition freerange :: "u32 \<Rightarrow> u32 \<Rightarrow> kmem \<Rightarrow> kmem res" where
  "freerange vstart vend k = freerange_loop (PGROUNDUP vstart) vend k"

definition kinit1 :: "u32 \<Rightarrow> u32 \<Rightarrow> kmem \<Rightarrow> kmem res" where
  "kinit1 vstart vend k = freerange vstart vend (k\<lparr>use_lock := False\<rparr>)"

definition kinit2 :: "u32 \<Rightarrow> u32 \<Rightarrow> kmem \<Rightarrow> kmem res" where
  "kinit2 vstart vend k = bnd (freerange vstart vend k) (\<lambda>k. Ok (k\<lparr>use_lock := True\<rparr>))"

section \<open>Pages\<close>

definition aligned :: "u32 \<Rightarrow> bool" where "aligned p \<longleftrightarrow> unat p mod 4096 = 0"

definition page :: "u32 \<Rightarrow> u32 set" where "page p = {a. unat (a - p) < 4096}"

lemma aligned_iff: "aligned p \<longleftrightarrow> p mod PGSIZE = 0"
  by (simp add: aligned_def PGSIZE_def word_eq_iff_unsigned [where ?'a = nat] unat_mod)

lemma page_member:
  assumes "aligned p" "a \<in> page p"
  shows "unat a = unat p + unat (a - p)"
proof -
  obtain q where q: "unat p = 4096 * q" using assms(1) by (auto simp: aligned_def elim: dvdE dest: mod_0_imp_dvd)
  moreover have "unat p < 4096 * 1048576" using unat_u32_lt [of p] by simp
  ultimately have "q < 1048576" by simp
  then have "unat p + unat (a - p) < 2 ^ 32" using q assms(2) by (simp add: page_def)
  then have "unat (p + (a - p)) = unat p + unat (a - p)" by (rule unat_add_u32)
  then show ?thesis by simp
qed

lemma page_number:
  assumes "aligned p" "a \<in> page p"
  shows "unat a div 4096 = unat p div 4096"
proof -
  obtain q where q: "unat p = 4096 * q" using assms(1) by (auto simp: aligned_def elim: dvdE dest: mod_0_imp_dvd)
  then show ?thesis using page_member [OF assms] assms(2) by (simp add: page_def)
qed

lemma aligned_eq: "aligned p \<Longrightarrow> aligned q \<Longrightarrow> unat p div 4096 = unat q div 4096 \<Longrightarrow> p = q"
  using mult_div_mod_eq [of 4096 "unat p"] mult_div_mod_eq [of 4096 "unat q"]
  by (simp add: aligned_def word_unat_eq_iff [of p q])

lemma page_disjoint: "aligned p \<Longrightarrow> aligned q \<Longrightarrow> a \<in> page p \<Longrightarrow> a \<in> page q \<Longrightarrow> p = q"
  using page_number [of p a] page_number [of q a] aligned_eq [of p q] by simp

lemma page_self [simp]: "p \<in> page p"
  by (simp add: page_def)

lemma page_off: "off < 4096 \<Longrightarrow> p + of_nat off \<in> page p"
  by (simp add: page_def unat_of_nat_u32)

lemma page_word: "i < 1024 \<Longrightarrow> k < 4 \<Longrightarrow> p + of_nat (4 * i) + of_nat k \<in> page p"
  using page_off [of "4 * i + k" p] by (simp add: add.assoc)

lemma mld32_cong:
  assumes "\<And>k. k < 4 \<Longrightarrow> m (a + of_nat k) = m' (a + of_nat k)"
  shows "mld32 m a = mld32 m' a"
  using assms [of 0] assms [of 1] assms [of 2] assms [of 3] by (simp add: mld32_def)

lemma mst32_same: "mld32 (mst32 m a w) a = w"
proof (rule bit_word_eqI)
  fix n :: nat
  assume "n < LENGTH(32)"
  then consider "n < 8" | "8 \<le> n" "n < 16" | "16 \<le> n" "n < 24" | "24 \<le> n" "n < 32" by fastforce
  then show "bit (mld32 (mst32 m a w) a) n = bit w n"
    by cases (auto simp: mld32_def mst32_def bit_simps)
qed

lemma mst32_other: "unat (b - a) \<ge> 4 \<Longrightarrow> mst32 m a w b = m b"
  by (auto simp: mst32_def)

lemma mst32_page:
  assumes "aligned p" "i < 1024" "b \<notin> page p"
  shows "mst32 m (p + of_nat (4 * i)) w b = m b"
proof -
  have "b \<noteq> p + of_nat (4 * i) + of_nat k" if "k < 4" for k using page_word [OF assms(2) that, of p] assms(3) by blast
  from this [of 0] this [of 1] this [of 2] this [of 3] show ?thesis by (simp add: mst32_def)
qed

lemma mld32_mst32_index:
  assumes "i < 1024" "j < 1024" "i \<noteq> j"
  shows "mld32 (mst32 m (p + of_nat (4 * i)) w) (p + of_nat (4 * j)) = mld32 m (p + of_nat (4 * j))"
proof (rule mld32_cong)
  fix k :: nat assume k: "k < 4"
  have "p + of_nat (4 * j) + of_nat k \<noteq> p + of_nat (4 * i) + of_nat l" if l: "l < 4" for l
  proof
    assume "p + of_nat (4 * j) + of_nat k = p + of_nat (4 * i) + (of_nat l :: u32)"
    then have "(of_nat (4 * j + k) :: u32) = of_nat (4 * i + l)" by (simp add: add.assoc)
    then have "unat (of_nat (4 * j + k) :: u32) = unat (of_nat (4 * i + l) :: u32)" by (rule arg_cong)
    then have "4 * j + k = 4 * i + l" using assms k l by (subst (asm) (1 2) unat_of_nat_u32) simp_all
    then show False using assms(3) k l by presburger
  qed
  from this [of 0] this [of 1] this [of 2] this [of 3]
  show "mst32 m (p + of_nat (4 * i)) w (p + of_nat (4 * j) + of_nat k) = m (p + of_nat (4 * j) + of_nat k)"
    by (simp add: mst32_def)
qed

lemma memset_page: "memset p c PGSIZE m = (\<lambda>a. if a \<in> page p then ucast c else m a)"
  by (simp add: memset_eq page_def PGSIZE_def cong: if_cong)

section \<open>The free list\<close>

fun chain :: "mem \<Rightarrow> u32 \<Rightarrow> u32 list \<Rightarrow> bool" where
  "chain m p [] \<longleftrightarrow> p = 0"
| "chain m p (x # xs) \<longleftrightarrow> p = x \<and> x \<noteq> 0 \<and> chain m (mld32 m x) xs"

definition page_ok :: "kmem \<Rightarrow> u32 \<Rightarrow> bool" where
  "page_ok k v \<longleftrightarrow> v mod PGSIZE = 0 \<and> kend k \<le> v \<and> V2P v < PHYSTOP"

definition kinv :: "kmem \<Rightarrow> u32 list \<Rightarrow> bool" where
  "kinv k xs \<longleftrightarrow> chain (kmem_mem k) (freelist k) xs \<and> distinct xs \<and> (\<forall>x\<in>set xs. page_ok k x)"

lemma page_okD: "page_ok k v \<Longrightarrow> aligned v \<and> v \<noteq> 0"
  by (auto simp: page_ok_def aligned_iff V2P_def PHYSTOP_def KERNBASE_def)

lemma chain_cong:
  "chain m p xs \<Longrightarrow> (\<And>x a. x \<in> set xs \<Longrightarrow> a \<in> page x \<Longrightarrow> m' a = m a) \<Longrightarrow> chain m' p xs"
proof (induction xs arbitrary: p)
  case (Cons x xs)
  have "mld32 m' x = mld32 m x"
  proof (rule mld32_cong)
    fix k :: nat assume "k < 4"
    then show "m' (x + of_nat k) = m (x + of_nat k)" using Cons.prems(2) [of x] page_off [of k x] by simp
  qed
  then show ?case using Cons by auto
qed simp

lemma kinv_mem:
  assumes "kinv k xs" "\<And>x a. x \<in> set xs \<Longrightarrow> a \<in> page x \<Longrightarrow> m' a = kmem_mem k a"
  shows "kinv (k\<lparr>kmem_mem := m'\<rparr>) xs"
  using assms chain_cong [of "kmem_mem k" "freelist k" xs m'] by (auto simp: kinv_def page_ok_def)

lemma kalloc_Nil: "kinv k [] \<Longrightarrow> kalloc k = (0, k)"
  by (simp add: kinv_def kalloc_def)

lemma kalloc_Cons:
  assumes "kinv k (x # xs)"
  shows "kalloc k = (x, k\<lparr>freelist := mld32 (kmem_mem k) x\<rparr>)" "kinv (k\<lparr>freelist := mld32 (kmem_mem k) x\<rparr>) xs"
    "x \<notin> set xs" "page_ok k x" "x \<noteq> 0"
  using assms by (auto simp: kinv_def kalloc_def page_ok_def)

lemma kfree_spec:
  assumes "kinv k xs" "page_ok k v" "v \<notin> set xs"
  obtains k' where "kfree v k = Ok k'" "kinv k' (v # xs)" "kend k' = kend k" "use_lock k' = use_lock k"
    "\<And>a. a \<notin> page v \<Longrightarrow> kmem_mem k' a = kmem_mem k a"
proof -
  let ?m1 = "memset v 1 PGSIZE (kmem_mem k)" let ?m = "mst32 ?m1 v (freelist k)"
  let ?k = "k\<lparr>kmem_mem := ?m, freelist := v\<rparr>"
  have al: "aligned v" "v \<noteq> 0" using page_okD [OF assms(2)] by auto
  have out: "?m a = kmem_mem k a" if "a \<notin> page v" for a
    using mst32_page [OF al(1), of 0 a ?m1] that by (simp add: memset_page)
  have "kfree v k = Ok ?k" using assms(2) by (auto simp: kfree_def page_ok_def)
  moreover have "kinv ?k (v # xs)"
  proof -
    have "chain ?m (freelist k) xs"
    proof (rule chain_cong)
      fix x a assume x: "x \<in> set xs" "a \<in> page x"
      have "aligned x" using assms(1) x(1) page_okD by (auto simp: kinv_def)
      then have "a \<notin> page v" using page_disjoint [OF al(1), of x a] x assms(3) by auto
      then show "?m a = kmem_mem k a" by (rule out)
    qed (use assms(1) in \<open>simp add: kinv_def\<close>)
    then show ?thesis using assms al by (auto simp: kinv_def mst32_same page_ok_def)
  qed
  ultimately show ?thesis using that [of ?k] out by simp
qed

section \<open>The interface of a page allocator\<close>

text \<open>What the clients (page tables, kernel stacks, pipes) rely on.\<close>

locale page_source =
  fixes inv :: "'k \<Rightarrow> 'p list \<Rightarrow> bool" and usable :: "'k \<Rightarrow> 'p \<Rightarrow> bool"
    and get :: "'k \<Rightarrow> ('p \<times> 'k) option" and put :: "'p \<Rightarrow> 'k \<Rightarrow> 'k res"
  assumes get_None: "inv k ps \<Longrightarrow> get k = None \<longleftrightarrow> ps = []"
    and get_Some: "inv k ps \<Longrightarrow> get k = Some (p, k') \<Longrightarrow> \<exists>qs. ps = p # qs \<and> inv k' qs \<and> p \<notin> set qs \<and> usable k' p"
    and put_Ok: "inv k ps \<Longrightarrow> usable k p \<Longrightarrow> p \<notin> set ps \<Longrightarrow> \<exists>k'. put p k = Ok k' \<and> inv k' (p # ps)"
begin

primrec get_n :: "nat \<Rightarrow> 'k \<Rightarrow> ('p list \<times> 'k) option" where
  "get_n 0 k = Some ([], k)"
| "get_n (Suc n) k = (case get k of None \<Rightarrow> None | Some (p, k) \<Rightarrow>
     (case get_n n k of None \<Rightarrow> None | Some (ps, k) \<Rightarrow> Some (p # ps, k)))"

lemma get_n_spec:
  assumes "inv k ps"
  shows "if n \<le> length ps then \<exists>k'. get_n n k = Some (take n ps, k') \<and> inv k' (drop n ps) else get_n n k = None"
  using assms
proof (induction n arbitrary: k ps)
  case (Suc n)
  show ?case
  proof (cases "get k")
    case None
    then show ?thesis using get_None [OF Suc.prems] by simp
  next
    case (Some pk)
    then obtain p k' where pk: "get k = Some (p, k')" by (cases pk) simp
    obtain qs where "ps = p # qs" "inv k' qs" using get_Some [OF Suc.prems pk] by blast
    then show ?thesis using Suc.IH [of k' qs] pk by (auto split: if_splits)
  qed
qed simp

lemma get_put:
  assumes "inv k ps" "get k = Some (p, k')"
  shows "\<exists>k''. put p k' = Ok k'' \<and> inv k'' ps"
  using get_Some [OF assms] put_Ok by blast

end

definition kalloc_page :: "kmem \<Rightarrow> (u32 \<times> kmem) option" where
  "kalloc_page k = (if fst (kalloc k) = 0 then None else Some (kalloc k))"

interpretation pages: page_source kinv page_ok kalloc_page kfree
proof
  fix k ps assume k: "kinv k ps"
  show "kalloc_page k = None \<longleftrightarrow> ps = []"
    using k kalloc_Nil [of k] kalloc_Cons [of k] by (cases ps) (auto simp: kalloc_page_def)
  show "\<exists>qs. ps = p # qs \<and> kinv k' qs \<and> p \<notin> set qs \<and> page_ok k' p" if "kalloc_page k = Some (p, k')" for p k'
    using that k kalloc_Nil [of k] kalloc_Cons [of k]
    by (cases ps) (auto simp: kalloc_page_def page_ok_def split: if_splits)
  show "\<exists>k'. kfree p k = Ok k' \<and> kinv k' (p # ps)" if "page_ok k p" "p \<notin> set ps" for p
    by (rule kfree_spec [OF k that]) blast
qed

section \<open>Filling the free list at boot\<close>

definition range_pages :: "u32 \<Rightarrow> u32 \<Rightarrow> u32 list" where
  "range_pages p vend = map (\<lambda>i. p + of_nat (4096 * i)) [0..<(unat vend - unat p) div 4096]"

lemma range_pages_rec:
  assumes "unat p + 4096 \<le> unat vend"
  shows "range_pages p vend = p # range_pages (p + PGSIZE) vend"
proof -
  have "unat (p + PGSIZE) = unat p + 4096"
    using assms unat_u32_lt [of vend] by (subst unat_add_u32) (simp_all add: PGSIZE_def)
  moreover have "(unat vend - unat p) div 4096 = Suc ((unat vend - (unat p + 4096)) div 4096)"
    using assms le_div_geq [of 4096 "unat vend - unat p"] by (simp add: diff_diff_left)
  ultimately show ?thesis
    by (simp add: range_pages_def upt_conv_Cons map_Suc_upt [symmetric] PGSIZE_def add.assoc del: upt_Suc)
qed

lemma freerange_loop_spec:
  assumes "kinv k xs" "aligned p" "kend k \<le> p" "KERNBASE \<le> p" "unat vend \<le> unat KERNBASE + unat PHYSTOP"
    "set (range_pages p vend) \<inter> set xs = {}" "unat p \<le> unat KERNBASE + unat PHYSTOP"
  shows "\<exists>k'. freerange_loop p vend k = Ok k' \<and> kinv k' (rev (range_pages p vend) @ xs) \<and> kend k' = kend k \<and>
    use_lock k' = use_lock k"
  using assms
proof (induction p vend k arbitrary: xs rule: freerange_loop.induct)
  case (1 p vend k)
  show ?case
  proof (cases "unat p + 4096 \<le> unat vend")
    case True
    have top: "unat vend \<le> 0x8E000000" using "1.prems" by (simp add: KERNBASE_def PHYSTOP_def)
    have up: "unat (p + PGSIZE) = unat p + 4096"
      using True top by (subst unat_add_u32) (simp_all add: PGSIZE_def)
    note rp = range_pages_rec [OF True]
    have "unat (p - KERNBASE) = unat p - 0x80000000"
      using "1.prems" by (subst unat_sub_u32) (simp_all add: word_le_nat_alt KERNBASE_def)
    then have "V2P p < PHYSTOP" using True top by (simp add: V2P_def PHYSTOP_def word_less_nat_alt)
    then have ok: "page_ok k p" using "1.prems" by (simp add: page_ok_def aligned_iff)
    obtain k1 where k1: "kfree p k = Ok k1" "kinv k1 (p # xs)" "kend k1 = kend k" "use_lock k1 = use_lock k"
      by (rule kfree_spec [OF "1.prems"(1) ok]) (use "1.prems"(6) rp in auto)
    have c: "p + PGSIZE \<le> vend" using True up by (simp add: word_le_nat_alt)
    have al: "aligned (p + PGSIZE)" using "1.prems"(2) up by (simp add: aligned_def)
    have np: "p \<notin> set (range_pages (p + PGSIZE) vend)"
    proof
      assume "p \<in> set (range_pages (p + PGSIZE) vend)"
      then obtain i where i: "i < (unat vend - unat (p + PGSIZE)) div 4096" "p = p + PGSIZE + of_nat (4096 * i)"
        by (auto simp: range_pages_def)
      have "4096 * i + 4096 \<le> unat vend - unat (p + PGSIZE)" using i(1) by (simp add: less_eq_div_iff_mult_less_eq Suc_le_eq [symmetric] mult.commute)
      then have lt: "4096 * (i + 1) < 2 ^ 32" using top by simp
      have "(of_nat (4096 * (i + 1)) :: u32) = 0" using i(2) by (simp add: PGSIZE_def add.assoc algebra_simps)
      then have "unat (of_nat (4096 * (i + 1)) :: u32) = 0" by simp
      then show False using unat_of_nat_u32 [OF lt] by simp
    qed
    have "\<exists>k'. freerange_loop (p + PGSIZE) vend k1 = Ok k' \<and> kinv k' (rev (range_pages (p + PGSIZE) vend) @ p # xs) \<and>
      kend k' = kend k1 \<and> use_lock k' = use_lock k1"
      by (rule "1.IH" [OF c k1(1)]) (use "1.prems" k1 al up np rp True in \<open>auto simp: word_le_nat_alt\<close>)
    then show ?thesis using k1 c rp by (subst freerange_loop.simps) auto
  next
    case False
    have up: "unat (p + PGSIZE) = unat p + 4096"
      using "1.prems"(7) by (subst unat_add_u32) (simp_all add: PGSIZE_def KERNBASE_def PHYSTOP_def)
    have "(unat vend - unat p) div 4096 = 0" using False by simp
    then have "range_pages p vend = []" by (simp add: range_pages_def)
    then show ?thesis using False up "1.prems"(1) by (subst freerange_loop.simps) (simp add: word_le_nat_alt)
  qed
qed

lemma PGROUNDDOWN_unat: "unat (PGROUNDDOWN a) = unat a - unat a mod 4096"
proof -
  have "PGROUNDDOWN a = push_bit 12 (drop_bit 12 a)"
  proof (rule bit_word_eqI)
    fix n assume "n < LENGTH(32)"
    have "bit (4095 :: u32) n \<longleftrightarrow> n < 12"
      using bit_mask_iff [where ?'a = u32, of 12 n] by (auto simp: mask_eq_exp_minus_1)
    then show "bit (PGROUNDDOWN a) n = bit (push_bit 12 (drop_bit 12 a)) n"
      using \<open>n < LENGTH(32)\<close> by (auto simp: PGROUNDDOWN_def PGSIZE_def bit_simps)
  qed
  moreover have "push_bit 12 (drop_bit 12 a) = a - take_bit 12 a"
    using bits_ident [of 12 a] by (simp add: algebra_simps)
  moreover have "unat (take_bit 12 a) = unat a mod 4096"
    by (simp add: take_bit_eq_mod unat_mod)
  ultimately show ?thesis by (simp add: unat_sub_u32)
qed

lemma PGROUNDDOWN_offset: "unat (a - PGROUNDDOWN a) = unat a mod 4096"
  by (subst unat_sub_u32) (simp_all add: PGROUNDDOWN_unat mod_less_eq_dividend)

lemma aligned_PGROUNDDOWN: "aligned (PGROUNDDOWN a)"
  by (simp add: aligned_def PGROUNDDOWN_unat minus_mod_eq_mult_div)

lemma PGROUNDUP_eq: "PGROUNDUP a = PGROUNDDOWN (a + PGSIZE - 1)"
  by (simp add: PGROUNDUP_def PGROUNDDOWN_def)

lemma PGROUNDUP_unat:
  assumes "unat a + 4095 < 2 ^ 32"
  shows "unat (PGROUNDUP a) = (unat a + 4095) div 4096 * 4096"
proof -
  have e: "a + PGSIZE - 1 = a + 4095" by (simp add: PGSIZE_def)
  have "unat (a + 4095) = unat a + 4095" using assms by (subst unat_add_u32) simp_all
  then show ?thesis unfolding PGROUNDUP_eq e by (simp add: PGROUNDDOWN_unat minus_mod_eq_div_mult)
qed

section \<open>Properties\<close>

text \<open>
  C16. The page allocator. With the free list \<open>xs\<close> threaded through memory: \<open>kalloc\<close> returns 0 exactly
  when it is empty and otherwise its first page, which is then on the list no more; \<open>kfree\<close> of a page
  that is not free puts it in front and changes no byte outside that page, and it panics on every
  address that is not a page of the allocator's range. No page is ever on the list twice.
\<close>

theorem kalloc_kfree_correct:
  assumes "kinv k xs"
  shows "(case kalloc k of (r, k') \<Rightarrow>
      if xs = [] then r = 0 \<and> k' = k
      else r = hd xs \<and> r \<noteq> 0 \<and> kinv k' (tl xs) \<and> r \<notin> set (tl xs) \<and> kmem_mem k' = kmem_mem k) \<and>
    (\<forall>v. if page_ok k v then v \<notin> set xs \<longrightarrow> (\<exists>k'. kfree v k = Ok k' \<and> kinv k' (v # xs) \<and>
             (\<forall>a. a \<notin> page v \<longrightarrow> kmem_mem k' a = kmem_mem k a))
          else kfree v k = Panic ''kfree'')"
proof (intro conjI allI)
  show "case kalloc k of (r, k') \<Rightarrow>
      if xs = [] then r = 0 \<and> k' = k
      else r = hd xs \<and> r \<noteq> 0 \<and> kinv k' (tl xs) \<and> r \<notin> set (tl xs) \<and> kmem_mem k' = kmem_mem k"
    using assms kalloc_Nil [of k] kalloc_Cons [of k] by (cases xs) auto
  fix v
  show "if page_ok k v then v \<notin> set xs \<longrightarrow> (\<exists>k'. kfree v k = Ok k' \<and> kinv k' (v # xs) \<and>
             (\<forall>a. a \<notin> page v \<longrightarrow> kmem_mem k' a = kmem_mem k a))
          else kfree v k = Panic ''kfree''"
  proof (cases "page_ok k v")
    case True
    then show ?thesis by (auto elim: kfree_spec [OF assms])
  next
    case False
    then show ?thesis by (auto simp: kfree_def page_ok_def not_le not_less)
  qed
qed

definition demo_kmem :: kmem where
  "demo_kmem = \<lparr>kmem_mem = (\<lambda>_. 0), freelist = 0, use_lock = True, kend = 0x80200000, kdata = 0x80108000\<rparr>"

lemma demo_kmem_inv: "kinv demo_kmem []"
  by (simp add: kinv_def demo_kmem_def)

theorem kalloc_kfree_correct_witness:
  "\<exists>k. kfree 0x80400000 demo_kmem = Ok k \<and> fst (kalloc k) = 0x80400000 \<and> kfree 0x80400004 demo_kmem = Panic ''kfree''"
proof -
  have p: "page_ok demo_kmem 0x80400000" "\<not> page_ok demo_kmem 0x80400004"
    by (simp_all add: page_ok_def demo_kmem_def PGSIZE_def V2P_def KERNBASE_def PHYSTOP_def)
  obtain k where k: "kfree 0x80400000 demo_kmem = Ok k" "kinv k [0x80400000]"
    using kalloc_kfree_correct [OF demo_kmem_inv, THEN conjunct2, THEN spec [where x = "0x80400000"]] p(1) by auto
  have "fst (kalloc k) = 0x80400000" using kalloc_kfree_correct [OF k(2), THEN conjunct1] by (simp split: prod.splits)
  then show ?thesis
    using k kalloc_kfree_correct [OF demo_kmem_inv, THEN conjunct2, THEN spec [where x = "0x80400004"]] p(2) by auto
qed

text \<open>
  C17. Boot: \<open>freerange\<close> terminates without a panic and puts exactly the whole pages between
  \<open>PGROUNDUP(vstart)\<close> and \<open>vend\<close> on the free list, the last page first.
\<close>

theorem freerange_correct:
  assumes "kinv k xs" "kend k \<le> vstart" "KERNBASE \<le> vstart" "vstart \<le> vend"
    "unat vend \<le> unat KERNBASE + unat PHYSTOP" "set (range_pages (PGROUNDUP vstart) vend) \<inter> set xs = {}"
  shows "\<exists>k'. freerange vstart vend k = Ok k' \<and> kinv k' (rev (range_pages (PGROUNDUP vstart) vend) @ xs)"
proof -
  let ?p = "PGROUNDUP vstart"
  have b: "unat vstart \<le> 0x8E000000" using assms(4,5) by (simp add: word_le_nat_alt KERNBASE_def PHYSTOP_def)
  then have u: "unat ?p = (unat vstart + 4095) div 4096 * 4096" by (intro PGROUNDUP_unat) simp
  have lo: "unat vstart \<le> unat ?p"
    unfolding u using div_mult_mod_eq [of "unat vstart + 4095" 4096] by (simp add: less_imp_le [OF mod_less_divisor] add_le_mono)
  have hi: "unat ?p \<le> 0x8E000000"
  proof -
    have "(unat vstart + 4095) div 4096 \<le> (0x8E000000 + 4095) div 4096" using b by (intro div_le_mono) simp
    then show ?thesis unfolding u by simp
  qed
  have "aligned ?p" by (simp add: PGROUNDUP_eq aligned_PGROUNDDOWN)
  then show ?thesis
    using freerange_loop_spec [OF assms(1), of ?p vend] assms lo hi
    by (auto simp: freerange_def word_le_nat_alt KERNBASE_def PHYSTOP_def)
qed

theorem freerange_correct_witness:
  "\<exists>k. freerange 0x80200001 0x80203FFF demo_kmem = Ok k \<and> kinv k [0x80202000, 0x80201000]"
proof -
  have r: "range_pages (PGROUNDUP 0x80200001) 0x80203FFF = [0x80201000, 0x80202000]"
    by (simp add: range_pages_def PGROUNDUP_def PGSIZE_def upt_conv_Cons)
  show ?thesis
    using freerange_correct [OF demo_kmem_inv, of "0x80200001" "0x80203FFF"]
    by (simp add: r) (simp add: demo_kmem_def KERNBASE_def PHYSTOP_def)
qed

end
