(* ===== verification/Vm.thy ===== *)
theory Vm
  imports Kalloc
begin

text \<open>
  Page tables: \<open>vm.c\<close>. Page directories and page tables are pages of the memory of \<open>Kalloc\<close>, read
  and written word by word, and every allocation goes through \<open>kalloc\<close> and \<open>kfree\<close>. Pointers to
  page table entries are addresses, with 0 for the null pointer.
\<close>

section \<open>Page table entries\<close>

definition NPDENTRIES :: nat where "NPDENTRIES = 1024"

definition PDX :: "u32 \<Rightarrow> nat" where "PDX va = unat (drop_bit 22 va AND 0x3FF)"
definition PTX :: "u32 \<Rightarrow> nat" where "PTX va = unat (drop_bit 12 va AND 0x3FF)"

definition PGADDR :: "nat \<Rightarrow> nat \<Rightarrow> u32 \<Rightarrow> u32" where
  "PGADDR d t off = push_bit 22 (of_nat d) OR push_bit 12 (of_nat t) OR off"

definition PTE_P :: u32 where "PTE_P = 1"
definition PTE_W :: u32 where "PTE_W = 2"
definition PTE_U :: u32 where "PTE_U = 4"

definition PTE_ADDR :: "u32 \<Rightarrow> u32" where "PTE_ADDR pte = pte AND NOT 0xFFF"
definition PTE_FLAGS :: "u32 \<Rightarrow> u32" where "PTE_FLAGS pte = pte AND 0xFFF"

definition set_mem :: "u32 \<Rightarrow> u32 \<Rightarrow> kmem \<Rightarrow> kmem" where
  "set_mem a w k = k\<lparr>kmem_mem := mst32 (kmem_mem k) a w\<rparr>"

definition zero_page :: "u32 \<Rightarrow> kmem \<Rightarrow> kmem" where
  "zero_page p k = k\<lparr>kmem_mem := memset p 0 PGSIZE (kmem_mem k)\<rparr>"

section \<open>Walking and mapping\<close>

definition walkpgdir :: "u32 \<Rightarrow> u32 \<Rightarrow> bool \<Rightarrow> kmem \<Rightarrow> u32 \<times> kmem" where
  "walkpgdir pgdir va alloc k =
     (let pde = pgdir + of_nat (4 * PDX va);
          e = mld32 (kmem_mem k) pde in
      if e AND PTE_P \<noteq> 0 then (P2V (PTE_ADDR e) + of_nat (4 * PTX va), k)
      else if \<not> alloc then (0, k)
      else
        let (pgtab, k) = kalloc k in
        if pgtab = 0 then (0, k)
        else
          let k = zero_page pgtab k;
              k = set_mem pde (V2P pgtab OR PTE_P OR PTE_W OR PTE_U) k in
          (pgtab + of_nat (4 * PTX va), k))"

text \<open>
  The loop of \<open>mappages\<close> runs until \<open>a == last\<close>; both are page aligned, so it runs
  \<open>(last - a) / PGSIZE\<close> more times after the first page.
\<close>

fun mappages_loop :: "nat \<Rightarrow> u32 \<Rightarrow> u32 \<Rightarrow> u32 \<Rightarrow> u32 \<Rightarrow> kmem \<Rightarrow> int \<times> kmem" where
  "mappages_loop n pgdir a pa perm k =
     (let (pte, k) = walkpgdir pgdir a True k in
      if pte = 0 then (-1, k)
      else if mld32 (kmem_mem k) pte AND PTE_P \<noteq> 0 then (0, k)
      else
        let k = set_mem pte (pa OR perm OR PTE_P) k in
        if n = 0 then (0, k)
        else mappages_loop (n - 1) pgdir (a + PGSIZE) (pa + PGSIZE) perm k)"

declare mappages_loop.simps [simp del]

definition mappages :: "u32 \<Rightarrow> u32 \<Rightarrow> u32 \<Rightarrow> u32 \<Rightarrow> u32 \<Rightarrow> kmem \<Rightarrow> int \<times> kmem" where
  "mappages pgdir va sz pa perm k =
     (let a = PGROUNDDOWN va;
          last = PGROUNDDOWN (va + sz - 1) in
      mappages_loop (unat ((last - a) div PGSIZE)) pgdir a pa perm k)"

section \<open>User memory\<close>

text \<open>
  When no page table covers \<open>a\<close> at the very end of the address space, the next address wraps to 0 and
  the loop of \<open>deallocuvm\<close> starts over without end; callers pass \<open>oldsz \<le> KERNBASE\<close>. The model
  gives the outcome \<open>Blocked\<close> to that case.
\<close>

definition dealloc_body :: "u32 \<Rightarrow> u32 \<Rightarrow> kmem \<Rightarrow> (u32 \<times> kmem) res" where
  "dealloc_body pgdir a k =
     (let (pte, k) = walkpgdir pgdir a False k in
      if pte = 0 then Ok (PGADDR (PDX a + 1) 0 0 - PGSIZE, k)
      else if mld32 (kmem_mem k) pte AND PTE_P \<noteq> 0 then
        let pa = PTE_ADDR (mld32 (kmem_mem k) pte) in
        if pa = 0 then Panic ''kfree''
        else
          let v = P2V pa in
          bnd (kfree v k) (\<lambda>k. Ok (a, set_mem pte 0 k))
      else Ok (a, k))"

function dealloc_loop :: "u32 \<Rightarrow> u32 \<Rightarrow> u32 \<Rightarrow> kmem \<Rightarrow> kmem res" where
  "dealloc_loop pgdir a oldsz k =
     (if a < oldsz then
        bnd (dealloc_body pgdir a k) (\<lambda>(a', k).
        if a < a' + PGSIZE then dealloc_loop pgdir (a' + PGSIZE) oldsz k else Blocked)
      else Ok k)"
  by auto
termination
  by (relation "measure (\<lambda>(_, a, _, _). 2 ^ 32 - unat a)") (simp_all only: in_measure prod.case u32_measure wf_measure)

declare dealloc_loop.simps [simp del]

definition deallocuvm :: "u32 \<Rightarrow> u32 \<Rightarrow> u32 \<Rightarrow> kmem \<Rightarrow> (u32 \<times> kmem) res" where
  "deallocuvm pgdir oldsz newsz k =
     (if newsz \<ge> oldsz then Ok (oldsz, k)
      else bnd (dealloc_loop pgdir (PGROUNDUP newsz) oldsz k) (\<lambda>k. Ok (newsz, k)))"

text \<open>The addresses a loop \<open>for(a = lo; a < hi; a += PGSIZE)\<close> visits.\<close>

definition page_steps :: "u32 \<Rightarrow> u32 \<Rightarrow> u32 list" where
  "page_steps lo hi = map (\<lambda>i. lo + of_nat (4096 * i)) [0..<(unat hi - unat lo + 4095) div 4096]"

primrec alloc_loop :: "u32 list \<Rightarrow> u32 \<Rightarrow> u32 \<Rightarrow> u32 \<Rightarrow> kmem \<Rightarrow> (u32 \<times> kmem) res" where
  "alloc_loop [] pgdir oldsz newsz k = Ok (newsz, k)"
| "alloc_loop (a # as) pgdir oldsz newsz k =
     (let (mm, k) = kalloc k in
      if mm = 0 then
        bnd (deallocuvm pgdir newsz oldsz k) (\<lambda>(_, k). Ok (0, k))
      else
        let k = zero_page mm k;
            (r, k) = mappages pgdir a PGSIZE (V2P mm) (PTE_W OR PTE_U) k in
        if r < 0 then
          bnd (deallocuvm pgdir newsz oldsz k) (\<lambda>(_, k).
          bnd (kfree mm k) (\<lambda>k. Ok (0, k)))
        else alloc_loop as pgdir oldsz newsz k)"

definition allocuvm :: "u32 \<Rightarrow> u32 \<Rightarrow> u32 \<Rightarrow> kmem \<Rightarrow> (u32 \<times> kmem) res" where
  "allocuvm pgdir oldsz newsz k =
     (if newsz \<ge> KERNBASE then Ok (0, k)
      else if newsz < oldsz then Ok (oldsz, k)
      else alloc_loop (page_steps (PGROUNDUP oldsz) newsz) pgdir oldsz newsz k)"

definition free_table :: "u32 \<Rightarrow> nat \<Rightarrow> kmem \<Rightarrow> kmem res" where
  "free_table pgdir i k =
     (let e = mld32 (kmem_mem k) (pgdir + of_nat (4 * i)) in
      if e AND PTE_P \<noteq> 0 then kfree (P2V (PTE_ADDR e)) k else Ok k)"

definition freevm :: "u32 \<Rightarrow> kmem \<Rightarrow> kmem res" where
  "freevm pgdir k =
     (if pgdir = 0 then Panic ''freevm: no pgdir''
      else
        bnd (deallocuvm pgdir KERNBASE 0 k) (\<lambda>(_, k).
        bnd (foreach (free_table pgdir) [0..<NPDENTRIES] k) (\<lambda>k.
        kfree pgdir k)))"

section \<open>Whole address spaces\<close>

record kmap_entry =
  virt :: u32
  phys_start :: u32
  phys_end :: u32
  km_perm :: u32

definition kmap :: "u32 \<Rightarrow> kmap_entry list" where
  "kmap data =
     [\<lparr>virt = KERNBASE, phys_start = 0, phys_end = EXTMEM, km_perm = PTE_W\<rparr>,
      \<lparr>virt = KERNLINK, phys_start = V2P KERNLINK, phys_end = V2P data, km_perm = 0\<rparr>,
      \<lparr>virt = data, phys_start = V2P data, phys_end = PHYSTOP, km_perm = PTE_W\<rparr>,
      \<lparr>virt = DEVSPACE, phys_start = DEVSPACE, phys_end = 0, km_perm = PTE_W\<rparr>]"

primrec setupkvm_loop :: "kmap_entry list \<Rightarrow> u32 \<Rightarrow> kmem \<Rightarrow> (u32 \<times> kmem) res" where
  "setupkvm_loop [] pgdir k = Ok (pgdir, k)"
| "setupkvm_loop (e # es) pgdir k =
     (let (r, k) = mappages pgdir (virt e) (phys_end e - phys_start e) (phys_start e) (km_perm e) k in
      if r < 0 then bnd (freevm pgdir k) (\<lambda>k. Ok (0, k))
      else setupkvm_loop es pgdir k)"

definition setupkvm :: "kmem \<Rightarrow> (u32 \<times> kmem) res" where
  "setupkvm k =
     (let (pgdir, k) = kalloc k in
      if pgdir = 0 then Ok (0, k)
      else
        let k = zero_page pgdir k in
        if P2V PHYSTOP > DEVSPACE then Panic ''PHYSTOP too high''
        else setupkvm_loop (kmap (kdata k)) pgdir k)"

text \<open>Copying bytes that come from outside the modelled memory, such as a linked-in program image.\<close>

definition put_bytes :: "u32 \<Rightarrow> bytes \<Rightarrow> nat \<Rightarrow> nat \<Rightarrow> mem \<Rightarrow> mem" where
  "put_bytes a src pos n m = (\<lambda>b. if unat (b - a) < n then src (pos + unat (b - a)) else m b)"

definition inituvm :: "u32 \<Rightarrow> bytes \<Rightarrow> u32 \<Rightarrow> kmem \<Rightarrow> kmem res" where
  "inituvm pgdir init sz k =
     (if sz \<ge> PGSIZE then Panic ''inituvm: more than a page''
      else
        let (mm, k) = kalloc k;
            k = zero_page mm k;
            (_, k) = mappages pgdir 0 PGSIZE (V2P mm) (PTE_W OR PTE_U) k in
        Ok (k\<lparr>kmem_mem := put_bytes mm init 0 (unat sz) (kmem_mem k)\<rparr>))"

definition clearpteu :: "u32 \<Rightarrow> u32 \<Rightarrow> kmem \<Rightarrow> kmem res" where
  "clearpteu pgdir uva k =
     (let (pte, k) = walkpgdir pgdir uva False k in
      if pte = 0 then Panic ''clearpteu''
      else Ok (set_mem pte (mld32 (kmem_mem k) pte AND NOT PTE_U) k))"

primrec copy_loop :: "u32 list \<Rightarrow> u32 \<Rightarrow> u32 \<Rightarrow> kmem \<Rightarrow> (u32 \<times> kmem) res" where
  "copy_loop [] pgdir d k = Ok (d, k)"
| "copy_loop (i # is) pgdir d k =
     (let (pte, k) = walkpgdir pgdir i False k in
      if pte = 0 then Panic ''copyuvm: pte should exist''
      else if mld32 (kmem_mem k) pte AND PTE_P = 0 then Ok (0, k)
      else
        let pa = PTE_ADDR (mld32 (kmem_mem k) pte);
            flags = PTE_FLAGS (mld32 (kmem_mem k) pte);
            (mm, k) = kalloc k in
        if mm = 0 then bnd (freevm d k) (\<lambda>k. Ok (0, k))
        else
          let k = k\<lparr>kmem_mem := memmove mm (P2V pa) PGSIZE (kmem_mem k)\<rparr>;
              (r, k) = mappages d i PGSIZE (V2P mm) flags k in
          if r < 0 then
            bnd (kfree mm k) (\<lambda>k.
            bnd (freevm d k) (\<lambda>k. Ok (0, k)))
          else copy_loop is pgdir d k)"

definition copyuvm :: "u32 \<Rightarrow> u32 \<Rightarrow> kmem \<Rightarrow> (u32 \<times> kmem) res" where
  "copyuvm pgdir sz k =
     bnd (setupkvm k) (\<lambda>(d, k).
     if d = 0 then Ok (0, k)
     else copy_loop (page_steps 0 sz) pgdir d k)"

text \<open>
  \<open>uva2ka\<close> dereferences the entry without a test for the null pointer; that case, undefined in C, is
  the outcome \<open>Panic\<close>.
\<close>

definition uva2ka :: "u32 \<Rightarrow> u32 \<Rightarrow> kmem \<Rightarrow> u32 res" where
  "uva2ka pgdir uva k =
     (let (pte, k) = walkpgdir pgdir uva False k in
      if pte = 0 then Panic ''null pointer''
      else if mld32 (kmem_mem k) pte AND PTE_P = 0 then Ok 0
      else if mld32 (kmem_mem k) pte AND PTE_U = 0 then Ok 0
      else Ok (P2V (PTE_ADDR (mld32 (kmem_mem k) pte))))"

function copyout_loop :: "u32 \<Rightarrow> u32 \<Rightarrow> bytes \<Rightarrow> nat \<Rightarrow> nat \<Rightarrow> kmem \<Rightarrow> (int \<times> kmem) res" where
  "copyout_loop pgdir va buf pos len k =
     (if 0 < len then
        let va0 = PGROUNDDOWN va in
        bnd (uva2ka pgdir va0 k) (\<lambda>pa0.
        if pa0 = 0 then Ok (-1, k)
        else
          let n = unat PGSIZE - unat (va - va0);
              n = (if len < n then len else n);
              k = k\<lparr>kmem_mem := put_bytes (pa0 + (va - va0)) buf pos n (kmem_mem k)\<rparr> in
          copyout_loop pgdir (va0 + PGSIZE) buf (pos + n) (len - n) k)
      else Ok (0, k))"
  by auto

termination
proof (relation "measure (\<lambda>(_, _, _, _, len, _). len)", goal_cases)
  case (2 pgdir va buf pos len k va0 pa0 n m k')
  have "unat va mod 4096 < 4096" by simp
  then have "0 < n" using 2 by (simp add: PGROUNDDOWN_offset PGSIZE_def)
  then show ?case using 2 by simp
qed simp

declare copyout_loop.simps [simp del]

definition copyout :: "u32 \<Rightarrow> u32 \<Rightarrow> bytes \<Rightarrow> u32 \<Rightarrow> kmem \<Rightarrow> (int \<times> kmem) res" where
  "copyout pgdir va p len k = copyout_loop pgdir va p 0 (unat len) k"

end
