(* ===== verification/Vm_Map.thy ===== *)
theory Vm_Map
  imports Vm
begin

text \<open>
  What the page tables mean: \<open>pte_at\<close> is the entry the hardware finds for a virtual address, and the
  operations of \<open>vm.c\<close> are specified by how they change it, which pages they take from or return to
  the free list and which memory they leave alone.
\<close>

section \<open>Words and addresses\<close>

definition present :: "u32 \<Rightarrow> bool" where "present w \<longleftrightarrow> w AND PTE_P \<noteq> 0"

lemma present_bit: "present w \<longleftrightarrow> bit w 0"
  by (simp add: present_def PTE_P_def and_one_eq bit_0 odd_iff_mod_2_eq_one)

lemma PTE_ADDR_eq: "PTE_ADDR w = PGROUNDDOWN w"
  by (simp add: PTE_ADDR_def PGROUNDDOWN_def PGSIZE_def)

lemma aligned_bits: "aligned p \<longleftrightarrow> (\<forall>n<12. \<not> bit p n)"
proof -
  have "aligned p \<longleftrightarrow> take_bit 12 p = 0"
    by (simp add: aligned_iff PGSIZE_def take_bit_eq_mod)
  also have "\<dots> \<longleftrightarrow> (\<forall>n<12. \<not> bit p n)"
    by (auto simp: bit_eq_iff bit_simps)
  finally show ?thesis .
qed

lemma bit_4095: "bit (4095 :: u32) n \<longleftrightarrow> n < 12" "bit (4095 :: int) n \<longleftrightarrow> n < 12"
  using bit_mask_iff [where ?'a = u32, of 12 n] bit_mask_iff [where ?'a = int, of 12 n]
  by (auto simp: mask_eq_exp_minus_1)

lemma PTE_ADDR_or:
  assumes "aligned p" "f AND NOT 0xFFF = 0"
  shows "PTE_ADDR (p OR f) = p" "PTE_FLAGS (p OR f) = f" "present (p OR f) \<longleftrightarrow> present f"
proof -
  have f: "n < 12" if "bit f n" for n
  proof (rule ccontr)
    assume n: "\<not> n < 12"
    have "n < 32" using that bit_imp_le_length by fastforce
    with n that have "bit (f AND NOT 0xFFF) n" by (simp add: bit_simps bit_4095)
    with assms(2) show False by simp
  qed
  have p: "\<not> n < 12" if "bit p n" for n using assms(1) that by (auto simp: aligned_bits)
  show "PTE_ADDR (p OR f) = p"
    by (rule bit_word_eqI) (auto simp: PTE_ADDR_def bit_simps bit_4095 dest: f p)
  show "PTE_FLAGS (p OR f) = f"
    by (rule bit_word_eqI) (auto simp: PTE_FLAGS_def bit_simps bit_4095 dest: f p)
  show "present (p OR f) \<longleftrightarrow> present f" using p [of 0] by (auto simp: present_bit bit_simps)
qed

lemma aligned_take_bit: "aligned p \<longleftrightarrow> take_bit 12 p = 0"
  by (simp add: aligned_iff PGSIZE_def take_bit_eq_mod)

lemma V2P_eq_P2V: "V2P p = P2V p"
proof -
  have "(- 0x80000000 :: u32) = 0x80000000" by simp
  then show ?thesis unfolding V2P_def P2V_def KERNBASE_def by (simp only: diff_conv_add_uminus)
qed

lemma aligned_P2V: "aligned p \<Longrightarrow> aligned (P2V p)"
proof -
  assume p: "aligned p"
  have "unat (P2V p) = (unat p + 524288 * 4096) mod (1048576 * 4096)"
    by (simp add: P2V_def KERNBASE_def unat_word_ariths(1))
  then have "unat (P2V p) mod 4096 = (unat p + 524288 * 4096) mod 4096"
    using mod_mod_cancel [of 4096 "1048576 * 4096" "unat p + 524288 * 4096"] by simp
  also have "\<dots> = unat p mod 4096" by (rule mod_mult_self1)
  finally show ?thesis using p by (simp add: aligned_def)
qed

lemma aligned_V2P: "aligned p \<Longrightarrow> aligned (V2P p)"
  by (simp add: V2P_eq_P2V aligned_P2V)

lemma P2V_V2P [simp]: "P2V (V2P a) = a" "V2P (P2V a) = a"
  by (simp_all add: P2V_def V2P_def)

lemma aligned_PTE_ADDR: "aligned (PTE_ADDR w)"
  by (simp add: PTE_ADDR_eq aligned_PGROUNDDOWN)

lemma and_1023: "unat (w AND 0x3FF :: u32) = unat w mod 1024"
proof -
  have "w AND 0x3FF = take_bit 10 w" by (simp add: take_bit_eq_mask mask_eq_exp_minus_1)
  then show ?thesis by (simp add: take_bit_eq_mod unat_mod)
qed

lemma PTX_eq: "PTX va = unat va div 4096 mod 1024"
  by (simp add: PTX_def and_1023 drop_bit_eq_div unat_div)

lemma PDX_eq: "PDX va = unat va div 4194304"
  using unat_u32_lt [of va] by (simp add: PDX_def and_1023 drop_bit_eq_div unat_div)

lemma PTX_lt [simp]: "PTX va < 1024" by (simp add: PTX_eq)

lemma PDX_lt [simp]: "PDX va < 1024"
  using unat_u32_lt [of va] by (simp add: PDX_eq)

lemma same_page: "PDX va = PDX vb \<and> PTX va = PTX vb \<longleftrightarrow> unat va div 4096 = unat vb div 4096"
proof -
  have "PDX v = unat v div 4096 div 1024" for v by (simp add: PDX_eq div_mult2_eq [symmetric])
  then show ?thesis using div_mult_mod_eq [of "unat va div 4096" 1024] div_mult_mod_eq [of "unat vb div 4096" 1024]
    by (metis PTX_eq)
qed

section \<open>The mapping of a page directory\<close>

definition pde :: "mem \<Rightarrow> u32 \<Rightarrow> nat \<Rightarrow> u32" where "pde m d i = mld32 m (d + of_nat (4 * i))"

definition tab :: "mem \<Rightarrow> u32 \<Rightarrow> nat \<Rightarrow> u32" where "tab m d i = P2V (PTE_ADDR (pde m d i))"

definition pte_at :: "mem \<Rightarrow> u32 \<Rightarrow> u32 \<Rightarrow> u32" where
  "pte_at m d va =
     (if present (pde m d (PDX va)) then mld32 m (tab m d (PDX va) + of_nat (4 * PTX va)) else 0)"

definition table_pages :: "mem \<Rightarrow> u32 \<Rightarrow> u32 set" where
  "table_pages m d = insert d {tab m d i |i. i < 1024 \<and> present (pde m d i)}"

definition dir_ok :: "kmem \<Rightarrow> u32 list \<Rightarrow> u32 \<Rightarrow> bool" where
  "dir_ok k xs d \<longleftrightarrow> kinv k xs \<and> page_ok k d \<and> d \<notin> set xs \<and>
     (\<forall>i<1024. present (pde (kmem_mem k) d i) \<longrightarrow>
        page_ok k (tab (kmem_mem k) d i) \<and> tab (kmem_mem k) d i \<notin> set xs \<and> tab (kmem_mem k) d i \<noteq> d) \<and>
     (\<forall>i<1024. \<forall>j<1024. present (pde (kmem_mem k) d i) \<and> present (pde (kmem_mem k) d j) \<and>
        tab (kmem_mem k) d i = tab (kmem_mem k) d j \<longrightarrow> i = j)"

lemma dir_okD:
  assumes "dir_ok k xs d"
  shows "kinv k xs" "page_ok k d" "d \<notin> set xs" "aligned d"
    "\<And>i. i < 1024 \<Longrightarrow> present (pde (kmem_mem k) d i) \<Longrightarrow> page_ok k (tab (kmem_mem k) d i)"
    "\<And>i. i < 1024 \<Longrightarrow> present (pde (kmem_mem k) d i) \<Longrightarrow> tab (kmem_mem k) d i \<notin> set xs"
    "\<And>i. i < 1024 \<Longrightarrow> present (pde (kmem_mem k) d i) \<Longrightarrow> tab (kmem_mem k) d i \<noteq> d"
    "\<And>i. i < 1024 \<Longrightarrow> present (pde (kmem_mem k) d i) \<Longrightarrow> aligned (tab (kmem_mem k) d i)"
    "\<And>i j. i < 1024 \<Longrightarrow> j < 1024 \<Longrightarrow> present (pde (kmem_mem k) d i) \<Longrightarrow> present (pde (kmem_mem k) d j) \<Longrightarrow>
       tab (kmem_mem k) d i = tab (kmem_mem k) d j \<Longrightarrow> i = j"
  using assms page_okD unfolding dir_ok_def by blast+

lemma mld32_page_cong: "i < 1024 \<Longrightarrow> (\<And>a. a \<in> page p \<Longrightarrow> m' a = m a) \<Longrightarrow>
    mld32 m' (p + of_nat (4 * i)) = mld32 m (p + of_nat (4 * i))"
  by (rule mld32_cong) (use page_word in blast)

lemma table_pagesI: "d \<in> table_pages m d" "i < 1024 \<Longrightarrow> present (pde m d i) \<Longrightarrow> tab m d i \<in> table_pages m d"
  by (auto simp: table_pages_def)

definition agree :: "u32 set \<Rightarrow> mem \<Rightarrow> mem \<Rightarrow> bool" where
  "agree P m m' \<longleftrightarrow> (\<forall>p\<in>P. \<forall>a\<in>page p. m' a = m a)"

lemma agreeD: "agree P m m' \<Longrightarrow> p \<in> P \<Longrightarrow> a \<in> page p \<Longrightarrow> m' a = m a"
  by (simp add: agree_def)

lemma agree_Un: "agree (P \<union> Q) m m' \<longleftrightarrow> agree P m m' \<and> agree Q m m'"
  by (auto simp: agree_def)

lemma agree_trans: "agree P m m' \<Longrightarrow> agree P m' m'' \<Longrightarrow> agree P m m''"
  by (simp add: agree_def)

lemma agree_mono: "agree P m m' \<Longrightarrow> Q \<subseteq> P \<Longrightarrow> agree Q m m'"
  by (auto simp: agree_def)

lemma map_frame:
  assumes a: "agree (table_pages m d) m m'"
  shows "i < 1024 \<Longrightarrow> pde m' d i = pde m d i" "i < 1024 \<Longrightarrow> tab m' d i = tab m d i"
    "pte_at m' d va = pte_at m d va" "table_pages m' d = table_pages m d"
proof -
  show P: "pde m' d i = pde m d i" if "i < 1024" for i
    unfolding pde_def by (rule mld32_page_cong [OF that]) (rule agreeD [OF a table_pagesI(1)])
  show T: "tab m' d i = tab m d i" if "i < 1024" for i using P [OF that] by (simp add: tab_def)
  show "table_pages m' d = table_pages m d" using P T by (force simp: table_pages_def)
  show "pte_at m' d va = pte_at m d va"
  proof (cases "present (pde m d (PDX va))")
    case True
    have "mld32 m' (tab m d (PDX va) + of_nat (4 * PTX va)) = mld32 m (tab m d (PDX va) + of_nat (4 * PTX va))"
      by (rule mld32_page_cong [OF PTX_lt]) (rule agreeD [OF a table_pagesI(2) [OF PDX_lt True]])
    then show ?thesis using P T by (simp add: pte_at_def)
  qed (simp add: P pte_at_def)
qed

lemma dir_frame:
  assumes ok: "dir_ok k xs d"
    and out: "agree (table_pages (kmem_mem k) d \<union> set xs) (kmem_mem k) m'"
  shows "dir_ok (k\<lparr>kmem_mem := m'\<rparr>) xs d"
proof -
  have f: "pde m' d i = pde (kmem_mem k) d i" "tab m' d i = tab (kmem_mem k) d i" if "i < 1024" for i
    using map_frame(1,2) [of "kmem_mem k" d m' i] out that by (simp_all add: agree_Un)
  have "kinv (k\<lparr>kmem_mem := m'\<rparr>) xs"
    by (rule kinv_mem [OF dir_okD(1) [OF ok]]) (use agreeD [OF out] in blast)
  moreover have "page_ok (k\<lparr>kmem_mem := m'\<rparr>) p = page_ok k p" for p by (simp add: page_ok_def)
  ultimately show ?thesis using ok f unfolding dir_ok_def by auto
qed

lemma table_page_facts:
  assumes "dir_ok k xs d" "p \<in> table_pages (kmem_mem k) d"
  shows "aligned p" "p \<notin> set xs" "page_ok k p"
  using assms(2) dir_okD [OF assms(1)] unfolding table_pages_def by auto

lemma free_page_facts:
  assumes "dir_ok k xs d" "x \<in> set xs"
  shows "aligned x" "page_ok k x" "x \<notin> table_pages (kmem_mem k) d"
proof -
  show "page_ok k x" using dir_okD(1) [OF assms(1)] assms(2) by (auto simp: kinv_def)
  then show "aligned x" by (simp add: page_okD)
  show "x \<notin> table_pages (kmem_mem k) d" using table_page_facts(2) [OF assms(1)] assms(2) by auto
qed

text \<open>Storing a page table entry.\<close>

lemma set_pte:
  fixes w :: u32
  assumes ok: "dir_ok k xs d" and pr: "present (pde (kmem_mem k) d (PDX va))"
  defines "p \<equiv> tab (kmem_mem k) d (PDX va)"
  defines "k' \<equiv> set_mem (p + of_nat (4 * PTX va)) w k"
  shows "dir_ok k' xs d" "\<And>a. a \<notin> page p \<Longrightarrow> kmem_mem k' a = kmem_mem k a"
    "\<And>vb. pte_at (kmem_mem k') d vb = (if unat vb div 4096 = unat va div 4096 then w else pte_at (kmem_mem k) d vb)"
    "table_pages (kmem_mem k') d = table_pages (kmem_mem k) d"
    "\<And>i. i < 1024 \<Longrightarrow> pde (kmem_mem k') d i = pde (kmem_mem k) d i"
proof -
  let ?m = "kmem_mem k" and ?m' = "kmem_mem k'"
  have m': "?m' = mst32 ?m (p + of_nat (4 * PTX va)) w" by (simp add: k'_def set_mem_def)
  note D = dir_okD [OF ok]
  have al: "aligned p" using D(8) [OF PDX_lt pr] by (simp add: p_def)
  have tp: "p \<in> table_pages ?m d" using table_pagesI(2) [OF PDX_lt pr] by (simp add: p_def)
  show out: "?m' a = ?m a" if "a \<notin> page p" for a unfolding m' by (rule mst32_page [OF al PTX_lt that])
  have oth: "?m' a = ?m a" if "q \<in> table_pages ?m d \<union> set xs" "q \<noteq> p" "a \<in> page q" for q a
  proof (rule out)
    have "aligned q" using that(1) table_page_facts(1) [OF ok] free_page_facts(1) [OF ok] by auto
    then show "a \<notin> page p" using page_disjoint [OF al _ _ that(3)] that(2) by auto
  qed
  have dp: "d \<noteq> p" using D(7) [OF PDX_lt pr] by (simp add: p_def)
  show P: "pde ?m' d i = pde ?m d i" if "i < 1024" for i
    unfolding pde_def by (rule mld32_page_cong [OF that]) (rule oth [of d], auto simp: table_pagesI dp)
  then have T: "tab ?m' d i = tab ?m d i" if "i < 1024" for i using that by (simp add: tab_def)
  show "table_pages ?m' d = table_pages ?m d" using P T by (force simp: table_pages_def)
  have "kinv k' xs"
  proof -
    have "kinv (k\<lparr>kmem_mem := ?m'\<rparr>) xs"
      by (rule kinv_mem [OF D(1)]) (rule oth, use tp table_page_facts(2) [OF ok] in auto)
    then show ?thesis by (simp add: k'_def set_mem_def)
  qed
  moreover have "page_ok k' q = page_ok k q" for q by (simp add: page_ok_def k'_def set_mem_def)
  ultimately show "dir_ok k' xs d" using ok P T unfolding dir_ok_def by auto
  fix vb
  show "pte_at ?m' d vb = (if unat vb div 4096 = unat va div 4096 then w else pte_at ?m d vb)"
  proof (cases "unat vb div 4096 = unat va div 4096")
    case True
    then have e: "PDX vb = PDX va" "PTX vb = PTX va" using same_page [of vb va] by auto
    have "mld32 ?m' (p + of_nat (4 * PTX va)) = w" unfolding m' by (rule mst32_same)
    then show ?thesis using True pr P T by (simp add: pte_at_def e p_def)
  next
    case False
    have "mld32 ?m' (tab ?m d (PDX vb) + of_nat (4 * PTX vb)) = mld32 ?m (tab ?m d (PDX vb) + of_nat (4 * PTX vb))"
      if pb: "present (pde ?m d (PDX vb))"
    proof (cases "PDX vb = PDX va")
      case True
      then have "PTX vb \<noteq> PTX va" using False same_page [of vb va] by auto
      then show ?thesis unfolding m' True p_def [symmetric] by (intro mld32_mst32_index) auto
    next
      case ne: False
      have "tab ?m d (PDX vb) \<noteq> p" using D(9) [OF PDX_lt PDX_lt pb pr] ne by (auto simp: p_def)
      then show ?thesis by (intro mld32_page_cong oth) (auto intro: table_pagesI(2) pb)
    qed
    then show ?thesis using False P T by (simp add: pte_at_def)
  qed
qed

section \<open>Walking\<close>

lemma slot_nonzero: "page_ok k p \<Longrightarrow> j < 1024 \<Longrightarrow> p + of_nat (4 * j) \<noteq> 0"
proof
  assume p: "page_ok k p" and j: "j < 1024" and z: "p + of_nat (4 * j) = 0"
  have "(0 :: u32) \<in> page p" using page_word [OF j, of 0 p] z by simp
  then have "unat (0 :: u32) = unat p + unat (0 - p)" using page_member page_okD [OF p] by blast
  then show False using page_okD [OF p] by (simp add: unat_eq_0)
qed

lemma walk_present:
  "present (pde (kmem_mem k) d (PDX va)) \<Longrightarrow>
     walkpgdir d va al k = (tab (kmem_mem k) d (PDX va) + of_nat (4 * PTX va), k)"
  by (simp add: walkpgdir_def present_def pde_def tab_def Let_def)

lemma walk_absent: "\<not> present (pde (kmem_mem k) d (PDX va)) \<Longrightarrow> walkpgdir d va False k = (0, k)"
  by (simp add: walkpgdir_def present_def pde_def Let_def)

lemma kinv_pop:
  assumes "dir_ok k (x # ys) d"
  shows "kalloc k = (x, k\<lparr>freelist := mld32 (kmem_mem k) x\<rparr>)" "dir_ok (k\<lparr>freelist := mld32 (kmem_mem k) x\<rparr>) ys d"
    "x \<notin> set ys" "page_ok k x" "x \<noteq> 0" "x \<notin> table_pages (kmem_mem k) d"
proof -
  note K = kalloc_Cons [OF dir_okD(1) [OF assms]]
  show "kalloc k = (x, k\<lparr>freelist := mld32 (kmem_mem k) x\<rparr>)" "x \<notin> set ys" "page_ok k x" "x \<noteq> 0" using K by auto
  show "x \<notin> table_pages (kmem_mem k) d" using free_page_facts(3) [OF assms] by simp
  show "dir_ok (k\<lparr>freelist := mld32 (kmem_mem k) x\<rparr>) ys d"
    using assms K(2) unfolding dir_ok_def by (auto simp: page_ok_def)
qed

lemma zero_page_mem: "kmem_mem (zero_page p k) = (\<lambda>a. if a \<in> page p then 0 else kmem_mem k a)"
  by (simp add: zero_page_def memset_page cong: if_cong)

lemma agree_zero_page:
  assumes "aligned x" "x \<notin> P" "\<And>p. p \<in> P \<Longrightarrow> aligned p"
  shows "agree P (kmem_mem k) (kmem_mem (zero_page x k))"
  unfolding agree_def zero_page_mem using assms page_disjoint by fastforce

lemma dir_zero_page:
  assumes "dir_ok k xs d" "aligned x" "x \<notin> set xs" "x \<notin> table_pages (kmem_mem k) d"
  shows "dir_ok (zero_page x k) xs d" "agree (table_pages (kmem_mem k) d) (kmem_mem k) (kmem_mem (zero_page x k))"
proof -
  have a: "agree (table_pages (kmem_mem k) d \<union> set xs) (kmem_mem k) (kmem_mem (zero_page x k))"
    by (rule agree_zero_page) (use assms table_page_facts(1) [OF assms(1)] free_page_facts(1) [OF assms(1)] in auto)
  then show "agree (table_pages (kmem_mem k) d) (kmem_mem k) (kmem_mem (zero_page x k))" by (simp add: agree_Un)
  show "dir_ok (zero_page x k) xs d" using dir_frame [OF assms(1) a] by (simp add: zero_page_def)
qed

lemma new_table:
  assumes ok: "dir_ok k ys d" and x: "page_ok k x" "x \<notin> set ys" "x \<notin> table_pages (kmem_mem k) d"
    and i: "i < 1024" "\<not> present (pde (kmem_mem k) d i)" and z: "\<And>a. a \<in> page x \<Longrightarrow> kmem_mem k a = 0"
  defines "k' \<equiv> set_mem (d + of_nat (4 * i)) (V2P x OR PTE_P OR PTE_W OR PTE_U) k"
  shows "dir_ok k' ys d" "present (pde (kmem_mem k') d i)" "tab (kmem_mem k') d i = x"
    "\<And>va. pte_at (kmem_mem k') d va = pte_at (kmem_mem k) d va"
    "table_pages (kmem_mem k') d = insert x (table_pages (kmem_mem k) d)"
    "\<And>a. a \<notin> page d \<Longrightarrow> kmem_mem k' a = kmem_mem k a"
proof -
  let ?m = "kmem_mem k" and ?m' = "kmem_mem k'"
  have m': "?m' = mst32 ?m (d + of_nat (4 * i)) (V2P x OR PTE_P OR PTE_W OR PTE_U)" by (simp add: k'_def set_mem_def)
  note D = dir_okD [OF ok]
  have xal: "aligned x" using x(1) by (simp add: page_okD)
  have fl: "(PTE_P OR PTE_W OR PTE_U) AND NOT 0xFFF = 0" "present (PTE_P OR PTE_W OR PTE_U)"
    by (simp_all add: PTE_P_def PTE_W_def PTE_U_def present_def)
  note W = PTE_ADDR_or [OF aligned_V2P [OF xal] fl(1)]
  show out: "?m' a = ?m a" if "a \<notin> page d" for a unfolding m' by (rule mst32_page [OF D(4) i(1) that])
  have P: "pde ?m' d j = (if j = i then V2P x OR PTE_P OR PTE_W OR PTE_U else pde ?m d j)" if "j < 1024" for j
    using mst32_same mld32_mst32_index [OF i(1) that] unfolding pde_def m' by auto
  show pi: "present (pde ?m' d i)" using P [OF i(1)] W(3) fl(2) by simp
  show ti: "tab ?m' d i = x" using P [OF i(1)] W(1) by (simp add: tab_def)
  have T: "tab ?m' d j = tab ?m d j" if "j < 1024" "j \<noteq> i" for j using P [OF that(1)] that(2) by (simp add: tab_def)
  have pj: "present (pde ?m' d j) \<longleftrightarrow> j = i \<or> present (pde ?m d j)" if "j < 1024" for j
    using P [OF that] pi by (cases "j = i") auto
  show tp: "table_pages ?m' d = insert x (table_pages ?m d)"
  proof -
    have S: "{j. j < 1024 \<and> present (pde ?m' d j)} = insert i {j. j < 1024 \<and> present (pde ?m d j)}"
      using pj i by auto
    have "tab ?m' d ` {j. j < 1024 \<and> present (pde ?m d j)} = tab ?m d ` {j. j < 1024 \<and> present (pde ?m d j)}"
      by (rule image_cong) (use T i in auto)
    then show ?thesis by (simp add: table_pages_def setcompr_eq_image S ti insert_commute)
  qed
  have xd: "x \<noteq> d" using x(3) table_pagesI(1) by auto
  have dis: "a \<notin> page d" if "aligned q" "q \<noteq> d" "a \<in> page q" for q a using page_disjoint [OF D(4) that(1)] that by auto
  have "kinv (k\<lparr>kmem_mem := ?m'\<rparr>) ys"
    by (rule kinv_mem [OF D(1)]) (rule out, rule dis, use free_page_facts(1) [OF ok] D(3) in auto)
  then have "kinv k' ys" by (simp add: k'_def set_mem_def)
  moreover have pok: "page_ok k' q = page_ok k q" for q by (simp add: page_ok_def k'_def set_mem_def)
  moreover have xt: "tab ?m d j \<noteq> x" if "j < 1024" "present (pde ?m d j)" for j
    using x(3) table_pagesI(2) [OF that] by auto
  ultimately show "dir_ok k' ys d"
    unfolding dir_ok_def using D x xd pj T ti i(2)
    by (intro conjI allI impI) (metis, metis, metis, metis, metis, metis, metis)
  fix va
  show "pte_at ?m' d va = pte_at ?m d va"
  proof (cases "PDX va = i")
    case True
    have "mld32 ?m' (x + of_nat (4 * PTX va)) = mld32 (\<lambda>_. 0) (x + of_nat (4 * PTX va))"
      by (rule mld32_page_cong) (use z out dis [OF xal xd] in auto)
    also have "\<dots> = 0" by (simp add: mld32_def)
    finally show ?thesis using True pi ti i(2) by (simp add: pte_at_def)
  next
    case False
    have "mld32 ?m' (tab ?m d (PDX va) + of_nat (4 * PTX va)) = mld32 ?m (tab ?m d (PDX va) + of_nat (4 * PTX va))"
      if p: "present (pde ?m d (PDX va))"
      by (rule mld32_page_cong) (use out dis [OF D(8) [OF PDX_lt p] D(7) [OF PDX_lt p]] in auto)
    then show ?thesis using False P [OF PDX_lt] T [OF PDX_lt] by (simp add: pte_at_def)
  qed
qed

definition spares :: "u32 set \<Rightarrow> mem \<Rightarrow> mem \<Rightarrow> bool" where
  "spares P m m' \<longleftrightarrow> (\<forall>p. aligned p \<and> p \<notin> P \<longrightarrow> (\<forall>a\<in>page p. m' a = m a))"

lemma sparesD: "spares P m m' \<Longrightarrow> aligned p \<Longrightarrow> p \<notin> P \<Longrightarrow> a \<in> page p \<Longrightarrow> m' a = m a"
  by (simp add: spares_def)

lemma spares_refl [simp]: "spares P m m"
  by (simp add: spares_def)

lemma spares_trans: "spares P m m' \<Longrightarrow> spares P m' m'' \<Longrightarrow> spares P m m''"
  by (simp add: spares_def)

lemma spares_mono: "spares P m m' \<Longrightarrow> P \<subseteq> Q \<Longrightarrow> spares Q m m'"
  by (auto simp: spares_def)

lemma spares_pages:
  assumes "\<And>a. (\<forall>p\<in>P. a \<notin> page p) \<Longrightarrow> m' a = m a" "\<And>p. p \<in> P \<Longrightarrow> aligned p"
  shows "spares P m m'"
  unfolding spares_def using assms page_disjoint by blast

lemma walk_alloc:
  assumes ok: "dir_ok k xs d" and r: "walkpgdir d va True k = (pte, k')"
  obtains (fail) "pte = 0" "k' = k" "xs = []" "pte_at (kmem_mem k) d va = 0"
  | (walk) ys where "pte = tab (kmem_mem k') d (PDX va) + of_nat (4 * PTX va)" "pte \<noteq> 0"
      "present (pde (kmem_mem k') d (PDX va))" "dir_ok k' ys d" "xs = ys \<or> (\<exists>x. xs = x # ys)"
      "\<And>vb. pte_at (kmem_mem k') d vb = pte_at (kmem_mem k) d vb"
      "table_pages (kmem_mem k') d \<union> set ys = table_pages (kmem_mem k) d \<union> set xs"
      "spares (table_pages (kmem_mem k) d \<union> set xs) (kmem_mem k) (kmem_mem k')" "kend k' = kend k" "kdata k' = kdata k"
proof (cases "present (pde (kmem_mem k) d (PDX va))")
  case True
  note D = dir_okD [OF ok]
  show ?thesis
    using r walk_present [OF True, of True] slot_nonzero [OF D(5) [OF PDX_lt True] PTX_lt] ok True
    by (intro walk [of xs]) auto
next
  case abs: False
  show ?thesis
  proof (cases xs)
    case Nil
    then have "kalloc k = (0, k)" using kalloc_Nil dir_okD(1) [OF ok] by auto
    then show ?thesis
      using r abs Nil by (intro fail) (simp_all add: walkpgdir_def present_def pde_def pte_at_def Let_def)
  next
    case (Cons x ys)
    note K = kinv_pop [OF ok [unfolded Cons]]
    let ?k1 = "k\<lparr>freelist := mld32 (kmem_mem k) x\<rparr>" let ?k2 = "zero_page x ?k1"
    have xal: "aligned x" using K(4) by (simp add: page_okD)
    have ok2: "dir_ok ?k2 ys d" by (rule dir_zero_page(1) [OF K(2) xal K(3)]) (use K(6) in simp)
    have ag: "agree (table_pages (kmem_mem k) d) (kmem_mem k) (kmem_mem ?k2)"
      using dir_zero_page(2) [OF K(2) xal K(3)] K(6) by simp
    note F = map_frame [OF ag]
    have p2: "page_ok ?k2 x" "x \<notin> table_pages (kmem_mem ?k2) d"
      using K(4,6) F(4) by (auto simp: page_ok_def zero_page_def)
    have a2: "\<not> present (pde (kmem_mem ?k2) d (PDX va))" using abs F(1) by simp
    note N = new_table [OF ok2 p2(1) K(3) p2(2) PDX_lt a2]
    let ?k3 = "set_mem (d + of_nat (4 * PDX va)) (V2P x OR PTE_P OR PTE_W OR PTE_U) ?k2"
    have w: "walkpgdir d va True k = (x + of_nat (4 * PTX va), ?k3)"
      using abs K(1,5) by (simp add: walkpgdir_def present_def pde_def Let_def)
    have z: "\<And>a. a \<in> page x \<Longrightarrow> kmem_mem ?k2 a = 0" by (simp add: zero_page_mem)
    have sp: "spares (table_pages (kmem_mem k) d \<union> set xs) (kmem_mem k) (kmem_mem ?k3)"
      by (rule spares_pages)
        (use N(6) [OF z] table_page_facts(1) [OF ok] free_page_facts(1) [OF ok] Cons table_pagesI(1)
          in \<open>auto simp: zero_page_mem\<close>)
    have e: "pte = x + of_nat (4 * PTX va)" "k' = ?k3" using r w by auto
    have c: "kend ?k3 = kend k" "kdata ?k3 = kdata k" by (simp_all add: zero_page_def set_mem_def)
    show ?thesis
      by (rule walk [of ys]; (unfold e)?) (use N [OF z] F slot_nonzero [OF K(4) PTX_lt] sp Cons c in simp_all)
  qed
qed

lemma map_page:
  assumes ok: "dir_ok k xs d" and r: "mappages_loop 0 d a pa perm k = (r, k')"
  obtains (fail) "r = -1" "k' = k" "xs = []" "\<not> present (pte_at (kmem_mem k) d a)"
  | (dup) "r = 0" "k' = k" "present (pte_at (kmem_mem k) d a)"
  | (new) ys where "r = 0" "\<not> present (pte_at (kmem_mem k) d a)" "dir_ok k' ys d" "xs = ys \<or> (\<exists>x. xs = x # ys)"
      "\<And>vb. pte_at (kmem_mem k') d vb =
         (if unat vb div 4096 = unat a div 4096 then pa OR perm OR PTE_P else pte_at (kmem_mem k) d vb)"
      "table_pages (kmem_mem k') d \<union> set ys = table_pages (kmem_mem k) d \<union> set xs"
      "spares (table_pages (kmem_mem k) d \<union> set xs) (kmem_mem k) (kmem_mem k')" "kend k' = kend k" "kdata k' = kdata k"
proof -
  obtain pte k1 where w: "walkpgdir d a True k = (pte, k1)" by fastforce
  from ok w show ?thesis
  proof (cases rule: walk_alloc)
    case fail
    then show ?thesis using r w by (intro that(1)) (simp_all add: mappages_loop.simps present_def)
  next
    case (walk ys)
    have e: "mld32 (kmem_mem k1) pte = pte_at (kmem_mem k) d a"
      using walk(1,3) walk(6) [of a] by (simp add: pte_at_def)
    show ?thesis
    proof (cases "present (pte_at (kmem_mem k) d a)")
      case True
      then have "present (pde (kmem_mem k) d (PDX a))" by (auto simp: pte_at_def present_def split: if_splits)
      then have "k1 = k" using w by (simp add: walk_present)
      then show ?thesis using r w True walk(2) e by (intro that(2)) (simp_all add: mappages_loop.simps present_def)
    next
      case False
      note S = set_pte [OF walk(4,3), where w = "pa OR perm OR PTE_P", folded walk(1)]
      have k': "r = 0" "k' = set_mem pte (pa OR perm OR PTE_P) k1"
        using r w False walk(2) e by (simp_all add: mappages_loop.simps present_def)
      have al: "aligned (tab (kmem_mem k1) d (PDX a))" "tab (kmem_mem k1) d (PDX a) \<in> table_pages (kmem_mem k1) d"
        using dir_okD(8) [OF walk(4) PDX_lt walk(3)] table_pagesI(2) [OF PDX_lt walk(3)] by auto
      have "spares (table_pages (kmem_mem k1) d) (kmem_mem k1) (kmem_mem k')"
        by (rule spares_pages) (use S(2) al table_page_facts(1) [OF walk(4)] k' in auto)
      then have sp: "spares (table_pages (kmem_mem k) d \<union> set xs) (kmem_mem k1) (kmem_mem k')"
        by (rule spares_mono) (use walk(7) in auto)
      show ?thesis
        using k' False S walk spares_trans [OF walk(8) sp] by (intro that(3) [of ys]) (auto simp: set_mem_def)
    qed
  qed
qed

end
