(* ===== verification/Vm_User.thy ===== *)
theory Vm_User
  imports Vm_Map
begin

text \<open>
  User address spaces: growing them with \<open>allocuvm\<close> and shrinking them with \<open>deallocuvm\<close>. The
  invariant \<open>space_ok\<close> says that the pages a process maps below \<open>KERNBASE\<close> are its own: they are
  neither free nor page tables, and no two addresses share one.
\<close>

definition mapped :: "mem \<Rightarrow> u32 \<Rightarrow> u32 \<Rightarrow> bool" where "mapped m d va \<longleftrightarrow> present (pte_at m d va)"

definition frame :: "mem \<Rightarrow> u32 \<Rightarrow> u32 \<Rightarrow> u32" where "frame m d va = P2V (PTE_ADDR (pte_at m d va))"

definition space_ok :: "kmem \<Rightarrow> u32 list \<Rightarrow> u32 \<Rightarrow> bool" where
  "space_ok k xs d \<longleftrightarrow> dir_ok k xs d \<and> KERNBASE < kend k \<and>
     (\<forall>va<KERNBASE. mapped (kmem_mem k) d va \<longrightarrow> page_ok k (frame (kmem_mem k) d va) \<and>
        frame (kmem_mem k) d va \<notin> set xs \<and> frame (kmem_mem k) d va \<notin> table_pages (kmem_mem k) d) \<and>
     (\<forall>va<KERNBASE. \<forall>vb<KERNBASE. mapped (kmem_mem k) d va \<and> mapped (kmem_mem k) d vb \<and>
        frame (kmem_mem k) d va = frame (kmem_mem k) d vb \<longrightarrow> unat va div 4096 = unat vb div 4096)"

lemma space_okD:
  assumes "space_ok k xs d"
  shows "dir_ok k xs d" "KERNBASE < kend k"
    "\<And>va. va < KERNBASE \<Longrightarrow> mapped (kmem_mem k) d va \<Longrightarrow> page_ok k (frame (kmem_mem k) d va)"
    "\<And>va. va < KERNBASE \<Longrightarrow> mapped (kmem_mem k) d va \<Longrightarrow> frame (kmem_mem k) d va \<notin> set xs"
    "\<And>va. va < KERNBASE \<Longrightarrow> mapped (kmem_mem k) d va \<Longrightarrow> frame (kmem_mem k) d va \<notin> table_pages (kmem_mem k) d"
    "\<And>va vb. va < KERNBASE \<Longrightarrow> vb < KERNBASE \<Longrightarrow> mapped (kmem_mem k) d va \<Longrightarrow> mapped (kmem_mem k) d vb \<Longrightarrow>
       frame (kmem_mem k) d va = frame (kmem_mem k) d vb \<Longrightarrow> unat va div 4096 = unat vb div 4096"
  using assms unfolding space_ok_def by blast+

text \<open>The address space has grown by zero-filled pages at the page numbers \<open>A\<close>.\<close>

definition grew :: "kmem \<Rightarrow> u32 list \<Rightarrow> u32 \<Rightarrow> nat set \<Rightarrow> kmem \<Rightarrow> u32 list \<Rightarrow> bool" where
  "grew k xs d A k' ys \<longleftrightarrow> space_ok k' ys d \<and>
     set ys \<union> table_pages (kmem_mem k') d \<subseteq> set xs \<union> table_pages (kmem_mem k) d \<and>
     table_pages (kmem_mem k) d \<subseteq> table_pages (kmem_mem k') d \<and>
     spares (table_pages (kmem_mem k) d \<union> set xs) (kmem_mem k) (kmem_mem k') \<and>
     (\<forall>vb<KERNBASE. unat vb div 4096 \<in> A \<longrightarrow> mapped (kmem_mem k') d vb \<and>
        PTE_FLAGS (pte_at (kmem_mem k') d vb) = PTE_W OR PTE_U OR PTE_P \<and>
        frame (kmem_mem k') d vb \<in> set xs \<and> (\<forall>a\<in>page (frame (kmem_mem k') d vb). kmem_mem k' a = 0)) \<and>
     (\<forall>vb. vb < KERNBASE \<and> unat vb div 4096 \<in> A \<or> pte_at (kmem_mem k') d vb = pte_at (kmem_mem k) d vb)"

lemma grewD:
  assumes "grew k xs d A k' ys"
  shows "space_ok k' ys d" "set ys \<union> table_pages (kmem_mem k') d \<subseteq> set xs \<union> table_pages (kmem_mem k) d"
    "table_pages (kmem_mem k) d \<subseteq> table_pages (kmem_mem k') d"
    "spares (table_pages (kmem_mem k) d \<union> set xs) (kmem_mem k) (kmem_mem k')"
    "\<And>vb. vb < KERNBASE \<Longrightarrow> unat vb div 4096 \<in> A \<Longrightarrow> mapped (kmem_mem k') d vb \<and>
        PTE_FLAGS (pte_at (kmem_mem k') d vb) = PTE_W OR PTE_U OR PTE_P \<and>
        frame (kmem_mem k') d vb \<in> set xs \<and> (\<forall>a\<in>page (frame (kmem_mem k') d vb). kmem_mem k' a = 0)"
    "\<And>vb. \<not> (vb < KERNBASE \<and> unat vb div 4096 \<in> A) \<Longrightarrow> pte_at (kmem_mem k') d vb = pte_at (kmem_mem k) d vb"
  using assms unfolding grew_def by blast+

lemma grew_refl: "space_ok k xs d \<Longrightarrow> grew k xs d {} k xs"
  by (simp add: grew_def)

lemma grew_trans:
  assumes g: "grew k xs d A k1 ys" and h: "grew k1 ys d B k2 zs" and dis: "A \<inter> B = {}"
    and x: "set ys \<subseteq> set xs"
  shows "grew k xs d (A \<union> B) k2 zs"
proof -
  note G = grewD [OF g] and H = grewD [OF h] note S = space_okD [OF G(1)]
  have sp: "spares (table_pages (kmem_mem k) d \<union> set xs) (kmem_mem k1) (kmem_mem k2)"
    by (rule spares_mono [OF H(4)]) (use G(2) in auto)
  have A: "mapped (kmem_mem k2) d vb \<and> PTE_FLAGS (pte_at (kmem_mem k2) d vb) = PTE_W OR PTE_U OR PTE_P \<and>
      frame (kmem_mem k2) d vb \<in> set xs \<and> (\<forall>a\<in>page (frame (kmem_mem k2) d vb). kmem_mem k2 a = 0)"
    if "vb < KERNBASE" "unat vb div 4096 \<in> A" for vb
  proof -
    have e: "pte_at (kmem_mem k2) d vb = pte_at (kmem_mem k1) d vb" using H(6) [of vb] that dis by blast
    note V = G(5) [OF that]
    have m: "mapped (kmem_mem k1) d vb" using V by simp
    have "kmem_mem k2 a = kmem_mem k1 a" if a: "a \<in> page (frame (kmem_mem k1) d vb)" for a
      by (rule sparesD [OF H(4) _ _ a]) (use page_okD [OF S(3)] S(4,5) \<open>vb < KERNBASE\<close> m in auto)
    then show ?thesis using V e by (simp add: mapped_def frame_def)
  qed
  have B: "mapped (kmem_mem k2) d vb \<and> PTE_FLAGS (pte_at (kmem_mem k2) d vb) = PTE_W OR PTE_U OR PTE_P \<and>
      frame (kmem_mem k2) d vb \<in> set xs \<and> (\<forall>a\<in>page (frame (kmem_mem k2) d vb). kmem_mem k2 a = 0)"
    if "vb < KERNBASE" "unat vb div 4096 \<in> B" for vb
    using H(5) [OF that] x by blast
  have c: "vb < KERNBASE \<and> unat vb div 4096 \<in> A \<union> B \<or> pte_at (kmem_mem k2) d vb = pte_at (kmem_mem k) d vb" for vb
    using G(6) [of vb] H(6) [of vb] by fastforce
  show ?thesis unfolding grew_def
  proof (intro conjI)
    show "set zs \<union> table_pages (kmem_mem k2) d \<subseteq> set xs \<union> table_pages (kmem_mem k) d" using G(2) H(2) by blast
    show "table_pages (kmem_mem k) d \<subseteq> table_pages (kmem_mem k2) d" using G(3) H(3) by blast
    show "spares (table_pages (kmem_mem k) d \<union> set xs) (kmem_mem k) (kmem_mem k2)" by (rule spares_trans [OF G(4) sp])
  qed (use H(1) A B c in blast)+
qed

section \<open>Growing\<close>

lemma mappages_single:
  assumes "aligned a"
  shows "mappages d a PGSIZE pa perm k = mappages_loop 0 d a pa perm k"
proof -
  obtain q where q: "unat a = 4096 * q" using assms by (auto simp: aligned_def elim: dvdE dest: mod_0_imp_dvd)
  have "q < 1048576" using q unat_u32_lt [of a] by simp
  then have "unat (a + 4095) = unat a + 4095" using q by (subst unat_add_u32) simp_all
  moreover have "a + PGSIZE - 1 = a + 4095" by (simp add: PGSIZE_def)
  ultimately have "unat (PGROUNDDOWN (a + PGSIZE - 1)) = unat a"
    using q by (simp only: PGROUNDDOWN_unat) simp
  moreover have "unat (PGROUNDDOWN a) = unat a" using assms by (simp add: PGROUNDDOWN_unat aligned_def)
  ultimately have "PGROUNDDOWN (a + PGSIZE - 1) = a" "PGROUNDDOWN a = a" by (simp_all add: word_unat_eq_iff)
  then show ?thesis by (simp add: mappages_def)
qed

lemma user_pte:
  assumes "page_ok k x"
  defines "w \<equiv> V2P x OR (PTE_W OR PTE_U) OR PTE_P"
  shows "PTE_ADDR w = V2P x" "PTE_FLAGS w = PTE_W OR PTE_U OR PTE_P" "present w"
proof -
  have "((PTE_W OR PTE_U) OR PTE_P) AND NOT 0xFFF = 0" "present ((PTE_W OR PTE_U) OR PTE_P)"
    by (simp_all add: PTE_P_def PTE_W_def PTE_U_def present_def)
  moreover have "aligned (V2P x)" using assms(1) by (simp add: page_okD aligned_V2P)
  ultimately show "PTE_ADDR w = V2P x" "PTE_FLAGS w = PTE_W OR PTE_U OR PTE_P" "present w"
    using PTE_ADDR_or [of "V2P x" "(PTE_W OR PTE_U) OR PTE_P"] by (simp_all add: w_def or.assoc)
qed

lemma alloc_step:
  assumes s: "space_ok k (x # xs) d" and ne: "xs \<noteq> []" and a: "aligned a" "a < KERNBASE"
    and nm: "\<not> mapped (kmem_mem k) d a"
    and r: "mappages d a PGSIZE (V2P x) (PTE_W OR PTE_U) (zero_page x (snd (kalloc k))) = (r, k')"
  obtains ys where "fst (kalloc k) = x" "x \<noteq> 0" "r = 0" "grew k (x # xs) d {unat a div 4096} k' ys"
    "set ys \<subseteq> set xs" "length xs \<le> length ys + 1"
proof -
  note S = space_okD [OF s] note K = kinv_pop [OF S(1)]
  have al: "aligned x" using K(4) by (simp add: page_okD)
  let ?k1 = "k\<lparr>freelist := mld32 (kmem_mem k) x\<rparr>" let ?k2 = "zero_page x ?k1"
  have ok2: "dir_ok ?k2 xs d" by (rule dir_zero_page(1) [OF K(2) al K(3)]) (use K(6) in simp)
  have ag: "agree (table_pages (kmem_mem k) d) (kmem_mem k) (kmem_mem ?k2)"
    using dir_zero_page(2) [OF K(2) al K(3)] K(6) by simp
  note F = map_frame [OF ag]
  have r2: "mappages_loop 0 d a (V2P x) (PTE_W OR PTE_U) ?k2 = (r, k')"
    using r K(1) by (simp add: mappages_single [OF a(1)])
  from ok2 r2 show ?thesis
  proof (cases rule: map_page)
    case fail then show ?thesis using ne by simp
  next
    case dup then show ?thesis using nm F(3) by (simp add: mapped_def)
  next
    case (new ys)
    note U = user_pte [OF K(4)]
    have ys: "set ys \<subseteq> set xs" "length xs \<le> length ys + 1" using new(4) by auto
    have tp: "table_pages (kmem_mem k') d \<union> set ys = table_pages (kmem_mem k) d \<union> set xs" using new(6) F(4) by simp
    have pte: "pte_at (kmem_mem k') d vb =
        (if unat vb div 4096 = unat a div 4096 then V2P x OR (PTE_W OR PTE_U) OR PTE_P else pte_at (kmem_mem k) d vb)" for vb
      using new(5) [of vb] F(3) by simp
    have fr: "frame (kmem_mem k') d vb = (if unat vb div 4096 = unat a div 4096 then x else frame (kmem_mem k) d vb)" for vb
      using pte [of vb] U(1) by (simp add: frame_def)
    have mp: "mapped (kmem_mem k') d vb \<longleftrightarrow> unat vb div 4096 = unat a div 4096 \<or> mapped (kmem_mem k) d vb" for vb
      using pte [of vb] U(3) by (simp add: mapped_def)
    have pok: "page_ok k' q = page_ok k q" for q using new(8) by (simp add: page_ok_def zero_page_def)
    have xn: "x \<notin> set ys" "x \<notin> table_pages (kmem_mem k') d" using K(3,6) ys(1) tp by auto
    have old: "page_ok k (frame (kmem_mem k) d vb)" "frame (kmem_mem k) d vb \<notin> set ys" "frame (kmem_mem k) d vb \<noteq> x"
      "frame (kmem_mem k) d vb \<notin> table_pages (kmem_mem k') d" if "vb < KERNBASE" "mapped (kmem_mem k) d vb" for vb
      using S(3) [OF that] S(4) [OF that] S(5) [OF that] ys(1) tp by auto
    have sp: "space_ok k' ys d" unfolding space_ok_def
    proof (intro conjI allI impI)
      show "KERNBASE < kend k'" using S(2) new(8) by (simp add: zero_page_def)
      fix va vb assume "va < KERNBASE" "vb < KERNBASE"
        "mapped (kmem_mem k') d va \<and> mapped (kmem_mem k') d vb \<and> frame (kmem_mem k') d va = frame (kmem_mem k') d vb"
      then show "unat va div 4096 = unat vb div 4096"
        using S(6) [of va vb] old(3) [of va] old(3) [of vb] by (auto simp: fr mp split: if_splits)
    qed (use new(3) old xn K(4) in \<open>auto simp: fr mp pok split: if_splits\<close>)
    have s2: "spares (table_pages (kmem_mem k) d \<union> set (x # xs)) (kmem_mem k) (kmem_mem ?k2)"
      by (rule spares_pages) (use table_page_facts(1) [OF S(1)] free_page_facts(1) [OF S(1)] in \<open>auto simp: zero_page_mem\<close>)
    have s3: "spares (table_pages (kmem_mem k) d \<union> set (x # xs)) (kmem_mem ?k2) (kmem_mem k')"
      by (rule spares_mono [OF new(7)]) (use F(4) in auto)
    have zero: "kmem_mem k' b = 0" if "b \<in> page x" for b
      using sparesD [OF new(7) al _ that] K(3,6) F(4) that by (simp add: zero_page_mem)
    have tsub: "table_pages (kmem_mem k) d \<subseteq> table_pages (kmem_mem k') d"
    proof
      fix p assume p: "p \<in> table_pages (kmem_mem k) d"
      then have "p \<notin> set ys" using table_page_facts(2) [OF S(1) p] ys(1) by auto
      then show "p \<in> table_pages (kmem_mem k') d" using p tp by auto
    qed
    have "grew k (x # xs) d {unat a div 4096} k' ys" unfolding grew_def
    proof (intro conjI allI impI)
      show "spares (table_pages (kmem_mem k) d \<union> set (x # xs)) (kmem_mem k) (kmem_mem k')" by (rule spares_trans [OF s2 s3])
      show "set ys \<union> table_pages (kmem_mem k') d \<subseteq> set (x # xs) \<union> table_pages (kmem_mem k) d" using tp by auto
      fix vb show "vb < KERNBASE \<and> unat vb div 4096 \<in> {unat a div 4096} \<or> pte_at (kmem_mem k') d vb = pte_at (kmem_mem k) d vb"
      proof (cases "unat vb div 4096 = unat a div 4096")
        case True
        have "unat vb < unat KERNBASE"
        proof (rule ccontr)
          assume "\<not> unat vb < unat KERNBASE"
          then have "unat KERNBASE div 4096 \<le> unat vb div 4096" by (intro div_le_mono) simp
          moreover have "unat a < 4096 * 524288" using a(2) by (simp add: word_less_nat_alt KERNBASE_def)
          ultimately show False using True by (simp add: KERNBASE_def less_mult_imp_div_less)
        qed
        then show ?thesis using True by (simp add: word_less_nat_alt)
      qed (simp add: pte)
    qed (use sp tsub U zero in \<open>auto simp: mp fr pte\<close>)
    then show ?thesis using that [of ys] K(1,5) new(1) ys by simp
  qed
qed

abbreviation pgnum :: "u32 \<Rightarrow> nat" where "pgnum a \<equiv> unat a div 4096"

lemma alloc_loop_spec:
  assumes "space_ok k xs d" "\<forall>a\<in>set as. aligned a \<and> a < KERNBASE \<and> \<not> mapped (kmem_mem k) d a"
    "distinct (map pgnum as)" "2 * length as \<le> length xs"
  shows "\<exists>k' ys. alloc_loop as d oldsz newsz k = Ok (newsz, k') \<and> grew k xs d (pgnum ` set as) k' ys \<and>
    set ys \<subseteq> set xs \<and> length xs \<le> length ys + 2 * length as"
  using assms
proof (induction as arbitrary: k xs)
  case Nil
  then show ?case using grew_refl [of k xs d] by (intro exI [of _ k] exI [of _ xs]) simp
next
  case (Cons a as)
  obtain x xs' where xs: "xs = x # xs'" "xs' \<noteq> []" using Cons.prems(4) by (cases xs; cases "tl xs") auto
  obtain r k1 where m: "mappages d a PGSIZE (V2P x) (PTE_W OR PTE_U) (zero_page x (snd (kalloc k))) = (r, k1)" by fastforce
  have pa: "aligned a" "a < KERNBASE" "\<not> mapped (kmem_mem k) d a" using Cons.prems(2) by auto
  from alloc_step [OF Cons.prems(1) [unfolded xs(1)] xs(2) pa m]
  obtain ys where y: "fst (kalloc k) = x" "x \<noteq> 0" "r = 0" "grew k (x # xs') d {pgnum a} k1 ys" "set ys \<subseteq> set xs'"
    "length xs' \<le> length ys + 1" by blast
  note G = grewD [OF y(4)]
  have nm: "\<forall>b\<in>set as. aligned b \<and> b < KERNBASE \<and> \<not> mapped (kmem_mem k1) d b"
  proof
    fix b assume b: "b \<in> set as"
    then have "pgnum b \<in> pgnum ` set as" by (rule imageI)
    then have "pgnum b \<noteq> pgnum a" using Cons.prems(3) by (metis distinct.simps(2) list.set_map list.simps(9))
    then have "pte_at (kmem_mem k1) d b = pte_at (kmem_mem k) d b" using G(6) [of b] by simp
    then show "aligned b \<and> b < KERNBASE \<and> \<not> mapped (kmem_mem k1) d b" using Cons.prems(2) b by (simp add: mapped_def)
  qed
  have "2 * length as \<le> length ys" using Cons.prems(4) y(6) xs by simp
  then obtain k' zs where z: "alloc_loop as d oldsz newsz k1 = Ok (newsz, k')" "grew k1 ys d (pgnum ` set as) k' zs"
    "set zs \<subseteq> set ys" "length ys \<le> length zs + 2 * length as"
    using Cons.IH [OF G(1) nm] Cons.prems(3) by auto
  have "grew k (x # xs') d ({pgnum a} \<union> pgnum ` set as) k' zs"
    by (rule grew_trans [OF y(4) z(2)]) (use Cons.prems(3) y(5) in auto)
  moreover obtain k0 where "kalloc k = (x, k0)" "snd (kalloc k) = k0" using y(1) by (cases "kalloc k") simp
  ultimately show ?case
    using y m z xs by (intro exI [of _ k'] exI [of _ zs]) (auto simp: Let_def)
qed

lemma page_steps_facts:
  assumes "aligned lo"
  shows "map pgnum (page_steps lo hi) = [pgnum lo..<(unat hi + 4095) div 4096]"
    "\<And>a. a \<in> set (page_steps lo hi) \<Longrightarrow> aligned a \<and> a < hi"
proof -
  obtain q where q: "unat lo = 4096 * q" using assms by (auto simp: aligned_def elim: dvdE dest: mod_0_imp_dvd)
  define n where "n = (unat hi - unat lo + 4095) div 4096"
  have n: "n = (unat hi + 4095) div 4096 - q"
  proof (cases "unat lo \<le> unat hi")
    case True
    then have "unat hi + 4095 = (unat hi - unat lo + 4095) + q * 4096" using q by simp
    then have "(unat hi + 4095) div 4096 = n + q" unfolding n_def by (metis div_mult_self1 zero_neq_numeral add.commute)
    then show ?thesis by simp
  next
    case False
    then have "(unat hi + 4095) div 4096 \<le> (4096 * q + 4095) div 4096" using q by (intro div_le_mono) simp
    also have "\<dots> = q" by simp
    finally show ?thesis using False by (simp add: n_def)
  qed
  have u: "unat (lo + of_nat (4096 * i)) = 4096 * (q + i)" "4096 * (q + i) < unat hi" if "i < n" for i
  proof -
    have "q + i + 1 \<le> (unat hi + 4095) div 4096" using that n by simp
    then have "(q + i + 1) * 4096 \<le> unat hi + 4095"
      using div_times_less_eq_dividend [of "unat hi + 4095" 4096] by (meson le_trans mult_le_mono1)
    then show lt: "4096 * (q + i) < unat hi" by simp
    then have "4096 * i < 2 ^ 32" "4096 * q + 4096 * i < 2 ^ 32" using unat_u32_lt [of hi] by simp_all
    then show "unat (lo + of_nat (4096 * i)) = 4096 * (q + i)"
      using q by (subst unat_add_u32) (simp_all only: unat_of_nat_u32, simp_all)
  qed
  have "map pgnum (page_steps lo hi) = map (\<lambda>i. i + q) [0..<n]"
    unfolding page_steps_def n_def [symmetric] map_map by (rule map_cong) (use u in auto)
  also have "\<dots> = [q..<n + q]" by (rule map_add_upt)
  finally show "map pgnum (page_steps lo hi) = [pgnum lo..<(unat hi + 4095) div 4096]"
    using q n by (cases "q \<le> (unat hi + 4095) div 4096") auto
  show "aligned a \<and> a < hi" if "a \<in> set (page_steps lo hi)" for a
    using that u unfolding page_steps_def n_def [symmetric] by (auto simp: aligned_def word_less_nat_alt)
qed

section \<open>Shrinking\<close>

lemma pte_at_page: "pgnum va = pgnum vb \<Longrightarrow> pte_at m d va = pte_at m d vb"
  using same_page [of va vb] by (simp add: pte_at_def)

definition user_frames :: "mem \<Rightarrow> u32 \<Rightarrow> nat set \<Rightarrow> u32 set" where
  "user_frames m d A = {frame m d va |va. va < KERNBASE \<and> pgnum va \<in> A \<and> mapped m d va}"

definition shrunk :: "kmem \<Rightarrow> u32 list \<Rightarrow> u32 \<Rightarrow> nat set \<Rightarrow> kmem \<Rightarrow> u32 list \<Rightarrow> bool" where
  "shrunk k xs d A k' ys \<longleftrightarrow> space_ok k' ys d \<and> set ys = set xs \<union> user_frames (kmem_mem k) d A \<and>
     (\<forall>va<KERNBASE. pgnum va \<in> A \<longrightarrow> \<not> mapped (kmem_mem k') d va) \<and>
     (\<forall>va. va < KERNBASE \<and> pgnum va \<in> A \<or> pte_at (kmem_mem k') d va = pte_at (kmem_mem k) d va) \<and>
     table_pages (kmem_mem k') d = table_pages (kmem_mem k) d \<and>
     spares (table_pages (kmem_mem k) d \<union> user_frames (kmem_mem k) d A) (kmem_mem k) (kmem_mem k')"

lemma shrunkD:
  assumes "shrunk k xs d A k' ys"
  shows "space_ok k' ys d" "set ys = set xs \<union> user_frames (kmem_mem k) d A"
    "\<And>va. va < KERNBASE \<Longrightarrow> pgnum va \<in> A \<Longrightarrow> \<not> mapped (kmem_mem k') d va"
    "\<And>va. \<not> (va < KERNBASE \<and> pgnum va \<in> A) \<Longrightarrow> pte_at (kmem_mem k') d va = pte_at (kmem_mem k) d va"
    "table_pages (kmem_mem k') d = table_pages (kmem_mem k) d"
    "spares (table_pages (kmem_mem k) d \<union> user_frames (kmem_mem k) d A) (kmem_mem k) (kmem_mem k')"
  using assms unfolding shrunk_def by blast+

lemma shrunk_none:
  assumes "space_ok k xs d" "\<And>va. va < KERNBASE \<Longrightarrow> pgnum va \<in> A \<Longrightarrow> \<not> mapped (kmem_mem k) d va"
  shows "shrunk k xs d A k xs"
  using assms by (auto simp: shrunk_def user_frames_def)

lemma shrunk_trans:
  assumes g: "shrunk k xs d A k1 ys" and h: "shrunk k1 ys d B k2 zs" and dis: "A \<inter> B = {}"
  shows "shrunk k xs d (A \<union> B) k2 zs"
proof -
  note G = shrunkD [OF g] and H = shrunkD [OF h]
  have e: "pte_at (kmem_mem k1) d va = pte_at (kmem_mem k) d va" if "pgnum va \<in> B" for va
    using G(4) [of va] that dis by blast
  have fB: "user_frames (kmem_mem k1) d B = user_frames (kmem_mem k) d B"
    unfolding user_frames_def frame_def mapped_def using e by (metis (no_types, lifting))
  have fU: "user_frames (kmem_mem k) d (A \<union> B) = user_frames (kmem_mem k) d A \<union> user_frames (kmem_mem k) d B"
    by (auto simp: user_frames_def)
  have nm: "\<not> mapped (kmem_mem k2) d va" if "va < KERNBASE" "pgnum va \<in> A \<union> B" for va
  proof (cases "pgnum va \<in> B")
    case False
    then have "pte_at (kmem_mem k2) d va = pte_at (kmem_mem k1) d va" using H(4) [of va] by blast
    then show ?thesis using G(3) [of va] that False by (simp add: mapped_def)
  qed (use H(3) that in blast)
  have sp: "spares (table_pages (kmem_mem k) d \<union> user_frames (kmem_mem k) d (A \<union> B)) (kmem_mem k) (kmem_mem k2)"
    by (rule spares_trans [OF spares_mono [OF G(6)] spares_mono [OF H(6)]]) (use fB fU G(5) in auto)
  have "va < KERNBASE \<and> pgnum va \<in> A \<union> B \<or> pte_at (kmem_mem k2) d va = pte_at (kmem_mem k) d va" for va
    using G(4) [of va] H(4) [of va] by fastforce
  then show ?thesis unfolding shrunk_def using H(1,2,5) G(2,5) fB fU nm sp by auto
qed

lemma dir_put:
  assumes ok: "dir_ok k xs d" and f: "page_ok k f" "f \<notin> set xs" "f \<notin> table_pages (kmem_mem k) d"
  obtains k' where "kfree f k = Ok k'" "dir_ok k' (f # xs) d" "kend k' = kend k" "kdata k' = kdata k"
    "\<And>a. a \<notin> page f \<Longrightarrow> kmem_mem k' a = kmem_mem k a"
    "agree (table_pages (kmem_mem k) d) (kmem_mem k) (kmem_mem k')"
proof -
  have fal: "aligned f" using f(1) by (simp add: page_okD)
  obtain k' where k': "kfree f k = Ok k'" "kinv k' (f # xs)" "kend k' = kend k"
    "\<And>a. a \<notin> page f \<Longrightarrow> kmem_mem k' a = kmem_mem k a"
    using kfree_spec [OF dir_okD(1) [OF ok] f(1,2)] by metis
  have ag: "agree (table_pages (kmem_mem k) d) (kmem_mem k) (kmem_mem k')"
    unfolding agree_def using k'(4) page_disjoint [OF fal] table_page_facts(1) [OF ok] f(3) by metis
  note F = map_frame [OF ag]
  have pok: "page_ok k' q = page_ok k q" for q using k'(3) by (simp add: page_ok_def)
  have ne: "tab (kmem_mem k) d i \<noteq> f" if "i < 1024" "present (pde (kmem_mem k) d i)" for i
    using table_pagesI(2) [OF that] f(3) by auto
  have "d \<noteq> f" using f(3) table_pagesI(1) by auto
  then have "dir_ok k' (f # xs) d"
    using ok k'(2) F(1,2) pok ne unfolding dir_ok_def by auto
  moreover have "kdata k' = kdata k" using k'(1) by (auto simp: kfree_def Let_def split: if_splits)
  ultimately show ?thesis using that k' ag by blast
qed

lemma dealloc_page:
  assumes s: "space_ok k xs d" and a: "a < KERNBASE" and m: "mapped (kmem_mem k) d a"
  defines "f \<equiv> frame (kmem_mem k) d a"
  obtains k1 where "kfree f k = Ok k1" "shrunk k xs d {pgnum a}
    (set_mem (tab (kmem_mem k) d (PDX a) + of_nat (4 * PTX a)) 0 k1) (f # xs)" "PTE_ADDR (pte_at (kmem_mem k) d a) \<noteq> 0"
proof -
  note S = space_okD [OF s]
  note f = S(3) [OF a m, folded f_def] S(4) [OF a m, folded f_def] S(5) [OF a m, folded f_def]
  have fal: "aligned f" using f(1) by (simp add: page_okD)
  have nz: "PTE_ADDR (pte_at (kmem_mem k) d a) \<noteq> 0"
  proof
    assume z: "PTE_ADDR (pte_at (kmem_mem k) d a) = 0"
    then have "f = KERNBASE" by (simp add: f_def frame_def P2V_def)
    then show False using f(1) S(2) by (auto simp: page_ok_def)
  qed
  obtain k1 where k1: "kfree f k = Ok k1" "dir_ok k1 (f # xs) d" "kend k1 = kend k"
    "\<And>a. a \<notin> page f \<Longrightarrow> kmem_mem k1 a = kmem_mem k a" "agree (table_pages (kmem_mem k) d) (kmem_mem k) (kmem_mem k1)"
    using dir_put [OF S(1) f] by metis
  note F = map_frame [OF k1(5)]
  have pr: "present (pde (kmem_mem k1) d (PDX a))"
    using m F(1) by (auto simp: mapped_def pte_at_def present_def split: if_splits)
  define k2 where "k2 = set_mem (tab (kmem_mem k) d (PDX a) + of_nat (4 * PTX a)) 0 k1"
  note P = set_pte [OF k1(2) pr, where w = 0, unfolded F(2) [OF PDX_lt], folded k2_def]
  have pte: "pte_at (kmem_mem k2) d vb = (if pgnum vb = pgnum a then 0 else pte_at (kmem_mem k) d vb)" for vb
    using P(3) [of vb] F(3) by simp
  have nm: "mapped (kmem_mem k2) d vb \<longleftrightarrow> pgnum vb \<noteq> pgnum a \<and> mapped (kmem_mem k) d vb"
    "pgnum vb \<noteq> pgnum a \<Longrightarrow> frame (kmem_mem k2) d vb = frame (kmem_mem k) d vb" for vb
    using pte [of vb] by (auto simp: mapped_def present_def frame_def)
  have pok: "page_ok k2 q = page_ok k q" for q using k1(3) by (simp add: page_ok_def k2_def set_mem_def)
  have same: "pte_at (kmem_mem k) d vb = pte_at (kmem_mem k) d a" if "pgnum vb = pgnum a" for vb
    using that by (rule pte_at_page)
  have "frame (kmem_mem k) d vb = f" if "pgnum vb = pgnum a" for vb
    unfolding f_def frame_def same [OF that] by simp
  then have uf: "user_frames (kmem_mem k) d {pgnum a} = {f}"
    using a m by (auto simp: user_frames_def)
  have tp: "table_pages (kmem_mem k2) d = table_pages (kmem_mem k) d" using P(4) F(4) by simp
  have below: "vb < KERNBASE" if "pgnum vb = pgnum a" for vb
    using that a less_mult_imp_div_less [of "unat a" 524288 4096] div_less_iff_less_mult [of 4096 "unat vb" 524288]
    by (simp add: word_less_nat_alt KERNBASE_def)
  have sp: "space_ok k2 (f # xs) d" unfolding space_ok_def
  proof (intro conjI allI impI)
    show "dir_ok k2 (f # xs) d" by (rule P(1))
    show "KERNBASE < kend k2" using S(2) k1(3) by (simp add: k2_def set_mem_def)
    fix va assume va: "va < KERNBASE" "mapped (kmem_mem k2) d va"
    then have o: "pgnum va \<noteq> pgnum a" "mapped (kmem_mem k) d va" "frame (kmem_mem k2) d va = frame (kmem_mem k) d va"
      using nm by auto
    then have "frame (kmem_mem k) d va \<noteq> f" using S(6) [OF va(1) a o(2) m] by (auto simp: f_def)
    then show "page_ok k2 (frame (kmem_mem k2) d va)" "frame (kmem_mem k2) d va \<notin> set (f # xs)"
      "frame (kmem_mem k2) d va \<notin> table_pages (kmem_mem k2) d"
      using o S(3) [OF va(1) o(2)] S(4) [OF va(1) o(2)] S(5) [OF va(1) o(2)] by (simp_all add: pok tp)
  next
    fix va vb assume "va < KERNBASE" "vb < KERNBASE"
      "mapped (kmem_mem k2) d va \<and> mapped (kmem_mem k2) d vb \<and> frame (kmem_mem k2) d va = frame (kmem_mem k2) d vb"
    then show "pgnum va = pgnum vb" using nm S(6) [of va vb] by auto
  qed
  have sps: "spares (table_pages (kmem_mem k) d \<union> {f}) (kmem_mem k) (kmem_mem k2)"
    by (rule spares_pages)
      (use P(2) k1(4) fal table_page_facts(1) [OF S(1)] F(1) pr table_pagesI(2) [OF PDX_lt] in auto)
  have "shrunk k xs d {pgnum a} k2 (f # xs)"
    unfolding shrunk_def uf using sp nm(1) pte tp sps below by auto
  then show ?thesis using that k1(1) nz unfolding k2_def by blast
qed

lemma PGADDR_unat:
  assumes "n < 1024"
  shows "unat (PGADDR n 0 0) = 4194304 * n"
proof -
  have "4194304 * n < 2 ^ 32" using assms by simp
  moreover have "PGADDR n 0 0 = of_nat n * of_nat (2 ^ 22)" by (simp add: PGADDR_def push_bit_eq_mult)
  then have "PGADDR n 0 0 = of_nat (4194304 * n)" by (simp add: mult.commute)
  ultimately show ?thesis using unat_of_nat_u32 [of "4194304 * n"] by simp
qed

lemma dealloc_absent:
  assumes s: "space_ok k xs d" and a: "aligned a" "a < KERNBASE" and abs: "\<not> present (pde (kmem_mem k) d (PDX a))"
  obtains b where "dealloc_body d a k = Ok (b - PGSIZE, k)" "a < b" "aligned b"
    "\<And>va. pgnum va \<in> {pgnum a..<pgnum b} \<Longrightarrow> \<not> mapped (kmem_mem k) d va"
proof -
  obtain q where q: "unat a = 4096 * q" using a(1) by (auto simp: aligned_def elim: dvdE dest: mod_0_imp_dvd)
  define b where "b = PGADDR (PDX a + 1) 0 0"
  have pd: "PDX a = q div 1024" using div_mult2_eq [of "4096 * q" 4096 1024] q by (simp add: PDX_eq)
  have "q < 512 * 1024" using a(2) q by (simp add: word_less_nat_alt KERNBASE_def)
  then have "PDX a < 512" unfolding pd by (rule less_mult_imp_div_less)
  then have ub: "unat b = 4096 * (1024 * (PDX a + 1))" by (simp add: b_def PGADDR_unat)
  have qb: "q < 1024 * (PDX a + 1)"
    unfolding pd using dividend_less_div_times [of 1024 q] by simp
  have "\<not> mapped (kmem_mem k) d va" if v: "pgnum va \<in> {pgnum a..<pgnum b}" for va
  proof -
    have "PDX va = pgnum va div 1024" by (simp add: PDX_eq div_mult2_eq [symmetric])
    moreover have "q div 1024 \<le> pgnum va div 1024" using v q by (intro div_le_mono) simp
    moreover have "pgnum va div 1024 < PDX a + 1" by (rule less_mult_imp_div_less) (use v ub in simp)
    ultimately have "PDX va = PDX a" using pd by simp
    then show ?thesis using abs by (simp add: mapped_def pte_at_def present_def)
  qed
  moreover have "a < b" "aligned b" using ub q qb by (simp_all add: word_less_nat_alt aligned_def)
  moreover have "dealloc_body d a k = Ok (b - PGSIZE, k)" by (simp add: dealloc_body_def walk_absent [OF abs] b_def)
  ultimately show ?thesis using that by blast
qed

lemma dealloc_body_spec:
  assumes s: "space_ok k xs d" and a: "aligned a" "a < KERNBASE"
  obtains b k1 ys where "dealloc_body d a k = Ok (b - PGSIZE, k1)" "a < b" "aligned b"
    "shrunk k xs d {pgnum a..<pgnum b} k1 ys" "pgnum b = pgnum a + 1 \<or> (\<forall>n. shrunk k xs d {pgnum a..<min (pgnum b) n} k1 ys)"
proof (cases "present (pde (kmem_mem k) d (PDX a))")
  case False
  then obtain b where b: "dealloc_body d a k = Ok (b - PGSIZE, k)" "a < b" "aligned b"
    "\<And>va. pgnum va \<in> {pgnum a..<pgnum b} \<Longrightarrow> \<not> mapped (kmem_mem k) d va"
    using dealloc_absent [OF s a] by metis
  have "\<forall>n. shrunk k xs d {pgnum a..<min (pgnum b) n} k xs" using b(4) by (auto intro!: shrunk_none [OF s])
  then show ?thesis using that [of b k xs] b shrunk_none [OF s, of "{pgnum a..<pgnum b}"] by blast
next
  case pr: True
  note S = space_okD [OF s]
  define p where "p = tab (kmem_mem k) d (PDX a) + of_nat (4 * PTX a)"
  have w: "walkpgdir d a False k = (p, k)" using walk_present [OF pr] by (simp add: p_def)
  have pz: "p \<noteq> 0" using slot_nonzero [OF dir_okD(5) [OF S(1) PDX_lt pr] PTX_lt] by (simp add: p_def)
  have pv: "mld32 (kmem_mem k) p = pte_at (kmem_mem k) d a" using pr by (simp add: pte_at_def p_def)
  obtain q where q: "unat a = 4096 * q" using a(1) by (auto simp: aligned_def elim: dvdE dest: mod_0_imp_dvd)
  have "unat a < 4096 * 524288" using a(2) by (simp add: word_less_nat_alt KERNBASE_def)
  then have u: "unat (a + PGSIZE) = 4096 * (q + 1)" using q by (subst unat_add_u32) (simp_all add: PGSIZE_def)
  then have nx: "a < a + PGSIZE" "aligned (a + PGSIZE)" "pgnum (a + PGSIZE) = pgnum a + 1"
    "{pgnum a..<pgnum (a + PGSIZE)} = {pgnum a}" using q by (auto simp: word_less_nat_alt aligned_def)
  show ?thesis
  proof (cases "mapped (kmem_mem k) d a")
    case False
    have n: "\<not> mapped (kmem_mem k) d va" if "pgnum va \<in> {pgnum a}" for va
      using False pte_at_page [of va a] that by (simp add: mapped_def)
    have "dealloc_body d a k = Ok (a + PGSIZE - PGSIZE, k)"
      using False by (simp add: dealloc_body_def w pz pv mapped_def present_def)
    moreover have "shrunk k xs d {pgnum a} k xs" by (rule shrunk_none [OF s n])
    ultimately show ?thesis using that [of "a + PGSIZE" k xs] nx by simp
  next
    case True
    obtain k1 where f: "kfree (frame (kmem_mem k) d a) k = Ok k1"
      "shrunk k xs d {pgnum a} (set_mem p 0 k1) (frame (kmem_mem k) d a # xs)" "PTE_ADDR (pte_at (kmem_mem k) d a) \<noteq> 0"
      using dealloc_page [OF s a(2) True] unfolding p_def by blast
    have "dealloc_body d a k = Ok (a + PGSIZE - PGSIZE, set_mem p 0 k1)"
      using True f by (simp add: dealloc_body_def w pz pv mapped_def present_def frame_def)
    then show ?thesis using that [of "a + PGSIZE"] nx f(2) by simp
  qed
qed

lemma dealloc_loop_spec:
  assumes "space_ok k xs d" "aligned a" "oldsz \<le> KERNBASE"
  shows "\<exists>k' ys. dealloc_loop d a oldsz k = Ok k' \<and> shrunk k xs d {pgnum a..<(unat oldsz + 4095) div 4096} k' ys"
  using assms
proof (induction d a oldsz k arbitrary: xs rule: dealloc_loop.induct)
  case (1 d a oldsz k)
  let ?E = "(unat oldsz + 4095) div 4096"
  obtain q where q: "unat a = 4096 * q" using "1.prems"(2) by (auto simp: aligned_def elim: dvdE dest: mod_0_imp_dvd)
  show ?case
  proof (cases "a < oldsz")
    case False
    then have "?E \<le> (4096 * q + 4095) div 4096" using q by (intro div_le_mono) (simp add: word_less_nat_alt)
    then have "{pgnum a..<?E} = {}" using q by simp
    then show ?thesis
      using False shrunk_none [OF "1.prems"(1), of "{}"] by (subst dealloc_loop.simps) auto
  next
    case lt: True
    then have ak: "a < KERNBASE" using "1.prems"(3) by simp
    have qE: "q < ?E" using lt q by (simp add: word_less_nat_alt less_eq_div_iff_mult_less_eq Suc_le_eq [symmetric])
    obtain b k1 ys where b: "dealloc_body d a k = Ok (b - PGSIZE, k1)" "a < b" "aligned b"
      "shrunk k xs d {pgnum a..<pgnum b} k1 ys" "pgnum b = pgnum a + 1 \<or> (\<forall>n. shrunk k xs d {pgnum a..<min (pgnum b) n} k1 ys)"
      by (rule dealloc_body_spec [OF "1.prems"(1,2) ak])
    have s1: "shrunk k xs d {pgnum a..<min (pgnum b) ?E} k1 ys"
    proof (cases "pgnum b = pgnum a + 1")
      case True
      then have "min (pgnum b) ?E = pgnum b" using qE q by simp
      then show ?thesis using b(4) by simp
    next
      case False
      then show ?thesis using b(5) by blast
    qed
    have "\<exists>k' zs. dealloc_loop d b oldsz k1 = Ok k' \<and> shrunk k1 ys d {pgnum b..<?E} k' zs"
      using "1.IH" [OF lt b(1) refl, of ys] b shrunkD(1) [OF b(4)] "1.prems"(3) by simp
    then obtain k' zs where r: "dealloc_loop d b oldsz k1 = Ok k'" "shrunk k1 ys d {pgnum b..<?E} k' zs" by blast
    have "pgnum a \<le> pgnum b" using b(2) by (intro div_le_mono) (simp add: word_less_nat_alt)
    then have e: "{pgnum a..<?E} = {pgnum a..<min (pgnum b) ?E} \<union> {pgnum b..<?E}" by auto
    have "shrunk k xs d {pgnum a..<?E} k' zs" unfolding e by (rule shrunk_trans [OF s1 r(2)]) auto
    moreover have "dealloc_loop d a oldsz k = Ok k'" using r(1) lt b(1,2) by (subst dealloc_loop.simps) simp
    ultimately show ?thesis by blast
  qed
qed

section \<open>Properties\<close>

lemma pgnum_PGROUNDUP: "unat a + 4095 < 2 ^ 32 \<Longrightarrow> pgnum (PGROUNDUP a) = (unat a + 4095) div 4096"
  by (simp add: PGROUNDUP_unat)

lemma aligned_PGROUNDUP: "aligned (PGROUNDUP a)"
  by (simp add: PGROUNDUP_eq aligned_PGROUNDDOWN)

lemma allocuvm_grew:
  fixes oldsz newsz :: u32
  defines "A \<equiv> {(unat oldsz + 4095) div 4096..<(unat newsz + 4095) div 4096}"
  assumes s: "space_ok k xs d" and sz: "oldsz \<le> newsz" "newsz < KERNBASE"
    and fresh: "\<forall>va<KERNBASE. pgnum va \<in> A \<longrightarrow> \<not> mapped (kmem_mem k) d va" and room: "2 * card A \<le> length xs"
  shows "\<exists>k' ys. allocuvm d oldsz newsz k = Ok (newsz, k') \<and> grew k xs d A k' ys"
proof -
  have small: "unat oldsz + 4095 < 2 ^ 32" "unat newsz < 2 ^ 31"
    using sz by (auto simp: word_le_nat_alt word_less_nat_alt KERNBASE_def)
  note P = page_steps_facts [where lo = "PGROUNDUP oldsz" and hi = newsz, OF aligned_PGROUNDUP, unfolded pgnum_PGROUNDUP [OF small(1)]]
  let ?as = "page_steps (PGROUNDUP oldsz) newsz"
  have A: "pgnum ` set ?as = A" using arg_cong [OF P(1), of set] by (simp add: A_def)
  have len: "length ?as = card A" using arg_cong [OF P(1), of length] by (simp add: A_def)
  have as: "\<forall>a\<in>set ?as. aligned a \<and> a < KERNBASE \<and> \<not> mapped (kmem_mem k) d a"
  proof
    fix a assume a: "a \<in> set ?as"
    then have "pgnum a \<in> A" using A by blast
    then show "aligned a \<and> a < KERNBASE \<and> \<not> mapped (kmem_mem k) d a" using P(2) [OF a] sz(2) fresh by auto
  qed
  obtain k' ys where r: "alloc_loop ?as d oldsz newsz k = Ok (newsz, k')" "grew k xs d A k' ys"
    using alloc_loop_spec [OF s as, of oldsz newsz] P(1) len room A by auto
  have "allocuvm d oldsz newsz k = Ok (newsz, k')" using r(1) sz by (auto simp: allocuvm_def not_le not_less)
  then show ?thesis using r(2) by blast
qed

text \<open>
  C18. Growing a process. From \<open>oldsz\<close> to \<open>newsz\<close> below \<open>KERNBASE\<close>, with two free pages for every page
  to add, \<open>allocuvm\<close> returns \<open>newsz\<close>; every page between the two sizes is then mapped, writable and
  accessible to the user, onto a page of its own that was free before and is now zero; every other
  mapping and all memory that was neither free nor a page table of the process are as they were.
\<close>

theorem allocuvm_correct:
  fixes oldsz newsz :: u32
  defines "A \<equiv> {(unat oldsz + 4095) div 4096..<(unat newsz + 4095) div 4096}"
  assumes s: "space_ok k xs d" and sz: "oldsz \<le> newsz" "newsz < KERNBASE"
    and fresh: "\<forall>va<KERNBASE. pgnum va \<in> A \<longrightarrow> \<not> mapped (kmem_mem k) d va" and room: "2 * card A \<le> length xs"
  shows "\<exists>k' ys. allocuvm d oldsz newsz k = Ok (newsz, k') \<and> space_ok k' ys d \<and>
    (\<forall>va<KERNBASE. pgnum va \<in> A \<longrightarrow> mapped (kmem_mem k') d va \<and>
       PTE_FLAGS (pte_at (kmem_mem k') d va) = PTE_W OR PTE_U OR PTE_P \<and> frame (kmem_mem k') d va \<in> set xs \<and>
       (\<forall>a\<in>page (frame (kmem_mem k') d va). kmem_mem k' a = 0)) \<and>
    (\<forall>va. \<not> (va < KERNBASE \<and> pgnum va \<in> A) \<longrightarrow> pte_at (kmem_mem k') d va = pte_at (kmem_mem k) d va) \<and>
    (\<forall>p a. aligned p \<and> p \<notin> table_pages (kmem_mem k) d \<and> p \<notin> set xs \<and> a \<in> page p \<longrightarrow> kmem_mem k' a = kmem_mem k a)"
proof -
  obtain k' ys where r: "allocuvm d oldsz newsz k = Ok (newsz, k')" "grew k xs d A k' ys"
    using allocuvm_grew [OF s sz, folded A_def] fresh room by blast
  note G = grewD [OF r(2)]
  have "\<forall>p a. aligned p \<and> p \<notin> table_pages (kmem_mem k) d \<and> p \<notin> set xs \<and> a \<in> page p \<longrightarrow> kmem_mem k' a = kmem_mem k a"
    using sparesD [OF G(4)] by blast
  then show ?thesis using r(1) G(1,5,6) by (intro exI [of _ k'] exI [of _ ys]) blast
qed

definition demo_vm :: kmem where
  "demo_vm = \<lparr>kmem_mem = mst32 (\<lambda>_. 0) 0x80301000 0x80302000, freelist = 0x80301000, use_lock = True,
     kend = 0x80200000, kdata = 0x80108000\<rparr>"

lemma demo_vm_ok: "space_ok demo_vm [0x80301000, 0x80302000] 0x80300000" "\<not> mapped (kmem_mem demo_vm) 0x80300000 va"
  "i < 1024 \<Longrightarrow> \<not> present (pde (kmem_mem demo_vm) 0x80300000 i)"
proof -
  let ?m = "mst32 (\<lambda>_. 0) 0x80301000 0x80302000 :: mem" and ?d = "0x80300000 :: u32"
  have al: "aligned 0x80301000" "aligned ?d" by (simp_all add: aligned_def)
  have z: "?m a = 0" if "a \<in> page ?d" for a
    using mst32_page [OF al(1), of 0 a "\<lambda>_. 0"] page_disjoint [OF al] that by auto
  have "pde ?m ?d i = 0" if "i < 1024" for i
    unfolding pde_def using mld32_page_cong [OF that, of ?d ?m "\<lambda>_. 0"] z by (simp add: mld32_def)
  then have np: "\<not> present (pde ?m ?d i)" if "i < 1024" for i using that by (simp add: present_def)
  then show "i < 1024 \<Longrightarrow> \<not> present (pde (kmem_mem demo_vm) ?d i)" by (simp add: demo_vm_def)
  from np show "\<not> mapped (kmem_mem demo_vm) ?d va" for va
    by (simp add: mapped_def pte_at_def demo_vm_def present_def)
  have l: "mld32 ?m 0x80301000 = 0x80302000" by (rule mst32_same)
  have l2: "mld32 ?m 0x80302000 = 0" by (simp add: mld32_def mst32_def)
  have "kinv demo_vm [0x80301000, 0x80302000]"
    using l l2 by (simp add: kinv_def demo_vm_def page_ok_def PGSIZE_def V2P_def KERNBASE_def PHYSTOP_def)
  then have "dir_ok demo_vm [0x80301000, 0x80302000] ?d"
    using np by (simp add: dir_ok_def demo_vm_def page_ok_def PGSIZE_def V2P_def KERNBASE_def PHYSTOP_def)
  then show "space_ok demo_vm [0x80301000, 0x80302000] ?d"
    using \<open>\<And>va. \<not> mapped (kmem_mem demo_vm) ?d va\<close> by (simp add: space_ok_def demo_vm_def KERNBASE_def)
qed

theorem allocuvm_correct_witness:
  "\<exists>k ys. allocuvm 0x80300000 0 4096 demo_vm = Ok (4096, k) \<and> space_ok k ys 0x80300000 \<and>
     mapped (kmem_mem k) 0x80300000 17 \<and> \<not> mapped (kmem_mem k) 0x80300000 4096"
  using allocuvm_correct [where oldsz = 0 and newsz = 4096, OF demo_vm_ok(1)] demo_vm_ok(2) demo_vm_ok(2) [of 4096]
  by (fastforce simp: KERNBASE_def mapped_def)

text \<open>
  C19. Shrinking a process. \<open>deallocuvm\<close> from \<open>oldsz\<close>, at most \<open>KERNBASE\<close>, to a smaller \<open>newsz\<close> terminates
  without a panic: it returns exactly the pages mapped between the two sizes to the free list and
  unmaps them, keeps every other mapping, the page tables and all other memory. To a size that is not
  smaller it does nothing.
\<close>

theorem deallocuvm_correct:
  fixes oldsz newsz :: u32
  defines "A \<equiv> {(unat newsz + 4095) div 4096..<(unat oldsz + 4095) div 4096}"
  assumes s: "space_ok k xs d" and sz: "oldsz \<le> KERNBASE"
  shows "if oldsz \<le> newsz then deallocuvm d oldsz newsz k = Ok (oldsz, k)
    else \<exists>k' ys. deallocuvm d oldsz newsz k = Ok (newsz, k') \<and> space_ok k' ys d \<and>
      set ys = set xs \<union> user_frames (kmem_mem k) d A \<and>
      (\<forall>va<KERNBASE. pgnum va \<in> A \<longrightarrow> \<not> mapped (kmem_mem k') d va) \<and>
      (\<forall>va. \<not> (va < KERNBASE \<and> pgnum va \<in> A) \<longrightarrow> pte_at (kmem_mem k') d va = pte_at (kmem_mem k) d va) \<and>
      table_pages (kmem_mem k') d = table_pages (kmem_mem k) d \<and>
      spares (table_pages (kmem_mem k) d \<union> user_frames (kmem_mem k) d A) (kmem_mem k) (kmem_mem k')"
proof (cases "oldsz \<le> newsz")
  case True
  then show ?thesis by (simp add: deallocuvm_def)
next
  case False
  then have small: "unat newsz + 4095 < 2 ^ 32"
    using sz by (auto simp: word_le_nat_alt KERNBASE_def)
  obtain k' ys where r: "dealloc_loop d (PGROUNDUP newsz) oldsz k = Ok k'" "shrunk k xs d A k' ys"
    using dealloc_loop_spec [OF s aligned_PGROUNDUP sz, of newsz] unfolding A_def pgnum_PGROUNDUP [OF small] by blast
  have "deallocuvm d oldsz newsz k = Ok (newsz, k')" using False r(1) by (simp add: deallocuvm_def)
  then show ?thesis using False shrunkD [OF r(2)] by (simp only: if_False) blast
qed

theorem deallocuvm_correct_witness:
  "\<exists>k k'. allocuvm 0x80300000 0 4096 demo_vm = Ok (4096, k) \<and> mapped (kmem_mem k) 0x80300000 17 \<and>
     deallocuvm 0x80300000 4096 0 k = Ok (0, k') \<and> \<not> mapped (kmem_mem k') 0x80300000 17"
proof -
  obtain k ys where k: "allocuvm 0x80300000 0 4096 demo_vm = Ok (4096, k)"
    "grew demo_vm [0x80301000, 0x80302000] 0x80300000 {0..<1} k ys"
    using allocuvm_grew [where oldsz = 0 and newsz = 4096, OF demo_vm_ok(1)] demo_vm_ok(2) by (auto simp: KERNBASE_def)
  have "mapped (kmem_mem k) 0x80300000 17" using grewD(5) [OF k(2), of 17] by (simp add: KERNBASE_def)
  then show ?thesis
    using k(1) deallocuvm_correct [where oldsz = 4096 and newsz = 0, OF grewD(1) [OF k(2)]] by (auto simp: KERNBASE_def)
qed

lemma copy_loop_append:
  "copy_loop is pgdir d k = Ok (d, k1) \<Longrightarrow> d \<noteq> 0 \<Longrightarrow> copy_loop (is @ js) pgdir d k = copy_loop js pgdir d k1"
proof (induction "is" arbitrary: k)
  case (Cons i "is")
  from Cons.prems show ?case
    by (auto simp: Let_def res_simps split: prod.splits if_splits intro!: Cons.IH)
qed simp

text \<open>
  C37. Copying an address space that \<open>sbrk\<close> has grown lazily. When \<open>copyuvm\<close> reaches an address below the
  process size that was never touched, then: if no page table covers it, the kernel panics; if a page
  table does, \<open>copyuvm\<close> gives up and returns 0 without returning any page of the half-made copy to the
  free list, so that \<open>fork\<close> fails and the memory is lost.
\<close>

theorem copyuvm_lazy:
  assumes "copy_loop is pgdir d k = Ok (d, k1)" "d \<noteq> 0" "dir_ok k1 xs pgdir"
  shows "if present (pde (kmem_mem k1) pgdir (PDX i))
    then \<not> mapped (kmem_mem k1) pgdir i \<longrightarrow> copy_loop (is @ i # js) pgdir d k = Ok (0, k1)
    else copy_loop (is @ i # js) pgdir d k = Panic ''copyuvm: pte should exist''"
proof (cases "present (pde (kmem_mem k1) pgdir (PDX i))")
  case True
  have "tab (kmem_mem k1) pgdir (PDX i) + of_nat (4 * PTX i) \<noteq> 0"
    using slot_nonzero [OF dir_okD(5) [OF assms(3) PDX_lt True] PTX_lt] .
  then show ?thesis
    using True walk_present [OF True, of False]
    by (simp add: copy_loop_append [OF assms(1,2)] mapped_def pte_at_def present_def del: of_nat_mult)
next
  case False
  then show ?thesis using walk_absent [OF False] by (simp add: copy_loop_append [OF assms(1,2)])
qed

theorem copyuvm_lazy_witness:
  "\<exists>k. allocuvm 0x80300000 0 4096 demo_vm = Ok (4096, k) \<and>
     copy_loop [4096, 8192] 0x80300000 0x80400000 k = Ok (0, k) \<and>
     copy_loop [0] 0x80300000 0x80400000 demo_vm = Panic ''copyuvm: pte should exist''"
proof -
  let ?d = "0x80300000 :: u32"
  obtain k ys where k: "allocuvm ?d 0 4096 demo_vm = Ok (4096, k)"
    "grew demo_vm [0x80301000, 0x80302000] ?d {0..<1} k ys"
    using allocuvm_grew [where oldsz = 0 and newsz = 4096, OF demo_vm_ok(1)] demo_vm_ok(2) by (auto simp: KERNBASE_def)
  note G = grewD [OF k(2)]
  have ok: "dir_ok k ys ?d" using G(1) by (simp add: space_ok_def)
  have m: "mapped (kmem_mem k) ?d 0" "\<not> mapped (kmem_mem k) ?d 4096"
    using G(5) [of 0] G(6) [of 4096] demo_vm_ok(2) [of 4096] by (simp_all add: KERNBASE_def mapped_def)
  have "PDX 4096 = PDX 0" by (simp add: PDX_eq)
  then have "present (pde (kmem_mem k) ?d (PDX 4096))"
    using m(1) by (auto simp: mapped_def pte_at_def present_def split: if_splits)
  then have "copy_loop [4096, 8192] ?d 0x80400000 k = Ok (0, k)"
    using copyuvm_lazy [of "[]" ?d "0x80400000" k k ys 4096 "[8192]"] ok m(2) by simp
  moreover have "copy_loop [0] ?d 0x80400000 demo_vm = Panic ''copyuvm: pte should exist''"
    using copyuvm_lazy [of "[]" ?d "0x80400000" demo_vm demo_vm _ 0 "[]", OF _ _ space_okD(1) [OF demo_vm_ok(1)]]
      demo_vm_ok(3) [of "PDX 0"] by simp
  ultimately show ?thesis using k(1) by blast
qed

end
