(* ===== verification/Fs_Read.thy ===== *)
theory Fs_Read
  imports Fs_Props
begin

text \<open>
  Reading a part of a file whose blocks are all allocated: no block is allocated, the log is not
  touched, and only the contents of the buffer cache move. Directory scans rest on this.
\<close>

text \<open>A step that only moves blocks through the cache: nothing a client can observe changes.\<close>

definition calm :: "'a kstate_scheme \<Rightarrow> 'a kstate_scheme \<Rightarrow> bool" where
  "calm s s' \<longleftrightarrow> ready {} s' \<and> changes {} s s' \<and> view s' = view s \<and> kstate.more s' = kstate.more s \<and> spent 0 s s'"

lemma calm_refl: "ready {} s \<Longrightarrow> calm s s"
  by (simp add: calm_def changes_refl readyD spent_def)

lemma calm_trans: "calm s s' \<Longrightarrow> calm s' s'' \<Longrightarrow> calm s s''"
  using changes_trans [of "{}" s s' "{}" s''] spent_trans [of 0 s s' 0 s''] by (simp add: calm_def)

lemma calmD:
  assumes "calm s s'"
  shows "ready {} s'" "view s' = view s" "kstate.more s' = kstate.more s" "changes {} s s'"
    "room c s \<Longrightarrow> room c s'"
  using assms by (auto simp: calm_def room_def spent_def)

lemma calm_fs:
  fixes s :: "'a fstate_scheme"
  assumes "calm s s'"
  shows "icache s' = icache s" "fsb s' = fsb s" "fs_ready ip s \<Longrightarrow> fs_ready ip s'" "nfree s' = nfree s"
proof -
  note m = more_fs [OF calmD(3) [OF assms]]
  show "icache s' = icache s" "fsb s' = fsb s" by (simp_all add: m)
  show "nfree s' = nfree s" using m calmD(2) [OF assms] by (simp add: nfree_def)
  assume f: "fs_ready ip s"
  then have "geom s'" using geom_changes [OF _ calmD(4) [OF assms] m(1)] by (simp add: fs_ready_def)
  then show "fs_ready ip s'"
    using f m calmD(1,2) [OF assms] readyD(2) [OF calmD(1) [OF assms]] by (simp add: fs_ready_def fs_ok_def)
qed

lemma calm_read:
  fixes s :: "'a fstate_scheme"
  assumes r: "ready {} s" "room 0 s" "b < disksize s"
  obtains i s1 s2 where "bread 1 b s = Ok (i, s1)" "b_data (bufs s1 i) = view s b" "brelse i s1 = Ok s2" "calm s s2"
    "kstate.more s1 = kstate.more s"
proof -
  obtain i s1 where b: "bread 1 b s = Ok (i, s1)" "ready {i} s1" "spent 0 s s1"
    using ready_bread [OF r(1,2) _ r(3)] by auto
  note C = bread_changes [OF readyD(2) [OF r(1)] b(1)]
  obtain s2 where e: "brelse i s1 = Ok s2" "ready ({i} - {i}) s2" "spent 0 s1 s2"
    by (rule ready_brelse [OF b(2) C(2,3)]) simp
  note D = close_ro [OF readyD(2) [OF r(1)] b(1) changes_refl [OF changesD(1) [OF C(1)], of "{}"] e(1)]
  have "calm s s2"
    using D C(6,7) e(2) spent_trans [OF b(3) e(3)] by (simp add: calm_def)
  then show ?thesis using that b(1) e(1) C by simp
qed

lemma data_disk:
  fixes s :: "'a fstate_scheme"
  assumes f: "fs_ready ip s" and p: "vpath p" "sa (view s) (i_addrs (icache s ip)) p \<noteq> 0"
  shows "sa (view s) (i_addrs (icache s ip)) p < disksize s"
proof -
  have F: "fs_ok ip s" "geom s" using f by (simp_all add: fs_ready_def)
  note O = fs_okD [OF F(1)]
  have "datastart (fsb s) \<le> unat (sa (view s) (i_addrs (icache s ip)) p)" "sa (view s) (i_addrs (icache s ip)) p < sb_size (fsb s)"
    using tree_okD [OF O(4)] p by blast+
  then have "home s (sa (view s) (i_addrs (icache s ip)) p)" using darea_meta(2) [OF O(2)] F(2) by (simp add: geom_def)
  then show ?thesis by (simp add: home_def)
qed

lemma bmap_entry_mapped:
  fixes s :: "'a fstate_scheme"
  assumes f: "fs_ready ip s" "room 0 s" and p: "vpath p" "sa (view s) (i_addrs (icache s ip)) p = a" "a \<noteq> 0"
    and e: "get_u32 (view s a) j \<noteq> 0"
  obtains s' where "bmap_entry 1 a j s = Ok (get_u32 (view s a) j, s')" "calm s s'"
proof -
  have r: "ready {} s" using f(1) by (simp add: fs_ready_def)
  have d: "a < disksize s" using data_disk [OF f(1) p(1)] p(2,3) by simp
  obtain i s1 s2 where b: "bread 1 a s = Ok (i, s1)" "b_data (bufs s1 i) = view s a" "brelse i s1 = Ok s2" "calm s s2"
    by (rule calm_read [OF r f(2) d])
  show ?thesis by (rule that [of s2]) (use b e in \<open>simp_all add: bmap_entry_def Let_def\<close>)
qed

lemma bmap_mapped:
  fixes s :: "'a fstate_scheme"
  assumes f: "fs_ready ip s" "room 0 s" and bn: "bn < MAXFILE"
    and m: "sa (view s) (i_addrs (icache s ip)) (path_of bn) \<noteq> 0"
  obtains s' where "bmap ip bn s = Ok (sa (view s) (i_addrs (icache s ip)) (path_of bn), s')" "calm s s'"
proof -
  have r: "ready {} s" and dv: "i_dev (icache s ip) = 1" using f(1) by (simp_all add: fs_ready_def fs_ok_def)
  let ?as = "i_addrs (icache s ip)"
  consider (direct) "bn < NDIRECT" | (single) "\<not> bn < NDIRECT" "bn - NDIRECT < NINDIRECT"
    | (double) "\<not> bn < NDIRECT" "\<not> bn - NDIRECT < NINDIRECT" by blast
  then show ?thesis
  proof cases
    case direct
    then show ?thesis using m that [of s] calm_refl [OF r] by (simp add: bmap_def path_of_def bmap_root_def Let_def)
  next
    case single
    then have p: "path_of bn = [bn - NDIRECT, NDIRECT]" by (auto simp: path_of_def)
    have a: "?as ! NDIRECT \<noteq> 0" "get_u32 (view s (?as ! NDIRECT)) (bn - NDIRECT) \<noteq> 0"
      using m unfolding p by (auto simp: Let_def split: if_splits)
    obtain s' where "bmap_entry 1 (?as ! NDIRECT) (bn - NDIRECT) s = Ok (get_u32 (view s (?as ! NDIRECT)) (bn - NDIRECT), s')"
      "calm s s'"
      by (rule bmap_entry_mapped [OF f, of "[NDIRECT]" "?as ! NDIRECT"]) (use a in \<open>simp_all add: layout_simps\<close>)
    then show ?thesis using that [of s'] single a dv p by (simp add: bmap_def bmap_root_def Let_def)
  next
    case double
    let ?c = "bn - NDIRECT - NINDIRECT"
    have p: "path_of bn = [?c mod NINDIRECT, ?c div NINDIRECT, NDIRECT + 1]"
      using double by (auto simp: path_of_def Let_def)
    have lt: "?c < NINDIRECT * NINDIRECT" using bn by (simp add: layout_simps)
    then have k: "?c div NINDIRECT < NINDIRECT" by (intro less_mult_imp_div_less)
    let ?a = "?as ! (NDIRECT + 1)" let ?b = "get_u32 (view s ?a) (?c div NINDIRECT)"
    have a: "?a \<noteq> 0" "?b \<noteq> 0" "get_u32 (view s ?b) (?c mod NINDIRECT) \<noteq> 0"
      using m unfolding p by (auto simp: Let_def split: if_splits)
    obtain s1 where s1: "bmap_entry 1 ?a (?c div NINDIRECT) s = Ok (?b, s1)" "calm s s1"
      by (rule bmap_entry_mapped [OF f, of "[NDIRECT + 1]" ?a]) (use a in \<open>simp_all add: layout_simps\<close>)
    note v = calmD(2) [OF s1(2)] and ic = calm_fs(1) [OF s1(2)]
    obtain s' where s': "bmap_entry 1 ?b (?c mod NINDIRECT) s1 = Ok (get_u32 (view s1 ?b) (?c mod NINDIRECT), s')" "calm s1 s'"
      by (rule bmap_entry_mapped [OF calm_fs(3) [OF s1(2) f(1)] calmD(5) [OF s1(2) f(2)], of "[?c div NINDIRECT, NDIRECT + 1]" ?b])
        (use a k v ic in \<open>simp_all add: vpath_def Let_def\<close>)
    show ?thesis
      by (rule that [of s']) (use double lt a dv p s1(1) s' v calm_trans [OF s1(2) s'(2)] in
        \<open>simp_all add: bmap_def bmap_root_def Let_def\<close>)
  qed
qed

definition backed :: "nat \<Rightarrow> 'a fstate_scheme \<Rightarrow> nat \<Rightarrow> nat \<Rightarrow> bool" where
  "backed ip s off n \<longleftrightarrow> (\<forall>x. off \<le> x \<and> x < off + n \<longrightarrow> sa (view s) (i_addrs (icache s ip)) (path_of (x div BSIZE)) \<noteq> 0)"

lemma readi_loop_mapped:
  fixes s :: "'a fstate_scheme"
  assumes "fs_ready ip s" "room 0 s" "backed ip s off rem" "off + rem \<le> MAXFILE * BSIZE"
  shows "\<exists>s'. readi_loop ip off rem s = Ok (map (file_byte ip s) [off..<off + rem], s') \<and> calm s s'"
  using assms
proof (induction ip off rem s rule: readi_loop.induct)
  case (1 ip off rem s)
  have r0: "ready {} s" and dv: "i_dev (icache s ip) = 1" using "1.prems"(1) by (simp_all add: fs_ready_def fs_ok_def)
  show ?case
  proof (cases "rem = 0")
    case True
    then show ?thesis using calm_refl [OF r0] by (simp add: readi_loop.simps)
  next
    case False
    let ?c = "chunk off rem" let ?p = "path_of (off div BSIZE)"
    let ?a = "sa (view s) (i_addrs (icache s ip)) ?p"
    have bn: "off div BSIZE < MAXFILE" using "1.prems"(4) False by (intro less_mult_imp_div_less) simp
    have a: "?a \<noteq> 0" using "1.prems"(3) False by (auto simp: backed_def)
    obtain s1 where b: "bmap ip (off div BSIZE) s = Ok (?a, s1)" "calm s s1"
      by (rule bmap_mapped [OF "1.prems"(1,2) bn a])
    note v1 = calmD(2) [OF b(2)] and i1 = calm_fs(1) [OF b(2)] and f1 = calm_fs(3) [OF b(2) "1.prems"(1)]
    have d1: "?a < disksize s1"
      using data_disk [OF f1 dpath_vpath [OF path_of_dpath [OF bn]]] v1 i1 a by simp
    obtain i s2 s3 where e: "bread 1 ?a s1 = Ok (i, s2)" "b_data (bufs s2 i) = view s1 ?a" "brelse i s2 = Ok s3" "calm s1 s3"
      by (rule calm_read [OF calmD(1) [OF b(2)] calmD(5) [OF b(2) "1.prems"(2)] d1])
    note c3 = calm_trans [OF b(2) e(4)]
    let ?bs = "map (b_data (bufs s2 i)) [off mod BSIZE..<off mod BSIZE + ?c]"
    have st: "readi_loop ip off rem s = bnd (readi_loop ip (off + ?c) (rem - ?c) s3) (\<lambda>(bs', s). Ok (?bs @ bs', s))"
      using False b(1) dv i1 e by (subst readi_loop.simps) (simp add: Let_def)
    have same: "file_byte ip s3 = file_byte ip s" using calmD(2) [OF c3] calm_fs(1) [OF c3] by simp
    have cl: "?c \<le> rem" by (rule chunk_le)
    have bk: "backed ip s3 (off + ?c) (rem - ?c)"
      using "1.prems"(3) cl calmD(2) [OF c3] calm_fs(1) [OF c3] by (auto simp: backed_def)
    obtain s' where q: "readi_loop ip (off + ?c) (rem - ?c) s3 =
        Ok (map (file_byte ip s3) [off + ?c..<off + ?c + (rem - ?c)], s')" "calm s3 s'"
      using "1.IH" [OF False b(1) refl, of "(i, s2)" i s2 ?c ?bs s3] e dv i1 calm_fs(3) [OF c3 "1.prems"(1)]
        calmD(5) [OF c3 "1.prems"(2)] bk "1.prems"(4) cl by (auto simp: Let_def)
    have "?bs = map (file_byte ip s) [off..<off + ?c]"
    proof (rule nth_equalityI)
      fix k assume "k < length ?bs"
      then have k: "k < ?c" by simp
      have "(off + k) div BSIZE = off div BSIZE" "(off + k) mod BSIZE = off mod BSIZE + k"
        using chunk_pos_in [of off "off + k" rem] k by auto
      then show "?bs ! k = map (file_byte ip s) [off..<off + ?c] ! k"
        using k e(2) v1 a by (simp add: fbyte_def cont_def)
    qed simp
    moreover have "[off..<off + rem] = [off..<off + ?c] @ [off + ?c..<off + rem]"
      using upt_add_eq_append [of off "off + ?c" "rem - ?c"] cl by simp
    ultimately show ?thesis using st q same cl calm_trans [OF c3 q(2)] by (intro exI [of _ s']) simp
  qed
qed

lemma readi_mapped:
  fixes s :: "'a fstate_scheme"
  assumes f: "fs_ready ip s" "room 0 s" and ty: "i_type (icache s ip) \<noteq> T_DEV"
    and rng: "unat off + unat n \<le> unat (i_size (icache s ip))" "unat (i_size (icache s ip)) \<le> MAXFILE * BSIZE"
    and b: "backed ip s (unat off) (unat n)"
  obtains s' where "readi dr ip off n s = Ok (int (unat n), map (file_byte ip s) [unat off..<unat off + unat n], s')" "calm s s'"
proof -
  obtain s' where r: "readi_loop ip (unat off) (unat n) s = Ok (map (file_byte ip s) [unat off..<unat off + unat n], s')"
    "calm s s'" using readi_loop_mapped [OF f b] rng by auto
  let ?sz = "i_size (icache s ip)"
  have u: "unat (off + n) = unat off + unat n" by (rule unat_add_u32) (use rng unat_u32_lt [of ?sz] in simp)
  have c: "\<not> ?sz < off" "\<not> off + n < off" "\<not> ?sz < off + n" using rng u by (simp_all add: word_less_nat_alt)
  have "unat n < 2 ^ 31" using rng by (simp add: layout_simps)
  then have "sint n = int (unat n)" by (rule sint_small_nat)
  then have "readi dr ip off n s = Ok (int (unat n), map (file_byte ip s) [unat off..<unat off + unat n], s')"
    using ty c r(1) by (simp only: readi_def Let_def if_False bnd.simps simp_thms prod.case)
  then show ?thesis using that r(2) by blast
qed

section \<open>Writing keeps and extends the backing\<close>

lemma writei_loop_backed:
  fixes s :: "'a fstate_scheme"
  assumes "fs_ok ip s" "writei_loop ip src pos off rem s = Ok s'"
  shows "evolves ip s s' \<and> backed ip s' off rem"
  using assms
proof (induction rem arbitrary: s pos off rule: less_induct)
  case (less rem)
  show ?case
  proof (cases "rem = 0")
    case True
    then have "s' = s" using less.prems(2) by (simp add: writei_loop.simps)
    with True less.prems(1) show ?thesis by (auto simp: evolves_refl backed_def)
  next
    case False
    let ?m = "chunk off rem" let ?bn = "off div BSIZE"
    note st = less.prems(2) [unfolded writei_loop.simps [of ip src pos off rem s]]
    from st False obtain a s1 where b: "bmap ip ?bn s = Ok (a, s1)" by (auto simp: res_simps)
    note G = bmap_spec [OF less.prems(1) b] note ok1 = grownD(1) [OF G(1)] note O = fs_okD [OF ok1]
    from st False b O(3) obtain i s2 where rd: "bread 1 a s1 = Ok (i, s2)" by (auto simp: res_simps)
    note B = bread_changes [OF O(1) rd]
    let ?d = "blit (view s1 a) (off mod BSIZE) src pos ?m"
    from st False b O(3) rd obtain s3 s4 where w: "log_write i (set_data i ?d s2) = Ok s3" "brelse i s3 = Ok s4"
      and rest: "writei_loop ip src (pos + ?m) (off + ?m) (rem - ?m) s4 = Ok s'"
      by (auto simp: res_simps Let_def B(4))
    note C = close_rw [OF O(1) rd changes_refl [OF changesD(1) [OF B(1)], of "{}"] w]
    have v4: "view s4 = (view s1)(a := ?d)" and more4: "kstate.more s4 = kstate.more s1"
      using C(2,3) B(6,7) by simp_all
    note dp = path_of_dpath [OF G(4)]
    note W = data_write [OF ok1 dp G(2,3) C(1) v4 more4]
    have m: "rem - ?m < rem" "?m \<le> rem" using False chunk_pos [of rem off] chunk_le by auto
    note IH = less.IH [OF m(1) evolvesD(1) [OF W(1)] rest]
    have ev: "evolves ip s s'" using evolves_trans [OF grown_evolves [OF G(1)] evolves_trans [OF W(1)]] IH by blast
    have "sa (view s4) (i_addrs (icache s4 ip)) (path_of ?bn) \<noteq> 0" using W(3) G(3) by simp
    then have here: "sa (view s') (i_addrs (icache s' ip)) (path_of ?bn) \<noteq> 0"
      using evolvesD(7) [OF conjunct1 [OF IH] dpath_vpath [OF dp]] by simp
    have "sa (view s') (i_addrs (icache s' ip)) (path_of (x div BSIZE)) \<noteq> 0" if "off \<le> x" "x < off + rem" for x
    proof (cases "x < off + ?m")
      case True
      then show ?thesis using chunk_pos_in(1) [OF that(1) True] here by simp
    next
      case False
      then show ?thesis using IH that m(2) by (simp add: backed_def)
    qed
    with ev show ?thesis by (simp add: backed_def)
  qed
qed

lemma evolves_backed:
  assumes "evolves ip s s'" "backed ip s off n" "off + n \<le> MAXFILE * BSIZE"
  shows "backed ip s' off n"
proof -
  have "x div BSIZE < MAXFILE" if "x < off + n" for x using that assms(3) by (intro less_mult_imp_div_less) simp
  then show ?thesis
    using assms(2) evolvesD(7) [OF assms(1) dpath_vpath [OF path_of_dpath]] by (simp add: backed_def)
qed

lemma writei_backed:
  fixes s :: "'a fstate_scheme"
  assumes ok: "fs_ok ip s" and ty: "i_type (icache s ip) \<noteq> T_DEV"
    and ib: "iblock_ok (fsb s) (IBLOCK (i_inum (icache s ip)) (fsb s))"
    and rng: "off \<le> i_size (icache s ip)" "off \<le> off + n" "unat off + unat n \<le> MAXFILE * BSIZE"
    and r: "writei dw ip src off n s = Ok (r, s')"
  shows "backed ip s' (unat off) (unat n)"
    "backed ip s p l \<Longrightarrow> p + l \<le> MAXFILE * BSIZE \<Longrightarrow> backed ip s' p l"
proof -
  have sum: "unat (off + n) = unat off + unat n" by (rule unat_clip(2) [OF rng(1,2)])
  have big: "\<not> (of_nat (MAXFILE * BSIZE) < off + n)"
    using rng(3) sum by (simp add: word_less_nat_alt layout_simps)
  have nb: "\<not> (i_size (icache s ip) < off \<or> off + n < off)" using rng by auto
  from r ty nb big obtain s1 where l: "writei_loop ip src 0 (unat off) (unat n) s = Ok s1"
    and tail: "(if 0 < n \<and> i_size (icache s1 ip) < off + n then
          bnd (iupdate ip (upd_inode ip (\<lambda>x. x\<lparr>i_size := off + n\<rparr>) s1)) (\<lambda>s. Ok (sint n, s))
        else Ok (sint n, s1)) = Ok (r, s')"
    by (auto simp: writei_def Let_def res_simps split: if_splits)
  note L = writei_loop_backed [OF ok l] note E = evolvesD [OF conjunct1 [OF L]]
  note U = addrs_only [OF E(6)] note O = fs_okD [OF E(1)]
  have keep: "backed ip s' p l" if bk: "backed ip s1 p l" and le: "p + l \<le> MAXFILE * BSIZE" for p l
  proof (cases "0 < n \<and> i_size (icache s1 ip) < off + n")
    case False
    then have "s' = s1" using tail by auto
    with bk show ?thesis by simp
  next
    case True
    let ?s2 = "upd_inode ip (\<lambda>x. x\<lparr>i_size := off + n\<rparr>) s1"
    from tail True have up: "iupdate ip ?s2 = Ok s'" by (auto simp: res_simps)
    have inv2: "bio_inv ?s2" and dev2: "i_dev (icache ?s2 ip) = 1" and ok2: "fs_ok ip ?s2"
      using O(1,3) E(1) by (simp_all add: fs_ok_def)
    note P = iupdate_spec [OF inv2 dev2 up]
    have "iblock_ok (fsb ?s2) (IBLOCK (i_inum (icache ?s2 ip)) (fsb ?s2))" using ib U(2) E(3) by simp
    note W = low_write(4) [OF ok2 this P(3,2) changesD(1) [OF P(1)]]
    have "x div BSIZE < MAXFILE" if "x < p + l" for x using that le by (intro less_mult_imp_div_less) simp
    then show ?thesis
      using bk W [OF dpath_vpath [OF path_of_dpath]] by (simp add: backed_def)
  qed
  show "backed ip s' (unat off) (unat n)" using L rng(3) by (intro keep) auto
  show "backed ip s' p l" if "backed ip s p l" "p + l \<le> MAXFILE * BSIZE"
    using evolves_backed [OF conjunct1 [OF L] that] that(2) by (rule keep)
qed

end
