(* ===== verification/Fs_Dir.thy ===== *)
theory Fs_Dir
  imports Fs_Read Kstring
begin

text \<open>
  Directories and path names (the end of \<open>fs.c\<close>). A directory is a file of 16-byte entries, an inode
  number and a name of at most 14 bytes that need not be terminated; a path is the list of its bytes
  before the terminating zero. The current directory of the process, which relative paths start
  from, is an argument.

  The lemmas relate \<open>skipelem\<close> to splitting a path at its slashes and \<open>dirlookup\<close> and \<open>dirlink\<close> to
  lookup and update of the list of entries the file holds.
\<close>

section \<open>Directory entries\<close>

definition DIRSIZ :: nat where [layout_simps]: "DIRSIZ = 14"
definition ROOTDEV :: u32 where "ROOTDEV = 1"
definition ROOTINO :: u32 where "ROOTINO = 1"

record dirent =
  de_inum :: u16
  de_name :: bytes

definition decode_dirent :: "u8 list \<Rightarrow> dirent" where
  "decode_dirent bs = (let d = (\<lambda>i. if i < length bs then bs ! i else 0) in
     \<lparr>de_inum = ld16 d 0, de_name = (\<lambda>i. d (2 + i))\<rparr>)"

definition encode_dirent :: "dirent \<Rightarrow> bytes" where
  "encode_dirent de = st16 (\<lambda>i. de_name de (i - 2)) 0 (de_inum de)"

definition namecmp :: "bytes \<Rightarrow> bytes \<Rightarrow> int" where
  "namecmp s t = strncmp s t DIRSIZ"

text \<open>
  Directory scans. An offset that would wrap past the end of the 32-bit range would make the
  loop start over, so it counts as not returning.
\<close>

lemma u32_step_measure: "\<not> off + 16 < (off :: u32) \<Longrightarrow> 2 ^ 32 - unat (off + 16) < 2 ^ 32 - unat off"
proof -
  assume h: "\<not> off + 16 < off"
  have "off \<noteq> off + 16" by simp
  with h have "off < off + 16" by (simp add: order.not_eq_order_implies_strict not_less)
  then show ?thesis by (rule u32_measure)
qed

function dirlookup_loop :: "'a fstate_scheme dev_read \<Rightarrow> nat \<Rightarrow> bytes \<Rightarrow> u32 \<Rightarrow> 'a fstate_scheme \<Rightarrow>
    ((nat \<times> u32) option \<times> 'a fstate_scheme) res" where
  "dirlookup_loop dr dp name off s =
     (if off < i_size (icache s dp) then
        bnd (readi dr dp off 16 s) (\<lambda>(r, bs, s).
        if r \<noteq> 16 then Panic ''dirlookup read''
        else
          let de = decode_dirent bs in
          if de_inum de \<noteq> 0 \<and> namecmp name (de_name de) = 0 then
            bnd (iget (i_dev (icache s dp)) (ucast (de_inum de)) s) (\<lambda>(ip, s).
            Ok (Some (ip, off), s))
          else if off + 16 < off then Blocked
          else dirlookup_loop dr dp name (off + 16) s)
      else Ok (None, s))"
  by pat_completeness auto

termination
  by (relation "measure (\<lambda>(dr, dp, name, off, s). 2 ^ 32 - unat off)") (auto dest: u32_step_measure)

declare dirlookup_loop.simps [simp del]

text \<open>The result is the inode, and the offset of its entry for callers that pass \<open>poff\<close>.\<close>

definition dirlookup :: "'a fstate_scheme dev_read \<Rightarrow> nat \<Rightarrow> bytes \<Rightarrow> 'a fstate_scheme \<Rightarrow>
    ((nat \<times> u32) option \<times> 'a fstate_scheme) res" where
  "dirlookup dr dp name s =
     (if i_type (icache s dp) \<noteq> T_DIR then Panic ''dirlookup not DIR''
      else dirlookup_loop dr dp name 0 s)"

function dirlink_slot :: "'a fstate_scheme dev_read \<Rightarrow> nat \<Rightarrow> u32 \<Rightarrow> 'a fstate_scheme \<Rightarrow>
    (u32 \<times> 'a fstate_scheme) res" where
  "dirlink_slot dr dp off s =
     (if off < i_size (icache s dp) then
        bnd (readi dr dp off 16 s) (\<lambda>(r, bs, s).
        if r \<noteq> 16 then Panic ''dirlink read''
        else if de_inum (decode_dirent bs) = 0 then Ok (off, s)
        else if off + 16 < off then Blocked
        else dirlink_slot dr dp (off + 16) s)
      else Ok (off, s))"
  by pat_completeness auto
termination
  by (relation "measure (\<lambda>(dr, dp, off, s). 2 ^ 32 - unat off)") (auto dest: u32_step_measure)

declare dirlink_slot.simps [simp del]

definition dirlink :: "'a fstate_scheme dev_read \<Rightarrow> 'a fstate_scheme dev_write \<Rightarrow> nat \<Rightarrow> bytes \<Rightarrow> u32 \<Rightarrow>
    'a fstate_scheme \<Rightarrow> (int \<times> 'a fstate_scheme) res" where
  "dirlink dr dw dp name inum s =
     bnd (dirlookup dr dp name s) (\<lambda>(found, s).
     case found of
       Some (ip, _) \<Rightarrow> bnd (iput ip s) (\<lambda>s. Ok (-1, s))
     | None \<Rightarrow>
         bnd (dirlink_slot dr dp 0 s) (\<lambda>(off, s).
         let de = \<lparr>de_inum = ucast inum, de_name = strncpy (\<lambda>_. 0) name (int DIRSIZ)\<rparr> in
         bnd (writei dw dp (encode_dirent de) off 16 s) (\<lambda>(r, s).
         if r \<noteq> 16 then Panic ''dirlink'' else Ok (0, s))))"

section \<open>Paths\<close>

definition slash :: u8 where "slash = 47"

text \<open>
  The rest of the path after its first element, and the name buffer with that element: at most
  \<open>DIRSIZ\<close> bytes, terminated when it is shorter.
\<close>

definition skipelem :: "u8 list \<Rightarrow> bytes \<Rightarrow> (u8 list \<times> bytes) option" where
  "skipelem path name =
     (let path = dropWhile (\<lambda>c. c = slash) path in
      if path = [] then None
      else
        let s = takeWhile (\<lambda>c. c \<noteq> slash) path;
            path = dropWhile (\<lambda>c. c \<noteq> slash) path;
            len = length s;
            name = (if DIRSIZ \<le> len then (\<lambda>i. if i < DIRSIZ then s ! i else name i)
                    else (\<lambda>i. if i < len then s ! i else name i)(len := 0)) in
        Some (dropWhile (\<lambda>c. c = slash) path, name))"

lemma skipelem_shorter: "skipelem path name = Some (path', name') \<Longrightarrow> length path' < length path"
proof -
  assume h: "skipelem path name = Some (path', name')"
  let ?p = "dropWhile (\<lambda>c. c = slash) path"
  have ne: "?p \<noteq> []" and p': "path' = dropWhile (\<lambda>c. c = slash) (dropWhile (\<lambda>c. c \<noteq> slash) ?p)"
    using h by (auto simp: skipelem_def Let_def split: if_splits)
  have "hd ?p \<noteq> slash" using hd_dropWhile [OF ne] by simp
  then obtain c q where c: "?p = c # q" "c \<noteq> slash" using ne by (cases ?p) auto
  have "length path' \<le> length q"
    using c unfolding p' by (simp add: le_trans [OF length_dropWhile_le length_dropWhile_le])
  also have "length q < length path" using c length_dropWhile_le [of "\<lambda>c. c = slash" path] by simp
  finally show ?thesis .
qed

function namex_loop :: "'a fstate_scheme dev_read \<Rightarrow> bool \<Rightarrow> nat \<Rightarrow> u8 list \<Rightarrow> bytes \<Rightarrow> 'a fstate_scheme \<Rightarrow>
    (nat option \<times> bytes \<times> 'a fstate_scheme) res" where
  "namex_loop dr parent ip path name s =
     (case skipelem path name of
        None \<Rightarrow>
          if parent then bnd (iput ip s) (\<lambda>s. Ok (None, name, s))
          else Ok (Some ip, name, s)
      | Some (path, name) \<Rightarrow>
          bnd (ilock ip s) (\<lambda>s.
          if i_type (icache s ip) \<noteq> T_DIR then
            bnd (iunlockput ip s) (\<lambda>s. Ok (None, name, s))
          else if parent \<and> path = [] then
            bnd (iunlock ip s) (\<lambda>s. Ok (Some ip, name, s))
          else
            bnd (dirlookup dr ip name s) (\<lambda>(found, s).
            case found of
              None \<Rightarrow> bnd (iunlockput ip s) (\<lambda>s. Ok (None, name, s))
            | Some (next, _) \<Rightarrow>
                bnd (iunlockput ip s) (\<lambda>s.
                namex_loop dr parent next path name s))))"
  by pat_completeness auto
termination
  by (relation "measure (\<lambda>(dr, parent, ip, path, name, s). length path)") (auto dest: skipelem_shorter)

declare namex_loop.simps [simp del]

definition namex :: "'a fstate_scheme dev_read \<Rightarrow> nat \<Rightarrow> u8 list \<Rightarrow> bool \<Rightarrow> bytes \<Rightarrow> 'a fstate_scheme \<Rightarrow>
    (nat option \<times> bytes \<times> 'a fstate_scheme) res" where
  "namex dr cwd path parent name s =
     bnd (if path \<noteq> [] \<and> hd path = slash then iget ROOTDEV ROOTINO s else Ok (cwd, idup cwd s)) (\<lambda>(ip, s).
     namex_loop dr parent ip path name s)"

definition namei :: "'a fstate_scheme dev_read \<Rightarrow> nat \<Rightarrow> u8 list \<Rightarrow> 'a fstate_scheme \<Rightarrow>
    (nat option \<times> 'a fstate_scheme) res" where
  "namei dr cwd path s =
     bnd (namex dr cwd path False (\<lambda>_. 0) s) (\<lambda>(ip, _, s). Ok (ip, s))"

definition nameiparent :: "'a fstate_scheme dev_read \<Rightarrow> nat \<Rightarrow> u8 list \<Rightarrow> bytes \<Rightarrow> 'a fstate_scheme \<Rightarrow>
    (nat option \<times> bytes \<times> 'a fstate_scheme) res" where
  "nameiparent dr cwd path name s = namex dr cwd path True name s"

section \<open>What \<open>skipelem\<close> computes\<close>

text \<open>The elements of a path: its pieces between slashes, without the empty ones.\<close>

primrec pieces :: "u8 list \<Rightarrow> u8 list list" where
  "pieces [] = [[]]"
| "pieces (c # cs) = (if c = slash then [] # pieces cs else (c # hd (pieces cs)) # tl (pieces cs))"

definition path_elems :: "u8 list \<Rightarrow> u8 list list" where
  "path_elems path = filter (\<lambda>e. e \<noteq> []) (pieces path)"

lemma pieces_nonempty [simp]: "pieces p \<noteq> []"
  by (cases p) simp_all

lemma pieces_piece:
  assumes "slash \<notin> set e"
  shows "pieces (e @ q) = (e @ hd (pieces q)) # tl (pieces q)"
  using assms by (induction e) (auto simp: neq_Nil_conv)

lemma path_elems_slash: "path_elems (slash # p) = path_elems p"
  by (simp add: path_elems_def)

lemma path_elems_drop: "path_elems (dropWhile (\<lambda>c. c = slash) p) = path_elems p"
  by (induction p) (auto simp: path_elems_slash)

lemma path_elems_first:
  assumes "slash \<notin> set e" "e \<noteq> []" "q = [] \<or> hd q = slash"
  shows "path_elems (e @ q) = e # path_elems q"
proof (cases q)
  case Nil
  then show ?thesis using assms pieces_piece [OF assms(1), of q] by (simp add: path_elems_def)
next
  case (Cons c r)
  then have "pieces q = [] # pieces r" using assms(3) by simp
  then show ?thesis using assms(2) pieces_piece [OF assms(1), of q] by (simp add: path_elems_def)
qed

lemma skipelem_elems:
  "skipelem path name = None \<longleftrightarrow> path_elems path = []"
  "skipelem path name = Some (path', name') \<Longrightarrow>
     path_elems path = hd (path_elems path) # path_elems path' \<and> (path' = [] \<or> hd path' \<noteq> slash) \<and>
     (0 \<notin> set path \<longrightarrow> cstr DIRSIZ name' = take DIRSIZ (hd (path_elems path)))"
proof -
  let ?p = "dropWhile (\<lambda>c. c = slash) path"
  let ?e = "takeWhile (\<lambda>c. c \<noteq> slash) ?p" and ?q = "dropWhile (\<lambda>c. c \<noteq> slash) ?p"
  have split: "path_elems path = ?e # path_elems ?q" if ne: "?p \<noteq> []"
  proof -
    have "hd ?p \<noteq> slash" using hd_dropWhile [OF ne] by simp
    then have "?e \<noteq> []" using ne by (cases ?p) auto
    moreover have "slash \<notin> set ?e" by (auto dest: set_takeWhileD)
    moreover have "?q = [] \<or> hd ?q = slash" using hd_dropWhile [of "\<lambda>c. c \<noteq> slash" ?p] by auto
    ultimately have "path_elems (?e @ ?q) = ?e # path_elems ?q" by (intro path_elems_first)
    then show ?thesis using path_elems_drop [of path] by simp
  qed
  have "path_elems path = []" if "?p = []" using path_elems_drop [of path] that by (simp add: path_elems_def)
  then show "skipelem path name = None \<longleftrightarrow> path_elems path = []"
    using split by (auto simp: skipelem_def Let_def)
  assume h: "skipelem path name = Some (path', name')"
  then have ne: "?p \<noteq> []" and p': "path' = dropWhile (\<lambda>c. c = slash) ?q"
    and n': "name' = (if DIRSIZ \<le> length ?e then (\<lambda>i. if i < DIRSIZ then ?e ! i else name i)
                    else (\<lambda>i. if i < length ?e then ?e ! i else name i)(length ?e := 0))"
    by (auto simp: skipelem_def Let_def split: if_splits)
  have lead: "path' = [] \<or> hd path' \<noteq> slash" unfolding p' using hd_dropWhile [of "\<lambda>c. c = slash" ?q] by auto
  have "cstr DIRSIZ name' = take DIRSIZ ?e" if z: "0 \<notin> set path"
  proof -
    have nz: "c \<noteq> 0" if "c \<in> set ?e" for c
      using that z by (auto dest!: set_takeWhileD set_dropWhileD)
    show ?thesis
    proof (cases "DIRSIZ \<le> length ?e")
      case True
      then have "map name' [0..<DIRSIZ] = take DIRSIZ ?e"
        by (auto simp: n' intro!: nth_equalityI)
      moreover have "\<forall>c \<in> set (take DIRSIZ ?e). c \<noteq> 0" using nz by (auto dest: in_set_takeD)
      ultimately show ?thesis unfolding cstr_def by (simp add: takeWhile_eq_all_conv)
    next
      case False
      have "map name' [0..<length ?e] = ?e" by (rule nth_equalityI) (use False in \<open>auto simp: n'\<close>)
      moreover have "[0..<DIRSIZ] = [0..<length ?e] @ length ?e # [Suc (length ?e)..<DIRSIZ]"
        using False upt_add_eq_append [of 0 "length ?e" "DIRSIZ - length ?e"] by (simp add: upt_conv_Cons)
      moreover have "name' (length ?e) = 0" using False by (simp add: n')
      ultimately show ?thesis using nz False unfolding cstr_def by (simp add: takeWhile_append)
    qed
  qed
  then show "path_elems path = hd (path_elems path) # path_elems path' \<and> (path' = [] \<or> hd path' \<noteq> slash) \<and>
     (0 \<notin> set path \<longrightarrow> cstr DIRSIZ name' = take DIRSIZ (hd (path_elems path)))"
    using split [OF ne] lead by (simp add: p' path_elems_drop)
qed

section \<open>Directories as lists of entries\<close>

definition entry_at :: "nat \<Rightarrow> 'a fstate_scheme \<Rightarrow> nat \<Rightarrow> dirent" where
  "entry_at dp s k = decode_dirent (map (file_byte dp s) [16 * k..<16 * k + 16])"

definition entry_name :: "dirent \<Rightarrow> u8 list" where
  "entry_name de = cstr DIRSIZ (de_name de)"

text \<open>A directory that can be scanned: whole entries, all blocks present.\<close>

definition dir_ready :: "nat \<Rightarrow> 'a fstate_scheme \<Rightarrow> bool" where
  "dir_ready dp s \<longleftrightarrow> fs_ready dp s \<and> room 0 s \<and> i_type (icache s dp) = T_DIR \<and>
     16 dvd unat (i_size (icache s dp)) \<and> unat (i_size (icache s dp)) \<le> MAXFILE * BSIZE \<and>
     backed dp s 0 (unat (i_size (icache s dp)))"

abbreviation nentries :: "nat \<Rightarrow> 'a fstate_scheme \<Rightarrow> nat" where
  "nentries dp s \<equiv> unat (i_size (icache s dp)) div 16"

definition hit :: "nat \<Rightarrow> 'a fstate_scheme \<Rightarrow> bytes \<Rightarrow> nat \<Rightarrow> bool" where
  "hit dp s name k \<longleftrightarrow> de_inum (entry_at dp s k) \<noteq> 0 \<and> entry_name (entry_at dp s k) = cstr DIRSIZ name"

lemma namecmp_zero: "namecmp s t = 0 \<longleftrightarrow> cstr DIRSIZ s = cstr DIRSIZ t"
  by (simp add: namecmp_def strncmp_eq)

lemma dir_ready_calm:
  assumes "dir_ready dp s" "calm s s'"
  shows "dir_ready dp s'" "entry_at dp s' = entry_at dp s" "hit dp s' = hit dp s"
proof -
  note c = calm_fs [OF assms(2)] calmD(2,5) [OF assms(2)]
  show "dir_ready dp s'" using assms c by (auto simp: dir_ready_def backed_def)
  show e: "entry_at dp s' = entry_at dp s" by (rule ext) (simp only: entry_at_def c(1,5))
  show "hit dp s' = hit dp s" by (simp add: hit_def fun_eq_iff e)
qed

lemma dir_read:
  fixes s :: "'a fstate_scheme"
  assumes d: "dir_ready dp s" and k: "k < nentries dp s"
  obtains s' where "readi dr dp (of_nat (16 * k)) 16 s = Ok (16, map (file_byte dp s) [16 * k..<16 * k + 16], s')" "calm s s'"
    "decode_dirent (map (file_byte dp s) [16 * k..<16 * k + 16]) = entry_at dp s k"
proof -
  let ?sz = "unat (i_size (icache s dp))"
  have k': "16 * k + 16 \<le> ?sz" using k d by (auto simp: dir_ready_def elim!: dvdE)
  have u: "unat (of_nat (16 * k) :: u32) = 16 * k"
    by (rule unat_of_nat_u32) (use k' unat_u32_lt [of "i_size (icache s dp)"] in linarith)
  have b: "backed dp s (16 * k) 16" using d k' by (auto simp: dir_ready_def backed_def)
  obtain s' where "readi dr dp (of_nat (16 * k)) 16 s =
      Ok (int (unat (16 :: u32)), map (file_byte dp s) [unat (of_nat (16 * k) :: u32)..<unat (of_nat (16 * k) :: u32) + unat (16 :: u32)], s')"
    "calm s s'"
    by (rule readi_mapped [of dp s "of_nat (16 * k)" 16]) (use d k' u b in \<open>simp_all add: dir_ready_def T_DIR_def T_DEV_def\<close>)
  then show ?thesis using that [of s'] u by (simp add: entry_at_def)
qed

lemma dir_offsets:
  fixes s :: "'a fstate_scheme"
  assumes d: "dir_ready dp s"
  shows "k < nentries dp s \<Longrightarrow> of_nat (16 * k) < i_size (icache s dp)"
    "\<not> of_nat (16 * nentries dp s) < i_size (icache s dp)"
    "k < nentries dp s \<Longrightarrow> \<not> of_nat (16 * k) + 16 < (of_nat (16 * k) :: u32)"
proof -
  let ?sz = "i_size (icache s dp)"
  have sz: "16 * nentries dp s = unat ?sz" "unat ?sz \<le> MAXFILE * BSIZE" using d by (auto simp: dir_ready_def)
  then have u: "unat (of_nat (16 * k) :: u32) = 16 * k" if "k \<le> nentries dp s" for k
    by (intro unat_of_nat_u32) (use that in \<open>simp add: layout_simps\<close>)
  show "\<not> of_nat (16 * nentries dp s) < ?sz" using u [of "nentries dp s"] sz by (simp add: word_less_nat_alt)
  assume k: "k < nentries dp s"
  show "of_nat (16 * k) < ?sz" using u [of k] k sz by (simp add: word_less_nat_alt)
  have "unat (of_nat (16 * k) + 16 :: u32) = 16 * k + 16"
    using unat_add_u32 [of "of_nat (16 * k)" 16] u [of k] k sz by (simp add: layout_simps)
  then show "\<not> of_nat (16 * k) + 16 < (of_nat (16 * k) :: u32)" using u [of k] k by (simp add: word_less_nat_alt)
qed

lemma off_Suc: "(of_nat (16 * k) :: u32) + 16 = of_nat (16 * Suc k)"
  by simp

text \<open>The scan finds the first entry in use with that name, if there is one.\<close>

lemma dirlookup_loop_spec:
  fixes s :: "'a fstate_scheme"
  assumes "dir_ready dp s" "k \<le> nentries dp s" "\<And>j. j < k \<Longrightarrow> \<not> hit dp s name j"
  shows "(\<exists>s'. dirlookup_loop dr dp name (of_nat (16 * k)) s = Ok (None, s') \<and> calm s s' \<and>
            (\<forall>j < nentries dp s. \<not> hit dp s name j)) \<or>
         (\<exists>j s'. j < nentries dp s \<and> hit dp s name j \<and> (\<forall>i < j. \<not> hit dp s name i) \<and> calm s s' \<and>
            dirlookup_loop dr dp name (of_nat (16 * k)) s =
              bnd (iget 1 (ucast (de_inum (entry_at dp s j))) s') (\<lambda>(ip, s). Ok (Some (ip, of_nat (16 * j)), s)))"
  using assms
proof (induction "nentries dp s - k" arbitrary: k s)
  case 0
  have "\<not> of_nat (16 * k) < i_size (icache s dp)" using dir_offsets(2) [OF 0(2)] 0 by simp
  then have "dirlookup_loop dr dp name (of_nat (16 * k)) s = Ok (None, s)" by (subst dirlookup_loop.simps) (simp only: if_False)
  moreover have "calm s s" by (rule calm_refl) (use 0(2) in \<open>simp add: dir_ready_def fs_ready_def\<close>)
  ultimately show ?case using 0 by auto
next
  case (Suc n)
  then have k: "k < nentries dp s" by simp
  obtain s1 where r: "readi dr dp (of_nat (16 * k)) 16 s = Ok (16, map (file_byte dp s) [16 * k..<16 * k + 16], s1)" "calm s s1"
    "decode_dirent (map (file_byte dp s) [16 * k..<16 * k + 16]) = entry_at dp s k"
    by (rule dir_read [OF Suc.prems(1) k])
  note c = calm_fs [OF r(2)] dir_ready_calm [OF Suc.prems(1) r(2)]
  have dv: "i_dev (icache s1 dp) = 1" using c(5) by (simp add: dir_ready_def fs_ready_def fs_ok_def)
  have st: "dirlookup_loop dr dp name (of_nat (16 * k)) s =
      (if hit dp s name k then bnd (iget 1 (ucast (de_inum (entry_at dp s k))) s1) (\<lambda>(ip, s). Ok (Some (ip, of_nat (16 * k)), s))
       else dirlookup_loop dr dp name (of_nat (16 * k) + 16) s1)"
    using dir_offsets(1,3) [OF Suc.prems(1) k] r(1,3) dv
    by (subst dirlookup_loop.simps) (auto simp: hit_def entry_name_def namecmp_zero Let_def simp del: of_nat_mult)
  show ?case
  proof (cases "hit dp s name k")
    case True
    then show ?thesis using st r(2) k Suc.prems(3) by (intro disjI2 exI [of _ k] exI [of _ s1]) simp
  next
    case False
    have "(\<exists>s'. dirlookup_loop dr dp name (of_nat (16 * Suc k)) s1 = Ok (None, s') \<and> calm s1 s' \<and>
            (\<forall>j < nentries dp s1. \<not> hit dp s1 name j)) \<or>
         (\<exists>j s'. j < nentries dp s1 \<and> hit dp s1 name j \<and> (\<forall>i < j. \<not> hit dp s1 name i) \<and> calm s1 s' \<and>
            dirlookup_loop dr dp name (of_nat (16 * Suc k)) s1 =
              bnd (iget 1 (ucast (de_inum (entry_at dp s1 j))) s') (\<lambda>(ip, s). Ok (Some (ip, of_nat (16 * j)), s)))"
      by (rule Suc.hyps(1)) (use Suc.hyps(2) Suc.prems False c k less_Suc_eq in auto)
    then show ?thesis
      unfolding st off_Suc using False calm_trans [OF r(2)] c by (simp only: if_False) blast
  qed
qed

lemma dirlookup_spec:
  fixes s :: "'a fstate_scheme"
  assumes "dir_ready dp s"
  shows "(\<exists>s'. dirlookup dr dp name s = Ok (None, s') \<and> calm s s' \<and> (\<forall>j < nentries dp s. \<not> hit dp s name j)) \<or>
         (\<exists>j s'. j < nentries dp s \<and> hit dp s name j \<and> (\<forall>i < j. \<not> hit dp s name i) \<and> calm s s' \<and>
            dirlookup dr dp name s =
              bnd (iget 1 (ucast (de_inum (entry_at dp s j))) s') (\<lambda>(ip, s). Ok (Some (ip, of_nat (16 * j)), s)))"
proof -
  have "dirlookup dr dp name s = dirlookup_loop dr dp name (of_nat (16 * 0)) s"
    using assms by (simp add: dirlookup_def dir_ready_def)
  then show ?thesis using dirlookup_loop_spec [OF assms, of 0 name dr] by (simp only:)
qed

lemma dirlink_slot_spec:
  fixes s :: "'a fstate_scheme"
  assumes "dir_ready dp s" "k \<le> nentries dp s" "\<And>j. j < k \<Longrightarrow> de_inum (entry_at dp s j) \<noteq> 0"
  shows "\<exists>j s'. dirlink_slot dr dp (of_nat (16 * k)) s = Ok (of_nat (16 * j), s') \<and> calm s s' \<and> j \<le> nentries dp s \<and>
     (j < nentries dp s \<longrightarrow> de_inum (entry_at dp s j) = 0) \<and> (\<forall>i < j. de_inum (entry_at dp s i) \<noteq> 0)"
  using assms
proof (induction "nentries dp s - k" arbitrary: k s)
  case 0
  have "\<not> of_nat (16 * k) < i_size (icache s dp)" using dir_offsets(2) [OF 0(2)] 0 by simp
  then have "dirlink_slot dr dp (of_nat (16 * k)) s = Ok (of_nat (16 * k), s)" by (subst dirlink_slot.simps) (simp only: if_False)
  moreover have "calm s s" by (rule calm_refl) (use 0(2) in \<open>simp add: dir_ready_def fs_ready_def\<close>)
  ultimately show ?case using 0 by (intro exI [of _ k] exI [of _ s]) auto
next
  case (Suc n)
  then have k: "k < nentries dp s" by simp
  obtain s1 where r: "readi dr dp (of_nat (16 * k)) 16 s = Ok (16, map (file_byte dp s) [16 * k..<16 * k + 16], s1)" "calm s s1"
    "decode_dirent (map (file_byte dp s) [16 * k..<16 * k + 16]) = entry_at dp s k"
    by (rule dir_read [OF Suc.prems(1) k])
  note c = calm_fs [OF r(2)] dir_ready_calm [OF Suc.prems(1) r(2)]
  have st: "dirlink_slot dr dp (of_nat (16 * k)) s =
      (if de_inum (entry_at dp s k) = 0 then Ok (of_nat (16 * k), s1) else dirlink_slot dr dp (of_nat (16 * k) + 16) s1)"
    using dir_offsets(1,3) [OF Suc.prems(1) k] r(1,3)
    by (subst dirlink_slot.simps) (auto simp: Let_def simp del: of_nat_mult)
  show ?case
  proof (cases "de_inum (entry_at dp s k) = 0")
    case True
    then show ?thesis using st r(2) k Suc.prems(3) by (intro exI [of _ k] exI [of _ s1]) simp
  next
    case False
    have "\<exists>j s'. dirlink_slot dr dp (of_nat (16 * Suc k)) s1 = Ok (of_nat (16 * j), s') \<and> calm s1 s' \<and> j \<le> nentries dp s1 \<and>
     (j < nentries dp s1 \<longrightarrow> de_inum (entry_at dp s1 j) = 0) \<and> (\<forall>i < j. de_inum (entry_at dp s1 i) \<noteq> 0)"
      by (rule Suc.hyps(1)) (use Suc.hyps(2) Suc.prems False c k less_Suc_eq in auto)
    then show ?thesis
      unfolding st off_Suc using False calm_trans [OF r(2)] c by (simp only: if_False) blast
  qed
qed

lemma decode_encode_dirent:
  "de_inum (decode_dirent (map (encode_dirent de) [0..<16])) = de_inum de"
  "entry_name (decode_dirent (map (encode_dirent de) [0..<16])) = cstr DIRSIZ (de_name de)"
proof -
  let ?d = "\<lambda>i. if i < 16 then encode_dirent de i else 0"
  have d: "(\<lambda>i. if i < length (map (encode_dirent de) [0..<16]) then map (encode_dirent de) [0..<16] ! i else 0) = ?d"
    by (auto simp: fun_eq_iff)
  have "ld16 ?d 0 = ld16 (encode_dirent de) 0" by (simp add: ld16_def)
  also have "\<dots> = de_inum de" by (simp add: encode_dirent_def)
  finally show "de_inum (decode_dirent (map (encode_dirent de) [0..<16])) = de_inum de"
    unfolding decode_dirent_def d by simp
  have "?d (2 + i) = de_name de i" if "i < DIRSIZ" for i
    using that by (simp add: encode_dirent_def st16_other layout_simps)
  then have "cstr DIRSIZ (\<lambda>i. ?d (2 + i)) = cstr DIRSIZ (de_name de)" by (intro cstr_cong) simp
  then show "entry_name (decode_dirent (map (encode_dirent de) [0..<16])) = cstr DIRSIZ (de_name de)"
    unfolding decode_dirent_def d entry_name_def Let_def by (simp only: dirent.select_convs)
qed

text \<open>Room for one more entry: log and disk space for one block write, and the inode's own block in place.\<close>

definition dir_room :: "nat \<Rightarrow> 'a fstate_scheme \<Rightarrow> bool" where
  "dir_room dp s \<longleftrightarrow> room 7 s \<and> 3 \<le> nfree s \<and> unat (i_size (icache s dp)) + 16 \<le> MAXFILE * BSIZE \<and>
     iblock_ok (fsb s) (IBLOCK (i_inum (icache s dp)) (fsb s)) \<and> home s (IBLOCK (i_inum (icache s dp)) (fsb s))"

lemma nblocks_entry: "nblocks (16 * k) 16 = 1"
proof -
  have "16 * k mod 512 \<le> 496"
  proof -
    have "16 * k mod 512 = 16 * (k mod 32)" using mult_mod_right [of 16 k 32] by simp
    moreover have "k mod 32 < 32" by simp
    ultimately show ?thesis by linarith
  qed
  then show ?thesis by (simp add: nblocks_def layout_simps)
qed

lemma put_entry:
  fixes s :: "'a fstate_scheme"
  assumes d: "dir_ready dp s" and m: "dir_room dp s" and k: "k \<le> nentries dp s"
  obtains s' where "writei dw dp (encode_dirent de) (of_nat (16 * k)) 16 s = Ok (16, s')" "dir_ready dp s'"
    "nentries dp s' = max (nentries dp s) (Suc k)" "de_inum (entry_at dp s' k) = de_inum de"
    "entry_name (entry_at dp s' k) = cstr DIRSIZ (de_name de)"
    "\<And>j. j < nentries dp s \<Longrightarrow> j \<noteq> k \<Longrightarrow> entry_at dp s' j = entry_at dp s j" "spent 7 s s'"
proof -
  let ?sz = "i_size (icache s dp)" let ?off = "of_nat (16 * k) :: u32"
  have sz: "16 * nentries dp s = unat ?sz" "unat ?sz + 16 \<le> MAXFILE * BSIZE"
    using d m by (auto simp: dir_ready_def dir_room_def)
  then have u: "unat ?off = 16 * k" using k by (intro unat_of_nat_u32) (simp add: layout_simps)
  have rng: "?off \<le> ?sz" "?off \<le> ?off + 16" "unat ?off + unat (16 :: u32) \<le> MAXFILE * BSIZE"
    using u k sz unat_add_u32 [of ?off 16] by (simp_all add: word_le_nat_alt layout_simps)
  have F: "fs_ready dp s" "i_type (icache s dp) \<noteq> T_DEV" "fs_ok dp s"
    using d by (simp_all add: dir_ready_def fs_ready_def T_DIR_def T_DEV_def)
  have ib: "iblock_ok (fsb s) (IBLOCK (i_inum (icache s dp)) (fsb s))" "home s (IBLOCK (i_inum (icache s dp)) (fsb s))"
    using m by (simp_all add: dir_room_def)
  have nb: "nblocks (unat ?off) (unat (16 :: u32)) = 1" unfolding u using nblocks_entry [of k] by simp
  have nf: "3 * nblocks (unat ?off) (unat (16 :: u32)) \<le> nfree s" and m7: "room (6 * nblocks (unat ?off) (unat (16 :: u32)) + 1) s"
    unfolding nb using m by (simp_all add: dir_room_def)
  obtain s' where w: "writei dw dp (encode_dirent de) ?off 16 s = Ok (int (unat (16 :: u32)), s')" "fs_ready dp s'"
    "spent (6 * nblocks (unat ?off) (unat (16 :: u32)) + 1) s s'"
    by (rule writei_total [OF F(1,2) ib rng m7 nf])
  note W = writei_spec [OF F(3,2) ib(1) rng w(1)] and B = writei_backed [OF F(3,2) ib(1) rng w(1)]
  have sp: "spent 7 s s'" using w(3) unfolding nb by simp
  have size: "unat (i_size (icache s' dp)) = max (unat ?sz) (16 * k + 16)" using W(5) u by simp
  then have ne: "nentries dp s' = max (nentries dp s) (Suc k)" using sz(1) by (auto simp: max_def)
  have byte: "file_byte dp s' x = (if 16 * k \<le> x \<and> x < 16 * k + 16 then encode_dirent de (x - 16 * k) else file_byte dp s x)"
    if "x < 16 * Suc (nentries dp s)" for x
  proof -
    have "x div BSIZE < MAXFILE" using that sz by (intro less_mult_imp_div_less) simp
    then show ?thesis using W(6) u by simp
  qed
  have bk: "backed dp s' 0 (unat (i_size (icache s' dp)))"
  proof -
    have "backed dp s' 0 (unat ?sz)" by (rule B(2)) (use d in \<open>simp_all add: dir_ready_def\<close>)
    moreover have "backed dp s' (16 * k) 16" using B(1) u by simp
    moreover have "16 * k \<le> unat ?sz" using k sz by simp
    ultimately show ?thesis unfolding size backed_def by (simp add: less_max_iff_disj) (metis le_trans not_le)
  qed
  have "room 0 s'" by (rule room_le [OF _ sp]) (use m in \<open>auto simp: dir_room_def\<close>)
  moreover have "16 dvd unat (i_size (icache s' dp))" "unat (i_size (icache s' dp)) \<le> MAXFILE * BSIZE"
    unfolding size using sz k d by (auto simp: max_def dir_ready_def)
  ultimately have dr: "dir_ready dp s'" using w(2) W(9) d bk by (simp add: dir_ready_def)
  have ek: "entry_at dp s' k = decode_dirent (map (encode_dirent de) [0..<16])"
  proof -
    have "map (file_byte dp s') [16 * k..<16 * k + 16] = map (encode_dirent de) [0..<16]"
      using byte k by (intro nth_equalityI) auto
    then show ?thesis by (simp only: entry_at_def)
  qed
  have ej: "entry_at dp s' j = entry_at dp s j" if "j < nentries dp s" "j \<noteq> k" for j
  proof -
    have "map (file_byte dp s') [16 * j..<16 * j + 16] = map (file_byte dp s) [16 * j..<16 * j + 16]"
      using that by (intro map_cong refl) (auto simp: byte)
    then show ?thesis by (simp only: entry_at_def)
  qed
  show ?thesis by (rule that [OF _ dr ne _ _ ej sp]) (use w(1) ek decode_encode_dirent [of de] in simp_all)
qed

lemma dirlink_spec:
  fixes s :: "'a fstate_scheme"
  assumes d: "dir_ready dp s" and m: "dir_room dp s" and fresh: "\<And>j. j < nentries dp s \<Longrightarrow> \<not> hit dp s name j"
  obtains k s' where "dirlink dr dw dp name inum s = Ok (0, s')" "dir_ready dp s'"
    "k \<le> nentries dp s" "nentries dp s' = max (nentries dp s) (Suc k)"
    "k < nentries dp s \<longrightarrow> de_inum (entry_at dp s k) = 0" "de_inum (entry_at dp s' k) = ucast inum"
    "entry_name (entry_at dp s' k) = cstr DIRSIZ name"
    "\<And>j. j < nentries dp s \<Longrightarrow> j \<noteq> k \<Longrightarrow> entry_at dp s' j = entry_at dp s j" "spent 7 s s'"
proof -
  obtain s1 where l: "dirlookup dr dp name s = Ok (None, s1)" "calm s s1"
    using dirlookup_spec [OF d, of dr name] fresh by blast
  note c1 = calm_fs [OF l(2)] dir_ready_calm [OF d l(2)]
  obtain k s2 where k: "dirlink_slot dr dp 0 s1 = Ok (of_nat (16 * k), s2)" "calm s1 s2" "k \<le> nentries dp s1"
    "k < nentries dp s1 \<longrightarrow> de_inum (entry_at dp s1 k) = 0"
    using dirlink_slot_spec [OF c1(5), of 0 dr] by auto
  note c = calm_trans [OF l(2) k(2)] note c2 = calm_fs [OF c] dir_ready_calm [OF d c]
  have m2: "dir_room dp s2"
    using m c2 calmD(5) [OF c] changes_home [OF calmD(4) [OF c]] by (simp add: dir_room_def)
  let ?de = "\<lparr>de_inum = ucast inum, de_name = strncpy (\<lambda>_. 0) name (int DIRSIZ)\<rparr>"
  have k2: "k \<le> nentries dp s2" using k(3) c1(1) c2(1) by simp
  obtain s' where w: "writei dw dp (encode_dirent ?de) (of_nat (16 * k)) 16 s2 = Ok (16, s')" "dir_ready dp s'"
    "nentries dp s' = max (nentries dp s2) (Suc k)" "de_inum (entry_at dp s' k) = de_inum ?de"
    "entry_name (entry_at dp s' k) = cstr DIRSIZ (de_name ?de)"
    "\<And>j. j < nentries dp s2 \<Longrightarrow> j \<noteq> k \<Longrightarrow> entry_at dp s' j = entry_at dp s2 j" "spent 7 s2 s'"
    by (rule put_entry [OF c2(5) m2 k2]) blast
  have "dirlink dr dw dp name inum s = Ok (0, s')"
    using l(1) k(1) w(1) by (simp add: dirlink_def Let_def del: of_nat_mult)
  moreover have "spent 7 s s'" using spent_trans [OF _ w(7), of 0 s] c by (simp add: calm_def)
  ultimately show ?thesis
    using that w(2-6) k(3,4) c1(1,6) c2(1,6) cstr_strncpy [of DIRSIZ] by simp
qed

section \<open>Properties\<close>

text \<open>
  C20. \<open>skipelem\<close> walks a path element by element. It returns 0 exactly on a path that has no
  element (empty or only slashes); otherwise what remains has exactly the elements after the first, starts with no
  slash and is shorter, and the name buffer holds the first element cut to 14 bytes. So \<open>namex\<close> visits the pieces
  of the path between slashes in order, and its loop ends.
\<close>
theorem skipelem_correct:
  "(skipelem path name = None \<longleftrightarrow> path_elems path = []) \<and>
   (\<forall>path' name'. skipelem path name = Some (path', name') \<longrightarrow>
      path_elems path = hd (path_elems path) # path_elems path' \<and> (path' = [] \<or> hd path' \<noteq> slash) \<and>
      length path' < length path \<and>
      (0 \<notin> set path \<longrightarrow> cstr DIRSIZ name' = take DIRSIZ (hd (path_elems path))))"
  using skipelem_elems skipelem_shorter by blast

theorem skipelem_correct_witness:
  "\<exists>name'. skipelem [47, 47, 97, 47, 47, 98] (\<lambda>_. 0) = Some ([98], name') \<and> cstr DIRSIZ name' = [97] \<and>
     path_elems [47, 47, 97, 47, 47, 98] = [[97], [98]]"
proof -
  have "skipelem [47, 47, 97, 47, 47, 98] (\<lambda>_. 0) = Some ([98], (\<lambda>i. if i < 1 then [97] ! i else 0)(1 := 0))"
    by (simp add: skipelem_def slash_def layout_simps Let_def)
  moreover have "path_elems [47, 47, 97, 47, 47, 98] = [[97], [98]]" by (simp add: path_elems_def slash_def)
  ultimately show ?thesis
    using skipelem_correct [of "[47, 47, 97, 47, 47, 98]" "\<lambda>_. 0"] by (auto simp: layout_simps)
qed

text \<open>
  C21. A directory is a table from names to inode numbers. On a well-formed directory \<open>dirlookup\<close> always
  finishes the scan: it answers "not found" exactly when no entry in use has the name, and otherwise asks the inode cache for the number in the first entry
  that has it and returns that entry's offset; nothing on disk or in the log changes. \<open>dirlink\<close> of a name
  that is absent returns 0, fills a free entry (or one appended at the end) and leaves every other entry alone, and
  the next \<open>dirlookup\<close> of that name finds the new inode number (truncated to 16 bits, as the entry stores it).
\<close>
theorem dirlink_dirlookup:
  fixes s :: "'a fstate_scheme"
  assumes d: "dir_ready dp s"
  shows "((\<exists>s'. dirlookup dr dp name s = Ok (None, s') \<and> view s' = view s) \<longleftrightarrow> (\<forall>j < nentries dp s. \<not> hit dp s name j)) \<and>
    (\<forall>j < nentries dp s. hit dp s name j \<and> (\<forall>i < j. \<not> hit dp s name i) \<longrightarrow>
       (\<exists>s'. view s' = view s \<and> icache s' = icache s \<and> dirlookup dr dp name s =
          bnd (iget 1 (ucast (de_inum (entry_at dp s j))) s') (\<lambda>(ip, s). Ok (Some (ip, of_nat (16 * j)), s)))) \<and>
    (dir_room dp s \<and> (\<forall>j < nentries dp s. \<not> hit dp s name j) \<and> (ucast inum :: u16) \<noteq> 0 \<longrightarrow>
       (\<exists>k s' s''. dirlink dr dw dp name inum s = Ok (0, s') \<and> k \<le> nentries dp s \<and>
          (k < nentries dp s \<longrightarrow> de_inum (entry_at dp s k) = 0) \<and> dir_ready dp s' \<and>
          (\<forall>j < nentries dp s. j \<noteq> k \<longrightarrow> entry_at dp s' j = entry_at dp s j) \<and>
          dirlookup dr dp name s' =
            bnd (iget 1 (ucast (ucast inum :: u16)) s'') (\<lambda>(ip, s). Ok (Some (ip, of_nat (16 * k)), s))))"
proof (intro conjI allI impI)
  note L = dirlookup_spec [OF d, of dr name]
  have no: "bnd m (\<lambda>(ip, s). Ok (Some (ip, off), s)) \<noteq> Ok (None, t)" for m :: "(nat \<times> 'a fstate_scheme) res" and off :: u32 and t
    by (auto simp: res_simps)
  show "(\<exists>s'. dirlookup dr dp name s = Ok (None, s') \<and> view s' = view s) \<longleftrightarrow> (\<forall>j < nentries dp s. \<not> hit dp s name j)"
    using L
  proof (elim disjE exE conjE)
    fix s' assume "dirlookup dr dp name s = Ok (None, s')" "calm s s'" "\<forall>j < nentries dp s. \<not> hit dp s name j"
    then show ?thesis using calmD(2) by blast
  next
    fix j s' assume j: "j < nentries dp s" "hit dp s name j" and e: "dirlookup dr dp name s =
      bnd (iget 1 (ucast (de_inum (entry_at dp s j))) s') (\<lambda>(ip, s). Ok (Some (ip, of_nat (16 * j)), s))"
    show ?thesis unfolding e using no j by blast
  qed
  fix j assume j: "j < nentries dp s" "hit dp s name j \<and> (\<forall>i < j. \<not> hit dp s name i)"
  from L j obtain k s' where k: "k < nentries dp s" "hit dp s name k" "\<forall>i < k. \<not> hit dp s name i" "calm s s'"
    "dirlookup dr dp name s = bnd (iget 1 (ucast (de_inum (entry_at dp s k))) s') (\<lambda>(ip, s). Ok (Some (ip, of_nat (16 * k)), s))"
    by blast
  have "k = j" using k(2,3) j(2) by (metis linorder_neqE_nat)
  then show "\<exists>s'. view s' = view s \<and> icache s' = icache s \<and> dirlookup dr dp name s =
      bnd (iget 1 (ucast (de_inum (entry_at dp s j))) s') (\<lambda>(ip, s). Ok (Some (ip, of_nat (16 * j)), s))"
    using k(4,5) calmD(2) calm_fs(1) by blast
next
  assume a: "dir_room dp s \<and> (\<forall>j < nentries dp s. \<not> hit dp s name j) \<and> (ucast inum :: u16) \<noteq> 0"
  obtain k s' where w: "dirlink dr dw dp name inum s = Ok (0, s')" "dir_ready dp s'"
    "k \<le> nentries dp s" "nentries dp s' = max (nentries dp s) (Suc k)"
    "k < nentries dp s \<longrightarrow> de_inum (entry_at dp s k) = 0" "de_inum (entry_at dp s' k) = ucast inum"
    "entry_name (entry_at dp s' k) = cstr DIRSIZ name"
    "\<And>j. j < nentries dp s \<Longrightarrow> j \<noteq> k \<Longrightarrow> entry_at dp s' j = entry_at dp s j"
    using dirlink_spec [OF d, where dr = dr and dw = dw and name = name and inum = inum] a by (metis (full_types))
  have k: "k < nentries dp s'" "hit dp s' name k" using w(3,4,6,7) a by (auto simp: hit_def)
  have miss: "\<not> hit dp s' name i" if "i < nentries dp s'" "i \<noteq> k" for i
  proof -
    have i: "i < nentries dp s" using that w(3,4) by (auto simp: max_def split: if_splits)
    then show ?thesis using w(8) [OF i that(2)] a by (simp add: hit_def)
  qed
  obtain s'' where "dirlookup dr dp name s' =
      bnd (iget 1 (ucast (ucast inum :: u16)) s'') (\<lambda>(ip, s). Ok (Some (ip, of_nat (16 * k)), s))"
    using dirlookup_spec [OF w(2), of dr name] k miss w(6) by metis
  then show "\<exists>k s' s''. dirlink dr dw dp name inum s = Ok (0, s') \<and> k \<le> nentries dp s \<and>
          (k < nentries dp s \<longrightarrow> de_inum (entry_at dp s k) = 0) \<and> dir_ready dp s' \<and>
          (\<forall>j < nentries dp s. j \<noteq> k \<longrightarrow> entry_at dp s' j = entry_at dp s j) \<and>
          dirlookup dr dp name s' =
            bnd (iget 1 (ucast (ucast inum :: u16)) s'') (\<lambda>(ip, s). Ok (Some (ip, of_nat (16 * k)), s))"
    using w by blast
qed

definition demo_dir :: fstate where
  "demo_dir = upd_inode 0 (\<lambda>x. x\<lparr>i_type := T_DIR\<rparr>) demo_fs"

lemma demo_dir_fields [simp]:
  "icache demo_dir 0 = demo_inode\<lparr>i_type := T_DIR\<rparr>" "view demo_dir = view demo_fs" "fsb demo_dir = demo_sb"
  by (simp_all add: demo_dir_def upd_inode_def)

lemma demo_dir_ready: "dir_ready 0 demo_dir" "dir_room 0 demo_dir" "j < 32 \<Longrightarrow> \<not> hit 0 demo_dir name j"
proof -
  have "home demo_dir b = home demo_fs b" for b by (simp add: demo_dir_def home_def)
  then have g: "geom demo_dir" using demo_geom by (simp add: geom_def demo_dir_def)
  have "fs_ready 0 demo_dir"
  proof -
    have "ready {} demo_dir" using demo_fs_ready by (simp add: fs_ready_def demo_dir_def upd_inode_def)
    then show ?thesis using g demo_map_ok demo_tree_ok readyD(2) by (auto simp: fs_ready_def fs_ok_def demo_inode_def)
  qed
  moreover have m: "room c demo_dir \<longleftrightarrow> room c demo_fs" for c by (simp add: room_def demo_dir_def)
  moreover have "backed 0 demo_dir 0 512"
    by (simp add: backed_def demo_inode_def path_of_def layout_simps)
  ultimately show "dir_ready 0 demo_dir"
    using demo_room [of 0] by (simp add: dir_ready_def) (simp add: demo_inode_def layout_simps)
  have "nfree demo_dir = nfree demo_fs" by (simp add: nfree_def)
  then show "dir_room 0 demo_dir"
    using demo_nfree demo_iblock demo_room [of 7] m \<open>\<And>b. home demo_dir b = home demo_fs b\<close>
    by (simp add: dir_room_def demo_inode_def layout_simps)
  have v0: "view demo_fs 70 = (\<lambda>_. 0)" by (simp add: demo_fs_view)
  have z: "file_byte 0 demo_dir x = 0" if "x div BSIZE < MAXFILE" for x
  proof -
    note p = dpath_vpath [OF path_of_dpath [OF that]]
    show ?thesis using demo_sa [OF p] v0 by (simp add: fbyte_def cont_def demo_inode_def)
  qed
  assume j: "j < 32"
  have "map (file_byte 0 demo_dir) [16 * j..<16 * j + 16] = map (\<lambda>_. 0) [16 * j..<16 * j + 16]"
    by (intro map_cong refl z) (use j in \<open>auto simp: layout_simps\<close>)
  then have "entry_at 0 demo_dir j = decode_dirent (replicate 16 0)"
    unfolding entry_at_def by (simp only: map_replicate_const length_upt) simp
  then show "\<not> hit 0 demo_dir name j" by (simp add: hit_def decode_dirent_def ld16_def Let_def)
qed

theorem dirlink_dirlookup_witness:
  "\<exists>k s' s''. dirlink (\<lambda>_. None) (\<lambda>_. None) 0 (\<lambda>i. if i = 0 then 97 else 0) 5 demo_dir = Ok (0, s') \<and>
     dirlookup (\<lambda>_. None) 0 (\<lambda>i. if i = 0 then 97 else 0) s' =
       bnd (iget 1 5 s'') (\<lambda>(ip, s). Ok (Some (ip, of_nat (16 * k)), s))"
proof -
  have "unat (i_size (icache demo_dir 0)) div 16 = 32" by (simp add: demo_inode_def)
  moreover have "(ucast (5 :: u32) :: u16) \<noteq> 0" "(ucast (ucast (5 :: u32) :: u16) :: u32) = 5" by simp_all
  ultimately show ?thesis
    using dirlink_dirlookup [OF demo_dir_ready(1), of "\<lambda>_. None" "\<lambda>i. if i = 0 then 97 else 0" 5 "\<lambda>_. None"]
      demo_dir_ready(2,3) by (auto simp del: of_nat_mult)
qed

end
