(* ===== verification/Pipe.thy ===== *)
theory Pipe
  imports Prelude
begin

text \<open>
  The ring buffer of a pipe (\<open>pipe.c\<close>), one critical section at a time: from \<open>acquire(&p->lock)\<close> to the
  matching release, or to \<open>sleep\<close>, which gives the lock up. A section that goes to sleep says where it
  will resume. The counters \<open>nread\<close> and \<open>nwrite\<close> are 32-bit and wrap.

  The lemmas show that the ring holds a queue of at most 512 bytes, that writers append to it and
  readers take from its front, and that a writer and a reader are never asleep at the same time.
\<close>

section \<open>Model\<close>

definition PIPESIZE :: u32 where "PIPESIZE = 512"

record pipe =
  pdata :: bytes
  nread :: u32
  nwrite :: u32
  readopen :: bool
  writeopen :: bool

text \<open>The initialisation in \<open>pipealloc\<close>; the data array keeps whatever the page held.\<close>

definition pipe_init :: "bytes \<Rightarrow> pipe" where
  "pipe_init d = \<lparr>pdata = d, nread = 0, nwrite = 0, readopen = True, writeopen = True\<rparr>"

text \<open>\<open>Inl r\<close>: the call returns \<open>r\<close>. \<open>Inr i\<close>: it sleeps and will go on with byte \<open>i\<close>.\<close>

function pipewrite_from :: "bool \<Rightarrow> bytes \<Rightarrow> int \<Rightarrow> int \<Rightarrow> pipe \<Rightarrow> (int + int) \<times> pipe" where
  "pipewrite_from killed addr i n p =
     (if i < n then
        if nwrite p = nread p + PIPESIZE then
          if \<not> readopen p \<or> killed then (Inl (-1), p) else (Inr i, p)
        else
          pipewrite_from killed addr (i + 1) n
            (p\<lparr>pdata := (pdata p)(unat (nwrite p mod PIPESIZE) := addr (nat i)), nwrite := nwrite p + 1\<rparr>)
      else (Inl n, p))"
  by pat_completeness auto
termination by (relation "measure (\<lambda>(k, a, i, n, p). nat (n - i))") auto

declare pipewrite_from.simps [simp del]

function piperead_copy :: "int \<Rightarrow> int \<Rightarrow> pipe \<Rightarrow> u8 list \<times> pipe" where
  "piperead_copy i n p =
     (if i < n \<and> nread p \<noteq> nwrite p then
        let (bs, p') = piperead_copy (i + 1) n (p\<lparr>nread := nread p + 1\<rparr>) in
        (pdata p (unat (nread p mod PIPESIZE)) # bs, p')
      else ([], p))"
  by pat_completeness auto
termination by (relation "measure (\<lambda>(i, n, p). nat (n - i))") auto

declare piperead_copy.simps [simp del]

definition piperead_from :: "bool \<Rightarrow> int \<Rightarrow> pipe \<Rightarrow> (int + unit) \<times> u8 list \<times> pipe" where
  "piperead_from killed n p =
     (if nread p = nwrite p \<and> writeopen p then
        if killed then (Inl (-1), [], p) else (Inr (), [], p)
      else
        let (bs, p) = piperead_copy 0 n p in
        (Inl (int (length bs)), bs, p))"

definition pipe_shut :: "bool \<Rightarrow> pipe \<Rightarrow> pipe" where
  "pipe_shut writable p = (if writable then p\<lparr>writeopen := False\<rparr> else p\<lparr>readopen := False\<rparr>)"

section \<open>The ring holds a queue\<close>

definition fill :: "pipe \<Rightarrow> nat" where "fill p = unat (nwrite p - nread p)"

definition pipe_ok :: "pipe \<Rightarrow> bool" where "pipe_ok p \<longleftrightarrow> fill p \<le> 512"

definition ring :: "pipe \<Rightarrow> nat \<Rightarrow> u8" where
  "ring p k = pdata p (unat ((nread p + of_nat k) mod PIPESIZE))"

definition queue_of :: "pipe \<Rightarrow> u8 list" where
  "queue_of p = map (ring p) [0..<fill p]"

lemma length_queue_of [simp]: "length (queue_of p) = fill p"
  by (simp add: queue_of_def)

lemma fill_empty: "fill p = 0 \<longleftrightarrow> nread p = nwrite p"
  by (auto simp: fill_def unat_eq_0)

lemma fill_full:
  assumes "pipe_ok p"
  shows "nwrite p = nread p + PIPESIZE \<longleftrightarrow> fill p = 512"
proof -
  have "nwrite p = nread p + PIPESIZE \<longleftrightarrow> nwrite p - nread p = 512" by (auto simp: PIPESIZE_def algebra_simps)
  also have "\<dots> \<longleftrightarrow> fill p = unat (512 :: u32)" by (simp only: fill_def word_unat_eq_iff)
  finally show ?thesis by simp
qed

lemma unat_mod_512: "unat ((w :: u32) mod PIPESIZE) = unat w mod 512"
  by (simp add: PIPESIZE_def unat_mod)

lemma ring_index: "unat ((nread p + of_nat k) mod PIPESIZE) = (unat (nread p) + k) mod 512"
proof -
  have "unat (nread p + of_nat k) mod 512 = (unat (nread p) + k) mod 2 ^ 32 mod 512"
    by (simp add: unat_word_ariths unsigned_of_nat take_bit_eq_mod mod_add_right_eq)
  also have "\<dots> = (unat (nread p) + k) mod 512" by (simp add: mod_mod_cancel)
  finally show ?thesis by (simp add: unat_mod_512)
qed

lemma nwrite_index: "unat (nwrite p mod PIPESIZE) = (unat (nread p) + fill p) mod 512"
proof -
  have "nwrite p = nread p + of_nat (fill p)" by (simp add: fill_def)
  then show ?thesis using ring_index [of p "fill p"] by simp
qed

lemma push_byte:
  fixes c :: u8
  assumes "pipe_ok p" "fill p < 512"
  defines "p' \<equiv> p\<lparr>pdata := (pdata p)(unat (nwrite p mod PIPESIZE) := c), nwrite := nwrite p + 1\<rparr>"
  shows "pipe_ok p'" "queue_of p' = queue_of p @ [c]" "fill p' = Suc (fill p)"
proof -
  have "fill p' = unat (nwrite p - nread p + 1)" by (simp add: fill_def p'_def diff_add_eq)
  moreover have "unat (nwrite p - nread p) + unat (1 :: u32) < 2 ^ 32" using assms(2) by (simp add: fill_def)
  ultimately show f: "fill p' = Suc (fill p)"
    using unat_add_u32 [of "nwrite p - nread p" 1] by (simp add: fill_def)
  then show "pipe_ok p'" using assms(2) by (simp add: pipe_ok_def)
  have r: "ring p' k = (if (unat (nread p) + k) mod 512 = (unat (nread p) + fill p) mod 512 then c else ring p k)" for k
    unfolding ring_def p'_def using ring_index [of p k] nwrite_index [of p] by simp
  have "ring p' k = ring p k" if "k < fill p" for k
  proof -
    have "(unat (nread p) + k) mod 512 \<noteq> (unat (nread p) + fill p) mod 512"
    proof
      assume "(unat (nread p) + k) mod 512 = (unat (nread p) + fill p) mod 512"
      then have "512 dvd unat (nread p) + fill p - (unat (nread p) + k)"
        using that by (intro mod_eq_dvd_iff_nat [THEN iffD1]) simp_all
      then have "512 \<le> fill p - k" using that by (intro dvd_imp_le) simp_all
      then show False using assms(2) by simp
    qed
    then show ?thesis by (simp add: r)
  qed
  moreover have "ring p' (fill p) = c" by (simp add: r)
  ultimately show "queue_of p' = queue_of p @ [c]" by (simp add: queue_of_def f)
qed

lemma pop_byte:
  assumes "pipe_ok p" "nread p \<noteq> nwrite p"
  defines "p' \<equiv> p\<lparr>nread := nread p + 1\<rparr>"
  shows "pipe_ok p'" "queue_of p = pdata p (unat (nread p mod PIPESIZE)) # queue_of p'" "Suc (fill p') = fill p"
proof -
  have "fill p' = unat (nwrite p - nread p - 1)" by (simp add: fill_def p'_def diff_diff_eq)
  moreover have "nwrite p - nread p \<noteq> 0" using assms(2) by simp
  ultimately have f: "fill p' = fill p - 1" "0 < fill p"
    by (simp_all add: fill_def unat_minus_one unat_gt_0)
  then show "Suc (fill p') = fill p" by simp
  show "pipe_ok p'" using assms(1) f by (simp add: pipe_ok_def)
  have r: "ring p' k = ring p (Suc k)" for k
    by (simp add: ring_def p'_def algebra_simps)
  have "[0..<fill p] = 0 # map Suc [0..<fill p']" using f by (simp add: upt_conv_Cons map_Suc_upt)
  then show "queue_of p = pdata p (unat (nread p mod PIPESIZE)) # queue_of p'"
    by (simp add: queue_of_def r comp_def) (simp add: ring_def)
qed

lemma pipewrite_spec:
  assumes "pipe_ok p" "0 \<le> i" "pipewrite_from killed addr i n p = (r, p')"
  shows "\<exists>j \<ge> i. pipe_ok p' \<and> queue_of p' = queue_of p @ map (\<lambda>k. addr (nat k)) [i..j - 1] \<and>
     nread p' = nread p \<and> readopen p' = readopen p \<and> writeopen p' = writeopen p \<and>
     (r = Inl n \<and> j = max i n \<or> i < n \<and> j < n \<and> fill p' = 512 \<and>
       (r = (if \<not> readopen p \<or> killed then Inl (-1) else Inr j)))"
  using assms
proof (induction killed addr i n p arbitrary: r p' rule: pipewrite_from.induct)
  case (1 killed addr i n p)
  show ?case
  proof (cases "i < n \<and> nwrite p \<noteq> nread p + PIPESIZE")
    case False
    then show ?thesis
      using "1.prems" fill_full [OF "1.prems"(1)]
      by (intro exI [of _ i]) (auto simp: pipewrite_from.simps [of killed addr i n p] split: if_splits)
  next
    case True
    let ?q = "p\<lparr>pdata := (pdata p)(unat (nwrite p mod PIPESIZE) := addr (nat i)), nwrite := nwrite p + 1\<rparr>"
    have lt: "fill p < 512" using True fill_full [OF "1.prems"(1)] "1.prems"(1) by (auto simp: pipe_ok_def)
    note P = push_byte [OF "1.prems"(1) lt, of "addr (nat i)"]
    have e: "pipewrite_from killed addr (i + 1) n ?q = (r, p')"
      using "1.prems"(3) True by (simp add: pipewrite_from.simps [of killed addr i n p])
    obtain j where j: "j \<ge> i + 1" "pipe_ok p'" "queue_of p' = queue_of ?q @ map (\<lambda>k. addr (nat k)) [i + 1..j - 1]"
      "nread p' = nread p" "readopen p' = readopen p" "writeopen p' = writeopen p"
      "r = Inl n \<and> j = max (i + 1) n \<or> i + 1 < n \<and> j < n \<and> fill p' = 512 \<and> (r = (if \<not> readopen p \<or> killed then Inl (-1) else Inr j))"
      using "1.IH" [OF _ _ P(1) _ e] True "1.prems"(2) by auto
    have "[i..j - 1] = i # [i + 1..j - 1]" using j(1) by (subst upto.simps) simp
    then show ?thesis using j P(2) True by (intro exI [of _ j]) auto
  qed
qed

lemma piperead_copy_spec:
  assumes "pipe_ok p" "0 \<le> i" "piperead_copy i n p = (bs, p')"
  shows "pipe_ok p' \<and> queue_of p = bs @ queue_of p' \<and> int (length bs) = min (max 0 (n - i)) (int (fill p)) \<and>
     nwrite p' = nwrite p \<and> readopen p' = readopen p \<and> writeopen p' = writeopen p"
  using assms
proof (induction i n p arbitrary: bs p' rule: piperead_copy.induct)
  case (1 i n p)
  show ?case
  proof (cases "i < n \<and> nread p \<noteq> nwrite p")
    case False
    then show ?thesis using "1.prems" fill_empty [of p] by (auto simp: piperead_copy.simps [of i n p])
  next
    case True
    let ?q = "p\<lparr>nread := nread p + 1\<rparr>"
    note P = pop_byte [OF "1.prems"(1) conjunct2 [OF True]]
    obtain cs where e: "piperead_copy (i + 1) n ?q = (cs, p')" "bs = pdata p (unat (nread p mod PIPESIZE)) # cs"
      using "1.prems"(3) True by (auto simp: piperead_copy.simps [of i n p] split: prod.splits)
    show ?thesis using "1.IH" [OF True P(1) _ e(1)] "1.prems"(2) P(2,3) e(2) True by auto
  qed
qed

section \<open>A writer and a reader\<close>

text \<open>
  One process writes to the pipe and one reads from it, each either outside the pipe code, inside a
  call (about to run its critical section) or asleep in the call; \<open>wakeup\<close> makes a sleeper run its
  section again. \<open>sent\<close> records the bytes of the caller's buffer that the write sections have consumed, as many as the counter \<open>nwrite\<close>
  has moved, \<open>got_bytes\<close> the bytes that readers got, and \<open>aborted\<close> that a write gave up with -1 (the writer was killed, or no reader is left).
\<close>

datatype 'c agent = Outside | Inside 'c | Asleep 'c

record psys =
  pp :: pipe
  writer :: "(bytes \<times> int \<times> int) agent"
  reader :: "int agent"
  sent :: "u8 list"
  got_bytes :: "u8 list"
  aborted :: bool

primrec wake :: "'c agent \<Rightarrow> 'c agent" where
  "wake Outside = Outside"
| "wake (Inside c) = Inside c"
| "wake (Asleep c) = Inside c"

definition consumed :: "bytes \<Rightarrow> int \<Rightarrow> pipe \<Rightarrow> pipe \<Rightarrow> u8 list" where
  "consumed addr i p p' = map (\<lambda>k. addr (nat i + k)) [0..<unat (nwrite p' - nwrite p)]"

inductive pipe_step :: "psys \<Rightarrow> psys \<Rightarrow> bool" where
  call_write: "writer s = Outside \<Longrightarrow> writeopen (pp s) \<Longrightarrow> pipe_step s (s\<lparr>writer := Inside (addr, 0, n)\<rparr>)"
| write_return: "writer s = Inside (addr, i, n) \<Longrightarrow> pipewrite_from killed addr i n (pp s) = (Inl r, p) \<Longrightarrow>
     pipe_step s (s\<lparr>pp := p, writer := Outside, reader := (if r = n then wake (reader s) else reader s),
       sent := sent s @ consumed addr i (pp s) p, aborted := aborted s \<or> r \<noteq> n\<rparr>)"
| write_sleep: "writer s = Inside (addr, i, n) \<Longrightarrow> pipewrite_from killed addr i n (pp s) = (Inr j, p) \<Longrightarrow>
     pipe_step s (s\<lparr>pp := p, writer := Asleep (addr, j, n), reader := wake (reader s),
       sent := sent s @ consumed addr i (pp s) p\<rparr>)"
| call_read: "reader s = Outside \<Longrightarrow> readopen (pp s) \<Longrightarrow> pipe_step s (s\<lparr>reader := Inside n\<rparr>)"
| read_return: "reader s = Inside n \<Longrightarrow> piperead_from killed n (pp s) = (Inl r, bs, p) \<Longrightarrow>
     pipe_step s (s\<lparr>pp := p, reader := Outside, writer := (if r = -1 then writer s else wake (writer s)),
       got_bytes := got_bytes s @ bs\<rparr>)"
| read_sleep: "reader s = Inside n \<Longrightarrow> piperead_from killed n (pp s) = (Inr u, bs, p) \<Longrightarrow>
     pipe_step s (s\<lparr>pp := p, reader := Asleep n\<rparr>)"
| close_write: "writer s = Outside \<Longrightarrow> pipe_step s (s\<lparr>pp := pipe_shut True (pp s), reader := wake (reader s)\<rparr>)"
| close_read: "reader s = Outside \<Longrightarrow> pipe_step s (s\<lparr>pp := pipe_shut False (pp s), writer := wake (writer s)\<rparr>)"
| kill_writer: "pipe_step s (s\<lparr>writer := wake (writer s)\<rparr>)"
| kill_reader: "pipe_step s (s\<lparr>reader := wake (reader s)\<rparr>)"

inductive pipe_reach :: "bytes \<Rightarrow> psys \<Rightarrow> bool" for d where
  start: "pipe_reach d \<lparr>pp = pipe_init d, writer = Outside, reader = Outside, sent = [], got_bytes = [], aborted = False\<rparr>"
| step: "pipe_reach d s \<Longrightarrow> pipe_step s t \<Longrightarrow> pipe_reach d t"

definition index_ok :: "(bytes \<times> int \<times> int) agent \<Rightarrow> bool" where
  "index_ok w \<longleftrightarrow> (case w of Outside \<Rightarrow> True | Inside (_, i, _) \<Rightarrow> 0 \<le> i | Asleep (_, i, _) \<Rightarrow> 0 \<le> i)"

definition asleep :: "'c agent \<Rightarrow> bool" where
  "asleep w \<longleftrightarrow> (\<exists>c. w = Asleep c)"

definition pipe_inv :: "psys \<Rightarrow> bool" where
  "pipe_inv s \<longleftrightarrow> pipe_ok (pp s) \<and> sent s = got_bytes s @ queue_of (pp s) \<and> index_ok (writer s) \<and>
     (asleep (writer s) \<longrightarrow> fill (pp s) = 512 \<and> readopen (pp s)) \<and>
     (asleep (reader s) \<longrightarrow> \<not> asleep (writer s) \<and> writeopen (pp s) \<and> (fill (pp s) = 0 \<or> aborted s))"

lemma wake_facts [simp]: "\<not> asleep (wake w)" "index_ok (wake v) = index_ok v" "\<not> asleep Outside" "\<not> asleep (Inside c)" "asleep (Asleep c)"
  by (cases w; cases v; auto simp: asleep_def index_ok_def)+

lemma index_ok_simps [simp]: "index_ok Outside" "index_ok (Inside (a, i, n)) \<longleftrightarrow> 0 \<le> i" "index_ok (Asleep (a, i, n)) \<longleftrightarrow> 0 \<le> i"
  by (simp_all add: index_ok_def)

lemma queue_shut [simp]: "queue_of (pipe_shut w p) = queue_of p" "fill (pipe_shut w p) = fill p" "pipe_ok (pipe_shut w p) = pipe_ok p"
  "readopen (pipe_shut True p) = readopen p" "writeopen (pipe_shut False p) = writeopen p"
  by (simp_all add: pipe_shut_def queue_of_def ring_def [abs_def] fill_def pipe_ok_def)

lemma consumed_upto:
  assumes "0 \<le> i" "i \<le> j" "queue_of p' = queue_of p @ map (\<lambda>k. addr (nat k)) [i..j - 1]" "nread p' = nread p"
  shows "map (\<lambda>k. addr (nat k)) [i..j - 1] = consumed addr i p p'"
proof -
  have f: "fill p' = fill p + nat (j - i)" using arg_cong [OF assms(3), of length] by simp
  have e: "nwrite p' - nwrite p = (nwrite p' - nread p') - (nwrite p - nread p)" by (simp add: assms(4))
  have "nwrite p - nread p \<le> nwrite p' - nread p'" using f by (simp add: fill_def word_le_nat_alt)
  then have "unat (nwrite p' - nwrite p) = fill p' - fill p" unfolding e fill_def by (rule unat_sub)
  then have n: "unat (nwrite p' - nwrite p) = nat (j - i)" using f by simp
  have "[i..j - 1] = map (\<lambda>k. i + int k) [0..<nat (j - i)]" by (rule nth_equalityI) (simp_all add: nth_upto)
  then show ?thesis unfolding consumed_def n using assms(1) by (simp add: nat_add_distrib comp_def)
qed

lemma write_section:
  assumes "pipe_inv s" "writer s = Inside (addr, i, n)" "pipewrite_from killed addr i n (pp s) = (r, p)"
  obtains j where "pipe_ok p" "0 \<le> j" "queue_of p = queue_of (pp s) @ consumed addr i (pp s) p"
    "readopen p = readopen (pp s)" "writeopen p = writeopen (pp s)"
    "r = Inl n \<or> fill p = 512 \<and> r = (if \<not> readopen (pp s) \<or> killed then Inl (-1) else Inr j)"
proof -
  have i: "0 \<le> i" and ok: "pipe_ok (pp s)"
    using assms(1,2) by (auto simp: pipe_inv_def index_ok_def)
  from pipewrite_spec [OF ok i assms(3)] obtain j where j: "j \<ge> i" "pipe_ok p"
    "queue_of p = queue_of (pp s) @ map (\<lambda>k. addr (nat k)) [i..j - 1]" "nread p = nread (pp s)" "readopen p = readopen (pp s)"
    "writeopen p = writeopen (pp s)"
    "r = Inl n \<and> j = max i n \<or> i < n \<and> j < n \<and> fill p = 512 \<and> (r = (if \<not> readopen (pp s) \<or> killed then Inl (-1) else Inr j))"
    by blast
  note c = consumed_upto [OF i j(1,3,4)]
  show ?thesis by (rule that [of j, OF j(2) _ j(3) [unfolded c]]) (use j i in auto)
qed

lemma read_section:
  assumes "pipe_inv s" "piperead_from killed n (pp s) = (r, bs, p)"
  shows "pipe_ok p" "got_bytes s @ queue_of (pp s) = (got_bytes s @ bs) @ queue_of p" "readopen p = readopen (pp s)"
    "writeopen p = writeopen (pp s)" "r = Inr () \<or> r = Inl (-1) \<Longrightarrow> p = pp s \<and> bs = [] \<and> fill p = 0 \<and> writeopen p"
proof -
  have ok: "pipe_ok (pp s)" using assms(1) by (simp add: pipe_inv_def)
  obtain cs q where c: "piperead_copy 0 n (pp s) = (cs, q)" by fastforce
  note C = piperead_copy_spec [OF ok _ c, simplified]
  note all = assms(2) [unfolded piperead_from_def c prod.case Let_def]
  show "pipe_ok p" "got_bytes s @ queue_of (pp s) = (got_bytes s @ bs) @ queue_of p" "readopen p = readopen (pp s)"
    "writeopen p = writeopen (pp s)" "r = Inr () \<or> r = Inl (-1) \<Longrightarrow> p = pp s \<and> bs = [] \<and> fill p = 0 \<and> writeopen p"
    using all C ok fill_empty [of "pp s"] by (auto split: if_splits)
qed

lemma pipe_step_inv: "pipe_step s t \<Longrightarrow> pipe_inv s \<Longrightarrow> pipe_inv t"
proof (induction rule: pipe_step.induct)
  case (write_return s addr i n killed r p)
  obtain j: "pipe_ok p" "queue_of p = queue_of (pp s) @ consumed addr i (pp s) p"
    "readopen p = readopen (pp s)" "writeopen p = writeopen (pp s)"
    by (rule write_section [OF write_return(3,1,2)]) blast
  show ?case
    using write_return(1,3) j by (cases "r = n") (simp_all add: pipe_inv_def)
next
  case (write_sleep s addr i n killed k p)
  obtain j where j: "pipe_ok p" "0 \<le> j" "queue_of p = queue_of (pp s) @ consumed addr i (pp s) p"
    "readopen p = readopen (pp s)" "writeopen p = writeopen (pp s)"
    "Inr k = (Inl n :: int + int) \<or> fill p = 512 \<and> (Inr k :: int + int) = (if \<not> readopen (pp s) \<or> killed then Inl (-1) else Inr j)"
    by (rule write_section [OF write_sleep(3,1,2)])
  then have "fill p = 512" "readopen p" "k = j" by (auto split: if_splits)
  with j(1-3) write_sleep(3) show ?case by (simp add: pipe_inv_def)
next
  case (read_return s n killed r bs p)
  note R = read_section [OF read_return(3,2)]
  show ?case
  proof (cases "r = -1")
    case True
    then show ?thesis using R read_return(1,3) by (auto simp: pipe_inv_def)
  next
    case False
    then show ?thesis using R read_return(1,3) by (auto simp: pipe_inv_def)
  qed
next
  case (read_sleep s n killed u bs p)
  note R = read_section [OF read_sleep(3,2)]
  show ?case using R read_sleep(1,3) by (auto simp: pipe_inv_def)
qed (auto simp: pipe_inv_def)

lemma pipe_reach_inv: "pipe_reach d s \<Longrightarrow> pipe_inv s"
proof (induction rule: pipe_reach.induct)
  case start
  show ?case by (simp add: pipe_inv_def pipe_init_def pipe_ok_def queue_of_def fill_def index_ok_def)
qed (rule pipe_step_inv)

section \<open>Properties\<close>

text \<open>
  C22. A pipe delivers what was written, in order, and its two ends never wait for each other. In
  every reachable state of a writer and a reader, over any number of calls, interleavings, closes, kills and wrap-arounds of the
  32-bit counters: the bytes the writer's calls have consumed from their buffers are exactly the bytes read followed by the at most 512 still in the ring;
  the writer sleeps only when the ring is full and a reader is there; the reader sleeps only while the
  write end is open, and only on an empty ring unless some write gave up; and never are both asleep.
\<close>
theorem pipe_stream:
  assumes "pipe_reach d s"
  shows "sent s = got_bytes s @ queue_of (pp s) \<and> length (queue_of (pp s)) \<le> 512 \<and>
    (asleep (writer s) \<longrightarrow> fill (pp s) = 512 \<and> readopen (pp s) \<and> \<not> asleep (reader s)) \<and>
    (asleep (reader s) \<longrightarrow> writeopen (pp s) \<and> (fill (pp s) = 0 \<or> aborted s))"
  using pipe_reach_inv [OF assms] by (auto simp: pipe_inv_def pipe_ok_def)

text \<open>
  C23. What one call moves. A write section appends a prefix of the caller's remaining bytes to the queue and stops
  only when all are in (it returns \<open>n\<close>) or the ring is full: then it sleeps, or returns -1 if no reader is left or the caller was killed.
  A read section returns the first \<open>min n fill\<close> bytes of the queue and leaves the rest; it returns 0 bytes on an empty ring exactly
  when the write end is closed, and otherwise sleeps (or returns -1 when killed).
\<close>
theorem pipe_sections:
  assumes "pipe_ok p"
  shows "(0 \<le> i \<longrightarrow> (\<exists>j \<ge> i. \<exists>r p'. pipewrite_from killed addr i n p = (r, p') \<and> pipe_ok p' \<and>
       queue_of p' = queue_of p @ map (\<lambda>k. addr (nat k)) [i..j - 1] \<and>
       (r = Inl n \<and> j = max i n \<or> j < n \<and> fill p' = 512 \<and> r = (if \<not> readopen p \<or> killed then Inl (-1) else Inr j)))) \<and>
    (0 \<le> m \<longrightarrow> (\<exists>r bs p'. piperead_from killed m p = (r, bs, p') \<and> pipe_ok p' \<and>
       (if queue_of p = [] \<and> writeopen p then r = (if killed then Inl (-1) else Inr ()) \<and> bs = [] \<and> p' = p
        else bs = take (nat m) (queue_of p) \<and> queue_of p' = drop (nat m) (queue_of p) \<and> r = Inl (int (length bs)))))"
proof (intro conjI impI)
  assume i: "0 \<le> i"
  obtain r p' where e: "pipewrite_from killed addr i n p = (r, p')" by fastforce
  show "\<exists>j \<ge> i. \<exists>r p'. pipewrite_from killed addr i n p = (r, p') \<and> pipe_ok p' \<and>
       queue_of p' = queue_of p @ map (\<lambda>k. addr (nat k)) [i..j - 1] \<and>
       (r = Inl n \<and> j = max i n \<or> j < n \<and> fill p' = 512 \<and> r = (if \<not> readopen p \<or> killed then Inl (-1) else Inr j))"
    using pipewrite_spec [OF assms i e] e by blast
next
  assume m: "0 \<le> m"
  have emp: "queue_of p = [] \<longleftrightarrow> nread p = nwrite p" by (simp add: fill_empty flip: length_0_conv)
  obtain bs p' where e: "piperead_copy 0 m p = (bs, p')" by fastforce
  note C = piperead_copy_spec [OF assms _ e, simplified]
  have "int (length bs) = min m (int (fill p))" using C m by simp
  then have len: "length bs = min (nat m) (fill p)" using m by linarith
  have "fill p = length bs + length (queue_of p')" using C length_queue_of [of p] by (metis length_append)
  then have q: "bs = take (nat m) (queue_of p)" "queue_of p' = drop (nat m) (queue_of p)"
    using C len by (auto simp: min_def simp del: length_queue_of split: if_splits)
  show "\<exists>r bs p'. piperead_from killed m p = (r, bs, p') \<and> pipe_ok p' \<and>
       (if queue_of p = [] \<and> writeopen p then r = (if killed then Inl (-1) else Inr ()) \<and> bs = [] \<and> p' = p
        else bs = take (nat m) (queue_of p) \<and> queue_of p' = drop (nat m) (queue_of p) \<and> r = Inl (int (length bs)))"
  proof (cases "queue_of p = [] \<and> writeopen p")
    case True
    then show ?thesis using assms emp by (simp add: piperead_from_def)
  next
    case False
    then have "piperead_from killed m p = (Inl (int (length bs)), bs, p')"
      using e emp by (auto simp: piperead_from_def)
    moreover have "pipe_ok p'" using C by blast
    ultimately show ?thesis unfolding if_not_P [OF False] using q by blast
  qed
qed

definition demo_pipe :: pipe where
  "demo_pipe = \<lparr>pdata = (\<lambda>_. 0), nread = 0xFFFFFFFF, nwrite = 0xFFFFFFFF, readopen = True, writeopen = True\<rparr>"

theorem pipe_sections_witness:
  "\<exists>p' p''. pipewrite_from False (\<lambda>k. of_nat k + 5) 0 3 demo_pipe = (Inl 3, p') \<and> queue_of p' = [5, 6, 7] \<and>
     piperead_from False 2 p' = (Inl 2, [5, 6], p'') \<and> queue_of p'' = [7]"
proof -
  have ok: "pipe_ok demo_pipe" "queue_of demo_pipe = []" "fill demo_pipe = 0"
    by (simp_all add: demo_pipe_def pipe_ok_def fill_def queue_of_def)
  obtain j r p' where w: "pipewrite_from False (\<lambda>k. of_nat k + 5) 0 3 demo_pipe = (r, p')" "pipe_ok p'" "0 \<le> j"
    "queue_of p' = map (\<lambda>k. of_nat (nat k) + 5) [0..j - 1]" "r = Inl 3 \<and> j = max 0 3 \<or> j < 3 \<and> fill p' = 512"
    using conjunct1 [OF pipe_sections [OF ok(1), of 0 False "\<lambda>k. of_nat k + 5" 3 0]] ok(2) by auto
  have "j = 3 \<and> r = Inl 3"
  proof (rule ccontr)
    assume "\<not> (j = 3 \<and> r = Inl 3)"
    then have "j < 3" "length (queue_of p') = 512" using w(5) by auto
    then show False using w(3,4) by simp
  qed
  then have w': "queue_of p' = [5, 6, 7]" "r = Inl 3" using w(4) by (simp_all add: upto.simps)
  obtain r2 bs p'' where "piperead_from False 2 p' = (r2, bs, p'')" "bs = take 2 (queue_of p')"
    "queue_of p'' = drop 2 (queue_of p')" "r2 = Inl (int (length bs))"
    using conjunct2 [OF pipe_sections [OF w(2), of 0 False "\<lambda>_. 0" 0 2]] w'(1) by auto
  then show ?thesis using w(1) w' by auto
qed

theorem pipe_stream_witness:
  "\<exists>s. pipe_reach (\<lambda>_. 0) s \<and> asleep (reader s) \<and> sent s = got_bytes s @ queue_of (pp s) \<and> fill (pp s) = 0"
proof -
  let ?s0 = "\<lparr>pp = pipe_init (\<lambda>_. 0), writer = Outside, reader = Outside, sent = [], got_bytes = [], aborted = False\<rparr>"
  let ?s2 = "?s0\<lparr>reader := Inside 4, reader := Asleep 4\<rparr>"
  have "pipe_step ?s0 (?s0\<lparr>reader := Inside 4\<rparr>)" by (rule call_read) (simp_all add: pipe_init_def)
  moreover have "pipe_step (?s0\<lparr>reader := Inside 4\<rparr>) (?s0\<lparr>reader := Inside 4, pp := pipe_init (\<lambda>_. 0), reader := Asleep 4\<rparr>)"
    by (rule read_sleep [where killed = False and bs = "[]" and u = "()"]) (simp_all add: piperead_from_def pipe_init_def)
  ultimately have r: "pipe_reach (\<lambda>_. 0) ?s2" using pipe_reach.step [OF pipe_reach.step [OF pipe_reach.start]] by simp
  from pipe_stream [OF r] r show ?thesis by (intro exI [of _ ?s2]) auto
qed

text \<open>
  C38. A write that gives up does not wake the reader. With the reader asleep on an empty pipe, a writer that
  was killed puts 512 bytes into the ring, finds it full and returns -1 without \<open>wakeup(&p->nread)\<close>: the reader stays asleep although
  the ring is full and the write end open, until some later write or close.
\<close>
theorem pipe_lost_wakeup:
  "\<exists>s. pipe_reach d s \<and> asleep (reader s) \<and> writer s = Outside \<and> writeopen (pp s) \<and> length (queue_of (pp s)) = 512"
proof -
  let ?p = "pipe_init d"
  let ?s0 = "\<lparr>pp = ?p, writer = Outside, reader = Outside, sent = [], got_bytes = [], aborted = False\<rparr>"
  let ?s2 = "?s0\<lparr>reader := Asleep 1\<rparr>" let ?s3 = "?s2\<lparr>writer := Inside (\<lambda>_. 0, 0, 513)\<rparr>"
  have "pipe_step ?s0 (?s0\<lparr>reader := Inside 1\<rparr>)" by (rule call_read) (simp_all add: pipe_init_def)
  moreover have "pipe_step (?s0\<lparr>reader := Inside 1\<rparr>) (?s0\<lparr>reader := Inside 1, pp := ?p, reader := Asleep 1\<rparr>)"
    by (rule read_sleep [where killed = False and bs = "[]" and u = "()"]) (simp_all add: piperead_from_def pipe_init_def)
  ultimately have "pipe_reach d ?s2" using pipe_reach.step [OF pipe_reach.step [OF pipe_reach.start]] by simp
  moreover have "pipe_step ?s2 ?s3" by (rule call_write) (simp_all add: pipe_init_def)
  ultimately have s3: "pipe_reach d ?s3" by (rule pipe_reach.step)
  have ok: "pipe_ok ?p" "queue_of ?p = []" by (simp_all add: pipe_init_def pipe_ok_def fill_def queue_of_def)
  obtain r p' where e: "pipewrite_from True (\<lambda>_. 0) 0 513 ?p = (r, p')" by fastforce
  have "fill p' = 512 \<and> r = Inl (-1) \<and> writeopen p'"
    using pipewrite_spec [OF ok(1) _ e] ok(2) by (auto simp: pipe_ok_def pipe_init_def simp flip: length_queue_of)
  then show ?thesis
    using pipe_reach.step [OF s3 write_return [where addr = "\<lambda>_. 0" and i = 0 and n = 513 and killed = True and r = "-1" and p = p']] e
    by auto
qed

end
