(* ===== verification/System.thy ===== *)
theory System
  imports Fs_Dir Pipe Vm_User
begin

text \<open>
  The state of the whole kernel as one process sees it while it runs in the kernel: the file system
  state extended with physical memory, the open-file table, the pipes, the process table and the
  clock (\<open>proc.h\<close>, \<open>file.h\<close>). On top of it: the page-fault case of \<open>trap\<close> in \<open>trap.c\<close>, which this kernel uses to
  allocate memory lazily, access to user memory by kernel code, which runs into that case, and the
  argument-fetching functions of \<open>syscall.c\<close>.

  Pointers to table entries are indices; pointers into memory are addresses; trap frames and saved
  contexts lie in the memory of the kernel stack. A process that would sleep does not get further in
  this model (\<open>Blocked\<close>).
\<close>

section \<open>State\<close>

definition NPROC :: nat where "NPROC = 64"
definition NOFILE :: nat where "NOFILE = 16"
definition NFILE :: nat where "NFILE = 100"
definition KSTACKSIZE :: u32 where "KSTACKSIZE = 4096"
definition MAXARG :: nat where "MAXARG = 32"

datatype procstate = UNUSED | EMBRYO | SLEEPING | RUNNABLE | RUNNING | ZOMBIE

text \<open>The addresses processes sleep on: a process, the counters of a pipe, the tick counter, the console input.\<close>

datatype chan = ChProc nat | ChNread u32 | ChNwrite u32 | ChTicks | ChInput

record proc =
  p_sz :: u32
  p_pgdir :: u32
  p_kstack :: u32
  p_state :: procstate
  p_pid :: u32
  p_parent :: "nat option"
  p_tf :: u32
  p_context :: u32
  p_chan :: "chan option"
  p_killed :: bool
  p_ofile :: "nat \<Rightarrow> nat option"
  p_cwd :: "nat option"
  p_name :: bytes

datatype fdtype = FD_NONE | FD_PIPE | FD_INODE

record kfile =
  f_type :: fdtype
  f_ref :: int
  f_readable :: bool
  f_writable :: bool
  f_pipe :: u32
  f_ip :: nat
  f_off :: u32

record sysstate = fstate +
  km :: kmem
  ftab :: "nat \<Rightarrow> kfile"
  pipes :: "u32 \<Rightarrow> pipe"
  procs :: "nat \<Rightarrow> proc"
  cur :: "nat option"
  nextpid :: u32
  initproc :: "nat option"
  ticks :: u32

definition upd_proc :: "nat \<Rightarrow> (proc \<Rightarrow> proc) \<Rightarrow> 'a sysstate_scheme \<Rightarrow> 'a sysstate_scheme" where
  "upd_proc p f s = s\<lparr>procs := (procs s)(p := f (procs s p))\<rparr>"

definition upd_file :: "nat \<Rightarrow> (kfile \<Rightarrow> kfile) \<Rightarrow> 'a sysstate_scheme \<Rightarrow> 'a sysstate_scheme" where
  "upd_file f g s = s\<lparr>ftab := (ftab s)(f := g (ftab s f))\<rparr>"

text \<open>\<open>myproc()\<close>; its callers dereference the result.\<close>

definition myproc :: "'a sysstate_scheme \<Rightarrow> nat res" where
  "myproc s = (case cur s of Some p \<Rightarrow> Ok p | None \<Rightarrow> Panic ''null pointer'')"

section \<open>Trap frames\<close>

text \<open>Offsets of the fields of \<open>struct trapframe\<close> that C code uses, and its size.\<close>

definition TF_EAX :: u32 where "TF_EAX = 28"
definition TF_ES :: u32 where "TF_ES = 40"
definition TF_DS :: u32 where "TF_DS = 44"
definition TF_TRAPNO :: u32 where "TF_TRAPNO = 48"
definition TF_EIP :: u32 where "TF_EIP = 56"
definition TF_CS :: u32 where "TF_CS = 60"
definition TF_EFLAGS :: u32 where "TF_EFLAGS = 64"
definition TF_ESP :: u32 where "TF_ESP = 68"
definition TF_SS :: u32 where "TF_SS = 72"
definition TF_SIZE :: u32 where "TF_SIZE = 76"

definition kload :: "u32 \<Rightarrow> 'a sysstate_scheme \<Rightarrow> u32" where
  "kload a s = mld32 (kmem_mem (km s)) a"

definition kstore :: "u32 \<Rightarrow> u32 \<Rightarrow> 'a sysstate_scheme \<Rightarrow> 'a sysstate_scheme" where
  "kstore a w s = s\<lparr>km := set_mem a w (km s)\<rparr>"

definition kstore16 :: "u32 \<Rightarrow> u16 \<Rightarrow> 'a sysstate_scheme \<Rightarrow> 'a sysstate_scheme" where
  "kstore16 a w s = s\<lparr>km := (km s)\<lparr>kmem_mem := (kmem_mem (km s))(a := ucast w, a + 1 := ucast (drop_bit 8 w))\<rparr>\<rparr>"

definition tf_get :: "nat \<Rightarrow> u32 \<Rightarrow> 'a sysstate_scheme \<Rightarrow> u32" where
  "tf_get p f s = kload (p_tf (procs s p) + f) s"

definition tf_set :: "nat \<Rightarrow> u32 \<Rightarrow> u32 \<Rightarrow> 'a sysstate_scheme \<Rightarrow> 'a sysstate_scheme" where
  "tf_set p f w s = kstore (p_tf (procs s p) + f) w s"

section \<open>Page faults and user memory\<close>

text \<open>
  The case \<open>T_PGFLT\<close> of \<open>trap\<close>, for a fault at address \<open>va\<close> (\<open>rcr2()\<close>), in user mode or in kernel mode
  (\<open>(tf->cs & 3) == 0\<close>).
\<close>

definition trap_pgflt :: "bool \<Rightarrow> u32 \<Rightarrow> 'a sysstate_scheme \<Rightarrow> 'a sysstate_scheme res" where
  "trap_pgflt user va s =
     (case cur s of
        None \<Rightarrow> Panic ''page fault''
      | Some p \<Rightarrow>
          if \<not> user \<and> va \<ge> p_sz (procs s p) then Panic ''page fault''
          else
            let (mm, k) = kalloc (km s); s = s\<lparr>km := k\<rparr> in
            if mm = 0 then Ok (upd_proc p (\<lambda>x. x\<lparr>p_killed := True\<rparr>) s)
            else
              let k = zero_page mm (km s);
                  (r, k) = mappages (p_pgdir (procs s p)) (PGROUNDDOWN va) PGSIZE (V2P mm) (PTE_W OR PTE_U) k;
                  s = s\<lparr>km := k\<rparr> in
              if r < 0 then
                bnd (kfree mm (km s)) (\<lambda>k.
                Ok (upd_proc p (\<lambda>x. x\<lparr>p_killed := True\<rparr>) (s\<lparr>km := k\<rparr>)))
              else Ok s)"

text \<open>Address translation by the hardware: the kernel address of the byte behind a virtual address.\<close>

definition translate :: "u32 \<Rightarrow> u32 \<Rightarrow> kmem \<Rightarrow> u32 option" where
  "translate pgdir va k =
     (let (pte, k) = walkpgdir pgdir va False k;
          e = mld32 (kmem_mem k) pte in
      if pte = 0 \<or> e AND PTE_P = 0 then None
      else Some (P2V (PTE_ADDR e) + (va AND 0xFFF)))"

text \<open>
  A kernel access to user memory: an absent page faults and the access is retried; if the fault could
  not map the page, the retry faults again without end.
\<close>

definition utouch :: "u32 \<Rightarrow> 'a sysstate_scheme \<Rightarrow> (u32 \<times> 'a sysstate_scheme) res" where
  "utouch va s =
     bnd (myproc s) (\<lambda>p.
     case translate (p_pgdir (procs s p)) va (km s) of
       Some a \<Rightarrow> Ok (a, s)
     | None \<Rightarrow>
         bnd (trap_pgflt False va s) (\<lambda>s.
         case translate (p_pgdir (procs s p)) va (km s) of
           Some a \<Rightarrow> Ok (a, s)
         | None \<Rightarrow> Blocked))"

definition uload :: "u32 \<Rightarrow> 'a sysstate_scheme \<Rightarrow> (u8 \<times> 'a sysstate_scheme) res" where
  "uload va s = bnd (utouch va s) (\<lambda>(a, s). Ok (kmem_mem (km s) a, s))"

definition ustore :: "u32 \<Rightarrow> u8 \<Rightarrow> 'a sysstate_scheme \<Rightarrow> 'a sysstate_scheme res" where
  "ustore va c s = bnd (utouch va s) (\<lambda>(a, s). Ok (s\<lparr>km := (km s)\<lparr>kmem_mem := (kmem_mem (km s))(a := c)\<rparr>\<rparr>))"

primrec uload_bytes :: "nat \<Rightarrow> u32 \<Rightarrow> 'a sysstate_scheme \<Rightarrow> (u8 list \<times> 'a sysstate_scheme) res" where
  "uload_bytes 0 va s = Ok ([], s)"
| "uload_bytes (Suc n) va s =
     bnd (uload va s) (\<lambda>(c, s).
     bnd (uload_bytes n (va + 1) s) (\<lambda>(cs, s).
     Ok (c # cs, s)))"

primrec ustore_bytes :: "u8 list \<Rightarrow> u32 \<Rightarrow> 'a sysstate_scheme \<Rightarrow> 'a sysstate_scheme res" where
  "ustore_bytes [] va s = Ok s"
| "ustore_bytes (c # cs) va s =
     bnd (ustore va c s) (\<lambda>s.
     ustore_bytes cs (va + 1) s)"

definition word_of_bytes :: "u8 list \<Rightarrow> u32" where
  "word_of_bytes bs = ld32 (\<lambda>i. if i < length bs then bs ! i else 0) 0"

definition bytes_of_word :: "u32 \<Rightarrow> u8 list" where
  "bytes_of_word w = map (st32 (\<lambda>_. 0) 0 w) [0..<4]"

section \<open>System call arguments\<close>

text \<open>\<open>None\<close> is the return value -1. The string functions return the string itself, which the callers read.\<close>

definition fetchint :: "u32 \<Rightarrow> 'a sysstate_scheme \<Rightarrow> (u32 option \<times> 'a sysstate_scheme) res" where
  "fetchint addr s =
     bnd (myproc s) (\<lambda>p.
     if addr \<ge> p_sz (procs s p) \<or> addr + 4 > p_sz (procs s p) then Ok (None, s)
     else
       bnd (uload_bytes 4 addr s) (\<lambda>(bs, s).
       Ok (Some (word_of_bytes bs), s)))"

lemma u32_Suc_measure: "a < (ep :: u32) \<Longrightarrow> unat ep - unat (a + 1) < unat ep - unat a"
proof -
  assume h: "a < ep"
  then have "unat a + 1 < 2 ^ 32" using unat_u32_lt [of ep] by (simp add: word_less_nat_alt)
  then have "unat (a + 1) = unat a + 1" using unat_add_u32 [of a 1] by simp
  with h show ?thesis by (simp add: word_less_nat_alt)
qed

function fetchstr_loop :: "u32 \<Rightarrow> u32 \<Rightarrow> 'a sysstate_scheme \<Rightarrow> (u8 list option \<times> 'a sysstate_scheme) res" where
  "fetchstr_loop a ep s =
     (if a < ep then
        bnd (uload a s) (\<lambda>(c, s).
        if c = 0 then Ok (Some [], s)
        else
          bnd (fetchstr_loop (a + 1) ep s) (\<lambda>(cs, s).
          Ok (map_option (\<lambda>cs. c # cs) cs, s)))
      else Ok (None, s))"
  by pat_completeness auto

termination
  by (relation "measure (\<lambda>(a, ep, s). unat ep - unat a)") (auto intro: u32_Suc_measure)

declare fetchstr_loop.simps [simp del]

definition fetchstr :: "u32 \<Rightarrow> 'a sysstate_scheme \<Rightarrow> (u8 list option \<times> 'a sysstate_scheme) res" where
  "fetchstr addr s =
     bnd (myproc s) (\<lambda>p.
     if addr \<ge> p_sz (procs s p) then Ok (None, s)
     else fetchstr_loop addr (p_sz (procs s p)) s)"

definition argint :: "nat \<Rightarrow> 'a sysstate_scheme \<Rightarrow> (u32 option \<times> 'a sysstate_scheme) res" where
  "argint n s =
     bnd (myproc s) (\<lambda>p.
     fetchint (tf_get p TF_ESP s + 4 + 4 * of_nat n) s)"

definition argptr :: "nat \<Rightarrow> u32 \<Rightarrow> 'a sysstate_scheme \<Rightarrow> (u32 option \<times> 'a sysstate_scheme) res" where
  "argptr n sz s =
     bnd (myproc s) (\<lambda>p.
     bnd (argint n s) (\<lambda>(i, s).
     case i of
       None \<Rightarrow> Ok (None, s)
     | Some i \<Rightarrow>
         if sint sz < 0 \<or> i \<ge> p_sz (procs s p) \<or> i + sz > p_sz (procs s p) then Ok (None, s)
         else Ok (Some i, s)))"

definition argstr :: "nat \<Rightarrow> 'a sysstate_scheme \<Rightarrow> (u8 list option \<times> 'a sysstate_scheme) res" where
  "argstr n s =
     bnd (argint n s) (\<lambda>(addr, s).
     case addr of
       None \<Rightarrow> Ok (None, s)
     | Some addr \<Rightarrow> fetchstr addr s)"

section \<open>A concrete state\<close>

text \<open>One running process with two free pages of memory and nothing mapped, over the file system of \<open>demo_fs\<close>.\<close>

definition idle_proc :: proc where
  "idle_proc = \<lparr>p_sz = 0, p_pgdir = 0, p_kstack = 0, p_state = UNUSED, p_pid = 0, p_parent = None, p_tf = 0, p_context = 0,
     p_chan = None, p_killed = False, p_ofile = (\<lambda>_. None), p_cwd = None, p_name = (\<lambda>_. 0)\<rparr>"

definition demo_proc :: proc where
  "demo_proc = idle_proc\<lparr>p_sz := 8192, p_pgdir := 0x80300000, p_state := RUNNING, p_pid := 1\<rparr>"

definition free_file :: kfile where
  "free_file = \<lparr>f_type = FD_NONE, f_ref = 0, f_readable = False, f_writable = False, f_pipe = 0, f_ip = 0, f_off = 0\<rparr>"

definition demo_sys :: sysstate where
  "demo_sys = fstate.extend demo_fs (sysstate.fields demo_vm (\<lambda>_. free_file) (\<lambda>_. pipe_init (\<lambda>_. 0))
     ((\<lambda>_. idle_proc)(0 := demo_proc)) (Some 0) 2 (Some 0) 0)"

lemma demo_sys_fields [simp]:
  "km demo_sys = demo_vm" "ftab demo_sys = (\<lambda>_. free_file)" "procs demo_sys = (\<lambda>_. idle_proc)(0 := demo_proc)"
  "cur demo_sys = Some 0" "nextpid demo_sys = 2" "icache demo_sys = icache demo_fs"
  by (simp_all add: demo_sys_def fstate.defs sysstate.defs)

end
