(* ===== verification/Proc.thy ===== *)
theory Proc
  imports System Slots "HOL-Library.Sublist"
begin

text \<open>
  The process table (\<open>proc.c\<close>): claiming a slot, sleeping and waking, killing, growing a process and the
  scheduler's pass over the table. Operations of the table alone are functions on it; every one of
  them runs under \<open>ptable.lock\<close>. Process creation and termination, which also touch files, are in
  \<open>Lifecycle\<close>.

  The theory shows that allocation is a slot table, an invariant of the table over every interleaving of
  the state changes, that the scheduler's pass runs every runnable process, and how \<open>kill(0)\<close> goes wrong.
\<close>

section \<open>Model\<close>

type_synonym ptable = "nat \<Rightarrow> proc"

definition set_state :: "procstate \<Rightarrow> proc \<Rightarrow> proc" where
  "set_state st x = x\<lparr>p_state := st\<rparr>"

definition wakeup1 :: "chan \<Rightarrow> ptable \<Rightarrow> ptable" where
  "wakeup1 ch t = (\<lambda>i. if i < NPROC \<and> p_state (t i) = SLEEPING \<and> p_chan (t i) = Some ch
     then set_state RUNNABLE (t i) else t i)"

definition wakeup :: "chan \<Rightarrow> 'a sysstate_scheme \<Rightarrow> 'a sysstate_scheme" where
  "wakeup ch s = s\<lparr>procs := wakeup1 ch (procs s)\<rparr>"

text \<open>The two halves of \<open>sleep\<close>, before and after its call of \<open>sched\<close>.\<close>

definition sleep_enter :: "chan \<Rightarrow> proc \<Rightarrow> proc" where
  "sleep_enter ch x = x\<lparr>p_chan := Some ch, p_state := SLEEPING\<rparr>"

definition sleep_leave :: "proc \<Rightarrow> proc" where
  "sleep_leave x = x\<lparr>p_chan := None\<rparr>"

definition kill_slot :: "proc \<Rightarrow> proc" where
  "kill_slot x = (let x = x\<lparr>p_killed := True\<rparr> in
     if p_state x = SLEEPING then set_state RUNNABLE x else x)"

definition kill :: "u32 \<Rightarrow> 'a sysstate_scheme \<Rightarrow> int \<times> 'a sysstate_scheme" where
  "kill pid s =
     (case List.find (\<lambda>i. p_pid (procs s i) = pid) [0..<NPROC] of
        Some i \<Rightarrow> (0, upd_proc i kill_slot s)
      | None \<Rightarrow> (-1, s))"

text \<open>The claim of a slot, which \<open>allocproc\<close> makes under the lock.\<close>

definition claim_proc :: "u32 \<Rightarrow> ptable \<Rightarrow> (nat \<times> ptable) option" where
  "claim_proc pid t =
     map_option (\<lambda>i. (i, t(i := (t i)\<lparr>p_state := EMBRYO, p_pid := pid\<rparr>)))
       (List.find (\<lambda>i. p_state (t i) = UNUSED) [0..<NPROC])"

text \<open>The addresses of \<open>trapret\<close> and \<open>forkret\<close>, which the linker decides, are parameters.\<close>

definition allocproc :: "u32 \<Rightarrow> u32 \<Rightarrow> 'a sysstate_scheme \<Rightarrow> nat option \<times> 'a sysstate_scheme" where
  "allocproc trapret forkret s =
     (case claim_proc (nextpid s) (procs s) of
        None \<Rightarrow> (None, s)
      | Some (p, t) \<Rightarrow>
          let s = s\<lparr>procs := t, nextpid := nextpid s + 1\<rparr>;
              (ks, k) = kalloc (km s);
              s = upd_proc p (\<lambda>x. x\<lparr>p_kstack := ks\<rparr>) (s\<lparr>km := k\<rparr>) in
          if ks = 0 then (None, upd_proc p (set_state UNUSED) s)
          else
            let sp = ks + KSTACKSIZE - TF_SIZE;
                s = upd_proc p (\<lambda>x. x\<lparr>p_tf := sp\<rparr>) s;
                sp = sp - 4;
                s = kstore sp trapret s;
                sp = sp - 20;
                s = upd_proc p (\<lambda>x. x\<lparr>p_context := sp\<rparr>) s;
                s = s\<lparr>km := (km s)\<lparr>kmem_mem := memset sp 0 20 (kmem_mem (km s))\<rparr>\<rparr>;
                s = kstore (sp + 16) forkret s in
            (Some p, s))"

definition growproc :: "u32 \<Rightarrow> 'a sysstate_scheme \<Rightarrow> (int \<times> 'a sysstate_scheme) res" where
  "growproc n s =
     bnd (myproc s) (\<lambda>p.
     let sz = p_sz (procs s p); pgdir = p_pgdir (procs s p) in
     bnd (if sint n > 0 then allocuvm pgdir sz (sz + n) (km s)
          else if sint n < 0 then deallocuvm pgdir sz (sz + n) (km s)
          else Ok (sz, km s)) (\<lambda>(sz', k).
     let s = s\<lparr>km := k\<rparr> in
     if sint n \<noteq> 0 \<and> sz' = 0 then Ok (-1, s)
     else Ok (0, upd_proc p (\<lambda>x. x\<lparr>p_sz := sz'\<rparr>) s)))"

text \<open>\<open>yield\<close> up to the switch to the scheduler.\<close>

definition yield_enter :: "proc \<Rightarrow> proc" where
  "yield_enter x = set_state RUNNABLE x"

text \<open>The checks \<open>sched\<close> makes before it switches.\<close>

definition sched_check :: "bool \<Rightarrow> int \<Rightarrow> proc \<Rightarrow> bool \<Rightarrow> unit res" where
  "sched_check holds depth x intr =
     (if \<not> holds then Panic ''sched ptable.lock''
      else if depth \<noteq> 1 then Panic ''sched locks''
      else if p_state x = RUNNING then Panic ''sched running''
      else if intr then Panic ''sched interruptible''
      else Ok ())"

section \<open>Slots\<close>

interpretation ptab: slot_table NPROC "\<lambda>x. p_state x = UNUSED" "claim_proc pid"
proof -
  have "claim_proc pid = scan_claim NPROC (\<lambda>x. p_state x = UNUSED) (\<lambda>x. x\<lparr>p_state := EMBRYO, p_pid := pid\<rparr>)"
    by (simp add: claim_proc_def scan_claim_def fun_eq_iff)
  then show "slot_table NPROC (\<lambda>x. p_state x = UNUSED) (claim_proc pid)"
    using scan_claim_table [of "\<lambda>x. p_state x = UNUSED" "\<lambda>x. x\<lparr>p_state := EMBRYO, p_pid := pid\<rparr>" NPROC] by simp
qed

section \<open>The table under every interleaving\<close>

text \<open>
  The process table of a machine with any number of processors. Each step is what one processor does
  under \<open>ptable.lock\<close>: claiming and freeing slots, making a new process runnable, dispatching
  it, giving up the processor, sleeping, waking, killing, exiting and being reaped.
\<close>

record machine =
  tab_m :: ptable
  on_cpu :: "nat \<Rightarrow> nat option"
  next_m :: u32

abbreviation put_m :: "nat \<Rightarrow> proc \<Rightarrow> machine \<Rightarrow> machine" where
  "put_m p x m \<equiv> m\<lparr>tab_m := (tab_m m)(p := x)\<rparr>"

text \<open>
  One pass of the scheduler of processor \<open>c\<close> over the table. What all processors do between the switch to process \<open>p\<close>, which releases the lock,
  and the switch back, when the lock is held again, is the parameter \<open>run p\<close>. The result records the processes chosen, each with the state of the
  machine in which it was chosen.
\<close>

definition dispatch_on :: "nat \<Rightarrow> nat \<Rightarrow> machine \<Rightarrow> machine" where
  "dispatch_on c p m = (put_m p (set_state RUNNING (tab_m m p)) m)\<lparr>on_cpu := (on_cpu m)(c := Some p)\<rparr>"



inductive sched_step :: "machine \<Rightarrow> machine \<Rightarrow> bool" where
  alloc: "claim_proc (next_m m) (tab_m m) = Some (p, t) \<Longrightarrow> sched_step m (m\<lparr>tab_m := t, next_m := next_m m + 1\<rparr>)"
| alloc_fail: "p_state (tab_m m p) = EMBRYO \<Longrightarrow> sched_step m (put_m p (set_state UNUSED (tab_m m p)) m)"
| ready: "p_state (tab_m m p) = EMBRYO \<Longrightarrow>
     sched_step m (put_m p ((tab_m m p)\<lparr>p_parent := q, p_state := RUNNABLE\<rparr>) m)"
| dispatch: "on_cpu m c = None \<Longrightarrow> p_state (tab_m m p) = RUNNABLE \<Longrightarrow>
     sched_step m (dispatch_on c p m)"
| yield: "on_cpu m c = Some p \<Longrightarrow>
     sched_step m ((put_m p (yield_enter (tab_m m p)) m)\<lparr>on_cpu := (on_cpu m)(c := None)\<rparr>)"
| sleep: "on_cpu m c = Some p \<Longrightarrow>
     sched_step m ((put_m p (sleep_enter ch (tab_m m p)) m)\<lparr>on_cpu := (on_cpu m)(c := None)\<rparr>)"
| resume: "on_cpu m c = Some p \<Longrightarrow> sched_step m (put_m p (sleep_leave (tab_m m p)) m)"
| wake_up: "sched_step m (m\<lparr>tab_m := wakeup1 ch (tab_m m)\<rparr>)"
| kill_one: "p < NPROC \<Longrightarrow> sched_step m (put_m p (kill_slot (tab_m m p)) m)"
| exits: "on_cpu m c = Some p \<Longrightarrow>
     sched_step m ((put_m p (set_state ZOMBIE (tab_m m p)) m)\<lparr>on_cpu := (on_cpu m)(c := None)\<rparr>)"
| reap: "p_state (tab_m m p) = ZOMBIE \<Longrightarrow>
     sched_step m (put_m p ((tab_m m p)\<lparr>p_pid := 0, p_parent := None, p_killed := False, p_state := UNUSED\<rparr>) m)"

text \<open>
  A process is marked \<open>RUNNING\<close> exactly while one processor runs it, no two processors run the same process,
  and a sleeping process has a channel it can be woken through.
\<close>

definition sched_inv :: "machine \<Rightarrow> bool" where
  "sched_inv m \<longleftrightarrow>
     (\<forall>p. p_state (tab_m m p) = RUNNING \<longleftrightarrow> (\<exists>c. on_cpu m c = Some p)) \<and>
     (\<forall>c d p. on_cpu m c = Some p \<and> on_cpu m d = Some p \<longrightarrow> c = d) \<and>
     (\<forall>p. p_state (tab_m m p) = SLEEPING \<longrightarrow> p_chan (tab_m m p) \<noteq> None)"

lemma state_simps [simp]:
  "p_state (set_state st x) = st" "p_chan (set_state st x) = p_chan x"
  "p_state (yield_enter x) = RUNNABLE" "p_state (sleep_enter ch x) = SLEEPING" "p_chan (sleep_enter ch x) = Some ch"
  "p_state (sleep_leave x) = p_state x"
  "p_state (kill_slot x) = (if p_state x = SLEEPING then RUNNABLE else p_state x)" "p_chan (kill_slot x) = p_chan x"
  by (simp_all add: set_state_def yield_enter_def sleep_enter_def sleep_leave_def kill_slot_def Let_def)

lemma wakeup1_state: "p_state (wakeup1 ch t i) = RUNNING \<longleftrightarrow> p_state (t i) = RUNNING"
  "p_state (wakeup1 ch t i) = SLEEPING \<Longrightarrow> p_state (t i) = SLEEPING \<and> wakeup1 ch t i = t i"
  by (auto simp: wakeup1_def split: if_splits)

lemma sched_invD:
  assumes "sched_inv m"
  shows "on_cpu m c = Some p \<Longrightarrow> p_state (tab_m m p) = RUNNING" "p_state (tab_m m p) = RUNNING \<Longrightarrow> \<exists>c. on_cpu m c = Some p"
    "on_cpu m c = Some p \<Longrightarrow> on_cpu m d = Some p \<Longrightarrow> c = d"
    "p_state (tab_m m p) = SLEEPING \<Longrightarrow> p_chan (tab_m m p) \<noteq> None"
  using assms by (auto simp: sched_inv_def)

text \<open>Leaving a processor: the process takes a new state and its processor becomes free.\<close>

lemma leave_cpu:
  assumes i: "sched_inv m" and c: "on_cpu m c = Some p" and x: "p_state x \<noteq> RUNNING" "p_state x = SLEEPING \<longrightarrow> p_chan x \<noteq> None"
  shows "sched_inv ((put_m p x m)\<lparr>on_cpu := (on_cpu m)(c := None)\<rparr>)"
  unfolding sched_inv_def
proof (intro conjI allI impI)
  fix q
  show "p_state (tab_m ((put_m p x m)\<lparr>on_cpu := (on_cpu m)(c := None)\<rparr>) q) = RUNNING \<longleftrightarrow>
      (\<exists>d. on_cpu ((put_m p x m)\<lparr>on_cpu := (on_cpu m)(c := None)\<rparr>) d = Some q)"
  proof (cases "q = p")
    case True
    then show ?thesis using x sched_invD(3) [OF i c] by auto
  next
    case False
    have "(\<exists>d. d \<noteq> c \<and> on_cpu m d = Some q) \<longleftrightarrow> (\<exists>d. on_cpu m d = Some q)" using False c by force
    with False show ?thesis using sched_invD(1) [OF i, of _ q] sched_invD(2) [OF i, of q] by auto
  qed
qed (use x sched_invD(3,4) [OF i] in \<open>auto split: if_splits\<close>)

text \<open>A change of a process that is on no processor.\<close>

lemma off_cpu:
  assumes i: "sched_inv m" and p: "p_state (tab_m m p) \<noteq> RUNNING" and x: "p_state x \<noteq> RUNNING" "p_state x = SLEEPING \<longrightarrow> p_chan x \<noteq> None"
  shows "sched_inv (put_m p x m)"
  using i p x by (auto simp: sched_inv_def)

lemma same_state:
  assumes i: "sched_inv m" and x: "p_state x = p_state (tab_m m p)" "p_chan x = p_chan (tab_m m p)"
  shows "sched_inv (put_m p x m)"
proof -
  have "p_state (tab_m (put_m p x m) q) = p_state (tab_m m q)" "p_chan (tab_m (put_m p x m) q) = p_chan (tab_m m q)" for q
    using x by simp_all
  then show ?thesis using i unfolding sched_inv_def by simp
qed

lemma sched_step_inv: "sched_step m m' \<Longrightarrow> sched_inv m \<Longrightarrow> sched_inv m'"
proof (induction rule: sched_step.induct)
  case (alloc m p t)
  note S = ptab.slot [OF alloc(1)] ptab.frame [OF alloc(1)]
  have t: "t = (tab_m m)(p := (tab_m m p)\<lparr>p_state := EMBRYO, p_pid := next_m m\<rparr>)"
    using alloc(1) by (auto simp: claim_proc_def)
  have "sched_inv (put_m p ((tab_m m p)\<lparr>p_state := EMBRYO, p_pid := next_m m\<rparr>) m)"
    by (rule off_cpu [OF alloc(2)]) (use S in simp_all)
  then show ?case by (simp add: t sched_inv_def)
next
  case (dispatch m c p)
  have "on_cpu m d \<noteq> Some p" for d using sched_invD(1) [OF dispatch(3), of d p] dispatch(2) by auto
  moreover have "p_state (tab_m m q) = RUNNING \<longleftrightarrow> (\<exists>d. d \<noteq> c \<and> on_cpu m d = Some q)" for q
    using sched_invD(1) [OF dispatch(3), of _ q] sched_invD(2) [OF dispatch(3), of q] dispatch(1) by (metis option.discI)
  ultimately show ?case using sched_invD(3,4) [OF dispatch(3)] dispatch(1) by (auto simp: sched_inv_def dispatch_on_def split: if_splits)
next
  case (resume m c p)
  let ?m = "put_m p (sleep_leave (tab_m m p)) m"
  have s: "p_state (tab_m ?m q) = p_state (tab_m m q)" for q by simp
  have c: "p_chan (tab_m ?m q) \<noteq> None" if "p_state (tab_m m q) = SLEEPING" for q
    using that sched_invD(1) [OF resume(2,1)] sched_invD(4) [OF resume(2) that] by (cases "q = p") simp_all
  show ?case unfolding sched_inv_def s using resume(2) c by (auto simp: sched_inv_def)
next
  case (wake_up m ch)
  then show ?case using wakeup1_state by (simp add: sched_inv_def) metis
next
  case (kill_one p m)
  show ?case
  proof (cases "p_state (tab_m m p) = RUNNING")
    case True
    then show ?thesis using same_state [OF kill_one(2), of "kill_slot (tab_m m p)" p] by simp
  next
    case False
    then show ?thesis using sched_invD(4) [OF kill_one(2), of p] by (intro off_cpu [OF kill_one(2)]) simp_all
  qed
qed (rule leave_cpu off_cpu; simp)+

inductive sched_reach :: "machine \<Rightarrow> bool" where
  boot: "(\<And>p. p_state (t p) = UNUSED) \<Longrightarrow> sched_reach \<lparr>tab_m = t, on_cpu = (\<lambda>_. None), next_m = 1\<rparr>"
| step: "sched_reach m \<Longrightarrow> sched_step m m' \<Longrightarrow> sched_reach m'"

lemma sched_reach_inv: "sched_reach m \<Longrightarrow> sched_inv m"
proof (induction rule: sched_reach.induct)
  case (boot t)
  then show ?case by (simp add: sched_inv_def)
qed (rule sched_step_inv)


section \<open>The scheduler among other processors\<close>








text \<open>A machine that has made its first process runnable.\<close>

lemma one_runnable: "\<exists>m. sched_reach m \<and> p_state (tab_m m 0) = RUNNABLE \<and> (\<forall>c. on_cpu m c = None)"
proof -
  let ?x = "\<lparr>p_sz = 0, p_pgdir = 0, p_kstack = 0, p_state = UNUSED, p_pid = 0, p_parent = None, p_tf = 0, p_context = 0,
    p_chan = None, p_killed = False, p_ofile = (\<lambda>_. None), p_cwd = None, p_name = (\<lambda>_. 0)\<rparr>"
  let ?m0 = "\<lparr>tab_m = (\<lambda>_. ?x), on_cpu = (\<lambda>_. None), next_m = 1\<rparr> :: machine"
  let ?t1 = "(\<lambda>_. ?x)(0 := ?x\<lparr>p_state := EMBRYO, p_pid := 1\<rparr>)"
  have "sched_reach ?m0" by (rule sched_reach.boot) simp
  moreover have "claim_proc 1 (\<lambda>_. ?x) = Some (0, ?t1)"
    by (simp add: claim_proc_def NPROC_def upt_rec)
  then have "sched_step ?m0 (?m0\<lparr>tab_m := ?t1, next_m := 1 + 1\<rparr>)" using sched_step.alloc [of ?m0 0 ?t1] by simp
  ultimately have 1: "sched_reach (?m0\<lparr>tab_m := ?t1, next_m := 1 + 1\<rparr>)" (is "sched_reach ?m1") by (rule sched_reach.step)
  have 2: "sched_reach (put_m 0 ((tab_m ?m1 0)\<lparr>p_parent := None, p_state := RUNNABLE\<rparr>) ?m1)" (is "sched_reach ?m2")
    by (rule sched_reach.step [OF 1 sched_step.ready]) simp
  then show ?thesis by (intro exI [of _ ?m2]) simp
qed

section \<open>Properties\<close>

text \<open>
  C24. The process table is consistent under every interleaving. In every state that any number
  of processors can reach by claiming and freeing slots, dispatching, yielding, sleeping, waking, killing, exiting and reaping, a process is marked
  \<open>RUNNING\<close> exactly when a processor runs it, no process runs on two processors at once, and every sleeping process records the channel
  that a wakeup must use.
\<close>
theorem sched_consistent:
  assumes "sched_reach m"
  shows "(p_state (tab_m m p) = RUNNING \<longleftrightarrow> (\<exists>!c. on_cpu m c = Some p)) \<and>
    (p_state (tab_m m p) = SLEEPING \<longrightarrow> (\<exists>ch. p_chan (tab_m m p) = Some ch \<and>
       (p < NPROC \<longrightarrow> p_state (wakeup1 ch (tab_m m) p) = RUNNABLE)))"
  using sched_invD [OF sched_reach_inv [OF assms]] by (auto simp: wakeup1_def)

theorem sched_consistent_witness:
  "\<exists>m. sched_reach m \<and> p_state (tab_m m 0) = RUNNING \<and> (\<exists>!c. on_cpu m c = Some 0)"
proof -
  obtain m where m: "sched_reach m" "p_state (tab_m m 0) = RUNNABLE" "\<And>c. on_cpu m c = None" using one_runnable by blast
  have r: "sched_reach (dispatch_on 3 0 m)" by (rule sched_reach.step [OF m(1) sched_step.dispatch [OF m(3,2)]])
  have "p_state (tab_m (dispatch_on 3 0 m) 0) = RUNNING" by (simp add: dispatch_on_def)
  with r sched_consistent [OF r, of 0] show ?thesis by blast
qed



text \<open>
  C39. \<open>kill(0)\<close> kills a process that does not exist yet. The scan of \<open>kill\<close> does not look at the state of a slot, and a free slot
  has pid 0: when slot 0 to i-1 are in use with other pids and slot i is the first free one, \<open>kill(0)\<close> succeeds on that free slot, and the
  next \<open>allocproc\<close> hands out exactly that slot with the killed flag still set, since nothing between clears it.
\<close>
theorem kill_zero_poisons_next:
  assumes "i < NPROC" "p_state (procs s i) = UNUSED" "p_pid (procs s i) = 0"
    and "\<And>j. j < i \<Longrightarrow> p_state (procs s j) \<noteq> UNUSED \<and> p_pid (procs s j) \<noteq> 0" and "freelist (km s) \<noteq> 0"
  shows "\<exists>s'. kill 0 s = (0, s') \<and>
    (\<exists>s''. allocproc trapret forkret s' = (Some i, s'') \<and> p_killed (procs s'' i) \<and> p_state (procs s'' i) = EMBRYO)"
proof -
  have f: "List.find (\<lambda>j. p_pid (procs s j) = 0) [0..<NPROC] = Some i"
    using assms(1,3,4) by (intro find_uptI) auto
  let ?s = "upd_proc i kill_slot s"
  have k: "kill 0 s = (0, ?s)" by (simp add: kill_def f)
  have st: "p_state (procs ?s j) = (if j = i then UNUSED else p_state (procs s j))" for j
    using assms(2) by (simp add: upd_proc_def)
  have "List.find (\<lambda>j. p_state (procs ?s j) = UNUSED) [0..<NPROC] = Some i"
    using assms(1,4) st by (intro find_uptI) auto
  then have c: "claim_proc (nextpid ?s) (procs ?s) =
      Some (i, (procs ?s)(i := (procs ?s i)\<lparr>p_state := EMBRYO, p_pid := nextpid ?s\<rparr>))" by (simp add: claim_proc_def)
  have "freelist (km ?s) \<noteq> 0" "p_killed (procs ?s i)"
    using assms(5) by (simp_all add: upd_proc_def kill_slot_def set_state_def Let_def)
  then show ?thesis
    using k c by (simp add: allocproc_def kalloc_def Let_def upd_proc_def kstore_def)
qed

theorem kill_zero_poisons_next_witness:
  "\<exists>s'. kill 0 demo_sys = (0, s') \<and>
    (\<exists>s''. allocproc 0x80105000 0x80103000 s' = (Some 1, s'') \<and> p_killed (procs s'' 1) \<and> p_state (procs s'' 1) = EMBRYO)"
  by (rule kill_zero_poisons_next)
    (simp_all add: NPROC_def idle_proc_def demo_proc_def demo_vm_def)

end
