(* ===== verification/Files.thy ===== *)
theory Files
  imports Proc
begin

text \<open>
  Open files (\<open>file.c\<close>) and the system side of pipes (\<open>pipe.c\<close>): reference counts of the file table,
  dispatch of read, write, stat and close to pipes and inodes, allocation of a pipe's page and files.
  Bytes of a user buffer are fetched before the copy into a pipe or file and stored after the copy out.
  The device switch is a pair of parameters, as in \<open>Fs_Inode\<close>.
\<close>

section \<open>The file table\<close>

definition claim_file :: "(nat \<Rightarrow> kfile) \<Rightarrow> (nat \<times> (nat \<Rightarrow> kfile)) option" where
  "claim_file t =
     map_option (\<lambda>i. (i, t(i := (t i)\<lparr>f_ref := 1\<rparr>))) (List.find (\<lambda>i. f_ref (t i) = 0) [0..<NFILE])"

definition filealloc :: "'a sysstate_scheme \<Rightarrow> nat option \<times> 'a sysstate_scheme" where
  "filealloc s =
     (case claim_file (ftab s) of
        None \<Rightarrow> (None, s)
      | Some (f, t) \<Rightarrow> (Some f, s\<lparr>ftab := t\<rparr>))"

interpretation files: slot_table NFILE "\<lambda>f. f_ref f = 0" claim_file
proof -
  have "claim_file = scan_claim NFILE (\<lambda>f. f_ref f = 0) (\<lambda>f. f\<lparr>f_ref := 1\<rparr>)"
    by (simp add: claim_file_def scan_claim_def fun_eq_iff)
  then show "slot_table NFILE (\<lambda>f. f_ref f = 0) claim_file"
    using scan_claim_table [of "\<lambda>f :: kfile. f_ref f = 0" "\<lambda>f. f\<lparr>f_ref := 1\<rparr>" NFILE] by simp
qed

definition filedup :: "nat \<Rightarrow> 'a sysstate_scheme \<Rightarrow> 'a sysstate_scheme res" where
  "filedup f s =
     (if f_ref (ftab s f) < 1 then Panic ''filedup''
      else Ok (upd_file f (\<lambda>x. x\<lparr>f_ref := f_ref x + 1\<rparr>) s))"

section \<open>Pipes\<close>

definition pipeclose :: "u32 \<Rightarrow> bool \<Rightarrow> 'a sysstate_scheme \<Rightarrow> 'a sysstate_scheme res" where
  "pipeclose p writable s =
     (let s = s\<lparr>pipes := (pipes s)(p := pipe_shut writable (pipes s p))\<rparr>;
          s = wakeup (if writable then ChNread p else ChNwrite p) s in
      if \<not> readopen (pipes s p) \<and> \<not> writeopen (pipes s p) then
        bnd (kfree p (km s)) (\<lambda>k. Ok (s\<lparr>km := k\<rparr>))
      else Ok s)"

definition pipewrite :: "u32 \<Rightarrow> u32 \<Rightarrow> u32 \<Rightarrow> 'a sysstate_scheme \<Rightarrow> (int \<times> 'a sysstate_scheme) res" where
  "pipewrite p addr n s =
     bnd (myproc s) (\<lambda>me.
     bnd (uload_bytes (nat (sint n)) addr s) (\<lambda>(bs, s).
     let (r, q) = pipewrite_from (p_killed (procs s me)) (\<lambda>i. bs ! i) 0 (sint n) (pipes s p);
         s = s\<lparr>pipes := (pipes s)(p := q)\<rparr> in
     case r of
       Inr _ \<Rightarrow> Blocked
     | Inl r \<Rightarrow> Ok (r, if r = sint n then wakeup (ChNread p) s else s)))"

definition piperead :: "u32 \<Rightarrow> u32 \<Rightarrow> u32 \<Rightarrow> 'a sysstate_scheme \<Rightarrow> (int \<times> 'a sysstate_scheme) res" where
  "piperead p addr n s =
     bnd (myproc s) (\<lambda>me.
     let (r, bs, q) = piperead_from (p_killed (procs s me)) (sint n) (pipes s p);
         s = s\<lparr>pipes := (pipes s)(p := q)\<rparr> in
     case r of
       Inr _ \<Rightarrow> Blocked
     | Inl r \<Rightarrow>
         if r = -1 then Ok (r, s)
         else
           bnd (ustore_bytes bs addr s) (\<lambda>s.
           Ok (r, wakeup (ChNwrite p) s)))"

section \<open>Closing, reading and writing\<close>

definition fileclose :: "nat \<Rightarrow> 'a sysstate_scheme \<Rightarrow> 'a sysstate_scheme res" where
  "fileclose f s =
     (if f_ref (ftab s f) < 1 then Panic ''fileclose''
      else
        let s = upd_file f (\<lambda>x. x\<lparr>f_ref := f_ref x - 1\<rparr>) s in
        if f_ref (ftab s f) > 0 then Ok s
        else
          let ff = ftab s f;
              s = upd_file f (\<lambda>x. x\<lparr>f_ref := 0, f_type := FD_NONE\<rparr>) s in
          case f_type ff of
            FD_PIPE \<Rightarrow> pipeclose (f_pipe ff) (f_writable ff) s
          | FD_INODE \<Rightarrow>
              bnd (begin_op s) (\<lambda>s.
              bnd (iput (f_ip ff) s) end_op)
          | FD_NONE \<Rightarrow> Ok s)"

definition pipealloc :: "'a sysstate_scheme \<Rightarrow> ((nat \<times> nat) option \<times> 'a sysstate_scheme) res" where
  "pipealloc s =
     (case filealloc s of
        (None, s) \<Rightarrow> Ok (None, s)
      | (Some f0, s) \<Rightarrow>
          (case filealloc s of
             (None, s) \<Rightarrow> bnd (fileclose f0 s) (\<lambda>s. Ok (None, s))
           | (Some f1, s) \<Rightarrow>
               let (p, k) = kalloc (km s); s = s\<lparr>km := k\<rparr> in
               if p = 0 then
                 bnd (fileclose f0 s) (\<lambda>s.
                 bnd (fileclose f1 s) (\<lambda>s. Ok (None, s)))
               else
                 let s = s\<lparr>pipes := (pipes s)(p := pipe_init (pdata (pipes s p)))\<rparr>;
                     s = upd_file f0 (\<lambda>x. x\<lparr>f_type := FD_PIPE, f_readable := True, f_writable := False, f_pipe := p\<rparr>) s;
                     s = upd_file f1 (\<lambda>x. x\<lparr>f_type := FD_PIPE, f_readable := False, f_writable := True, f_pipe := p\<rparr>) s in
                 Ok (Some (f0, f1), s)))"

definition filestat :: "nat \<Rightarrow> 'a sysstate_scheme \<Rightarrow> (stat option \<times> 'a sysstate_scheme) res" where
  "filestat f s =
     (if f_type (ftab s f) = FD_INODE then
        bnd (ilock (f_ip (ftab s f)) s) (\<lambda>s.
        let st = stati (f_ip (ftab s f)) s in
        bnd (iunlock (f_ip (ftab s f)) s) (\<lambda>s.
        Ok (Some st, s)))
      else Ok (None, s))"

definition fileread :: "'a sysstate_scheme dev_read \<Rightarrow> nat \<Rightarrow> u32 \<Rightarrow> u32 \<Rightarrow> 'a sysstate_scheme \<Rightarrow>
    (int \<times> 'a sysstate_scheme) res" where
  "fileread dr f addr n s =
     (if \<not> f_readable (ftab s f) then Ok (-1, s)
      else case f_type (ftab s f) of
        FD_PIPE \<Rightarrow> piperead (f_pipe (ftab s f)) addr n s
      | FD_INODE \<Rightarrow>
          bnd (ilock (f_ip (ftab s f)) s) (\<lambda>s.
          bnd (readi dr (f_ip (ftab s f)) (f_off (ftab s f)) n s) (\<lambda>(r, bs, s).
          bnd (ustore_bytes bs addr s) (\<lambda>s.
          let s = (if r > 0 then upd_file f (\<lambda>x. x\<lparr>f_off := f_off x + of_int r\<rparr>) s else s) in
          bnd (iunlock (f_ip (ftab s f)) s) (\<lambda>s.
          Ok (r, s)))))
      | FD_NONE \<Rightarrow> Panic ''fileread'')"

definition MAXCHUNK :: int where "MAXCHUNK = (int MAXOPBLOCKS - 1 - 1 - 2) div 2 * 512"

lemma MAXCHUNK_pos: "0 < MAXCHUNK"
  by (simp add: MAXCHUNK_def MAXOPBLOCKS_def)

text \<open>One chunk of a write to an inode, in a transaction of its own.\<close>

definition filewrite_chunk :: "'a sysstate_scheme dev_write \<Rightarrow> nat \<Rightarrow> u32 \<Rightarrow> int \<Rightarrow> 'a sysstate_scheme \<Rightarrow>
    (int \<times> 'a sysstate_scheme) res" where
  "filewrite_chunk dw f addr n1 s =
     bnd (begin_op s) (\<lambda>s.
     bnd (ilock (f_ip (ftab s f)) s) (\<lambda>s.
     bnd (uload_bytes (nat n1) addr s) (\<lambda>(bs, s).
     bnd (writei dw (f_ip (ftab s f)) (\<lambda>i. bs ! i) (f_off (ftab s f)) (of_int n1) s) (\<lambda>(r, s).
     let s = (if r > 0 then upd_file f (\<lambda>x. x\<lparr>f_off := f_off x + of_int r\<rparr>) s else s) in
     bnd (iunlock (f_ip (ftab s f)) s) (\<lambda>s.
     bnd (end_op s) (\<lambda>s.
     Ok (r, s)))))))"

function filewrite_loop :: "'a sysstate_scheme dev_write \<Rightarrow> nat \<Rightarrow> u32 \<Rightarrow> int \<Rightarrow> int \<Rightarrow> 'a sysstate_scheme \<Rightarrow>
    (int \<times> 'a sysstate_scheme) res" where
  "filewrite_loop dw f addr i n s =
     (if i < n then
        let n1 = min (n - i) MAXCHUNK in
        bnd (filewrite_chunk dw f (addr + of_int i) n1 s) (\<lambda>(r, s).
        if r < 0 then Ok (i, s)
        else if r \<noteq> n1 then Panic ''short filewrite''
        else filewrite_loop dw f addr (i + n1) n s)
      else Ok (i, s))"
  by pat_completeness auto
termination
proof (relation "measure (\<lambda>(dw, f, addr, i, n, s). nat (n - i))", goal_cases)
  case (2 dw f addr i n s n1 x r t)
  then show ?case using MAXCHUNK_pos by (simp add: min_def split: if_splits)
qed simp

declare filewrite_loop.simps [simp del]

definition filewrite :: "'a sysstate_scheme dev_write \<Rightarrow> nat \<Rightarrow> u32 \<Rightarrow> u32 \<Rightarrow> 'a sysstate_scheme \<Rightarrow>
    (int \<times> 'a sysstate_scheme) res" where
  "filewrite dw f addr n s =
     (if \<not> f_writable (ftab s f) then Ok (-1, s)
      else case f_type (ftab s f) of
        FD_PIPE \<Rightarrow> pipewrite (f_pipe (ftab s f)) addr n s
      | FD_INODE \<Rightarrow>
          bnd (filewrite_loop dw f addr 0 (sint n) s) (\<lambda>(i, s).
          Ok (if i = sint n then sint n else -1, s))
      | FD_NONE \<Rightarrow> Panic ''filewrite'')"

end
