(* ===== verification/Lifecycle.thy ===== *)
theory Lifecycle
  imports Files
begin

text \<open>
  Creation and end of processes (\<open>proc.c\<close>): the first process, \<open>fork\<close>, \<open>exit\<close> and \<open>wait\<close>. \<open>exit\<close> does not
  return in C; here its result is the state in which it enters the scheduler for the last time.
\<close>

section \<open>Model\<close>

definition DPL_USER :: u16 where "DPL_USER = 3"
definition SEG_UCODE :: u16 where "SEG_UCODE = 3"
definition SEG_UDATA :: u16 where "SEG_UDATA = 4"
definition FL_IF :: u32 where "FL_IF = 0x200"

text \<open>The program image linked into the kernel (\<open>initcode\<close>) and its size are parameters.\<close>

definition userinit :: "'a sysstate_scheme dev_read \<Rightarrow> u32 \<Rightarrow> u32 \<Rightarrow> bytes \<Rightarrow> u32 \<Rightarrow> 'a sysstate_scheme \<Rightarrow>
    'a sysstate_scheme res" where
  "userinit dr trapret forkret initcode len s =
     (case allocproc trapret forkret s of
        (None, s) \<Rightarrow> Panic ''null pointer''
      | (Some p, s) \<Rightarrow>
          let s = s\<lparr>initproc := Some p\<rparr> in
          bnd (setupkvm (km s)) (\<lambda>(d, k).
          let s = upd_proc p (\<lambda>x. x\<lparr>p_pgdir := d\<rparr>) (s\<lparr>km := k\<rparr>) in
          if d = 0 then Panic ''userinit: out of memory?''
          else
            bnd (inituvm d initcode len (km s)) (\<lambda>k.
            let s = upd_proc p (\<lambda>x. x\<lparr>p_sz := PGSIZE\<rparr>) (s\<lparr>km := k\<rparr>);
                tf = p_tf (procs s p);
                s = s\<lparr>km := (km s)\<lparr>kmem_mem := memset tf 0 TF_SIZE (kmem_mem (km s))\<rparr>\<rparr>;
                s = kstore16 (tf + TF_CS) (push_bit 3 SEG_UCODE OR DPL_USER) s;
                s = kstore16 (tf + TF_DS) (push_bit 3 SEG_UDATA OR DPL_USER) s;
                s = kstore16 (tf + TF_ES) (push_bit 3 SEG_UDATA OR DPL_USER) s;
                s = kstore16 (tf + TF_SS) (push_bit 3 SEG_UDATA OR DPL_USER) s;
                s = kstore (tf + TF_EFLAGS) FL_IF s;
                s = kstore (tf + TF_ESP) PGSIZE s;
                s = kstore (tf + TF_EIP) 0 s;
                nm = (\<lambda>i. if i < 8 then [105, 110, 105, 116, 99, 111, 100, 101] ! i else 0);
                s = upd_proc p (\<lambda>x. x\<lparr>p_name := safestrcpy (p_name x) nm 16\<rparr>) s in
            bnd (namei dr 0 [slash] s) (\<lambda>(ip, s).
            Ok (upd_proc p (\<lambda>x. x\<lparr>p_cwd := ip, p_state := RUNNABLE\<rparr>) s)))))"

text \<open>The loop of \<open>fork\<close> that shares the open files of \<open>me\<close> with \<open>np\<close>.\<close>

definition share_fd :: "nat \<Rightarrow> nat \<Rightarrow> nat \<Rightarrow> 'a sysstate_scheme \<Rightarrow> 'a sysstate_scheme res" where
  "share_fd me np i s =
     (case p_ofile (procs s me) i of
        None \<Rightarrow> Ok s
      | Some f \<Rightarrow>
          bnd (filedup f s) (\<lambda>s.
          Ok (upd_proc np (\<lambda>x. x\<lparr>p_ofile := (p_ofile x)(i := Some f)\<rparr>) s)))"

definition fork :: "u32 \<Rightarrow> u32 \<Rightarrow> 'a sysstate_scheme \<Rightarrow> (int \<times> 'a sysstate_scheme) res" where
  "fork trapret forkret s =
     bnd (myproc s) (\<lambda>me.
     case allocproc trapret forkret s of
       (None, s) \<Rightarrow> Ok (-1, s)
     | (Some np, s) \<Rightarrow>
         bnd (copyuvm (p_pgdir (procs s me)) (p_sz (procs s me)) (km s)) (\<lambda>(d, k).
         let s = upd_proc np (\<lambda>x. x\<lparr>p_pgdir := d\<rparr>) (s\<lparr>km := k\<rparr>) in
         if d = 0 then
           bnd (kfree (p_kstack (procs s np)) (km s)) (\<lambda>k.
           Ok (-1, upd_proc np (\<lambda>x. x\<lparr>p_kstack := 0, p_state := UNUSED\<rparr>) (s\<lparr>km := k\<rparr>)))
         else
           let s = upd_proc np (\<lambda>x. x\<lparr>p_sz := p_sz (procs s me), p_parent := Some me\<rparr>) s;
               s = s\<lparr>km := (km s)\<lparr>kmem_mem := memmove (p_tf (procs s np)) (p_tf (procs s me)) TF_SIZE (kmem_mem (km s))\<rparr>\<rparr>;
               s = tf_set np TF_EAX 0 s in
           bnd (foreach (share_fd me np) [0..<NOFILE] s) (\<lambda>s.
           case p_cwd (procs s me) of
             None \<Rightarrow> Panic ''null pointer''
           | Some ip \<Rightarrow>
               let s = upd_proc np (\<lambda>x. x\<lparr>p_cwd := Some ip\<rparr>) (idup ip s);
                   s = upd_proc np (\<lambda>x. x\<lparr>p_name := safestrcpy (p_name x) (p_name (procs s me)) 16\<rparr>) s;
                   pid = p_pid (procs s np) in
               Ok (sint pid, upd_proc np (set_state RUNNABLE) s))))"

definition close_fd :: "nat \<Rightarrow> nat \<Rightarrow> 'a sysstate_scheme \<Rightarrow> 'a sysstate_scheme res" where
  "close_fd me fd s =
     (case p_ofile (procs s me) fd of
        None \<Rightarrow> Ok s
      | Some f \<Rightarrow>
          bnd (fileclose f s) (\<lambda>s.
          Ok (upd_proc me (\<lambda>x. x\<lparr>p_ofile := (p_ofile x)(fd := None)\<rparr>) s)))"

definition wake_proc :: "nat option \<Rightarrow> ptable \<Rightarrow> ptable" where
  "wake_proc q t = (case q of None \<Rightarrow> t | Some q \<Rightarrow> wakeup1 (ChProc q) t)"

text \<open>The loop of \<open>exit\<close> that passes abandoned children to the first process.\<close>

definition reparent :: "nat \<Rightarrow> nat option \<Rightarrow> nat \<Rightarrow> ptable \<Rightarrow> ptable" where
  "reparent me ini p t =
     (if p_parent (t p) = Some me then
        let t = t(p := (t p)\<lparr>p_parent := ini\<rparr>) in
        if p_state (t p) = ZOMBIE then wake_proc ini t else t
      else t)"

definition exit_table :: "nat \<Rightarrow> nat option \<Rightarrow> ptable \<Rightarrow> ptable" where
  "exit_table me ini t =
     (let t = wake_proc (p_parent (t me)) t;
          t = fold (reparent me ini) [0..<NPROC] t in
      t(me := set_state ZOMBIE (t me)))"

definition exit_proc :: "'a sysstate_scheme \<Rightarrow> 'a sysstate_scheme res" where
  "exit_proc s =
     bnd (myproc s) (\<lambda>me.
     if initproc s = Some me then Panic ''init exiting''
     else
       bnd (foreach (close_fd me) [0..<NOFILE] s) (\<lambda>s.
       bnd (begin_op s) (\<lambda>s.
       case p_cwd (procs s me) of
         None \<Rightarrow> Panic ''null pointer''
       | Some ip \<Rightarrow>
           bnd (iput ip s) (\<lambda>s.
           bnd (end_op s) (\<lambda>s.
           let s = upd_proc me (\<lambda>x. x\<lparr>p_cwd := None\<rparr>) s in
           Ok (s\<lparr>procs := exit_table me (initproc s) (procs s)\<rparr>))))))"

definition reap_slot :: "proc \<Rightarrow> proc" where
  "reap_slot x = x\<lparr>p_kstack := 0, p_pid := 0, p_parent := None, p_name := (p_name x)(0 := 0), p_killed := False, p_state := UNUSED\<rparr>"

definition wait :: "'a sysstate_scheme \<Rightarrow> (int \<times> 'a sysstate_scheme) res" where
  "wait s =
     bnd (myproc s) (\<lambda>me.
     case List.find (\<lambda>p. p_parent (procs s p) = Some me \<and> p_state (procs s p) = ZOMBIE) [0..<NPROC] of
       Some p \<Rightarrow>
         let pid = p_pid (procs s p) in
         bnd (kfree (p_kstack (procs s p)) (km s)) (\<lambda>k.
         bnd (freevm (p_pgdir (procs s p)) k) (\<lambda>k.
         Ok (sint pid, upd_proc p reap_slot (s\<lparr>km := k\<rparr>))))
     | None \<Rightarrow>
         if (\<forall>p \<in> set [0..<NPROC]. p_parent (procs s p) \<noteq> Some me) \<or> p_killed (procs s me) then Ok (-1, s)
         else Blocked)"

end
