(* ===== verification/Exec.thy ===== *)
theory Exec
  imports Lifecycle
begin

text \<open>
  Program loading: \<open>loaduvm\<close> of \<open>vm.c\<close> and \<open>exec\<close> of \<open>exec.c\<close>, with the headers of \<open>elf.h\<close>. The address
  space is built in a new page directory and the process switches to it only when nothing can fail
  any more. Arguments are strings already fetched from user memory.
\<close>

section \<open>ELF headers\<close>

definition ELF_MAGIC :: u32 where "ELF_MAGIC = 0x464C457F"
definition ELF_PROG_LOAD :: u32 where "ELF_PROG_LOAD = 1"

definition list_bytes :: "u8 list \<Rightarrow> bytes" where
  "list_bytes bs = (\<lambda>i. if i < length bs then bs ! i else 0)"

record elfhdr =
  e_magic :: u32
  e_entry :: u32
  e_phoff :: u32
  e_phnum :: u16

definition decode_elfhdr :: "u8 list \<Rightarrow> elfhdr" where
  "decode_elfhdr bs = \<lparr>e_magic = ld32 (list_bytes bs) 0, e_entry = ld32 (list_bytes bs) 24,
     e_phoff = ld32 (list_bytes bs) 28, e_phnum = ld16 (list_bytes bs) 44\<rparr>"

record proghdr =
  ph_type :: u32
  ph_off :: u32
  ph_vaddr :: u32
  ph_filesz :: u32
  ph_memsz :: u32

definition decode_proghdr :: "u8 list \<Rightarrow> proghdr" where
  "decode_proghdr bs = \<lparr>ph_type = ld32 (list_bytes bs) 0, ph_off = ld32 (list_bytes bs) 4,
     ph_vaddr = ld32 (list_bytes bs) 8, ph_filesz = ld32 (list_bytes bs) 16, ph_memsz = ld32 (list_bytes bs) 20\<rparr>"

section \<open>Loading\<close>

primrec loaduvm_loop :: "'a sysstate_scheme dev_read \<Rightarrow> u32 list \<Rightarrow> u32 \<Rightarrow> u32 \<Rightarrow> nat \<Rightarrow> u32 \<Rightarrow> u32 \<Rightarrow>
    'a sysstate_scheme \<Rightarrow> (int \<times> 'a sysstate_scheme) res" where
  "loaduvm_loop dr [] pgdir addr ip offset sz s = Ok (0, s)"
| "loaduvm_loop dr (i # is) pgdir addr ip offset sz s =
     (let (pte, k) = walkpgdir pgdir (addr + i) False (km s) in
      if pte = 0 then Panic ''loaduvm: address should exist''
      else
        let pa = PTE_ADDR (mld32 (kmem_mem k) pte);
            n = (if sz - i < PGSIZE then sz - i else PGSIZE) in
        bnd (readi dr ip (offset + i) n s) (\<lambda>(r, bs, s).
        let s = s\<lparr>km := (km s)\<lparr>kmem_mem := put_bytes (P2V pa) (list_bytes bs) 0 (length bs) (kmem_mem (km s))\<rparr>\<rparr> in
        if r \<noteq> sint n then Ok (-1, s)
        else loaduvm_loop dr is pgdir addr ip offset sz s))"

definition loaduvm :: "'a sysstate_scheme dev_read \<Rightarrow> u32 \<Rightarrow> u32 \<Rightarrow> nat \<Rightarrow> u32 \<Rightarrow> u32 \<Rightarrow>
    'a sysstate_scheme \<Rightarrow> (int \<times> 'a sysstate_scheme) res" where
  "loaduvm dr pgdir addr ip offset sz s =
     (if addr mod PGSIZE \<noteq> 0 then Panic ''loaduvm: addr must be page aligned''
      else loaduvm_loop dr (page_steps 0 sz) pgdir addr ip offset sz s)"

text \<open>The loop over the program headers; \<open>None\<close> is \<open>goto bad\<close>.\<close>

primrec load_segments :: "'a sysstate_scheme dev_read \<Rightarrow> nat \<Rightarrow> u32 \<Rightarrow> nat \<Rightarrow> u32 \<Rightarrow> u32 \<Rightarrow>
    'a sysstate_scheme \<Rightarrow> (u32 option \<times> 'a sysstate_scheme) res" where
  "load_segments dr 0 pgdir ip off sz s = Ok (Some sz, s)"
| "load_segments dr (Suc n) pgdir ip off sz s =
     bnd (readi dr ip off 32 s) (\<lambda>(r, bs, s).
     let ph = decode_proghdr bs in
     if r \<noteq> 32 then Ok (None, s)
     else if ph_type ph \<noteq> ELF_PROG_LOAD then load_segments dr n pgdir ip (off + 32) sz s
     else if ph_memsz ph < ph_filesz ph then Ok (None, s)
     else if ph_vaddr ph + ph_memsz ph < ph_vaddr ph then Ok (None, s)
     else
       bnd (allocuvm pgdir sz (ph_vaddr ph + ph_memsz ph) (km s)) (\<lambda>(sz, k).
       let s = s\<lparr>km := k\<rparr> in
       if sz = 0 then Ok (None, s)
       else if ph_vaddr ph mod PGSIZE \<noteq> 0 then Ok (None, s)
       else
         bnd (loaduvm dr pgdir (ph_vaddr ph) ip (ph_off ph) (ph_filesz ph) s) (\<lambda>(r, s).
         if r < 0 then Ok (None, s)
         else load_segments dr n pgdir ip (off + 32) sz s)))"

text \<open>The loop that pushes the argument strings, with the stack pointers recorded so far.\<close>

primrec push_args :: "u8 list list \<Rightarrow> nat \<Rightarrow> u32 list \<Rightarrow> u32 \<Rightarrow> u32 \<Rightarrow> kmem \<Rightarrow> ((u32 list \<times> u32) option \<times> kmem) res" where
  "push_args [] argc us pgdir sp k = Ok (Some (us, sp), k)"
| "push_args (a # as) argc us pgdir sp k =
     (if argc \<ge> MAXARG then Ok (None, k)
      else
        let sp = (sp - (of_nat (length a) + 1)) AND NOT 3 in
        bnd (copyout pgdir sp (list_bytes (a @ [0])) (of_nat (length a) + 1) k) (\<lambda>(r, k).
        if r < 0 then Ok (None, k)
        else push_args as (Suc argc) (us @ [sp]) pgdir sp k))"

text \<open>What \<open>copyout\<close> puts on the new stack: the fake return address, \<open>argc\<close>, the pointer to \<open>argv\<close>, \<open>argv\<close> and a zero.\<close>

definition ustack :: "u32 list \<Rightarrow> u32 \<Rightarrow> u8 list" where
  "ustack us sp =
     (let argc = of_nat (length us) in
      concat (map bytes_of_word ([0xffffffff, argc, sp - (argc + 1) * 4] @ us @ [0])))"

text \<open>The part of \<open>exec\<close> after the file has been closed: the stack, the arguments and the switch.\<close>

definition exec_stack :: "u8 list \<Rightarrow> u8 list list \<Rightarrow> u32 \<Rightarrow> u32 \<Rightarrow> u32 \<Rightarrow> nat \<Rightarrow> 'a sysstate_scheme \<Rightarrow>
    (int \<times> 'a sysstate_scheme) res" where
  "exec_stack path argv pgdir sz entry me s =
     (let bad = (\<lambda>k. bnd (freevm pgdir k) (\<lambda>k. Ok (-1, s\<lparr>km := k\<rparr>)));
          sz = PGROUNDUP sz in
      bnd (allocuvm pgdir sz (sz + 2 * PGSIZE) (km s)) (\<lambda>(sz, k).
      if sz = 0 then bad k
      else
        bnd (clearpteu pgdir (sz - 2 * PGSIZE) k) (\<lambda>k.
        bnd (push_args argv 0 [] pgdir sz k) (\<lambda>(pushed, k).
        case pushed of
          None \<Rightarrow> bad k
        | Some (us, sp) \<Rightarrow>
            let argc = of_nat (length us);
                st = ustack us sp;
                sp = sp - (3 + argc + 1) * 4 in
            bnd (copyout pgdir sp (list_bytes st) ((3 + argc + 1) * 4) k) (\<lambda>(r, k).
            if r < 0 then bad k
            else
              let last = rev (takeWhile (\<lambda>c. c \<noteq> slash) (rev path));
                  s = s\<lparr>km := k\<rparr>;
                  s = upd_proc me (\<lambda>x. x\<lparr>p_name := safestrcpy (p_name x) (list_bytes last) 16\<rparr>) s;
                  oldpgdir = p_pgdir (procs s me);
                  s = upd_proc me (\<lambda>x. x\<lparr>p_pgdir := pgdir, p_sz := sz\<rparr>) s;
                  s = tf_set me TF_EIP entry s;
                  s = tf_set me TF_ESP sp s in
              bnd (freevm oldpgdir (km s)) (\<lambda>k.
              Ok (0, s\<lparr>km := k\<rparr>)))))))"

text \<open>\<open>namei\<close> in the current process.\<close>

definition namei_cur :: "'a sysstate_scheme dev_read \<Rightarrow> u8 list \<Rightarrow> 'a sysstate_scheme \<Rightarrow>
    (nat option \<times> 'a sysstate_scheme) res" where
  "namei_cur dr path s =
     bnd (myproc s) (\<lambda>me.
     case p_cwd (procs s me) of
       Some c \<Rightarrow> namei dr c path s
     | None \<Rightarrow> if path \<noteq> [] \<and> hd path = slash then namei dr 0 path s else Panic ''null pointer'')"

definition nameiparent_cur :: "'a sysstate_scheme dev_read \<Rightarrow> u8 list \<Rightarrow> 'a sysstate_scheme \<Rightarrow>
    (nat option \<times> bytes \<times> 'a sysstate_scheme) res" where
  "nameiparent_cur dr path s =
     bnd (myproc s) (\<lambda>me.
     case p_cwd (procs s me) of
       Some c \<Rightarrow> nameiparent dr c path (\<lambda>_. 0) s
     | None \<Rightarrow> if path \<noteq> [] \<and> hd path = slash then nameiparent dr 0 path (\<lambda>_. 0) s else Panic ''null pointer'')"

definition exec :: "'a sysstate_scheme dev_read \<Rightarrow> u8 list \<Rightarrow> u8 list list \<Rightarrow> 'a sysstate_scheme \<Rightarrow>
    (int \<times> 'a sysstate_scheme) res" where
  "exec dr path argv s =
     bnd (myproc s) (\<lambda>me.
     bnd (begin_op s) (\<lambda>s.
     bnd (namei_cur dr path s) (\<lambda>(found, s).
     case found of
       None \<Rightarrow> bnd (end_op s) (\<lambda>s. Ok (-1, s))
     | Some ip \<Rightarrow>
         bnd (ilock ip s) (\<lambda>s.
         let close = (\<lambda>s. bnd (iunlockput ip s) end_op) in
         bnd (readi dr ip 0 52 s) (\<lambda>(r, bs, s).
         let elf = decode_elfhdr bs in
         if r \<noteq> 52 \<or> e_magic elf \<noteq> ELF_MAGIC then bnd (close s) (\<lambda>s. Ok (-1, s))
         else
           bnd (setupkvm (km s)) (\<lambda>(pgdir, k).
           let s = s\<lparr>km := k\<rparr> in
           if pgdir = 0 then bnd (close s) (\<lambda>s. Ok (-1, s))
           else
             bnd (load_segments dr (unat (e_phnum elf)) pgdir ip (e_phoff elf) 0 s) (\<lambda>(sz, s).
             case sz of
               None \<Rightarrow>
                 bnd (freevm pgdir (km s)) (\<lambda>k.
                 bnd (close (s\<lparr>km := k\<rparr>)) (\<lambda>s.
                 Ok (-1, s)))
             | Some sz \<Rightarrow>
                 bnd (close s) (\<lambda>s.
                 exec_stack path argv pgdir sz (e_entry elf) me s))))))))"

end
