(* ===== verification/Sysfile.thy ===== *)
theory Sysfile
  imports Exec Fcntl
begin

text \<open>
  The system calls on files (\<open>sysfile.c\<close>): argument checking and calls into \<open>Files\<close>, \<open>Fs_Dir\<close> and \<open>Exec\<close>.
  Each handler is a function of the state that returns the value for \<open>eax\<close>.
\<close>

section \<open>Descriptors\<close>

definition argfd :: "nat \<Rightarrow> 'a sysstate_scheme \<Rightarrow> ((nat \<times> nat) option \<times> 'a sysstate_scheme) res" where
  "argfd n s =
     bnd (myproc s) (\<lambda>me.
     bnd (argint n s) (\<lambda>(fd, s).
     case fd of
       None \<Rightarrow> Ok (None, s)
     | Some fd \<Rightarrow>
         if sint fd < 0 \<or> sint fd \<ge> int NOFILE then Ok (None, s)
         else (case p_ofile (procs s me) (nat (sint fd)) of
             None \<Rightarrow> Ok (None, s)
           | Some f \<Rightarrow> Ok (Some (nat (sint fd), f), s))))"

definition claim_fd :: "nat \<Rightarrow> (nat \<Rightarrow> nat option) \<Rightarrow> (nat \<times> (nat \<Rightarrow> nat option)) option" where
  "claim_fd f t = map_option (\<lambda>fd. (fd, t(fd := Some f))) (List.find (\<lambda>fd. t fd = None) [0..<NOFILE])"

definition fdalloc :: "nat \<Rightarrow> 'a sysstate_scheme \<Rightarrow> (nat option \<times> 'a sysstate_scheme) res" where
  "fdalloc f s =
     bnd (myproc s) (\<lambda>me.
     case claim_fd f (p_ofile (procs s me)) of
       None \<Rightarrow> Ok (None, s)
     | Some (fd, t) \<Rightarrow> Ok (Some fd, upd_proc me (\<lambda>x. x\<lparr>p_ofile := t\<rparr>) s))"

interpretation fds: slot_table NOFILE "\<lambda>e :: nat option. e = None" "claim_fd f"
proof -
  have "claim_fd f = scan_claim NOFILE (\<lambda>e. e = None) (\<lambda>_. Some f)"
    by (simp add: claim_fd_def scan_claim_def fun_eq_iff)
  then show "slot_table NOFILE (\<lambda>e :: nat option. e = None) (claim_fd f)"
    using scan_claim_table [of "\<lambda>e :: nat option. e = None" "\<lambda>_. Some f" NOFILE] by simp
qed

definition set_fd :: "nat \<Rightarrow> nat \<Rightarrow> nat option \<Rightarrow> 'a sysstate_scheme \<Rightarrow> 'a sysstate_scheme" where
  "set_fd me fd e s = upd_proc me (\<lambda>x. x\<lparr>p_ofile := (p_ofile x)(fd := e)\<rparr>) s"

definition sys_dup :: "'a sysstate_scheme \<Rightarrow> (int \<times> 'a sysstate_scheme) res" where
  "sys_dup s =
     bnd (argfd 0 s) (\<lambda>(a, s).
     case a of
       None \<Rightarrow> Ok (-1, s)
     | Some (_, f) \<Rightarrow>
         bnd (fdalloc f s) (\<lambda>(fd, s).
         case fd of
           None \<Rightarrow> Ok (-1, s)
         | Some fd \<Rightarrow> bnd (filedup f s) (\<lambda>s. Ok (int fd, s))))"

definition sys_dup2 :: "'a sysstate_scheme \<Rightarrow> (int \<times> 'a sysstate_scheme) res" where
  "sys_dup2 s =
     bnd (myproc s) (\<lambda>me.
     bnd (argfd 0 s) (\<lambda>(a, s).
     case a of
       None \<Rightarrow> Ok (-1, s)
     | Some (fd, f1) \<Rightarrow>
         bnd (argint 1 s) (\<lambda>(fd2, s).
         case fd2 of
           None \<Rightarrow> Ok (-1, s)
         | Some fd2 \<Rightarrow>
             if sint fd2 < 0 \<or> sint fd2 \<ge> int NOFILE then Ok (-1, s)
             else if int fd = sint fd2 then Ok (sint fd2, s)
             else
               bnd (case p_ofile (procs s me) (nat (sint fd2)) of
                      Some f2 \<Rightarrow> fileclose f2 s
                    | None \<Rightarrow> Ok s) (\<lambda>s.
               let s = set_fd me (nat (sint fd2)) (Some f1) s in
               bnd (filedup f1 s) (\<lambda>s.
               Ok (sint fd2, s))))))"

definition sys_read :: "'a sysstate_scheme dev_read \<Rightarrow> 'a sysstate_scheme \<Rightarrow> (int \<times> 'a sysstate_scheme) res" where
  "sys_read dr s =
     bnd (argfd 0 s) (\<lambda>(a, s).
     case a of
       None \<Rightarrow> Ok (-1, s)
     | Some (_, f) \<Rightarrow>
         bnd (argint 2 s) (\<lambda>(n, s).
         case n of
           None \<Rightarrow> Ok (-1, s)
         | Some n \<Rightarrow>
             bnd (argptr 1 n s) (\<lambda>(p, s).
             case p of
               None \<Rightarrow> Ok (-1, s)
             | Some p \<Rightarrow> fileread dr f p n s)))"

definition sys_write :: "'a sysstate_scheme dev_write \<Rightarrow> 'a sysstate_scheme \<Rightarrow> (int \<times> 'a sysstate_scheme) res" where
  "sys_write dw s =
     bnd (argfd 0 s) (\<lambda>(a, s).
     case a of
       None \<Rightarrow> Ok (-1, s)
     | Some (_, f) \<Rightarrow>
         bnd (argint 2 s) (\<lambda>(n, s).
         case n of
           None \<Rightarrow> Ok (-1, s)
         | Some n \<Rightarrow>
             bnd (argptr 1 n s) (\<lambda>(p, s).
             case p of
               None \<Rightarrow> Ok (-1, s)
             | Some p \<Rightarrow> filewrite dw f p n s)))"

definition sys_close :: "'a sysstate_scheme \<Rightarrow> (int \<times> 'a sysstate_scheme) res" where
  "sys_close s =
     bnd (myproc s) (\<lambda>me.
     bnd (argfd 0 s) (\<lambda>(a, s).
     case a of
       None \<Rightarrow> Ok (-1, s)
     | Some (fd, f) \<Rightarrow>
         bnd (fileclose f (set_fd me fd None s)) (\<lambda>s.
         Ok (0, s))))"

text \<open>The layout of \<open>struct stat\<close> as the compiler pads it: 20 bytes.\<close>

definition encode_stat :: "stat \<Rightarrow> u8 list" where
  "encode_stat st = map (st32 (st16 (st32 (st32 (st16 (\<lambda>_. 0) 0 (st_type st)) 4 (st_dev st)) 8 (st_ino st)) 12 (st_nlink st))
     16 (st_size st)) [0..<20]"

definition sys_fstat :: "'a sysstate_scheme \<Rightarrow> (int \<times> 'a sysstate_scheme) res" where
  "sys_fstat s =
     bnd (argfd 0 s) (\<lambda>(a, s).
     case a of
       None \<Rightarrow> Ok (-1, s)
     | Some (_, f) \<Rightarrow>
         bnd (argptr 1 20 s) (\<lambda>(p, s).
         case p of
           None \<Rightarrow> Ok (-1, s)
         | Some p \<Rightarrow>
             bnd (filestat f s) (\<lambda>(st, s).
             case st of
               None \<Rightarrow> Ok (-1, s)
             | Some st \<Rightarrow> bnd (ustore_bytes (encode_stat st) p s) (\<lambda>s. Ok (0, s)))))"

section \<open>Links\<close>

definition fail_op :: "'a sysstate_scheme \<Rightarrow> (int \<times> 'a sysstate_scheme) res" where
  "fail_op s = bnd (end_op s) (\<lambda>s. Ok (-1, s))"

text \<open>The label \<open>bad\<close> of \<open>sys_link\<close>: take the link count back.\<close>

definition link_bad :: "nat \<Rightarrow> 'a sysstate_scheme \<Rightarrow> (int \<times> 'a sysstate_scheme) res" where
  "link_bad ip s =
     bnd (ilock ip s) (\<lambda>s.
     bnd (iupdate ip (upd_inode ip (\<lambda>x. x\<lparr>i_nlink := i_nlink x - 1\<rparr>) s)) (\<lambda>s.
     bnd (iunlockput ip s) fail_op))"

definition sys_link :: "'a sysstate_scheme dev_read \<Rightarrow> 'a sysstate_scheme dev_write \<Rightarrow> 'a sysstate_scheme \<Rightarrow>
    (int \<times> 'a sysstate_scheme) res" where
  "sys_link dr dw s =
     bnd (argstr 0 s) (\<lambda>(old, s).
     case old of
       None \<Rightarrow> Ok (-1, s)
     | Some old \<Rightarrow>
     bnd (argstr 1 s) (\<lambda>(new, s).
     case new of
       None \<Rightarrow> Ok (-1, s)
     | Some new \<Rightarrow>
     bnd (begin_op s) (\<lambda>s.
     bnd (namei_cur dr old s) (\<lambda>(found, s).
     case found of
       None \<Rightarrow> fail_op s
     | Some ip \<Rightarrow>
     bnd (ilock ip s) (\<lambda>s.
     if i_type (icache s ip) = T_DIR then bnd (iunlockput ip s) fail_op
     else
       bnd (iupdate ip (upd_inode ip (\<lambda>x. x\<lparr>i_nlink := i_nlink x + 1\<rparr>) s)) (\<lambda>s.
       bnd (iunlock ip s) (\<lambda>s.
       bnd (nameiparent_cur dr new s) (\<lambda>(par, name, s).
       case par of
         None \<Rightarrow> link_bad ip s
       | Some dp \<Rightarrow>
           bnd (ilock dp s) (\<lambda>s.
           bnd (if i_dev (icache s dp) \<noteq> i_dev (icache s ip) then Ok (-1, s)
                else dirlink dr dw dp name (i_inum (icache s ip)) s) (\<lambda>(r, s).
           if r < 0 then bnd (iunlockput dp s) (link_bad ip)
           else
             bnd (iunlockput dp s) (\<lambda>s.
             bnd (iput ip s) (\<lambda>s.
             bnd (end_op s) (\<lambda>s.
             Ok (0, s))))))))))))))"

function isdirempty_loop :: "'a sysstate_scheme dev_read \<Rightarrow> nat \<Rightarrow> u32 \<Rightarrow> 'a sysstate_scheme \<Rightarrow>
    (bool \<times> 'a sysstate_scheme) res" where
  "isdirempty_loop dr dp off s =
     (if off < i_size (icache s dp) then
        bnd (readi dr dp off 16 s) (\<lambda>(r, bs, s).
        if r \<noteq> 16 then Panic ''isdirempty: readi''
        else if de_inum (decode_dirent bs) \<noteq> 0 then Ok (False, s)
        else if off + 16 < off then Blocked
        else isdirempty_loop dr dp (off + 16) s)
      else Ok (True, s))"
  by pat_completeness auto
termination
  by (relation "measure (\<lambda>(dr, dp, off, s). 2 ^ 32 - unat off)") (auto dest: u32_step_measure)

declare isdirempty_loop.simps [simp del]

definition isdirempty :: "'a sysstate_scheme dev_read \<Rightarrow> nat \<Rightarrow> 'a sysstate_scheme \<Rightarrow> (bool \<times> 'a sysstate_scheme) res" where
  "isdirempty dr dp s = isdirempty_loop dr dp 32 s"

definition dot_name :: "nat \<Rightarrow> bytes" where
  "dot_name n = (\<lambda>i. if i < n then 46 else 0)"

definition sys_unlink :: "'a sysstate_scheme dev_read \<Rightarrow> 'a sysstate_scheme dev_write \<Rightarrow> 'a sysstate_scheme \<Rightarrow>
    (int \<times> 'a sysstate_scheme) res" where
  "sys_unlink dr dw s =
     bnd (argstr 0 s) (\<lambda>(path, s).
     case path of
       None \<Rightarrow> Ok (-1, s)
     | Some path \<Rightarrow>
     bnd (begin_op s) (\<lambda>s.
     bnd (nameiparent_cur dr path s) (\<lambda>(par, name, s).
     case par of
       None \<Rightarrow> fail_op s
     | Some dp \<Rightarrow>
     let bad = (\<lambda>s. bnd (iunlockput dp s) fail_op) in
     bnd (ilock dp s) (\<lambda>s.
     if namecmp name (dot_name 1) = 0 \<or> namecmp name (dot_name 2) = 0 then bad s
     else
       bnd (dirlookup dr dp name s) (\<lambda>(found, s).
       case found of
         None \<Rightarrow> bad s
       | Some (ip, off) \<Rightarrow>
       bnd (ilock ip s) (\<lambda>s.
       if sint (i_nlink (icache s ip)) < 1 then Panic ''unlink: nlink < 1''
       else
         bnd (if i_type (icache s ip) = T_DIR then isdirempty dr ip s else Ok (True, s)) (\<lambda>(emp, s).
         if \<not> emp then bnd (iunlockput ip s) bad
         else
           bnd (writei dw dp (\<lambda>_. 0) off 16 s) (\<lambda>(r, s).
           if r \<noteq> 16 then Panic ''unlink: writei''
           else
             bnd (if i_type (icache s ip) = T_DIR
                  then iupdate dp (upd_inode dp (\<lambda>x. x\<lparr>i_nlink := i_nlink x - 1\<rparr>) s) else Ok s) (\<lambda>s.
             bnd (iunlockput dp s) (\<lambda>s.
             bnd (iupdate ip (upd_inode ip (\<lambda>x. x\<lparr>i_nlink := i_nlink x - 1\<rparr>) s)) (\<lambda>s.
             bnd (iunlockput ip s) (\<lambda>s.
             bnd (end_op s) (\<lambda>s.
             Ok (0, s))))))))))))))"

section \<open>Creating and opening\<close>

text \<open>The entries a new directory starts with.\<close>

definition create_dots :: "'a sysstate_scheme dev_read \<Rightarrow> 'a sysstate_scheme dev_write \<Rightarrow> nat \<Rightarrow> nat \<Rightarrow>
    'a sysstate_scheme \<Rightarrow> 'a sysstate_scheme res" where
  "create_dots dr dw dp ip s =
     bnd (iupdate dp (upd_inode dp (\<lambda>x. x\<lparr>i_nlink := i_nlink x + 1\<rparr>) s)) (\<lambda>s.
     bnd (dirlink dr dw ip (dot_name 1) (i_inum (icache s ip)) s) (\<lambda>(r, s).
     if r < 0 then Panic ''create dots''
     else
       bnd (dirlink dr dw ip (dot_name 2) (i_inum (icache s dp)) s) (\<lambda>(r, s).
       if r < 0 then Panic ''create dots'' else Ok s)))"

definition create :: "'a sysstate_scheme dev_read \<Rightarrow> 'a sysstate_scheme dev_write \<Rightarrow> u8 list \<Rightarrow> u16 \<Rightarrow> u16 \<Rightarrow> u16 \<Rightarrow>
    'a sysstate_scheme \<Rightarrow> (nat option \<times> 'a sysstate_scheme) res" where
  "create dr dw path ty major minor s =
     bnd (nameiparent_cur dr path s) (\<lambda>(par, name, s).
     case par of
       None \<Rightarrow> Ok (None, s)
     | Some dp \<Rightarrow>
     bnd (ilock dp s) (\<lambda>s.
     bnd (dirlookup dr dp name s) (\<lambda>(found, s).
     case found of
       Some (ip, _) \<Rightarrow>
         bnd (iunlockput dp s) (\<lambda>s.
         bnd (ilock ip s) (\<lambda>s.
         if ty = T_FILE \<and> i_type (icache s ip) = T_FILE then Ok (Some ip, s)
         else bnd (iunlockput ip s) (\<lambda>s. Ok (None, s))))
     | None \<Rightarrow>
         bnd (ialloc (i_dev (icache s dp)) ty s) (\<lambda>(ip, s).
         bnd (ilock ip s) (\<lambda>s.
         bnd (iupdate ip (upd_inode ip (\<lambda>x. x\<lparr>i_major := major, i_minor := minor, i_nlink := 1\<rparr>) s)) (\<lambda>s.
         bnd (if ty = T_DIR then create_dots dr dw dp ip s else Ok s) (\<lambda>s.
         bnd (dirlink dr dw dp name (i_inum (icache s ip)) s) (\<lambda>(r, s).
         if r < 0 then Panic ''create: dirlink''
         else
           bnd (iunlockput dp s) (\<lambda>s.
           Ok (Some ip, s))))))))))"

text \<open>The end of \<open>sys_open\<close>, once the inode is found or created and locked.\<close>

definition open_file :: "nat \<Rightarrow> u32 \<Rightarrow> 'a sysstate_scheme \<Rightarrow> (int \<times> 'a sysstate_scheme) res" where
  "open_file ip omode s =
     (let bad = (\<lambda>s. bnd (iunlockput ip s) fail_op) in
      case filealloc s of
        (None, s) \<Rightarrow> bad s
      | (Some f, s) \<Rightarrow>
          bnd (fdalloc f s) (\<lambda>(fd, s).
          case fd of
            None \<Rightarrow> bnd (fileclose f s) bad
          | Some fd \<Rightarrow>
              bnd (iunlock ip s) (\<lambda>s.
              bnd (end_op s) (\<lambda>s.
              Ok (int fd, upd_file f (\<lambda>x. x\<lparr>f_type := FD_INODE, f_ip := ip, f_off := 0,
                f_readable := (omode AND O_WRONLY = 0),
                f_writable := (omode AND O_WRONLY \<noteq> 0 \<or> omode AND O_RDWR \<noteq> 0)\<rparr>) s)))))"

definition sys_open :: "'a sysstate_scheme dev_read \<Rightarrow> 'a sysstate_scheme dev_write \<Rightarrow> 'a sysstate_scheme \<Rightarrow>
    (int \<times> 'a sysstate_scheme) res" where
  "sys_open dr dw s =
     bnd (argstr 0 s) (\<lambda>(path, s).
     case path of
       None \<Rightarrow> Ok (-1, s)
     | Some path \<Rightarrow>
     bnd (argint 1 s) (\<lambda>(omode, s).
     case omode of
       None \<Rightarrow> Ok (-1, s)
     | Some omode \<Rightarrow>
     bnd (begin_op s) (\<lambda>s.
     if omode AND O_CREATE \<noteq> 0 then
       bnd (create dr dw path T_FILE 0 0 s) (\<lambda>(ip, s).
       case ip of
         None \<Rightarrow> fail_op s
       | Some ip \<Rightarrow> open_file ip omode s)
     else
       bnd (namei_cur dr path s) (\<lambda>(ip, s).
       case ip of
         None \<Rightarrow> fail_op s
       | Some ip \<Rightarrow>
           bnd (ilock ip s) (\<lambda>s.
           if i_type (icache s ip) = T_DIR \<and> omode \<noteq> O_RDONLY then bnd (iunlockput ip s) fail_op
           else open_file ip omode s)))))"

definition sys_mkdir :: "'a sysstate_scheme dev_read \<Rightarrow> 'a sysstate_scheme dev_write \<Rightarrow> 'a sysstate_scheme \<Rightarrow>
    (int \<times> 'a sysstate_scheme) res" where
  "sys_mkdir dr dw s =
     bnd (begin_op s) (\<lambda>s.
     bnd (argstr 0 s) (\<lambda>(path, s).
     case path of
       None \<Rightarrow> fail_op s
     | Some path \<Rightarrow>
         bnd (create dr dw path T_DIR 0 0 s) (\<lambda>(ip, s).
         case ip of
           None \<Rightarrow> fail_op s
         | Some ip \<Rightarrow>
             bnd (iunlockput ip s) (\<lambda>s.
             bnd (end_op s) (\<lambda>s. Ok (0, s))))))"

definition sys_mknod :: "'a sysstate_scheme dev_read \<Rightarrow> 'a sysstate_scheme dev_write \<Rightarrow> 'a sysstate_scheme \<Rightarrow>
    (int \<times> 'a sysstate_scheme) res" where
  "sys_mknod dr dw s =
     bnd (begin_op s) (\<lambda>s.
     bnd (argstr 0 s) (\<lambda>(path, s).
     case path of
       None \<Rightarrow> fail_op s
     | Some path \<Rightarrow>
     bnd (argint 1 s) (\<lambda>(major, s).
     case major of
       None \<Rightarrow> fail_op s
     | Some major \<Rightarrow>
     bnd (argint 2 s) (\<lambda>(minor, s).
     case minor of
       None \<Rightarrow> fail_op s
     | Some minor \<Rightarrow>
         bnd (create dr dw path T_DEV (ucast major) (ucast minor) s) (\<lambda>(ip, s).
         case ip of
           None \<Rightarrow> fail_op s
         | Some ip \<Rightarrow>
             bnd (iunlockput ip s) (\<lambda>s.
             bnd (end_op s) (\<lambda>s. Ok (0, s))))))))"

definition sys_chdir :: "'a sysstate_scheme dev_read \<Rightarrow> 'a sysstate_scheme \<Rightarrow> (int \<times> 'a sysstate_scheme) res" where
  "sys_chdir dr s =
     bnd (myproc s) (\<lambda>me.
     bnd (begin_op s) (\<lambda>s.
     bnd (argstr 0 s) (\<lambda>(path, s).
     case path of
       None \<Rightarrow> fail_op s
     | Some path \<Rightarrow>
     bnd (namei_cur dr path s) (\<lambda>(found, s).
     case found of
       None \<Rightarrow> fail_op s
     | Some ip \<Rightarrow>
     bnd (ilock ip s) (\<lambda>s.
     if i_type (icache s ip) \<noteq> T_DIR then bnd (iunlockput ip s) fail_op
     else
       bnd (iunlock ip s) (\<lambda>s.
       case p_cwd (procs s me) of
         None \<Rightarrow> Panic ''null pointer''
       | Some old \<Rightarrow>
           bnd (iput old s) (\<lambda>s.
           bnd (end_op s) (\<lambda>s.
           Ok (0, upd_proc me (\<lambda>x. x\<lparr>p_cwd := Some ip\<rparr>) s)))))))))"

section \<open>Programs and pipes\<close>

text \<open>The loop of \<open>sys_exec\<close> over the argument vector, with \<open>n\<close> of the \<open>MAXARG\<close> places left.\<close>

primrec fetch_argv :: "nat \<Rightarrow> u32 \<Rightarrow> 'a sysstate_scheme \<Rightarrow> (u8 list list option \<times> 'a sysstate_scheme) res" where
  "fetch_argv 0 uargv s = Ok (None, s)"
| "fetch_argv (Suc n) uargv s =
     bnd (fetchint uargv s) (\<lambda>(uarg, s).
     case uarg of
       None \<Rightarrow> Ok (None, s)
     | Some uarg \<Rightarrow>
         if uarg = 0 then Ok (Some [], s)
         else
           bnd (fetchstr uarg s) (\<lambda>(a, s).
           case a of
             None \<Rightarrow> Ok (None, s)
           | Some a \<Rightarrow>
               bnd (fetch_argv n (uargv + 4) s) (\<lambda>(as, s).
               Ok (map_option (\<lambda>as. a # as) as, s))))"

definition sys_exec :: "'a sysstate_scheme dev_read \<Rightarrow> 'a sysstate_scheme \<Rightarrow> (int \<times> 'a sysstate_scheme) res" where
  "sys_exec dr s =
     bnd (argstr 0 s) (\<lambda>(path, s).
     case path of
       None \<Rightarrow> Ok (-1, s)
     | Some path \<Rightarrow>
     bnd (argint 1 s) (\<lambda>(uargv, s).
     case uargv of
       None \<Rightarrow> Ok (-1, s)
     | Some uargv \<Rightarrow>
     bnd (fetch_argv MAXARG uargv s) (\<lambda>(argv, s).
     case argv of
       None \<Rightarrow> Ok (-1, s)
     | Some argv \<Rightarrow> exec dr path argv s)))"

definition sys_pipe :: "'a sysstate_scheme \<Rightarrow> (int \<times> 'a sysstate_scheme) res" where
  "sys_pipe s =
     bnd (myproc s) (\<lambda>me.
     bnd (argptr 0 8 s) (\<lambda>(fd, s).
     case fd of
       None \<Rightarrow> Ok (-1, s)
     | Some fd \<Rightarrow>
     bnd (pipealloc s) (\<lambda>(ends, s).
     case ends of
       None \<Rightarrow> Ok (-1, s)
     | Some (rfile, wfile) \<Rightarrow>
     let bad = (\<lambda>s. bnd (fileclose rfile s) (\<lambda>s. bnd (fileclose wfile s) (\<lambda>s. Ok (-1, s)))) in
     bnd (fdalloc rfile s) (\<lambda>(fd0, s).
     case fd0 of
       None \<Rightarrow> bad s
     | Some fd0 \<Rightarrow>
         bnd (fdalloc wfile s) (\<lambda>(fd1, s).
         case fd1 of
           None \<Rightarrow> bad (set_fd me fd0 None s)
         | Some fd1 \<Rightarrow>
             bnd (ustore_bytes (bytes_of_word (of_nat fd0)) fd s) (\<lambda>s.
             bnd (ustore_bytes (bytes_of_word (of_nat fd1)) (fd + 4) s) (\<lambda>s.
             Ok (0, s))))))))"

end
