(* ===== verification/Syscalls.thy ===== *)
theory Syscalls
  imports Sysfile
begin

text \<open>
  The remaining system calls (\<open>sysproc.c\<close>), the dispatch on the number in \<open>eax\<close> (\<open>syscall.c\<close>) and the trap
  handler (\<open>trap.c\<close>). Messages printed on the console are not part of the state. The clock chip read by
  \<open>cmostime\<close>, the interrupt handlers of devices and what other processes do during \<open>yield\<close> are parameters.
\<close>

section \<open>Processes\<close>

definition sys_kill :: "'a sysstate_scheme \<Rightarrow> (int \<times> 'a sysstate_scheme) res" where
  "sys_kill s =
     bnd (argint 0 s) (\<lambda>(pid, s).
     case pid of
       None \<Rightarrow> Ok (-1, s)
     | Some pid \<Rightarrow> Ok (kill pid s))"

definition sys_getpid :: "'a sysstate_scheme \<Rightarrow> (int \<times> 'a sysstate_scheme) res" where
  "sys_getpid s = bnd (myproc s) (\<lambda>me. Ok (sint (p_pid (procs s me)), s))"

text \<open>Growing only moves the size: pages appear when they are touched.\<close>

definition sys_sbrk :: "'a sysstate_scheme \<Rightarrow> (int \<times> 'a sysstate_scheme) res" where
  "sys_sbrk s =
     bnd (myproc s) (\<lambda>me.
     bnd (argint 0 s) (\<lambda>(n, s).
     case n of
       None \<Rightarrow> Ok (-1, s)
     | Some n \<Rightarrow>
         let addr = p_sz (procs s me) in
         if sint n < 0 then
           bnd (growproc n s) (\<lambda>(r, s).
           if r < 0 then Ok (-1, s) else Ok (sint addr, s))
         else if addr + n \<ge> KERNBASE then Ok (-1, s)
         else Ok (sint addr, upd_proc me (\<lambda>x. x\<lparr>p_sz := p_sz x + n\<rparr>) s)))"

text \<open>The comparison \<open>ticks - ticks0 < n\<close> is unsigned, and on entry the difference is 0.\<close>

definition sys_sleep :: "'a sysstate_scheme \<Rightarrow> (int \<times> 'a sysstate_scheme) res" where
  "sys_sleep s =
     bnd (myproc s) (\<lambda>me.
     bnd (argint 0 s) (\<lambda>(n, s).
     case n of
       None \<Rightarrow> Ok (-1, s)
     | Some n \<Rightarrow>
         if 0 < n then (if p_killed (procs s me) then Ok (-1, s) else Blocked)
         else Ok (0, s)))"

definition sys_uptime :: "'a sysstate_scheme \<Rightarrow> (int \<times> 'a sysstate_scheme) res" where
  "sys_uptime s = Ok (sint (ticks s), s)"

definition sys_date :: "u8 list \<Rightarrow> 'a sysstate_scheme \<Rightarrow> (int \<times> 'a sysstate_scheme) res" where
  "sys_date cmos s =
     bnd (argptr 0 24 s) (\<lambda>(r, s).
     case r of
       None \<Rightarrow> Ok (-1, s)
     | Some r \<Rightarrow> bnd (ustore_bytes (take 24 cmos) r s) (\<lambda>s. Ok (0, s)))"

section \<open>Dispatch\<close>

text \<open>What the kernel is linked and wired with: entry points, devices and the clock chip.\<close>

record 's env =
  env_trapret :: u32
  env_forkret :: u32
  env_read :: "'s dev_read"
  env_write :: "'s dev_write"
  env_cmos :: "u8 list"
  env_ide :: "'s \<Rightarrow> 's"
  env_kbd :: "'s \<Rightarrow> 's"
  env_uart :: "'s \<Rightarrow> 's"
  env_resched :: "'s \<Rightarrow> 's"
  env_cpu0 :: bool

definition syscalls :: "'a sysstate_scheme env \<Rightarrow> nat \<Rightarrow> ('a sysstate_scheme \<Rightarrow> (int \<times> 'a sysstate_scheme) res) option" where
  "syscalls e n =
     (let dr = env_read e; dw = env_write e in
      map_of
        [(1, fork (env_trapret e) (env_forkret e)),
         (3, wait), (4, sys_pipe), (5, sys_read dr), (6, sys_kill), (7, sys_exec dr), (8, sys_fstat),
         (9, sys_chdir dr), (10, sys_dup), (11, sys_getpid), (12, sys_sbrk), (13, sys_sleep), (14, sys_uptime),
         (15, sys_open dr dw), (16, sys_write dw), (17, sys_mknod dr dw), (18, sys_unlink dr dw),
         (19, sys_link dr dw), (20, sys_mkdir dr dw), (21, sys_close), (22, sys_date (env_cmos e)), (23, sys_dup2)] n)"

text \<open>\<open>SYS_exit\<close> (2) does not come back to store a result.\<close>

definition syscall :: "'a sysstate_scheme env \<Rightarrow> 'a sysstate_scheme \<Rightarrow> 'a sysstate_scheme res" where
  "syscall e s =
     bnd (myproc s) (\<lambda>me.
     let num = sint (tf_get me TF_EAX s) in
     if num = 2 then exit_proc s
     else if num > 0 \<and> num < 24 then
       (case syscalls e (nat num) of
          Some f \<Rightarrow> bnd (f s) (\<lambda>(r, s). Ok (tf_set me TF_EAX (of_int r) s))
        | None \<Rightarrow> Ok (tf_set me TF_EAX (-1) s))
     else Ok (tf_set me TF_EAX (-1) s))"

section \<open>Traps\<close>

definition T_PGFLT :: u32 where "T_PGFLT = 14"
definition T_SYSCALL :: u32 where "T_SYSCALL = 64"
definition T_IRQ0 :: u32 where "T_IRQ0 = 32"

text \<open>The \<open>switch\<close> of \<open>trap\<close>, for everything but system calls; \<open>cr2\<close> is the faulting address.\<close>

definition trap_switch :: "'a sysstate_scheme env \<Rightarrow> u32 \<Rightarrow> bool \<Rightarrow> u32 \<Rightarrow> 'a sysstate_scheme \<Rightarrow> 'a sysstate_scheme res" where
  "trap_switch e trapno user cr2 s =
     (if trapno = T_IRQ0 then
        Ok (if env_cpu0 e then wakeup ChTicks (s\<lparr>ticks := ticks s + 1\<rparr>) else s)
      else if trapno = T_IRQ0 + 14 then Ok (env_ide e s)
      else if trapno = T_IRQ0 + 15 then Ok s
      else if trapno = T_IRQ0 + 1 then Ok (env_kbd e s)
      else if trapno = T_IRQ0 + 4 then Ok (env_uart e s)
      else if trapno = T_IRQ0 + 7 \<or> trapno = T_IRQ0 + 31 then Ok s
      else if trapno = T_PGFLT then trap_pgflt user cr2 s
      else case cur s of
        None \<Rightarrow> Panic ''trap''
      | Some me \<Rightarrow> if \<not> user then Panic ''trap'' else Ok (upd_proc me (\<lambda>x. x\<lparr>p_killed := True\<rparr>) s))"

definition exit_if_killed :: "bool \<Rightarrow> ('a sysstate_scheme \<Rightarrow> 'a sysstate_scheme res) \<Rightarrow> 'a sysstate_scheme \<Rightarrow> 'a sysstate_scheme res" where
  "exit_if_killed user rest s =
     (case cur s of
        Some me \<Rightarrow> if p_killed (procs s me) \<and> user then exit_proc s else rest s
      | None \<Rightarrow> rest s)"

definition trap :: "'a sysstate_scheme env \<Rightarrow> u32 \<Rightarrow> u32 \<Rightarrow> 'a sysstate_scheme \<Rightarrow> 'a sysstate_scheme res" where
  "trap e tf cr2 s =
     (let trapno = kload (tf + TF_TRAPNO) s;
          user = (kload (tf + TF_CS) s AND 3 = 3) in
      if trapno = T_SYSCALL then
        bnd (myproc s) (\<lambda>me.
        if p_killed (procs s me) then exit_proc s
        else
          bnd (syscall e (upd_proc me (\<lambda>x. x\<lparr>p_tf := tf\<rparr>) s)) (\<lambda>s.
          if p_state (procs s me) = ZOMBIE then Ok s
          else if p_killed (procs s me) then exit_proc s
          else Ok s))
      else
        bnd (trap_switch e trapno user cr2 s) (
        exit_if_killed user (\<lambda>s.
        case cur s of
          None \<Rightarrow> Ok s
        | Some me \<Rightarrow>
            if p_state (procs s me) = RUNNING \<and> trapno = T_IRQ0 then
              exit_if_killed user Ok (env_resched e (upd_proc me yield_enter s))
            else Ok s)))"

end
