(* ===== verification/Lazy.thy ===== *)
theory Lazy
  imports System
begin

text \<open>
  Properties of lazy allocation and of access to user memory: what a page fault maps, what it does on a
  page that is already mapped, and which addresses the argument-fetching functions let through.
\<close>

section \<open>Page faults\<close>

lemma PGROUNDDOWN_page: "unat (PGROUNDDOWN va) div 4096 = unat va div 4096"
  by (simp add: PGROUNDDOWN_unat minus_mod_eq_mult_div)

lemma translate_pte:
  assumes "dir_ok k xs d"
  shows "translate d va k = (if mapped (kmem_mem k) d va then Some (frame (kmem_mem k) d va + (va AND 0xFFF)) else None)"
proof (cases "present (pde (kmem_mem k) d (PDX va))")
  case True
  have "page_ok k (tab (kmem_mem k) d (PDX va))" using dir_okD(5) [OF assms _ True] by simp
  then have "tab (kmem_mem k) d (PDX va) + of_nat (4 * PTX va) \<noteq> 0" by (rule slot_nonzero) simp
  then show ?thesis
    using True walk_present [OF True] by (simp add: translate_def mapped_def frame_def pte_at_def present_def)
next
  case False
  then show ?thesis using walk_absent [OF False] by (simp add: translate_def mapped_def pte_at_def present_def)
qed

lemma page_byte: "p + (va AND 0xFFF) \<in> page p"
proof -
  have "va AND 0xFFF \<le> 0xFFF" by (rule word_and_le1)
  then show ?thesis by (simp add: page_def word_le_nat_alt)
qed

text \<open>
  C26. A page fault on an absent page of user memory is repaired. When the faulting access
  comes from user mode, or from the kernel below the size of the process, and there are pages
  left (one for the data, one for a page table), the handler returns without killing the process: the page is now mapped
  writable and for the user to a frame that was free, the access reads zero there, every other mapping of the address space is as before, and so is the process table. In user mode
  no bound is checked: this holds beyond the size of the process too.
\<close>
theorem trap_pgflt_maps:
  assumes c: "cur s = Some p" and sp: "space_ok (km s) (x # xs) (p_pgdir (procs s p))" and ne: "xs \<noteq> []"
    and va: "va < KERNBASE" "user \<or> va < p_sz (procs s p)" and nm: "\<not> mapped (kmem_mem (km s)) (p_pgdir (procs s p)) va"
  shows "\<exists>s' ys a. trap_pgflt user va s = Ok s' \<and> procs s' = procs s \<and> space_ok (km s') ys (p_pgdir (procs s p)) \<and>
    translate (p_pgdir (procs s p)) va (km s') = Some a \<and> kmem_mem (km s') a = 0 \<and>
    frame (kmem_mem (km s')) (p_pgdir (procs s p)) va \<in> set (x # xs) \<and>
    PTE_FLAGS (pte_at (kmem_mem (km s')) (p_pgdir (procs s p)) va) = PTE_W OR PTE_U OR PTE_P \<and>
    (\<forall>vb. unat vb div 4096 \<noteq> unat va div 4096 \<longrightarrow>
       pte_at (kmem_mem (km s')) (p_pgdir (procs s p)) vb = pte_at (kmem_mem (km s)) (p_pgdir (procs s p)) vb)"
proof -
  let ?d = "p_pgdir (procs s p)" and ?a = "PGROUNDDOWN va"
  have lt: "?a < KERNBASE" using va(1) by (simp add: word_less_nat_alt PGROUNDDOWN_unat)
  have nm': "\<not> mapped (kmem_mem (km s)) ?d ?a" using nm pte_at_page [OF PGROUNDDOWN_page] by (simp add: mapped_def)
  obtain r k' where m: "mappages ?d ?a PGSIZE (V2P x) (PTE_W OR PTE_U) (zero_page x (snd (kalloc (km s)))) = (r, k')" by fastforce
  obtain ys where g: "fst (kalloc (km s)) = x" "x \<noteq> 0" "r = 0" "grew (km s) (x # xs) ?d {unat ?a div 4096} k' ys"
    by (rule alloc_step [OF sp ne aligned_PGROUNDDOWN lt nm' m])
  have tr: "trap_pgflt user va s = Ok (s\<lparr>km := k'\<rparr>)"
    using c va(2) m g(1-3) by (cases "kalloc (km s)") (auto simp: trap_pgflt_def Let_def)
  note G = grewD [OF g(4)]
  have mp: "mapped (kmem_mem k') ?d va" "frame (kmem_mem k') ?d va \<in> set (x # xs)"
    "\<forall>b \<in> page (frame (kmem_mem k') ?d va). kmem_mem k' b = 0" "PTE_FLAGS (pte_at (kmem_mem k') ?d va) = PTE_W OR PTE_U OR PTE_P"
    using G(5) [OF va(1)] PGROUNDDOWN_page [of va] by auto
  have d: "dir_ok k' ys ?d" using G(1) by (simp add: space_ok_def)
  have "translate ?d va k' = Some (frame (kmem_mem k') ?d va + (va AND 0xFFF))" using translate_pte [OF d, of va] mp(1) by simp
  moreover have "kmem_mem k' (frame (kmem_mem k') ?d va + (va AND 0xFFF)) = 0" using mp(3) page_byte by blast
  moreover have "pte_at (kmem_mem k') ?d vb = pte_at (kmem_mem (km s)) ?d vb" if "unat vb div 4096 \<noteq> unat va div 4096" for vb
    using G(6) [of vb] that PGROUNDDOWN_page [of va] by auto
  ultimately show ?thesis using tr G(1) mp(2,4) by (intro exI [of _ "s\<lparr>km := k'\<rparr>"] exI [of _ ys] exI) auto
qed

theorem trap_pgflt_maps_witness:
  "\<exists>s' a. trap_pgflt False 5000 demo_sys = Ok s' \<and> translate 0x80300000 5000 (km s') = Some a \<and> kmem_mem (km s') a = 0"
  using trap_pgflt_maps [where s = demo_sys and p = 0 and x = "0x80301000" and xs = "[0x80302000]" and va = 5000 and user = False]
    demo_vm_ok(1,2) by (auto simp: demo_proc_def idle_proc_def KERNBASE_def)

text \<open>
  C40. A page fault on a page that is mapped already is not noticed. If user code faults on a present
  page, as it does when it touches the guard page below its stack or kernel memory, the handler takes a free page, \<open>mappages\<close>
  finds the entry in use and returns 0 without mapping, and the handler returns as if it had repaired the fault: no mapping has changed, the process is
  not killed, and the page taken is on no list any more. The access is retried and faults again, so the process goes on until memory is used up.
\<close>
theorem trap_pgflt_leaks:
  assumes c: "cur s = Some p" and sp: "dir_ok (km s) (x # xs) (p_pgdir (procs s p))"
    and m: "mapped (kmem_mem (km s)) (p_pgdir (procs s p)) va"
  shows "\<exists>s'. trap_pgflt True va s = Ok s' \<and> procs s' = procs s \<and> dir_ok (km s') xs (p_pgdir (procs s p)) \<and>
    (\<forall>vb. pte_at (kmem_mem (km s')) (p_pgdir (procs s p)) vb = pte_at (kmem_mem (km s)) (p_pgdir (procs s p)) vb)"
proof -
  let ?d = "p_pgdir (procs s p)" and ?k1 = "(km s)\<lparr>freelist := mld32 (kmem_mem (km s)) x\<rparr>"
  note K = kinv_pop [OF sp]
  have Z': "dir_ok (zero_page x ?k1) xs ?d" "agree (table_pages (kmem_mem (km s)) ?d) (kmem_mem (km s)) (kmem_mem (zero_page x ?k1))"
    using dir_zero_page [OF K(2) _ K(3)] page_okD [OF K(4)] K(6) by simp_all
  have pt: "pte_at (kmem_mem (zero_page x ?k1)) ?d vb = pte_at (kmem_mem (km s)) ?d vb" for vb
    using map_frame(3) [OF Z'(2)] .
  obtain r k' where m': "mappages ?d (PGROUNDDOWN va) PGSIZE (V2P x) (PTE_W OR PTE_U) (zero_page x ?k1) = (r, k')" by fastforce
  have "present (pte_at (kmem_mem (zero_page x ?k1)) ?d (PGROUNDDOWN va))"
    using m pt pte_at_page [OF PGROUNDDOWN_page] by (simp add: mapped_def)
  then have "r = 0 \<and> k' = zero_page x ?k1"
    by - (rule map_page [OF Z'(1) m' [unfolded mappages_single [OF aligned_PGROUNDDOWN]]], simp_all)
  then have "trap_pgflt True va s = Ok (s\<lparr>km := zero_page x ?k1\<rparr>)"
    using c m' K(1,5) by (simp add: trap_pgflt_def Let_def)
  then show ?thesis using Z'(1) pt by auto
qed

theorem trap_pgflt_leaks_witness:
  "\<exists>k s'. mappages 0x80300000 0 PGSIZE 0 PTE_U demo_vm = (0, k) \<and> mapped (kmem_mem k) 0x80300000 17 \<and>
     trap_pgflt True 17 (demo_sys\<lparr>km := k\<rparr>) = Ok s' \<and> pte_at (kmem_mem (km s')) 0x80300000 17 = pte_at (kmem_mem k) 0x80300000 17"
proof -
  let ?d = "0x80300000 :: u32"
  obtain r k where m: "mappages ?d 0 PGSIZE 0 PTE_U demo_vm = (r, k)" by fastforce
  have ok: "dir_ok demo_vm [0x80301000, 0x80302000] ?d" using demo_vm_ok(1) by (simp add: space_ok_def)
  have al: "aligned 0" by (simp add: aligned_def)
  have "r = 0 \<and> mapped (kmem_mem k) ?d 17 \<and> (\<exists>y ys. dir_ok k (y # ys) ?d)"
    by (rule map_page [OF ok m [unfolded mappages_single [OF al]]])
      (use demo_vm_ok(2) [of 0] in \<open>auto simp: mapped_def present_def PTE_P_def PTE_U_def\<close>)
  then obtain y ys where y: "r = 0" "mapped (kmem_mem k) ?d 17" "dir_ok k (y # ys) ?d" by blast
  then show ?thesis
    using m trap_pgflt_leaks [where s = "demo_sys\<lparr>km := k\<rparr>" and p = 0 and x = y and xs = ys and va = 17]
    by (auto simp: demo_proc_def)
qed

section \<open>System call arguments\<close>

text \<open>What access to user memory keeps: the running process, its size and a well-formed page directory.\<close>

definition user_ok :: "'a sysstate_scheme \<Rightarrow> nat \<Rightarrow> u32 \<Rightarrow> bool" where
  "user_ok s p sz \<longleftrightarrow> cur s = Some p \<and> p_sz (procs s p) = sz \<and> (\<exists>xs. dir_ok (km s) xs (p_pgdir (procs s p)))"

definition safe_user :: "nat \<Rightarrow> u32 \<Rightarrow> ('b \<times> 'a sysstate_scheme) res \<Rightarrow> bool" where
  "safe_user p sz r \<longleftrightarrow> (case r of Ok (_, s) \<Rightarrow> user_ok s p sz | Panic _ \<Rightarrow> False | Blocked \<Rightarrow> True)"

lemma safe_user_simps [simp]:
  "safe_user p sz (Ok (x, s)) \<longleftrightarrow> user_ok s p sz" "\<not> safe_user p sz (Panic e)" "safe_user p sz Blocked"
  by (simp_all add: safe_user_def)

lemma safe_user_bnd:
  assumes "safe_user p sz r" "\<And>x s. r = Ok (x, s) \<Longrightarrow> user_ok s p sz \<Longrightarrow> safe_user p sz (f (x, s))"
  shows "safe_user p sz (bnd r f)"
proof (cases r)
  case (Ok y)
  then show ?thesis using assms by (cases y) simp
qed (use assms(1) in simp_all)

lemma trap_pgflt_user_ok:
  assumes u: "user_ok s p sz" and va: "user \<or> va < sz"
  obtains s' where "trap_pgflt user va s = Ok s'" "user_ok s' p sz"
proof -
  let ?d = "p_pgdir (procs s p)"
  obtain xs where c: "cur s = Some p" "p_sz (procs s p) = sz" and d: "dir_ok (km s) xs ?d" using u by (auto simp: user_ok_def)
  show thesis
  proof (cases xs)
    case Nil
    have "kalloc (km s) = (0, km s)" using dir_okD(1) [OF d] Nil by (simp add: kinv_def kalloc_def)
    then show ?thesis using c va d by (intro that) (auto simp: trap_pgflt_def upd_proc_def user_ok_def)
  next
    case (Cons x ys)
    let ?k1 = "(km s)\<lparr>freelist := mld32 (kmem_mem (km s)) x\<rparr>"
    note K = kinv_pop [OF d [unfolded Cons]]
    have z: "dir_ok (zero_page x ?k1) ys ?d" using dir_zero_page(1) [OF K(2) _ K(3)] page_okD [OF K(4)] K(6) by simp
    obtain r k' where m: "mappages ?d (PGROUNDDOWN va) PGSIZE (V2P x) (PTE_W OR PTE_U) (zero_page x ?k1) = (r, k')" by fastforce
    note M = m [unfolded mappages_single [OF aligned_PGROUNDDOWN]]
    from z M show ?thesis
    proof (cases rule: map_page)
      case fail
      have pg: "page_ok (zero_page x ?k1) x" using K(4) by (simp add: page_ok_def zero_page_def)
      have "x \<notin> table_pages (kmem_mem (zero_page x ?k1)) ?d"
        using K(6) map_frame(4) [OF dir_zero_page(2) [OF K(2) _ K(3)]] page_okD [OF K(4)] by simp
      then obtain k2 where "kfree x (zero_page x ?k1) = Ok k2" "dir_ok k2 (x # ys) ?d" by (rule dir_put [OF z pg K(3)])
      then show ?thesis using fail c va m K(1,5)
        by (intro that) (auto simp: trap_pgflt_def user_ok_def upd_proc_def)
    next
      case dup
      then show ?thesis using c va m K(1,5) z by (intro that) (auto simp: trap_pgflt_def user_ok_def)
    next
      case new
      then show ?thesis using c va m K(1,5) by (intro that) (auto simp: trap_pgflt_def user_ok_def)
    qed
  qed
qed

lemma utouch_safe: "user_ok s p sz \<Longrightarrow> va < sz \<Longrightarrow> safe_user p sz (utouch va s)"
proof -
  assume u: "user_ok s p sz" and va: "va < sz"
  obtain s' where "trap_pgflt False va s = Ok s'" "user_ok s' p sz" by (rule trap_pgflt_user_ok [OF u, of False va]) (use va in auto)
  then show ?thesis using u by (auto simp: utouch_def myproc_def user_ok_def split: option.split)
qed

lemma uload_safe: "user_ok s p sz \<Longrightarrow> va < sz \<Longrightarrow> safe_user p sz (uload va s)"
  unfolding uload_def by (rule safe_user_bnd [OF utouch_safe]) auto

lemma uload_bytes_safe:
  fixes s :: "'a sysstate_scheme"
  shows "user_ok s p sz \<Longrightarrow> unat va + n \<le> unat sz \<Longrightarrow> safe_user p sz (uload_bytes n va s)"
proof (induction n arbitrary: va s)
  case (Suc n)
  have "unat (va + 1) = unat va + 1" using unat_add_u32 [of va 1] Suc.prems(2) unat_u32_lt [of sz] by simp
  then have "safe_user p sz (uload_bytes n (va + 1) s')" if "user_ok s' p sz" for s' :: "'a sysstate_scheme"
    using Suc.IH [OF that] Suc.prems(2) by simp
  moreover have "safe_user p sz (uload va s)" using Suc.prems by (intro uload_safe) (simp_all add: word_less_nat_alt)
  ultimately show ?case by (auto intro!: safe_user_bnd)
qed simp

lemma in_bounds:
  fixes i sz len :: u32
  assumes "sz \<le> KERNBASE" "i < sz" "\<not> i + len > sz" "unat len < 2 ^ 31"
  shows "unat i + unat len \<le> unat sz"
proof -
  have "unat i + unat len < 2 ^ 32" using assms(1,2,4) by (simp add: word_less_nat_alt word_le_nat_alt KERNBASE_def)
  then show ?thesis using assms(3) unat_add_u32 [of i len] by (simp add: word_less_nat_alt)
qed

lemma fetchint_safe: "user_ok s p sz \<Longrightarrow> sz \<le> KERNBASE \<Longrightarrow> safe_user p sz (fetchint addr s)"
proof -
  assume u: "user_ok s p sz" and k: "sz \<le> KERNBASE"
  have "safe_user p sz (uload_bytes 4 addr s)" if "addr < sz" "\<not> addr + 4 > sz"
    using in_bounds [OF k that] by (intro uload_bytes_safe [OF u]) simp
  then have "safe_user p sz (bnd (uload_bytes 4 addr s) (\<lambda>(bs, s). Ok (Some (word_of_bytes bs), s)))"
    if "addr < sz" "\<not> addr + 4 > sz" using that by (auto intro!: safe_user_bnd)
  then show ?thesis using u by (auto simp: fetchint_def myproc_def user_ok_def)
qed

lemma fetchstr_loop_safe: "user_ok s p sz \<Longrightarrow> ep \<le> sz \<Longrightarrow> safe_user p sz (fetchstr_loop a ep s)"
proof (induction a ep s rule: fetchstr_loop.induct)
  case (1 a ep s)
  show ?case
  proof (cases "a < ep")
    case True
    then have "safe_user p sz (uload a s)" using 1 by (intro uload_safe) auto
    then show ?thesis using True 1 by (subst fetchstr_loop.simps) (auto intro!: safe_user_bnd)
  next
    case False
    then show ?thesis using 1 by (subst fetchstr_loop.simps) simp
  qed
qed

lemma fetchstr_loop_string: "fetchstr_loop a ep s = Ok (Some cs, s') \<Longrightarrow> 0 \<notin> set cs"
proof (induction a ep s arbitrary: cs s' rule: fetchstr_loop.induct)
  case (1 a ep s)
  from 1(2) show ?case
    by (subst (asm) fetchstr_loop.simps) (auto simp: res_simps split: if_splits dest!: 1(1))
qed

lemma nonneg_unat: "\<not> sint (x :: u32) < 0 \<Longrightarrow> unat x < 2 ^ 31"
proof -
  assume "\<not> sint x < 0"
  then have "even (uint x div 2147483648)" by (simp add: sint_uint bit_iff_odd)
  moreover have "uint x div 2147483648 < 2" using uint_lt2p [of x] by simp
  moreover have "0 \<le> uint x div 2147483648" by (intro pos_imp_zdiv_nonneg_iff [THEN iffD2]) simp_all
  moreover have "even q \<Longrightarrow> q < 2 \<Longrightarrow> 0 \<le> q \<Longrightarrow> q = 0" for q :: int by presburger
  ultimately have "uint x div 2147483648 = 0" by blast
  then have "uint x < 2147483648" using pos_mod_bound [of 2147483648 "uint x"] div_mult_mod_eq [of "uint x" 2147483648] by linarith
  then show ?thesis unfolding unat_eq_nat_uint by (subst nat_less_iff) simp_all
qed

lemma fetchstr_safe: "user_ok s p sz \<Longrightarrow> safe_user p sz (fetchstr addr s)"
  using fetchstr_loop_safe [of s p sz sz addr] by (auto simp: fetchstr_def myproc_def user_ok_def)

lemma argint_safe: "user_ok s p sz \<Longrightarrow> sz \<le> KERNBASE \<Longrightarrow> safe_user p sz (argint n s)"
  using fetchint_safe [of s p sz] by (auto simp: argint_def myproc_def user_ok_def)

text \<open>
  C27. System call arguments are safe to use. Whatever the process put in its registers and memory, fetching an integer, pointer or
  string argument never panics the kernel: a page that is absent is mapped on the way and an address outside the process gives -1.
  A pointer argument that \<open>argptr\<close> accepts names a block that lies
  within the process, without wrap-around of the sum, and
  a string that \<open>argstr\<close> accepts has no zero byte.
\<close>
theorem argument_safe:
  assumes u: "user_ok s p sz" and k: "sz \<le> KERNBASE"
  shows "argint n s \<noteq> Panic msg \<and> argptr n len s \<noteq> Panic msg \<and> argstr n s \<noteq> Panic msg \<and>
    (argptr n len s = Ok (Some a, s') \<longrightarrow> unat a + unat len \<le> unat sz \<and> user_ok s' p sz) \<and>
    (argstr n s = Ok (Some cs, s'') \<longrightarrow> 0 \<notin> set cs \<and> user_ok s'' p sz)"
proof -
  note A = argint_safe [OF u k, of n]
  have P: "safe_user p sz (argptr n len s)"
  proof -
    have "myproc s = Ok p" using u by (simp add: myproc_def user_ok_def)
    then show ?thesis unfolding argptr_def by (auto intro!: safe_user_bnd [OF A] split: option.splits)
  qed
  have S: "safe_user p sz (argstr n s)"
    unfolding argstr_def by (rule safe_user_bnd [OF A]) (auto simp: fetchstr_safe split: option.splits)
  have B: "unat a + unat len \<le> unat sz" if h: "argptr n len s = Ok (Some a, s')"
  proof -
    have m: "myproc s = Ok p" "p_sz (procs s p) = sz" using u by (simp_all add: myproc_def user_ok_def)
    obtain i s1 where i: "argint n s = Ok (Some i, s1)" "p_sz (procs s1 p) = sz"
      using h A m unfolding argptr_def
      by (cases "argint n s") (auto simp: user_ok_def split: option.splits)
    have "\<not> sint len < 0 \<and> a < sz \<and> \<not> a + len > sz"
      using h m i by (simp add: argptr_def not_le split: if_splits)
    then show ?thesis using nonneg_unat [of len] by (intro in_bounds [OF k]) auto
  qed
  have C: "0 \<notin> set cs" if h: "argstr n s = Ok (Some cs, s'')"
  proof -
    obtain i s1 where i: "argint n s = Ok (Some i, s1)" "user_ok s1 p sz"
      using h A unfolding argstr_def by (cases "argint n s") (auto split: option.splits)
    have "fetchstr_loop i sz s1 = Ok (Some cs, s'')"
      using h i by (simp add: argstr_def fetchstr_def myproc_def user_ok_def split: if_splits)
    then show ?thesis by (rule fetchstr_loop_string)
  qed
  show ?thesis using A P S B C by (auto simp: safe_user_def)
qed

lemma demo_user_ok: "user_ok demo_sys 0 8192"
  using space_okD(1) [OF demo_vm_ok(1)] by (auto simp: user_ok_def demo_proc_def)

theorem argument_safe_witness:
  "argptr 0 16 demo_sys \<noteq> Panic ''page fault'' \<and> argstr 1 demo_sys \<noteq> Panic ''page fault''"
  using argument_safe [OF demo_user_ok, of 0 "''page fault''" 16] argument_safe [OF demo_user_ok, of 1 "''page fault''" 16]
  by (simp add: KERNBASE_def)

end
