(* ===== verification/Family.thy ===== *)
theory Family
  imports Lifecycle
begin

text \<open>
  The tree of processes: every parent pointer leads from a slot in use to a process that is in use and has not exited, so that \<open>wait\<close> can always
  collect it. Creation, exit and reaping keep it.
\<close>

section \<open>The family tree\<close>

definition live :: "procstate \<Rightarrow> bool" where
  "live st \<longleftrightarrow> st \<noteq> UNUSED \<and> st \<noteq> ZOMBIE"

definition family_ok :: "nat \<Rightarrow> ptable \<Rightarrow> bool" where
  "family_ok ini t \<longleftrightarrow> ini < NPROC \<and> live (p_state (t ini)) \<and>
     (\<forall>p<NPROC. \<forall>q. p_parent (t p) = Some q \<longrightarrow> p_state (t p) \<noteq> UNUSED \<and> q < NPROC \<and> live (p_state (t q)))"

text \<open>The two tables agree on everything the tree depends on.\<close>

definition same_family :: "ptable \<Rightarrow> ptable \<Rightarrow> bool" where
  "same_family t t' \<longleftrightarrow> (\<forall>p. p_parent (t' p) = p_parent (t p) \<and> live (p_state (t' p)) = live (p_state (t p)) \<and>
     (p_state (t' p) = UNUSED) = (p_state (t p) = UNUSED))"

lemma same_family_refl [simp]: "same_family t t"
  by (simp add: same_family_def)

lemma same_family_trans: "same_family t t' \<Longrightarrow> same_family t' t'' \<Longrightarrow> same_family t t''"
  by (simp add: same_family_def)

lemma same_family_upd:
  "p_parent x = p_parent (t p) \<Longrightarrow> p_state x = p_state (t p) \<Longrightarrow> same_family t (t(p := x))"
  by (simp add: same_family_def)

lemma family_ok_same: "same_family t t' \<Longrightarrow> family_ok ini t \<Longrightarrow> family_ok ini t'"
  unfolding same_family_def family_ok_def by metis

lemma same_family_wakeup1: "same_family t (wakeup1 ch t)"
  by (simp add: same_family_def wakeup1_def set_state_def live_def)

lemma same_family_wake_proc: "same_family t (wake_proc q t)"
  by (simp add: wake_proc_def same_family_wakeup1 split: option.split)

section \<open>Exit\<close>

definition asleep_on :: "ptable \<Rightarrow> nat \<Rightarrow> bool" where
  "asleep_on t q \<longleftrightarrow> p_state (t q) = SLEEPING \<and> p_chan (t q) = Some (ChProc q)"

lemma awake_wakeup1: "\<not> asleep_on t q \<Longrightarrow> \<not> asleep_on (wakeup1 ch t) q"
  by (simp add: asleep_on_def wakeup1_def set_state_def)

lemma wakeup1_awake: "q < NPROC \<Longrightarrow> \<not> asleep_on (wakeup1 (ChProc q) t) q"
  by (simp add: asleep_on_def wakeup1_def set_state_def)

lemma awake_reparent: "\<not> asleep_on t q \<Longrightarrow> \<not> asleep_on (reparent me (Some ini) p t) q"
proof -
  assume a: "\<not> asleep_on t q"
  then have "\<not> asleep_on (t(p := (t p)\<lparr>p_parent := Some ini\<rparr>)) q" by (auto simp: asleep_on_def)
  then show ?thesis using a awake_wakeup1 by (simp add: reparent_def wake_proc_def Let_def)
qed

lemma awake_fold: "\<not> asleep_on t q \<Longrightarrow> \<not> asleep_on (fold (reparent me (Some ini)) ps t) q"
  by (induction ps arbitrary: t) (auto simp: awake_reparent)

text \<open>A table after some children of \<open>me\<close> have been handed to \<open>ini\<close>.\<close>

definition adopted :: "nat \<Rightarrow> nat \<Rightarrow> nat set \<Rightarrow> ptable \<Rightarrow> ptable \<Rightarrow> bool" where
  "adopted me ini S t t' \<longleftrightarrow> (\<forall>p. p_parent (t' p) = (if p \<in> S \<and> p_parent (t p) = Some me then Some ini else p_parent (t p)) \<and>
     live (p_state (t' p)) = live (p_state (t p)) \<and> (p_state (t' p) = UNUSED) = (p_state (t p) = UNUSED))"

lemma adopted_reparent: "adopted me ini {p} t (reparent me (Some ini) p t)"
proof -
  let ?t = "t(p := (t p)\<lparr>p_parent := Some ini\<rparr>)"
  have "adopted me ini {p} t ?t" if "p_parent (t p) = Some me" using that by (simp add: adopted_def)
  moreover have "adopted me ini S t t'' " if "adopted me ini S t t'" "same_family t' t''" for S t' t''
    using that by (simp add: adopted_def same_family_def)
  moreover have "adopted me ini {p} t t" if "p_parent (t p) \<noteq> Some me" using that by (simp add: adopted_def)
  ultimately show ?thesis using same_family_wake_proc [of ?t "Some ini"] unfolding reparent_def Let_def by auto
qed

lemma adopted_trans: "adopted me ini A t t' \<Longrightarrow> adopted me ini B t' t'' \<Longrightarrow> ini \<noteq> me \<Longrightarrow> adopted me ini (A \<union> B) t t''"
  unfolding adopted_def by (auto split: if_splits)

lemma adopted_fold: "ini \<noteq> me \<Longrightarrow> adopted me ini (set ps) t (fold (reparent me (Some ini)) ps t)"
proof (induction ps arbitrary: t)
  case Nil
  then show ?case by (simp add: adopted_def)
next
  case (Cons p ps)
  then show ?case using adopted_trans [OF adopted_reparent Cons.IH] by fastforce
qed

lemma adopter_awake:
  assumes ne: "ini \<noteq> me" and ini: "ini < NPROC" and p: "p < NPROC" "p_parent (t p) = Some me" "p_state (t p) = ZOMBIE"
  shows "\<not> asleep_on (fold (reparent me (Some ini)) [0..<NPROC] t) ini"
proof -
  have sp: "[0..<NPROC] = [0..<p] @ p # [Suc p..<NPROC]"
    using upt_add_eq_append [of 0 p "NPROC - p"] upt_conv_Cons [of p NPROC] p(1) by simp
  let ?t = "fold (reparent me (Some ini)) [0..<p] t"
  have "p_parent (?t p) = Some me \<and> p_state (?t p) = ZOMBIE"
    using adopted_fold [OF ne, of "[0..<p]" t, unfolded adopted_def, rule_format, of p] p(2,3) by (auto simp: live_def)
  then have "\<not> asleep_on (reparent me (Some ini) p ?t) ini"
    using wakeup1_awake [OF ini] by (simp add: reparent_def wake_proc_def)
  then show ?thesis unfolding sp using awake_fold by simp
qed

lemma exit_tree:
  assumes ok: "family_ok ini t" and me: "me < NPROC" "live (p_state (t me))" "me \<noteq> ini"
  defines "t' \<equiv> exit_table me (Some ini) t"
  shows "family_ok ini t'" "p_state (t' me) = ZOMBIE"
    "p < NPROC \<Longrightarrow> p_parent (t' p) = (if p_parent (t p) = Some me then Some ini else p_parent (t p))"
    "p < NPROC \<Longrightarrow> p_parent (t p) = Some me \<Longrightarrow> p_state (t p) = ZOMBIE \<Longrightarrow> \<not> asleep_on t' ini"
    "p_parent (t me) = Some q \<Longrightarrow> \<not> asleep_on t' q"
proof -
  define t1 where "t1 = wake_proc (p_parent (t me)) t"
  define t2 where "t2 = fold (reparent me (Some ini)) [0..<NPROC] t1"
  have t': "t' = t2(me := set_state ZOMBIE (t2 me))" by (simp add: t'_def exit_table_def Let_def t1_def t2_def)
  have s1: "same_family t t1" unfolding t1_def by (rule same_family_wake_proc)
  have ad: "adopted me ini {0..<NPROC} t1 t2" using adopted_fold [of ini me "[0..<NPROC]" t1] me(3) by (simp add: t2_def)
  have par: "p_parent (t2 p) = (if p < NPROC \<and> p_parent (t p) = Some me then Some ini else p_parent (t p))"
    and liv: "live (p_state (t2 p)) = live (p_state (t p))" "(p_state (t2 p) = UNUSED) = (p_state (t p) = UNUSED)" for p
    using s1 [unfolded same_family_def, rule_format, of p] ad [unfolded adopted_def, rule_format, of p] by simp_all
  show "p_state (t' me) = ZOMBIE" by (simp add: t' set_state_def)
  show pp: "p_parent (t' p) = (if p_parent (t p) = Some me then Some ini else p_parent (t p))" if "p < NPROC" for p
    using that par [of p] by (cases "p = me") (simp_all add: t' set_state_def)
  show "family_ok ini t'"
    unfolding family_ok_def
  proof (intro conjI allI impI)
    show "ini < NPROC" "live (p_state (t' ini))" using ok me(3) liv(1) by (simp_all add: family_ok_def t')
    fix p q
    assume h: "p < NPROC" "p_parent (t' p) = Some q"
    have q: "q \<noteq> me" "q < NPROC" "live (p_state (t q))" "p_state (t p) \<noteq> UNUSED"
      using h pp [OF h(1)] ok me(3) by (auto simp: family_ok_def split: if_splits)
    then show "p_state (t' p) \<noteq> UNUSED" "q < NPROC" "live (p_state (t' q))"
      using liv by (simp_all add: t' set_state_def)
  qed
  have aw: "\<not> asleep_on t2 r \<Longrightarrow> \<not> asleep_on t' r" for r by (auto simp: t' asleep_on_def set_state_def)
  show "\<not> asleep_on t' ini" if "p < NPROC" "p_parent (t p) = Some me" "p_state (t p) = ZOMBIE" for p
  proof (rule aw, unfold t2_def, rule adopter_awake)
    show "p_parent (t1 p) = Some me" using s1 that by (simp add: same_family_def)
    show "p_state (t1 p) = ZOMBIE" using s1 [unfolded same_family_def, rule_format, of p] that(3) by (auto simp: live_def)
  qed (use ok me that in \<open>auto simp: family_ok_def\<close>)
  show "\<not> asleep_on t' q" if "p_parent (t me) = Some q"
  proof (rule aw, unfold t2_def, rule awake_fold)
    have "q < NPROC" using ok me(1) that by (simp add: family_ok_def)
    then show "\<not> asleep_on t1 q" using wakeup1_awake that by (simp add: t1_def wake_proc_def)
  qed
qed

section \<open>Creation and reaping\<close>

lemma family_ok_slot:
  assumes ok: "family_ok ini t" and dead: "live (p_state x) \<or> \<not> live (p_state (t p))"
    and par: "\<And>q. p_parent x = Some q \<Longrightarrow> p_state x \<noteq> UNUSED \<and> q < NPROC \<and> live (p_state (t q)) \<and> q \<noteq> p"
  shows "family_ok ini (t(p := x))"
  using assms unfolding family_ok_def by auto

lemma allocproc_tree:
  assumes ok: "family_ok ini (procs s)" and r: "allocproc trapret forkret s = (r, s')"
  shows "family_ok ini (procs s')" "cur s' = cur s"
    "r = Some np \<Longrightarrow> np < NPROC \<and> p_state (procs s np) = UNUSED \<and> p_state (procs s' np) = EMBRYO \<and> p_parent (procs s' np) = None \<and>
       (\<forall>p. p \<noteq> np \<longrightarrow> procs s' p = procs s p)"
proof -
  have un: "p_parent (procs s p) = None" if "p < NPROC" "p_state (procs s p) = UNUSED" for p
    using ok that by (cases "p_parent (procs s p)") (auto simp: family_ok_def)
  have slot: "family_ok ini ((procs s)(p := x))" if "p < NPROC" "p_state (procs s p) = UNUSED" "p_parent x = None" for p x
    using that by (intro family_ok_slot [OF ok]) (auto simp: live_def)
  show "cur s' = cur s"
    using r by (auto simp: allocproc_def Let_def upd_proc_def kstore_def split: option.splits prod.splits if_splits)
  show "family_ok ini (procs s')"
  proof (cases "claim_proc (nextpid s) (procs s)")
    case None
    then show ?thesis using r ok by (simp add: allocproc_def)
  next
    case (Some pt)
    then obtain p where p: "p < NPROC" "p_state (procs s p) = UNUSED" "pt = (p, (procs s)(p := (procs s p)\<lparr>p_state := EMBRYO, p_pid := nextpid s\<rparr>))"
      by (auto simp: claim_proc_def find_Some_iff)
    have "\<exists>x. procs s' = (procs s)(p := x) \<and> p_parent x = None"
      using r Some p un [OF p(1,2)] by (auto simp: allocproc_def Let_def upd_proc_def kstore_def set_state_def split: prod.splits if_splits)
    then show ?thesis using slot [OF p(1,2)] by auto
  qed
  assume "r = Some np"
  then obtain t where t: "claim_proc (nextpid s) (procs s) = Some (np, t)"
    using r by (auto simp: allocproc_def Let_def split: option.splits prod.splits if_splits)
  then have p: "np < NPROC" "p_state (procs s np) = UNUSED" "t = (procs s)(np := (procs s np)\<lparr>p_state := EMBRYO, p_pid := nextpid s\<rparr>)"
    by (auto simp: claim_proc_def find_Some_iff)
  show "np < NPROC \<and> p_state (procs s np) = UNUSED \<and> p_state (procs s' np) = EMBRYO \<and> p_parent (procs s' np) = None \<and>
       (\<forall>p. p \<noteq> np \<longrightarrow> procs s' p = procs s p)"
    using r \<open>r = Some np\<close> t p un [OF p(1,2)]
    by (auto simp: allocproc_def Let_def upd_proc_def kstore_def split: prod.splits if_splits)
qed

lemma wait_tree:
  assumes ok: "family_ok ini (procs s)" and r: "wait s = Ok (pid, s')"
  shows "family_ok ini (procs s')"
proof -
  obtain me where me: "myproc s = Ok me" using r by (auto simp: wait_def res_simps)
  show ?thesis
  proof (cases "List.find (\<lambda>p. p_parent (procs s p) = Some me \<and> p_state (procs s p) = ZOMBIE) [0..<NPROC]")
    case None
    then show ?thesis using r me ok by (auto simp: wait_def split: if_splits)
  next
    case (Some p)
    then have p: "p_state (procs s p) = ZOMBIE" by (auto simp: find_Some_iff)
    have "procs s' = (procs s)(p := reap_slot (procs s p))"
      using r me Some by (auto simp: wait_def Let_def res_simps upd_proc_def)
    then show ?thesis using family_ok_slot [OF ok, of "reap_slot (procs s p)" p] p by (simp add: reap_slot_def live_def)
  qed
qed

lemma share_fd_family:
  assumes "foreach (share_fd me np) is s = Ok s'"
  shows "same_family (procs s) (procs s') \<and> (\<forall>p. p_state (procs s' p) = p_state (procs s p)) \<and> procs s' me = procs s me \<or> me = np"
  using assms
proof (induction "is" arbitrary: s)
  case (Cons i "is")
  obtain s1 where s1: "share_fd me np i s = Ok s1" "foreach (share_fd me np) is s1 = Ok s'" using Cons.prems by (auto simp: res_simps)
  have "same_family (procs s) (procs s1) \<and> (\<forall>p. p_state (procs s1 p) = p_state (procs s p)) \<and> procs s1 me = procs s me \<or> me = np"
    using s1(1) by (auto simp: share_fd_def filedup_def upd_file_def upd_proc_def res_simps same_family_def split: option.splits if_splits)
  then show ?case using Cons.IH [OF s1(2)] same_family_trans by metis
qed simp

lemma fork_tree:
  assumes ok: "family_ok ini (procs s)" and me: "cur s = Some me" "me < NPROC" "live (p_state (procs s me))" and r: "fork trapret forkret s = Ok (pid, s')"
  shows "family_ok ini (procs s')"
proof -
  obtain a s1 where a: "allocproc trapret forkret s = (a, s1)" by fastforce
  note A = allocproc_tree [OF ok a]
  show ?thesis
  proof (cases a)
    case None
    then show ?thesis using r a me(1) A(1) by (simp add: fork_def myproc_def)
  next
    case (Some np)
    note N = A(3) [OF Some]
    have ne: "me \<noteq> np" using N me(3) by (auto simp: live_def)
    obtain d k where c: "copyuvm (p_pgdir (procs s1 me)) (p_sz (procs s1 me)) (km s1) = Ok (d, k)"
      using r a Some me(1) by (auto simp: fork_def myproc_def res_simps)
    show ?thesis
    proof (cases "d = 0")
      case True
      then have "\<exists>x. procs s' = (procs s1)(np := x) \<and> p_parent x = None \<and> p_state x = UNUSED"
        using r a Some me(1) c N by (auto simp: fork_def myproc_def res_simps Let_def upd_proc_def)
      moreover have "family_ok ini ((procs s)(np := x))" if "p_parent x = None" for x
        using that N by (intro family_ok_slot [OF ok]) (auto simp: live_def)
      moreover have "(procs s1)(np := x) = (procs s)(np := x)" for x using N by (auto simp: fun_eq_iff)
      ultimately show ?thesis by auto
    next
      case False
      define sa where "sa = upd_proc np (\<lambda>x. x\<lparr>p_pgdir := d\<rparr>) (s1\<lparr>km := k\<rparr>)"
      define sb where "sb = upd_proc np (\<lambda>x. x\<lparr>p_sz := p_sz (procs sa me), p_parent := Some me\<rparr>) sa"
      define s2 where "s2 = tf_set np TF_EAX 0
        (sb\<lparr>km := (km sb)\<lparr>kmem_mem := memmove (p_tf (procs sb np)) (p_tf (procs sb me)) TF_SIZE (kmem_mem (km sb))\<rparr>\<rparr>)"
      have p2: "procs s2 = (procs s1)(np := (procs s1 np)\<lparr>p_pgdir := d, p_sz := p_sz (procs s1 me), p_parent := Some me\<rparr>)"
        using ne by (simp add: s2_def sa_def sb_def tf_set_def kstore_def upd_proc_def)
      have "bnd (foreach (share_fd me np) [0..<NOFILE] s2) (\<lambda>s.
           case p_cwd (procs s me) of
             None \<Rightarrow> Panic ''null pointer''
           | Some ip \<Rightarrow>
               let s = upd_proc np (\<lambda>x. x\<lparr>p_cwd := Some ip\<rparr>) (idup ip s);
                   s = upd_proc np (\<lambda>x. x\<lparr>p_name := safestrcpy (p_name x) (p_name (procs s me)) 16\<rparr>) s;
                   pid = p_pid (procs s np) in
               Ok (sint pid, upd_proc np (set_state RUNNABLE) s)) = Ok (pid, s')"
        using r a Some me(1) c False unfolding s2_def sb_def sa_def by (simp add: fork_def myproc_def Let_def)
      then obtain s3 where s3: "foreach (share_fd me np) [0..<NOFILE] s2 = Ok s3"
        and s': "procs s' = (procs s3)(np := procs s' np)" "p_parent (procs s' np) = p_parent (procs s3 np)" "p_state (procs s' np) = RUNNABLE"
        by (auto simp: res_simps Let_def upd_proc_def idup_def upd_inode_def set_state_def split: option.splits)
      have F: "same_family (procs s2) (procs s3)" "procs s3 me = procs s me" using share_fd_family [OF s3] ne p2 N by auto
      have "family_ok ini (procs s2)"
        unfolding p2 by (rule family_ok_slot [OF A(1)]) (use N ne me in \<open>auto simp: live_def\<close>)
      then have ok3: "family_ok ini (procs s3)" by (rule family_ok_same [OF F(1)])
      have "p_parent (procs s3 np) = Some me" using F(1) p2 by (simp add: same_family_def)
      then have "family_ok ini ((procs s3)(np := procs s' np))"
        using s'(2,3) F(2) me ne by (intro family_ok_slot [OF ok3]) (auto simp: live_def)
      then show ?thesis unfolding s'(1) [symmetric] .
    qed
  qed
qed

text \<open>
  C34. Processes form a tree that is never broken. Call the process table well-formed if the first process is in use and has not exited, and every parent
  pointer leads from a slot in use to a process in use that has not exited. \<open>allocproc\<close>, \<open>fork\<close> by a live process (whether it succeeds or fails half-way),
  \<open>wait\<close>, \<open>wakeup\<close> and \<open>kill\<close> keep it so. The end of \<open>exit\<close> of a live process other than the first keeps it too: the process is a zombie and has
  no children left, exactly its children now belong to the first process, its parent is not left asleep in \<open>wait\<close>, and neither is the
  first process if it has adopted a zombie.
\<close>
theorem process_tree:
  assumes ok: "family_ok ini (procs s)" and me: "cur s = Some me" "me < NPROC" "live (p_state (procs s me))"
  shows "family_ok ini (procs (snd (allocproc trapret forkret s))) \<and>
    (\<forall>pid s'. fork trapret forkret s = Ok (pid, s') \<longrightarrow> family_ok ini (procs s')) \<and>
    (\<forall>pid s'. wait s = Ok (pid, s') \<longrightarrow> family_ok ini (procs s')) \<and>
    family_ok ini (procs (wakeup ch s)) \<and> family_ok ini (procs (snd (kill pid s))) \<and>
    (me \<noteq> ini \<longrightarrow> (let t = procs s; t' = exit_table me (Some ini) t in
       family_ok ini t' \<and> p_state (t' me) = ZOMBIE \<and>
       (\<forall>p<NPROC. p_parent (t' p) = (if p_parent (t p) = Some me then Some ini else p_parent (t p))) \<and>
       (\<forall>q. p_parent (t me) = Some q \<longrightarrow> \<not> asleep_on t' q) \<and>
       (\<forall>p<NPROC. p_parent (t p) = Some me \<and> p_state (t p) = ZOMBIE \<longrightarrow> \<not> asleep_on t' ini)))"
proof -
  have "family_ok ini (procs (snd (allocproc trapret forkret s)))" using allocproc_tree(1) [OF ok] by (cases "allocproc trapret forkret s") simp
  moreover have "family_ok ini (procs (wakeup ch s))" using family_ok_same [OF same_family_wakeup1 ok] by (simp add: wakeup_def)
  moreover have "family_ok ini (procs (snd (kill pid s)))"
  proof -
    have "same_family (procs s) ((procs s)(i := kill_slot (procs s i)))" for i
      by (simp add: same_family_def kill_slot_def set_state_def live_def Let_def)
    then show ?thesis using family_ok_same ok by (auto simp: kill_def upd_proc_def split: option.split)
  qed
  moreover note fork_tree [OF ok me, of trapret forkret] wait_tree [OF ok] exit_tree [OF ok me(2,3)]
  ultimately show ?thesis unfolding Let_def by blast
qed

theorem process_tree_witness:
  "family_ok 1 (\<lambda>p. if p = 0 then demo_proc\<lparr>p_parent := Some 1\<rparr> else if p = 1 then demo_proc else if p = 2 then demo_proc\<lparr>p_parent := Some 0, p_state := ZOMBIE\<rparr> else idle_proc) \<and>
   (let t' = exit_table 0 (Some 1) (\<lambda>p. if p = 0 then demo_proc\<lparr>p_parent := Some 1\<rparr> else if p = 1 then demo_proc else if p = 2 then demo_proc\<lparr>p_parent := Some 0, p_state := ZOMBIE\<rparr> else idle_proc) in
    p_parent (t' 2) = Some 1 \<and> p_state (t' 0) = ZOMBIE)"
proof -
  let ?t = "\<lambda>p. if p = 0 then demo_proc\<lparr>p_parent := Some 1\<rparr> else if p = 1 then demo_proc else if p = 2 then demo_proc\<lparr>p_parent := Some 0, p_state := ZOMBIE\<rparr> else idle_proc :: proc"
  have ok: "family_ok 1 ?t" by (auto simp: family_ok_def live_def demo_proc_def idle_proc_def NPROC_def split: if_splits)
  have "\<forall>p<NPROC. p_parent (exit_table 0 (Some 1) ?t p) = (if p_parent (?t p) = Some 0 then Some 1 else p_parent (?t p))"
    "p_state (exit_table 0 (Some 1) ?t 0) = ZOMBIE"
    using process_tree [of 1 "demo_sys\<lparr>procs := ?t\<rparr>" 0] ok by (simp_all add: NPROC_def live_def demo_proc_def Let_def)
  then show ?thesis using ok by (simp add: NPROC_def Let_def)
qed

end
