(* ===== verification/Ulib.thy ===== *)
theory Ulib
  imports Kstring
begin

text \<open>
  The user library: \<open>ulib.c\<close> and \<open>printf.c\<close>. A C string is the list of the characters before its
  terminator. System calls (\<open>read\<close>, \<open>open\<close>, \<open>fstat\<close>, \<open>close\<close>) are parameters; output is the list of the characters
  passed to \<open>write\<close>, in order.
\<close>

section \<open>Strings and memory\<close>

definition NUL :: char where "NUL = CHR 0x00"

fun strcmp :: "string \<Rightarrow> string \<Rightarrow> int" where
  "strcmp [] [] = 0"
| "strcmp [] (q # qs) = - of_char q"
| "strcmp (p # ps) [] = of_char p"
| "strcmp (p # ps) (q # qs) = (if p = q then strcmp ps qs else of_char p - of_char q)"

primrec ustrlen :: "string \<Rightarrow> u32" where
  "ustrlen [] = 0"
| "ustrlen (c # cs) = ustrlen cs + 1"

text \<open>The result of \<open>strchr\<close> as an index; the null pointer is \<open>None\<close>.\<close>

primrec strchr :: "string \<Rightarrow> char \<Rightarrow> nat option" where
  "strchr [] c = None"
| "strchr (x # xs) c = (if x = c then Some 0 else map_option Suc (strchr xs c))"

definition umemset :: "u32 \<Rightarrow> u32 \<Rightarrow> u32 \<Rightarrow> mem \<Rightarrow> mem" where
  "umemset dst c n m = stosb dst (ucast c) (unat n) m"

definition umemmove :: "u32 \<Rightarrow> u32 \<Rightarrow> int \<Rightarrow> mem \<Rightarrow> mem" where
  "umemmove vdst vsrc n m = copy_up vdst vsrc (nat n) m"

text \<open>\<open>strcpy\<close> on memory; a source without terminator never ends.\<close>

partial_function (option) strcpy :: "u32 \<Rightarrow> u32 \<Rightarrow> mem \<Rightarrow> mem option" where
  "strcpy s t m =
     (let m = m(s := m t) in
      if m s \<noteq> 0 then strcpy (s + 1) (t + 1) m else Some m)"

definition atoi_digit :: "char \<Rightarrow> bool" where
  "atoi_digit c \<longleftrightarrow> (of_char CHR ''0'' :: nat) \<le> of_char c \<and> (of_char c :: nat) \<le> of_char CHR ''9''"

primrec atoi_from :: "u32 \<Rightarrow> string \<Rightarrow> u32" where
  "atoi_from n [] = n"
| "atoi_from n (c # cs) =
     (if atoi_digit c then atoi_from (n * 10 + of_char c - of_char CHR ''0'') cs else n)"

definition atoi :: "string \<Rightarrow> u32" where
  "atoi s = atoi_from 0 s"

section \<open>Input\<close>

text \<open>
  \<open>rd\<close> stands for \<open>read(0, &c, 1)\<close>: the result, the character read and the next state. The result of \<open>gets\<close> is what it stores before the terminator.
\<close>

primrec gets_loop :: "('s \<Rightarrow> int \<times> char \<times> 's) \<Rightarrow> nat \<Rightarrow> 's \<Rightarrow> string \<times> 's" where
  "gets_loop rd 0 s = ([], s)"
| "gets_loop rd (Suc k) s =
     (let (cc, c, s) = rd s in
      if cc < 1 then ([], s)
      else if c = CHR ''\<newline>'' \<or> c = CHR 0x0D then ([c], s)
      else let (cs, s) = gets_loop rd k s in (c # cs, s))"

definition gets :: "('s \<Rightarrow> int \<times> char \<times> 's) \<Rightarrow> int \<Rightarrow> 's \<Rightarrow> string \<times> 's" where
  "gets rd mx s = gets_loop rd (nat (mx - 1)) s"

text \<open>\<open>opn\<close>, \<open>fstt\<close> and \<open>cls\<close> stand for the system calls; the second result is the buffer \<open>fstat\<close> filled.\<close>

definition stat :: "(string \<Rightarrow> 's \<Rightarrow> int \<times> 's) \<Rightarrow> (int \<Rightarrow> 's \<Rightarrow> int \<times> 'b \<times> 's) \<Rightarrow> (int \<Rightarrow> 's \<Rightarrow> int \<times> 's) \<Rightarrow>
    string \<Rightarrow> 'b \<Rightarrow> 's \<Rightarrow> int \<times> 'b \<times> 's" where
  "stat opn fstt cls n st s =
     (let (fd, s) = opn n s in
      if fd < 0 then (-1, st, s)
      else
        let (r, st, s) = fstt fd s;
            (_, s) = cls fd s in
        (r, st, s))"

section \<open>Formatted output\<close>

definition digits :: string where "digits = ''0123456789ABCDEF''"

text \<open>
  The digits of \<open>printint\<close>, least significant first, after the \<open>i\<close> characters already in the buffer of 16.
  A zero base is a division fault and base 1 never ends.
\<close>

function printint_digits :: "string \<Rightarrow> u32 \<Rightarrow> nat \<Rightarrow> u32 \<Rightarrow> string res" where
  "printint_digits ds base i x =
     (if base = 0 then Panic ''divide error''
      else if 16 \<le> i then Panic ''buffer overrun''
      else
        let c = ds ! unat (x mod base); x' = x div base in
        if x' = 0 then Ok [c]
        else if base = 1 then Blocked
        else bnd (printint_digits ds base (i + 1) x') (\<lambda>cs. Ok (c # cs)))"
  by pat_completeness auto

termination
  by (relation "measure (\<lambda>(ds, base, i, x). 16 - i)") auto

declare printint_digits.simps [simp del]

definition printint :: "u32 \<Rightarrow> u32 \<Rightarrow> bool \<Rightarrow> string res" where
  "printint xx base sg =
     (let neg = (sg \<and> sint xx < 0);
          x = (if neg then - xx else xx) in
      bnd (printint_digits digits base 0 x) (\<lambda>buf.
      if neg \<and> 16 \<le> length buf then Panic ''buffer overrun''
      else Ok (rev (if neg then buf @ ''-'' else buf))))"

text \<open>
  The loop of \<open>printf\<close>: \<open>pc\<close> tells whether the last character was an unmatched percent sign, \<open>ap\<close> holds the words after the format on
  the stack and \<open>str\<close> gives the string at an address.
\<close>

fun printf_from :: "(u32 \<Rightarrow> string) \<Rightarrow> bool \<Rightarrow> (nat \<Rightarrow> u32) \<Rightarrow> nat \<Rightarrow> string \<Rightarrow> string res" where
  "printf_from str pc ap k [] = Ok []"
| "printf_from str pc ap k (c # cs) =
     (if \<not> pc then
        if c = CHR ''%'' then printf_from str True ap k cs
        else bnd (printf_from str False ap k cs) (\<lambda>out. Ok (c # out))
      else if c = CHR ''d'' then
        bnd (printint (ap k) 10 True) (\<lambda>o1.
        bnd (printf_from str False ap (k + 1) cs) (\<lambda>out. Ok (o1 @ out)))
      else if c = CHR ''x'' \<or> c = CHR ''p'' then
        bnd (printint (ap k) 16 False) (\<lambda>o1.
        bnd (printf_from str False ap (k + 1) cs) (\<lambda>out. Ok (o1 @ out)))
      else if c = CHR ''s'' then
        let s = (if ap k = 0 then ''(null)'' else str (ap k)) in
        bnd (printf_from str False ap (k + 1) cs) (\<lambda>out. Ok (s @ out))
      else if c = CHR ''c'' then
        bnd (printf_from str False ap (k + 1) cs) (\<lambda>out. Ok (char_of (unat (ap k)) # out))
      else if c = CHR ''%'' then
        bnd (printf_from str False ap k cs) (\<lambda>out. Ok (c # out))
      else
        bnd (printf_from str False ap k cs) (\<lambda>out. Ok (CHR ''%'' # c # out)))"

definition printf :: "(u32 \<Rightarrow> string) \<Rightarrow> string \<Rightarrow> (nat \<Rightarrow> u32) \<Rightarrow> string res" where
  "printf str fmt ap = printf_from str False ap 0 fmt"

section \<open>Numbers\<close>

text \<open>The digits of a number in base \<open>b\<close>, least significant first.\<close>

fun radix :: "nat \<Rightarrow> nat \<Rightarrow> nat list" where
  "radix b n = (if b < 2 \<or> n < b then [n] else n mod b # radix b (n div b))"

declare radix.simps [simp del]

definition radix_value :: "nat \<Rightarrow> nat \<Rightarrow> nat list \<Rightarrow> nat" where
  "radix_value b a ds = foldl (\<lambda>a d. a * b + d) a ds"

lemma radix_length: "2 \<le> b \<Longrightarrow> n < b ^ Suc k \<Longrightarrow> length (radix b n) \<le> Suc k"
proof (induction b n arbitrary: k rule: radix.induct)
  case (1 b n)
  show ?case
  proof (cases "n < b")
    case False
    then obtain j where k: "k = Suc j" using "1.prems" by (cases k) auto
    have "n div b < b ^ Suc j" using "1.prems" k by (intro less_mult_imp_div_less) (simp add: mult.commute)
    then show ?thesis using "1.IH" [of j] False "1.prems" k by (subst radix.simps) simp
  qed (simp add: radix.simps)
qed

lemma radix_digits: "2 \<le> b \<Longrightarrow> d \<in> set (radix b n) \<Longrightarrow> d < b"
proof (induction b n rule: radix.induct)
  case (1 b n)
  then show ?case by (subst (asm) radix.simps) (auto split: if_splits)
qed

lemma radix_value_rev: "2 \<le> b \<Longrightarrow> radix_value b 0 (rev (radix b n)) = n"
proof (induction b n rule: radix.induct)
  case (1 b n)
  then show ?case by (subst radix.simps) (auto simp: radix_value_def)
qed

lemma radix_last: "2 \<le> b \<Longrightarrow> radix b n \<noteq> [] \<and> (last (radix b n) = 0 \<longrightarrow> radix b n = [0])"
proof (induction b n rule: radix.induct)
  case (1 b n)
  show ?case
  proof (cases "n < b")
    case True
    then show ?thesis by (simp add: radix.simps)
  next
    case False
    then have "n div b \<noteq> 0" using "1.prems" by (simp add: div_greater_zero_iff)
    then have "radix b (n div b) \<noteq> [0]" using radix_value_rev [OF "1.prems", of "n div b"] by (auto simp: radix_value_def)
    then show ?thesis using False "1" by (subst (1 2 3) radix.simps) auto
  qed
qed

lemma printint_digits_radix:
  assumes "unat base = b" "2 \<le> b" "unat x < b ^ Suc k" "i + k < 16"
  shows "printint_digits ds base i x = Ok (map ((!) ds) (radix b (unat x)))"
  using assms
proof (induction ds base i x arbitrary: k rule: printint_digits.induct)
  case (1 ds base i x)
  have b: "base \<noteq> 0" "base \<noteq> 1" using "1.prems" by auto
  have d: "unat (x mod base) = unat x mod b" "unat (x div base) = unat x div b"
    using "1.prems"(1) by (simp_all add: unat_mod_distrib unat_div_distrib)
  show ?case
  proof (cases "unat x < b")
    case True
    then have "x div base = 0" using d(2) by (simp add: unat_eq_0 [symmetric])
    then show ?thesis using b d True "1.prems" by (subst printint_digits.simps) (simp add: radix.simps)
  next
    case False
    then obtain j where k: "k = Suc j" using "1.prems" by (cases k) auto
    have "0 < unat (x div base)" unfolding d(2) using False "1.prems" by (simp add: div_greater_zero_iff)
    then have nz: "x div base \<noteq> 0" by auto
    have "unat (x div base) < b ^ Suc j" unfolding d(2) using "1.prems" k by (intro less_mult_imp_div_less) (simp add: mult.commute)
    then have "printint_digits ds base (i + 1) (x div base) = Ok (map ((!) ds) (radix b (unat x div b)))"
      using "1.IH" [OF b(1) _ refl refl nz b(2), of j] "1.prems" k d(2) by simp
    then show ?thesis using b nz d False "1.prems" by (subst printint_digits.simps) (simp add: radix.simps [of b "unat x"])
  qed
qed

lemma digits_decimal:
  assumes "d < 10"
  shows "atoi_digit (digits ! d)" "of_char (digits ! d) = (48 + of_nat d :: u32)" "digits ! d = CHR ''0'' \<longleftrightarrow> d = 0"
proof -
  have "d \<in> {0, 1, 2, 3, 4, 5, 6, 7, 8, 9}" using assms by auto
  then show "atoi_digit (digits ! d)" "of_char (digits ! d) = (48 + of_nat d :: u32)" "digits ! d = CHR ''0'' \<longleftrightarrow> d = 0"
    by (auto simp: digits_def atoi_digit_def)
qed

lemma atoi_from_digits:
  "\<forall>d \<in> set ds. d < 10 \<Longrightarrow> atoi_from (of_nat a) (map ((!) digits) ds) = of_nat (radix_value 10 a ds)"
proof (induction ds arbitrary: a)
  case (Cons d ds)
  then show ?case using Cons.IH [of "a * 10 + d"] by (simp add: radix_value_def digits_decimal algebra_simps)
qed (simp add: radix_value_def)

text \<open>
  C28. Numbers are printed right and can be read back. For every 32-bit argument \<open>printint\<close> stays inside its buffer of
  16 characters. In base 10 it writes a minus sign for a negative number, then one to ten decimal digits without leading zero, and \<open>atoi\<close>
  of these digits is the absolute value (also for the smallest integer, whose negation wraps). In base 16 it writes the
  hexadecimal digits of the word, at most eight.
\<close>
theorem printint_atoi:
  "\<exists>ds hs. printint xx 10 True = Ok ((if sint xx < 0 then ''-'' else []) @ ds) \<and> list_all atoi_digit ds \<and>
     ds \<noteq> [] \<and> length ds \<le> 10 \<and> (if hd ds = CHR ''0'' then ds = ''0'' else True) \<and>
     atoi ds = (if sint xx < 0 then - xx else xx) \<and>
     printint xx 16 False = Ok hs \<and> hs = map ((!) digits) (rev (radix 16 (unat xx))) \<and> length hs \<le> 8"
proof -
  let ?x = "if sint xx < 0 then - xx else xx"
  let ?r = "radix 10 (unat ?x)" and ?h = "radix 16 (unat xx)"
  have lt: "unat ?x < 10 ^ Suc 9" "unat xx < 16 ^ Suc 7" using unat_u32_lt [of ?x] unat_u32_lt [of xx] by auto
  have len: "length ?r \<le> 10" "length ?h \<le> 8"
    using radix_length [OF _ lt(1)] radix_length [OF _ lt(2)] by simp_all
  have dec: "\<forall>d \<in> set ?r. d < 10" using radix_digits [of 10] by auto
  have p: "printint_digits digits 10 0 ?x = Ok (map ((!) digits) ?r)" "printint_digits digits 16 0 xx = Ok (map ((!) digits) ?h)"
    using printint_digits_radix [OF _ _ lt(1)] printint_digits_radix [OF _ _ lt(2)] by simp_all
  have "printint xx 10 True = Ok ((if sint xx < 0 then ''-'' else []) @ map ((!) digits) (rev ?r))"
    using p(1) len(1) by (simp add: printint_def Let_def rev_map)
  moreover have "printint xx 16 False = Ok (map ((!) digits) (rev ?h))" using p(2) by (simp add: printint_def Let_def rev_map)
  moreover have "atoi (map ((!) digits) (rev ?r)) = ?x"
    using atoi_from_digits [of "rev ?r" 0] dec radix_value_rev [of 10 "unat ?x"] by (simp add: atoi_def del: of_nat_unat) simp
  moreover have "if hd (map ((!) digits) (rev ?r)) = CHR ''0'' then map ((!) digits) (rev ?r) = ''0'' else True"
    using radix_last [of 10 "unat ?x"] dec digits_decimal(3) by (auto simp: hd_map hd_rev last_in_set digits_def)
  moreover have "list_all atoi_digit (map ((!) digits) (rev ?r))" using dec digits_decimal(1) by (auto simp: list_all_iff)
  ultimately show ?thesis using len radix_last [of 10 "unat ?x"] by (intro exI conjI) (assumption | rule refl | simp)+
qed

end
