(* ===== verification/Shell.thy ===== *)
theory Shell
  imports Ulib Fcntl
begin

text \<open>
  The shell \<open>sh.c\<close>. The line is a list of characters without its terminator, pointers
  into it are indices, and \<open>es\<close> is the index of the terminator. \<open>panic\<close> of the shell, which prints and exits, is the outcome \<open>Panic\<close>.
  Memory for commands is taken as available: \<open>sh.c\<close> does not check \<open>malloc\<close>.
\<close>

section \<open>Commands\<close>

text \<open>
  The five command structures; a word is a pair of pointers, to its first character and past its last.
  The argument arrays are lists.
\<close>

datatype 'w cmd =
    EXEC "'w list"
  | REDIR "'w cmd" 'w u32 int
  | PIPE "'w cmd" "'w cmd"
  | LIST "'w cmd" "'w cmd"
  | BACK "'w cmd"

type_synonym word_ref = "nat \<times> nat"

definition MAXARGS :: nat where "MAXARGS = 10"

definition execcmd :: "'w cmd" where "execcmd = EXEC []"

definition redircmd :: "word_ref cmd \<Rightarrow> nat \<Rightarrow> nat \<Rightarrow> u32 \<Rightarrow> int \<Rightarrow> word_ref cmd" where
  "redircmd subcmd f ef mode fd = REDIR subcmd (f, ef) mode fd"

definition pipecmd :: "'w cmd \<Rightarrow> 'w cmd \<Rightarrow> 'w cmd" where "pipecmd l r = PIPE l r"

definition listcmd :: "'w cmd \<Rightarrow> 'w cmd \<Rightarrow> 'w cmd" where "listcmd l r = LIST l r"

definition backcmd :: "'w cmd \<Rightarrow> 'w cmd" where "backcmd subcmd = BACK subcmd"

lemmas cmd_defs = execcmd_def redircmd_def pipecmd_def listcmd_def backcmd_def

section \<open>Tokens\<close>

definition at :: "string \<Rightarrow> nat \<Rightarrow> char" where
  "at buf i = (if i < length buf then buf ! i else NUL)"

definition whitespace :: string where
  "whitespace = [CHR '' '', CHR 0x09, CHR 0x0D, CHR 0x0A, CHR 0x0B]"

definition symbols :: string where "symbols = ''<|>&;()''"

function skip_while :: "(char \<Rightarrow> bool) \<Rightarrow> string \<Rightarrow> nat \<Rightarrow> nat \<Rightarrow> nat" where
  "skip_while P buf s es = (if s < es \<and> P (at buf s) then skip_while P buf (s + 1) es else s)"
  by pat_completeness auto

termination
  by (relation "measure (\<lambda>(P, buf, s, es). es - s)") auto

declare skip_while.simps [simp del]

definition is_ws :: "char \<Rightarrow> bool" where
  "is_ws c \<longleftrightarrow> strchr whitespace c \<noteq> None"

definition is_word :: "char \<Rightarrow> bool" where
  "is_word c \<longleftrightarrow> strchr whitespace c = None \<and> strchr symbols c = None"

text \<open>The results are the token, \<open>*q\<close>, \<open>*eq\<close> and \<open>*ps\<close>.\<close>

definition gettoken :: "string \<Rightarrow> nat \<Rightarrow> nat \<Rightarrow> char \<times> nat \<times> nat \<times> nat" where
  "gettoken buf s es =
     (let s = skip_while is_ws buf s es; q = s; c = at buf s;
          (ret, s) =
            (if c = NUL then (c, s)
             else if c \<in> {CHR ''|'', CHR ''('', CHR '')'', CHR '';'', CHR ''&'', CHR ''<''} then (c, s + 1)
             else if c = CHR ''>'' then
               if at buf (s + 1) = CHR ''>'' then (CHR ''+'', s + 2) else (c, s + 1)
             else (CHR ''a'', skip_while is_word buf s es));
          eq = s in
      (ret, q, eq, skip_while is_ws buf s es))"

definition peek :: "string \<Rightarrow> nat \<Rightarrow> nat \<Rightarrow> string \<Rightarrow> bool \<times> nat" where
  "peek buf s es toks =
     (let s = skip_while is_ws buf s es in
      (at buf s \<noteq> NUL \<and> strchr toks (at buf s) \<noteq> None, s))"

lemma skip_while_ge: "s \<le> skip_while P buf s es"
proof (induction P buf s es rule: skip_while.induct)
  case (1 P buf s es)
  then show ?case by (subst skip_while.simps) auto
qed

lemma strchr_set: "strchr xs c \<noteq> None \<longleftrightarrow> c \<in> set xs"
  by (induction xs) auto

lemma strchr_in: "strchr xs c = Some i \<Longrightarrow> c \<in> set xs"
  using strchr_set [of xs c] by simp

lemma peek_True:
  "peek buf s es toks = (True, s') \<Longrightarrow> s \<le> s' \<and> s' < length buf \<and> buf ! s' \<in> set toks \<and> buf ! s' \<noteq> NUL \<and> skip_while is_ws buf s es = s'"
  using skip_while_ge [of s is_ws buf es] by (auto simp: peek_def Let_def at_def dest: strchr_in split: if_splits)

lemma gettoken_ge:
  assumes "gettoken buf s es = (tok, q, eq, s')"
  shows "s \<le> q" "q \<le> eq" "eq \<le> s'"
  using assms skip_while_ge [of s is_ws buf es] skip_while_ge [of "skip_while is_ws buf s es" is_word buf es] skip_while_ge [of eq is_ws buf es]
  by (auto simp: gettoken_def Let_def split: if_splits)

lemma gettoken_progress:
  assumes "gettoken buf s es = (tok, q, eq, s')" "skip_while is_ws buf s es = s" "at buf s \<in> {CHR ''<'', CHR ''>'', CHR ''&'', CHR '';'', CHR ''|'', CHR ''('', CHR '')''}"
  shows "s < s'"
proof -
  have "s < eq" using assms by (auto simp: gettoken_def Let_def NUL_def split: if_splits)
  then show ?thesis using gettoken_ge(3) [OF assms(1)] by simp
qed

lemma skip_while_idem: "skip_while P buf (skip_while P buf s es) es = skip_while P buf s es"
proof (induction P buf s es rule: skip_while.induct)
  case (1 P buf s es)
  show ?case
  proof (cases "s < es \<and> P (at buf s)")
    case True
    then show ?thesis using 1 by (simp add: skip_while.simps [of P buf s es])
  next
    case False
    then have "skip_while P buf s es = s" by (simp add: skip_while.simps)
    then show ?thesis by simp
  qed
qed

section \<open>Parsing\<close>

lemma redir_measure:
  assumes "peek buf s es ''<>'' = (True, s1)" "gettoken buf s1 es = (tok, q, eq, s2)" "gettoken buf s2 es = (tok', q', eq', s3)"
  shows "length buf - s3 < length buf - s"
proof -
  note P = peek_True [OF assms(1)]
  have "s1 < s2" using P skip_while_idem [of is_ws buf s es] by (intro gettoken_progress [OF assms(2)]) (auto simp: at_def)
  then show ?thesis using P gettoken_ge [OF assms(3)] by linarith
qed

function parseredirs :: "word_ref cmd \<Rightarrow> string \<Rightarrow> nat \<Rightarrow> nat \<Rightarrow> (word_ref cmd \<times> nat) res" where
  "parseredirs cmd buf s es =
     (case peek buf s es ''<>'' of
        (False, s) \<Rightarrow> Ok (cmd, s)
      | (True, s) \<Rightarrow>
          (case gettoken buf s es of (tok, _, _, s) \<Rightarrow>
             (case gettoken buf s es of (t, q, eq, s) \<Rightarrow>
                if t \<noteq> CHR ''a'' then Panic ''missing file for redirection''
                else
                  let cmd = (if tok = CHR ''<'' then redircmd cmd q eq O_RDONLY 0
                             else if tok = CHR ''>'' then redircmd cmd q eq (O_WRONLY OR O_CREATE) 1
                             else if tok = CHR ''+'' then redircmd cmd q eq (O_WRONLY OR O_CREATE) 1
                             else cmd) in
                  parseredirs cmd buf s es)))"
  by pat_completeness auto

termination
  by (relation "measure (\<lambda>(cmd, buf, s, es). length buf - s)") (auto dest: redir_measure [OF sym sym sym])

declare parseredirs.simps [simp del]

text \<open>\<open>cmd->argv[argc] = q\<close>: the node \<open>cmd\<close> of \<open>parseexec\<close> is the innermost one below the redirections in \<open>ret\<close>.\<close>

fun add_arg :: "'w \<Rightarrow> 'w cmd \<Rightarrow> 'w cmd" where
  "add_arg w (EXEC ws) = EXEC (ws @ [w])"
| "add_arg w (REDIR c f mode fd) = REDIR (add_arg w c) f mode fd"
| "add_arg w c = c"

function parseargs :: "word_ref cmd \<Rightarrow> nat \<Rightarrow> string \<Rightarrow> nat \<Rightarrow> nat \<Rightarrow> (word_ref cmd \<times> nat) res" where
  "parseargs ret argc buf s es =
     (let (b, s) = peek buf s es ''|)&;'' in
      if b then Ok (ret, s)
      else
        let (tok, q, eq, s) = gettoken buf s es in
        if tok = NUL then Ok (ret, s)
        else if tok \<noteq> CHR ''a'' then Panic ''syntax''
        else
          let ret = add_arg (q, eq) ret; argc = argc + 1 in
          if argc \<ge> MAXARGS then Panic ''too many args''
          else
            bnd (parseredirs ret buf s es) (\<lambda>(ret, s).
            parseargs ret argc buf s es))"
  by pat_completeness auto

termination
  by (relation "measure (\<lambda>(ret, argc, buf, s, es). MAXARGS - argc)") auto

declare parseargs.simps [simp del]

lemma back_measure:
  assumes "peek buf s es ''&'' = (True, s1)" "gettoken buf s1 es = (tok, q, eq, s2)"
  shows "length buf - s2 < length buf - s"
proof -
  note P = peek_True [OF assms(1)]
  have "s1 < s2" using P skip_while_idem [of is_ws buf s es] by (intro gettoken_progress [OF assms(2)]) (auto simp: at_def)
  then show ?thesis using P by linarith
qed

function parseback :: "word_ref cmd \<Rightarrow> string \<Rightarrow> nat \<Rightarrow> nat \<Rightarrow> word_ref cmd \<times> nat" where
  "parseback cmd buf s es =
     (case peek buf s es ''&'' of
        (False, s) \<Rightarrow> (cmd, s)
      | (True, s) \<Rightarrow>
          (case gettoken buf s es of (tok, q, eq, s) \<Rightarrow> parseback (backcmd cmd) buf s es))"
  by pat_completeness auto

termination
  by (relation "measure (\<lambda>(cmd, buf, s, es). length buf - s)") (auto dest: back_measure [OF sym sym])

declare parseback.simps [simp del]

text \<open>
  The recursive part of the parser. \<open>pl\<close> is the recursive call of \<open>parseline\<close>, and the number \<open>n\<close> bounds the depth of
  recursion; \<open>Blocked\<close> means that it was too small. \<open>parsecmd\<close> passes a bound that is always enough, as \<open>parsecmd_total\<close> shows, since each recursive
  call is made behind a character that has been consumed.
\<close>

type_synonym parser = "string \<Rightarrow> nat \<Rightarrow> nat \<Rightarrow> (word_ref cmd \<times> nat) res"

definition parseblock :: "parser \<Rightarrow> parser" where
  "parseblock pl buf s es =
     (let (b, s) = peek buf s es ''('' in
      if \<not> b then Panic ''parseblock''
      else
        let (_, _, _, s) = gettoken buf s es in
        bnd (pl buf s es) (\<lambda>(cmd, s).
        let (b, s) = peek buf s es '')'' in
        if \<not> b then Panic ''syntax - missing )''
        else
          let (_, _, _, s) = gettoken buf s es in
          parseredirs cmd buf s es))"

definition parseexec :: "parser \<Rightarrow> parser" where
  "parseexec pl buf s es =
     (let (b, s) = peek buf s es ''('' in
      if b then parseblock pl buf s es
      else
        bnd (parseredirs execcmd buf s es) (\<lambda>(ret, s).
        parseargs ret 0 buf s es))"

primrec parsepipe :: "parser \<Rightarrow> nat \<Rightarrow> parser" where
  "parsepipe pl 0 buf s es = Blocked"
| "parsepipe pl (Suc n) buf s es =
     bnd (parseexec pl buf s es) (\<lambda>(cmd, s).
     let (b, s) = peek buf s es ''|'' in
     if b then
       let (_, _, _, s) = gettoken buf s es in
       bnd (parsepipe pl n buf s es) (\<lambda>(r, s).
       Ok (pipecmd cmd r, s))
     else Ok (cmd, s))"

primrec parseline :: "nat \<Rightarrow> parser" where
  "parseline 0 buf s es = Blocked"
| "parseline (Suc n) buf s es =
     bnd (parsepipe (parseline n) (Suc n) buf s es) (\<lambda>(cmd, s).
     let (cmd, s) = parseback cmd buf s es;
         (b, s) = peek buf s es '';'' in
     if b then
       let (_, _, _, s) = gettoken buf s es in
       bnd (parseline n buf s es) (\<lambda>(r, s).
       Ok (listcmd cmd r, s))
     else Ok (cmd, s))"

primrec nulterminate :: "word_ref cmd \<Rightarrow> string \<Rightarrow> string" where
  "nulterminate (EXEC ws) buf = fold (\<lambda>(q, eq) buf. buf[eq := NUL]) ws buf"
| "nulterminate (REDIR c f mode fd) buf = (nulterminate c buf)[snd f := NUL]"
| "nulterminate (PIPE l r) buf = nulterminate r (nulterminate l buf)"
| "nulterminate (LIST l r) buf = nulterminate r (nulterminate l buf)"
| "nulterminate (BACK c) buf = nulterminate c buf"

text \<open>The command and the line with its words terminated; writing the terminator at \<open>es\<close> changes nothing.\<close>

definition parsecmd :: "string \<Rightarrow> (word_ref cmd \<times> string) res" where
  "parsecmd buf =
     (let es = length buf in
      bnd (parseline (es + 1) buf 0 es) (\<lambda>(cmd, s).
      let (_, s) = peek buf s es [] in
      if s \<noteq> es then Panic ''syntax''
      else Ok (cmd, nulterminate cmd buf)))"

end
