(* ===== verification/Shell_Parse.thy ===== *)
theory Shell_Parse
  imports Shell
begin

text \<open>
  Properties of the parser of \<open>sh.c\<close>: it always ends, and the words it finds are maximal and end up terminated.
\<close>

section \<open>Words and progress\<close>

definition token_ok :: "string \<Rightarrow> word_ref \<Rightarrow> bool" where
  "token_ok buf w \<longleftrightarrow> fst w < snd w \<and> snd w \<le> length buf \<and> (\<forall>i. fst w \<le> i \<longrightarrow> i < snd w \<longrightarrow> is_word (buf ! i)) \<and>
     (snd w < length buf \<longrightarrow> \<not> is_word (buf ! snd w))"

lemma skip_while_spec:
  assumes "s \<le> es" "es = length buf" "s' = skip_while P buf s es"
  shows "s \<le> s' \<and> s' \<le> es \<and> (\<forall>i. s \<le> i \<longrightarrow> i < s' \<longrightarrow> P (buf ! i)) \<and> (s' < es \<longrightarrow> \<not> P (buf ! s'))"
  using assms
proof (induction P buf s es arbitrary: s' rule: skip_while.induct)
  case (1 P buf s es)
  show ?case
  proof (cases "s < es \<and> P (at buf s)")
    case True
    then have "s' = skip_while P buf (s + 1) es" using 1(4) by (simp add: skip_while.simps [of P buf s es])
    note IH = "1.IH" [OF True _ 1(3) this]
    moreover have "P (buf ! i)" if "s \<le> i" "i < s'" for i using IH True 1(3) that by (cases "i = s") (auto simp: at_def)
    ultimately show ?thesis using True by auto
  next
    case False
    then have "s' = s" using 1(4) by (simp add: skip_while.simps)
    then show ?thesis using False 1(2,3) by (auto simp: at_def)
  qed
qed

definition no_nul :: "string \<Rightarrow> bool" where
  "no_nul buf \<longleftrightarrow> NUL \<notin> set buf"

lemma gettoken_ok:
  assumes "gettoken buf s es = (tok, q, eq, s')" "s \<le> es" "es = length buf" "no_nul buf"
  shows "s' \<le> es" "tok = NUL \<Longrightarrow> s' = es" "tok \<noteq> NUL \<Longrightarrow> s < s'" "tok = CHR ''a'' \<Longrightarrow> token_ok buf (q, eq)"
proof -
  let ?s1 = "skip_while is_ws buf s es"
  note S = skip_while_spec [OF assms(2,3) refl, of is_ws]
  note E = skip_while_spec [OF _ assms(3) refl, of _ is_ws]
  have nul: "at buf ?s1 = NUL \<longleftrightarrow> ?s1 = es"
    using S assms(3,4) nth_mem [of ?s1 buf] unfolding at_def no_nul_def by (cases "?s1 < length buf") (metis, auto)
  have "eq \<le> es \<and> s' = skip_while is_ws buf eq es \<and> (tok = NUL \<longrightarrow> eq = es) \<and> (tok \<noteq> NUL \<longrightarrow> s < eq) \<and>
    (tok = CHR ''a'' \<longrightarrow> token_ok buf (q, eq))"
  proof (cases "at buf ?s1 \<in> {NUL, CHR ''|'', CHR ''('', CHR '')'', CHR '';'', CHR ''&'', CHR ''<'', CHR ''>''}")
    case True
    have "?s1 + 2 \<le> es" if "at buf (?s1 + 1) = CHR ''>''" using that assms(3) by (auto simp: at_def NUL_def split: if_splits)
    then show ?thesis
      using True assms(1) S nul by (auto simp: gettoken_def Let_def split: if_splits) (auto simp: NUL_def)
  next
    case False
    let ?s2 = "skip_while is_word buf ?s1 es"
    have lt: "?s1 < es" using False nul S by auto
    have W: "?s1 \<le> ?s2 \<and> ?s2 \<le> es \<and> (\<forall>i. ?s1 \<le> i \<longrightarrow> i < ?s2 \<longrightarrow> is_word (buf ! i)) \<and> (?s2 < es \<longrightarrow> \<not> is_word (buf ! ?s2))"
      using skip_while_spec [OF _ assms(3) refl, of ?s1 is_word] lt by simp
    have "is_word (buf ! ?s1)"
      using False lt S assms(3) by (auto simp: is_word_def is_ws_def at_def symbols_def)
    then have "?s1 < ?s2" using W lt by (metis le_neq_implies_less)
    moreover have "tok = CHR ''a''" "q = ?s1" "eq = ?s2" "s' = skip_while is_ws buf ?s2 es"
      using False assms(1) by (auto simp: gettoken_def Let_def)
    ultimately show ?thesis using W S assms(3) by (auto simp: token_ok_def NUL_def)
  qed
  then show "s' \<le> es" "tok = NUL \<Longrightarrow> s' = es" "tok \<noteq> NUL \<Longrightarrow> s < s'" "tok = CHR ''a'' \<Longrightarrow> token_ok buf (q, eq)"
    using E [of eq] by auto
qed

section \<open>Every parse ends\<close>

definition words_ok :: "string \<Rightarrow> word_ref cmd \<Rightarrow> bool" where
  "words_ok buf cmd \<longleftrightarrow> (\<forall>w \<in> set_cmd cmd. token_ok buf w)"

abbreviation shell_errors :: "string set" where
  "shell_errors \<equiv> {''syntax'', ''syntax - missing )'', ''too many args'', ''missing file for redirection''}"

definition parsed :: "string \<Rightarrow> nat \<Rightarrow> (word_ref cmd \<times> nat) res \<Rightarrow> bool" where
  "parsed buf s r \<longleftrightarrow>
     (case r of Ok (cmd, s') \<Rightarrow> s \<le> s' \<and> s' \<le> length buf \<and> words_ok buf cmd | Panic e \<Rightarrow> e \<in> shell_errors | Blocked \<Rightarrow> False)"

lemma parsed_simps [simp]:
  "parsed buf s (Ok (cmd, s')) \<longleftrightarrow> s \<le> s' \<and> s' \<le> length buf \<and> words_ok buf cmd"
  "parsed buf s (Panic e) \<longleftrightarrow> e \<in> shell_errors" "\<not> parsed buf s Blocked"
  by (simp_all add: parsed_def)

lemma parsed_mono: "parsed buf s r \<Longrightarrow> s0 \<le> s \<Longrightarrow> parsed buf s0 r"
  by (auto simp: parsed_def split: res.splits)

lemma parsed_bnd:
  assumes "parsed buf s r" "\<And>cmd s'. s \<le> s' \<Longrightarrow> s' \<le> length buf \<Longrightarrow> words_ok buf cmd \<Longrightarrow> parsed buf s (f (cmd, s'))"
  shows "parsed buf s (bnd r f)"
proof (cases r)
  case (Ok x)
  then show ?thesis using assms by (cases x) simp
qed (use assms in simp_all)

lemma words_ok_simps [simp]:
  "words_ok buf execcmd" "words_ok buf (redircmd c q eq m fd) \<longleftrightarrow> words_ok buf c \<and> token_ok buf (q, eq)"
  "words_ok buf (pipecmd l r) \<longleftrightarrow> words_ok buf l \<and> words_ok buf r" "words_ok buf (listcmd l r) \<longleftrightarrow> words_ok buf l \<and> words_ok buf r"
  "words_ok buf (backcmd c) \<longleftrightarrow> words_ok buf c"
  by (auto simp: words_ok_def cmd_defs)

lemma words_ok_add_arg: "words_ok buf c \<Longrightarrow> token_ok buf w \<Longrightarrow> words_ok buf (add_arg w c)"
  by (induction w c rule: add_arg.induct) (auto simp: words_ok_def)

lemma peek_range: "peek buf s es toks = (b, s') \<Longrightarrow> s \<le> es \<Longrightarrow> es = length buf \<Longrightarrow> s \<le> s' \<and> s' \<le> es"
  using skip_while_spec [of s es buf _ is_ws] by (auto simp: peek_def Let_def)

lemma peek_again: "peek buf s es toks = (b, s1) \<Longrightarrow> peek buf s1 es toks = (b, s1)"
  by (auto simp: peek_def Let_def skip_while_idem)

lemma gettoken_range:
  assumes "no_nul buf" "s \<le> es" "es = length buf" "gettoken buf s es = (tok, q, eq, s')"
  shows "s \<le> s' \<and> s' \<le> es"
  using gettoken_ok(1) [OF assms(4,2,3,1)] gettoken_ge [OF assms(4)] by linarith

lemma peek_gettoken:
  assumes "no_nul buf" "s \<le> es" "es = length buf" "peek buf s es toks = (True, s1)" "gettoken buf s1 es = (tok, q, eq, s2)"
    "set toks \<subseteq> {CHR ''<'', CHR ''>'', CHR ''&'', CHR '';'', CHR ''|'', CHR ''('', CHR '')''}"
  shows "s < s2 \<and> s2 \<le> es"
proof -
  note P = peek_True [OF assms(4)]
  have "s1 < s2" using P assms(6) skip_while_idem [of is_ws buf s es] by (intro gettoken_progress [OF assms(5)]) (auto simp: at_def)
  then show ?thesis using P gettoken_range [OF assms(1) _ assms(3,5)] assms(3) by auto
qed

lemma parseredirs_parsed:
  assumes nn: "no_nul buf" and es: "es = length buf"
  shows "s \<le> es \<Longrightarrow> words_ok buf cmd \<Longrightarrow> parsed buf s (parseredirs cmd buf s es)"
proof (induction "es - s" arbitrary: cmd s rule: less_induct)
  case less
  obtain b s1 where p: "peek buf s es ''<>'' = (b, s1)" by fastforce
  obtain tok q0 e0 s2 where g: "gettoken buf s1 es = (tok, q0, e0, s2)" by (metis prod_cases4)
  obtain t q eq s3 where h: "gettoken buf s2 es = (t, q, eq, s3)" by (metis prod_cases4)
  show ?case
  proof (cases "b \<and> t = CHR ''a''")
    case True
    then have r: "s < s2" "s2 \<le> es" using peek_gettoken [OF nn less(2) es _ g, of "''<>''"] p by auto
    have w: "s2 \<le> s3 \<and> s3 \<le> es" "token_ok buf (q, eq)"
      using gettoken_range [OF nn r(2) es h] gettoken_ok(4) [OF h r(2) es nn] True by auto
    have IH: "parsed buf s (parseredirs c buf s3 es)" if "words_ok buf c" for c
    proof -
      have "es - s3 < es - s" "s3 \<le> es" "s \<le> s3" using w(1) r by auto
      then show ?thesis using parsed_mono [OF less.hyps [OF _ _ that]] by blast
    qed
    show ?thesis using True p g h by (subst parseredirs.simps) (auto simp: Let_def less.prems(2) w(2) intro!: IH)
  next
    case False
    then show ?thesis using p g h peek_range [OF p less(2) es] less.prems(2) es
      by (subst parseredirs.simps) (auto split: bool.splits)
  qed
qed

lemma parseargs_parsed:
  assumes nn: "no_nul buf" and es: "es = length buf"
  shows "s \<le> es \<Longrightarrow> words_ok buf ret \<Longrightarrow> parsed buf s (parseargs ret argc buf s es)"
proof (induction "MAXARGS - argc" arbitrary: ret argc s rule: less_induct)
  case less
  obtain b s1 where p: "peek buf s es ''|)&;'' = (b, s1)" by fastforce
  obtain tok q eq s2 where g: "gettoken buf s1 es = (tok, q, eq, s2)" by (metis prod_cases4)
  note P = peek_range [OF p less(2) es]
  have G: "s1 \<le> s2" "s2 \<le> es" "tok = CHR ''a'' \<Longrightarrow> token_ok buf (q, eq)"
    using gettoken_range [OF nn _ es g] gettoken_ok(4) [OF g _ es nn] P by auto
  have step: "parsed buf s (bnd (parseredirs (add_arg (q, eq) ret) buf s2 es) (\<lambda>(ret, s). parseargs ret (Suc argc) buf s es))"
    if "tok = CHR ''a''" "\<not> MAXARGS \<le> Suc argc"
  proof (rule parsed_bnd)
    show "parsed buf s (parseredirs (add_arg (q, eq) ret) buf s2 es)"
    proof -
      have "words_ok buf (add_arg (q, eq) ret)" by (rule words_ok_add_arg [OF less(3) G(3) [OF that(1)]])
      then have "parsed buf s2 (parseredirs (add_arg (q, eq) ret) buf s2 es)" by (rule parseredirs_parsed [OF nn es G(2)])
      then show ?thesis by (rule parsed_mono) (use P G(1) in auto)
    qed
    show "parsed buf s (case (c, s') of (ret, s) \<Rightarrow> parseargs ret (Suc argc) buf s es)" if "s \<le> s'" "s' \<le> length buf" "words_ok buf c" for c s'
    proof -
      have "MAXARGS - Suc argc < MAXARGS - argc" "s' \<le> es" using \<open>\<not> MAXARGS \<le> Suc argc\<close> that es by auto
      then show ?thesis using parsed_mono [OF less.hyps [OF _ _ that(3)] that(1)] by simp
    qed
  qed
  have range: "s \<le> s1" "s1 \<le> length buf" "s \<le> s2" "s2 \<le> length buf" using P G(1,2) es by auto
  show ?case
    unfolding parseargs.simps [of ret argc buf s es] p g Let_def prod.case Suc_eq_plus1 [symmetric]
    using step range less(3) by simp
qed

lemma parseback_parsed:
  assumes nn: "no_nul buf" and es: "es = length buf"
  shows "s \<le> es \<Longrightarrow> words_ok buf cmd \<Longrightarrow> parsed buf s (Ok (parseback cmd buf s es))"
proof (induction "es - s" arbitrary: cmd s rule: less_induct)
  case less
  obtain b s1 where p: "peek buf s es ''&'' = (b, s1)" by fastforce
  obtain tok q eq s2 where g: "gettoken buf s1 es = (tok, q, eq, s2)" by (metis prod_cases4)
  show ?case
  proof (cases b)
    case True
    then have r: "s < s2" "s2 \<le> es" using peek_gettoken [OF nn less(2) es _ g, of "''&''"] p by auto
    have "parsed buf s (Ok (parseback (backcmd cmd) buf s2 es))"
    proof -
      have "es - s2 < es - s" "s \<le> s2" "words_ok buf (backcmd cmd)" using r less(3) by auto
      then show ?thesis using parsed_mono [OF less.hyps [OF _ r(2)]] by blast
    qed
    then show ?thesis using True p g by (subst parseback.simps) simp
  next
    case False
    then show ?thesis using p peek_range [OF p less(2) es] less(3) es by (subst parseback.simps) simp
  qed
qed

lemma parseblock_parsed:
  assumes nn: "no_nul buf" and es: "es = length buf" and s: "s \<le> es"
    and pl: "\<And>s'. s < s' \<Longrightarrow> s' \<le> es \<Longrightarrow> parsed buf s' (pl buf s' es)" and p: "peek buf s es ''('' = (True, s1)"
  shows "parsed buf s (parseblock pl buf s es)"
proof -
  obtain tok q eq s2 where g: "gettoken buf s1 es = (tok, q, eq, s2)" by (metis prod_cases4)
  have r: "s < s2" "s2 \<le> es" using peek_gettoken [OF nn s es p g] by auto
  have rest: "parsed buf s2 (let (b, s) = peek buf s' es '')'' in if \<not> b then Panic ''syntax - missing )''
      else let (_, _, _, s) = gettoken buf s es in parseredirs cmd buf s es)"
    if c: "s2 \<le> s'" "s' \<le> length buf" "words_ok buf cmd" for cmd s'
  proof -
    obtain b s3 where p3: "peek buf s' es '')'' = (b, s3)" by fastforce
    obtain tok q eq s4 where g4: "gettoken buf s3 es = (tok, q, eq, s4)" by (metis prod_cases4)
    have "s3 \<le> es" "s' \<le> s3" using peek_range [OF p3 _ es] c es by auto
    then have "s3 \<le> s4" "s4 \<le> es" using gettoken_range [OF nn _ es g4] by auto
    then have "parsed buf s2 (parseredirs cmd buf s4 es)"
      using parsed_mono [OF parseredirs_parsed [OF nn es _ c(3)], of s4 s2] \<open>s' \<le> s3\<close> c(1) by simp
    then show ?thesis by (simp add: p3 g4)
  qed
  have "parsed buf s2 (bnd (pl buf s2 es) (\<lambda>(cmd, s'). let (b, s) = peek buf s' es '')'' in if \<not> b then Panic ''syntax - missing )''
      else let (_, _, _, s) = gettoken buf s es in parseredirs cmd buf s es))"
    by (rule parsed_bnd [OF pl [OF r]]) (use rest in simp)
  then have "parsed buf s (bnd (pl buf s2 es) (\<lambda>(cmd, s'). let (b, s) = peek buf s' es '')'' in if \<not> b then Panic ''syntax - missing )''
      else let (_, _, _, s) = gettoken buf s es in parseredirs cmd buf s es))"
    by (rule parsed_mono) (use r in simp)
  then show ?thesis unfolding parseblock_def using p g by simp
qed

lemma parseexec_parsed:
  assumes nn: "no_nul buf" and es: "es = length buf" and s: "s \<le> es"
    and pl: "\<And>s'. s < s' \<Longrightarrow> s' \<le> es \<Longrightarrow> parsed buf s' (pl buf s' es)"
  shows "parsed buf s (parseexec pl buf s es)"
proof -
  obtain b s1 where p: "peek buf s es ''('' = (b, s1)" by fastforce
  note P = peek_range [OF p s es]
  have blk: "parsed buf s1 (parseblock pl buf s1 es)" if b
  proof (rule parseblock_parsed [OF nn es])
    show "peek buf s1 es ''('' = (True, s1)" using peek_again [OF p] that by simp
  qed (use P pl in auto)
  have exe: "parsed buf s1 (bnd (parseredirs execcmd buf s1 es) (\<lambda>(ret, s). parseargs ret 0 buf s es))"
  proof (rule parsed_bnd)
    show "parsed buf s1 (parseredirs execcmd buf s1 es)" by (rule parseredirs_parsed [OF nn es]) (use P in auto)
    show "parsed buf s1 (case (c, s') of (ret, s) \<Rightarrow> parseargs ret 0 buf s es)" if "s1 \<le> s'" "s' \<le> length buf" "words_ok buf c" for c s'
      using parsed_mono [OF parseargs_parsed [OF nn es _ that(3)] that(1)] that(2) es by simp
  qed
  show ?thesis using parsed_mono [OF blk] parsed_mono [OF exe] P p by (simp add: parseexec_def)
qed

lemma parsepipe_parsed:
  assumes nn: "no_nul buf" and es: "es = length buf"
  shows "s \<le> es \<Longrightarrow> es - s < n \<Longrightarrow> (\<And>s'. s < s' \<Longrightarrow> s' \<le> es \<Longrightarrow> parsed buf s' (pl buf s' es)) \<Longrightarrow> parsed buf s (parsepipe pl n buf s es)"
proof (induction n arbitrary: s)
  case (Suc n)
  show ?case unfolding parsepipe.simps
  proof (rule parsed_bnd [OF parseexec_parsed [OF nn es]], rule Suc.prems, rule Suc.prems(3), assumption, assumption)
    fix cmd s1
    assume c: "s \<le> s1" "s1 \<le> length buf" "words_ok buf cmd"
    obtain b s2 where p: "peek buf s1 es ''|'' = (b, s2)" by fastforce
    obtain tok q eq s3 where g: "gettoken buf s2 es = (tok, q, eq, s3)" by (metis prod_cases4)
    have P: "s1 \<le> s2" "s2 \<le> es" using peek_range [OF p _ es] c es by auto
    have "parsed buf s (bnd (parsepipe pl n buf s3 es) (\<lambda>(r, s). Ok (pipecmd cmd r, s)))" if b
    proof -
      have r: "s1 < s3" "s3 \<le> es" using peek_gettoken [OF nn _ es _ g, of s1 "''|''"] p c es that by auto
      have "parsed buf s3 (parsepipe pl n buf s3 es)"
        by (rule Suc.IH) (use r c Suc.prems in auto)
      then have "parsed buf s3 (bnd (parsepipe pl n buf s3 es) (\<lambda>(r, s). Ok (pipecmd cmd r, s)))" by (rule parsed_bnd) (use c in auto)
      then show ?thesis by (rule parsed_mono) (use r c in auto)
    qed
    then show "parsed buf s (case (cmd, s1) of (cmd, s) \<Rightarrow> let (b, s) = peek buf s es ''|'' in if b then
       let (_, _, _, s) = gettoken buf s es in bnd (parsepipe pl n buf s es) (\<lambda>(r, s). Ok (pipecmd cmd r, s)) else Ok (cmd, s))"
      using p g P c es by simp
  qed
qed simp

lemma parseline_parsed:
  assumes nn: "no_nul buf" and es: "es = length buf"
  shows "s \<le> es \<Longrightarrow> es - s < n \<Longrightarrow> parsed buf s (parseline n buf s es)"
proof (induction n arbitrary: s)
  case (Suc n)
  have pp: "parsed buf s (parsepipe (parseline n) (Suc n) buf s es)"
    by (rule parsepipe_parsed [OF nn es Suc.prems]) (use Suc in auto)
  show ?case unfolding parseline.simps
  proof (rule parsed_bnd [OF pp])
    fix cmd s1
    assume c: "s \<le> s1" "s1 \<le> length buf" "words_ok buf cmd"
    obtain cmd' s2 where b: "parseback cmd buf s1 es = (cmd', s2)" by fastforce
    then have B: "s1 \<le> s2" "s2 \<le> es" "words_ok buf cmd'" using parseback_parsed [OF nn es _ c(3), of s1] c es by auto
    obtain b s3 where p: "peek buf s2 es '';'' = (b, s3)" by fastforce
    obtain tok q eq s4 where g: "gettoken buf s3 es = (tok, q, eq, s4)" by (metis prod_cases4)
    have P: "s2 \<le> s3" "s3 \<le> es" using peek_range [OF p B(2) es] by auto
    have "parsed buf s (bnd (parseline n buf s4 es) (\<lambda>(r, s). Ok (listcmd cmd' r, s)))" if b
    proof -
      have r: "s2 < s4" "s4 \<le> es" using peek_gettoken [OF nn B(2) es _ g, of "'';''"] p that by auto
      have "parsed buf s4 (parseline n buf s4 es)" by (rule Suc.IH) (use r B c Suc.prems in auto)
      then have "parsed buf s4 (bnd (parseline n buf s4 es) (\<lambda>(r, s). Ok (listcmd cmd' r, s)))" by (rule parsed_bnd) (use B in auto)
      then show ?thesis by (rule parsed_mono) (use r B c in auto)
    qed
    then show "parsed buf s (case (cmd, s1) of (cmd, s) \<Rightarrow> let (cmd, s) = parseback cmd buf s es; (b, s) = peek buf s es '';'' in
       if b then let (_, _, _, s) = gettoken buf s es in bnd (parseline n buf s es) (\<lambda>(r, s). Ok (listcmd cmd r, s)) else Ok (cmd, s))"
      using b p g P B c es by simp
  qed
qed simp

section \<open>Terminated words\<close>

definition cstring :: "string \<Rightarrow> nat \<Rightarrow> string" where
  "cstring buf q = takeWhile (\<lambda>c. c \<noteq> NUL) (drop q buf)"

definition word_text :: "string \<Rightarrow> word_ref \<Rightarrow> string" where
  "word_text buf w = take (snd w - fst w) (drop (fst w) buf)"

lemma update_nth: "j < length xs \<Longrightarrow> xs[i := x] ! j = (if i = j then x else xs ! j)"
  by (cases "i < length xs") (simp_all add: nth_list_update)

lemma fold_terminate:
  "length (fold (\<lambda>(q, eq) buf. buf[eq := NUL]) ws buf) = length buf \<and>
   (i < length buf \<longrightarrow> fold (\<lambda>(q, eq) buf. buf[eq := NUL]) ws buf ! i = (if i \<in> snd ` set ws then NUL else buf ! i))"
  by (induction ws arbitrary: buf) (auto simp: update_nth, force)

lemma nulterminate_nth:
  "length (nulterminate cmd buf) = length buf \<and>
   (i < length buf \<longrightarrow> nulterminate cmd buf ! i = (if i \<in> snd ` set_cmd cmd then NUL else buf ! i))"
  by (induction cmd arbitrary: buf) (simp_all add: fold_terminate update_nth image_Un)

lemma nulterminate_word:
  assumes nn: "no_nul buf" and ok: "words_ok buf cmd" and w: "w \<in> set_cmd cmd"
  shows "cstring (nulterminate cmd buf) (fst w) = word_text buf w"
proof -
  let ?b = "nulterminate cmd buf" and ?q = "fst w" and ?n = "snd w - fst w"
  have t: "token_ok buf w" using ok w by (simp add: words_ok_def)
  have len: "length ?b = length buf" using nulterminate_nth by blast
  have same: "?b ! (?q + i) = buf ! (?q + i) \<and> buf ! (?q + i) \<noteq> NUL" if "i < ?n" for i
  proof -
    have l: "?q + i < snd w" "?q + i < length buf" using that t by (auto simp: token_ok_def)
    have wd: "is_word (buf ! (?q + i))" using t l(1) by (simp add: token_ok_def)
    have "?q + i \<noteq> snd v" if "v \<in> set_cmd cmd" for v
    proof
      assume "?q + i = snd v"
      moreover have "token_ok buf v" using ok that by (simp add: words_ok_def)
      ultimately show False using wd l(2) by (simp add: token_ok_def)
    qed
    then have "?q + i \<notin> snd ` set_cmd cmd" by auto
    then show ?thesis using nulterminate_nth [of cmd buf "?q + i"] l(2) nn nth_mem [OF l(2)] by (metis no_nul_def)
  qed
  have "cstring ?b ?q = take ?n (drop ?q ?b)" unfolding cstring_def
  proof (rule takeWhile_eq_take_P_nth)
    show "drop ?q ?b ! i \<noteq> NUL" if "i < ?n" "i < length (drop ?q ?b)" for i using same [OF that(1)] that(2) by simp
    show "\<not> drop ?q ?b ! ?n \<noteq> NUL" if "?n < length (drop ?q ?b)"
      using that t nulterminate_nth [of cmd buf "snd w"] w len by (auto simp: token_ok_def)
  qed
  also have "\<dots> = word_text buf w" unfolding word_text_def
    using same len by (intro nth_equalityI) auto
  finally show ?thesis .
qed

text \<open>
  C29. The shell's parser is total and leaves well-formed words. On every line (without embedded terminator) \<open>parsecmd\<close> returns a
  command or one of its syntax errors; it never runs forever, and the bound on its recursion is never reached. Every word of the
  command, argument or file name, is a maximal run of characters that are neither white space nor symbols, and the C string
  that starts there after \<open>nulterminate\<close> is exactly this run: no terminator was
  written into another word.
\<close>
theorem parsecmd_total:
  assumes nn: "no_nul buf"
  shows "case parsecmd buf of
      Ok (cmd, buf') \<Rightarrow> (\<forall>w \<in> set_cmd cmd. token_ok buf w \<and> cstring buf' (fst w) = word_text buf w)
    | Panic msg \<Rightarrow> msg \<in> {''syntax'', ''syntax - missing )'', ''too many args'', ''missing file for redirection''}
    | Blocked \<Rightarrow> False"
proof -
  have p: "parsed buf 0 (parseline (length buf + 1) buf 0 (length buf))" by (rule parseline_parsed [OF nn refl]) simp_all
  show ?thesis
  proof (cases "parseline (length buf + 1) buf 0 (length buf)")
    case (Ok r)
    obtain cmd s where r: "r = (cmd, s)" by fastforce
    obtain b s' where k: "peek buf s (length buf) [] = (b, s')" by fastforce
    have ok: "words_ok buf cmd" using p Ok r by simp
    have "token_ok buf w \<and> cstring (nulterminate cmd buf) (fst w) = word_text buf w" if "w \<in> set_cmd cmd" for w
      using ok that nulterminate_word [OF nn ok that] by (simp add: words_ok_def)
    then show ?thesis using Ok r k by (simp add: parsecmd_def Let_def)
  next
    case (Panic e)
    then show ?thesis using p by (simp add: parsecmd_def Let_def)
  next
    case Blocked
    then show ?thesis using p by simp
  qed
qed

theorem parsecmd_total_witness:
  "case parsecmd ''ls>f;(a|b)&'' of Ok (cmd, buf') \<Rightarrow> \<forall>w \<in> set_cmd cmd. cstring buf' (fst w) = word_text ''ls>f;(a|b)&'' w
     | Panic msg \<Rightarrow> msg \<noteq> [] | Blocked \<Rightarrow> False"
  using parsecmd_total [of "''ls>f;(a|b)&''"]
  by (auto simp: no_nul_def NUL_def split: res.splits prod.splits)

end
