(* ===== verification/Shell_Print.thy ===== *)
theory Shell_Print
  imports Shell_Parse
begin

text \<open>
  The grammar of \<open>sh.c\<close> as a printer of commands, and the proof that the parser reads every printed command back.
\<close>

section \<open>Printed commands\<close>

definition good_word :: "string \<Rightarrow> bool" where
  "good_word w \<longleftrightarrow> w \<noteq> [] \<and> list_all is_word w \<and> NUL \<notin> set w"

definition redir_kind :: "u32 \<Rightarrow> int \<Rightarrow> bool" where
  "redir_kind m fd \<longleftrightarrow> m = O_RDONLY \<and> fd = 0 \<or> m = O_WRONLY OR O_CREATE \<and> fd = 1"

primrec printable :: "string cmd \<Rightarrow> bool" where
  "printable (EXEC ws) \<longleftrightarrow> length ws < MAXARGS \<and> list_all good_word ws"
| "printable (REDIR c f m fd) \<longleftrightarrow> printable c \<and> good_word f \<and> redir_kind m fd"
| "printable (PIPE l r) \<longleftrightarrow> printable l \<and> printable r"
| "printable (LIST l r) \<longleftrightarrow> printable l \<and> printable r"
| "printable (BACK c) \<longleftrightarrow> printable c"

definition words_text :: "string list \<Rightarrow> string" where
  "words_text ws = concat (map (\<lambda>w. w @ '' '') ws)"

definition redir_text :: "string \<Rightarrow> int \<Rightarrow> string" where
  "redir_text f fd = (if fd = 0 then ''<'' else ''>'') @ f @ '' ''"

text \<open>
  \<open>unparse v\<close> prints for the nonterminal \<open>v\<close> of the grammar (0 for \<open>parseexec\<close>, 1 for \<open>parsepipe\<close>, 2 for the background
  commands of \<open>parseline\<close>, 3 for \<open>parseline\<close>), with parentheses where the command is not of that form.
\<close>

definition paren :: "bool \<Rightarrow> string \<Rightarrow> string" where
  "paren b t = (if b then ''('' @ t @ '')'' else t)"

primrec unparse :: "string cmd \<Rightarrow> nat \<Rightarrow> string" where
  "unparse (EXEC ws) v = words_text ws"
| "unparse (REDIR c f m fd) v = unparse c 0 @ redir_text f fd"
| "unparse (PIPE l r) v = paren (v < 1) (unparse l 0 @ ''|'' @ unparse r 1)"
| "unparse (LIST l r) v = paren (v < 3) (unparse l 2 @ '';'' @ unparse r 3)"
| "unparse (BACK c) v = paren (v < 2) (unparse c 2 @ ''&'')"

section \<open>The parser on remaining input\<close>

definition rest :: "string \<Rightarrow> nat \<Rightarrow> string \<Rightarrow> bool" where
  "rest buf s xs \<longleftrightarrow> s \<le> length buf \<and> drop s buf = xs"

definition clean :: "string \<Rightarrow> bool" where
  "clean xs \<longleftrightarrow> (case xs of [] \<Rightarrow> True | x # _ \<Rightarrow> \<not> is_ws x)"

lemma rest_Cons:
  assumes "rest buf s (x # xs)"
  shows "s < length buf" "buf ! s = x" "rest buf (s + 1) xs"
proof -
  have "drop s buf \<noteq> []" using assms by (simp add: rest_def)
  then show l: "s < length buf" by simp
  show "buf ! s = x" "rest buf (s + 1) xs" using assms l Cons_nth_drop_Suc [OF l] by (auto simp: rest_def)
qed

lemma skip_while_rest:
  "rest buf s xs \<Longrightarrow> es = length buf \<Longrightarrow>
   skip_while P buf s es = s + length (takeWhile P xs) \<and> rest buf (s + length (takeWhile P xs)) (dropWhile P xs)"
proof (induction xs arbitrary: s)
  case Nil
  then show ?case by (simp add: rest_def skip_while.simps)
next
  case (Cons x xs)
  note R = rest_Cons [OF Cons.prems(1)]
  show ?case
  proof (cases "P x")
    case True
    then show ?thesis using Cons.IH [OF R(3) Cons.prems(2)] R(1,2) Cons.prems(2) by (subst skip_while.simps) (simp add: at_def)
  next
    case False
    then show ?thesis using R(1,2) Cons.prems by (subst skip_while.simps) (simp add: at_def)
  qed
qed

lemma at_rest: "rest buf s xs \<Longrightarrow> at buf s = (case xs of [] \<Rightarrow> NUL | x # _ \<Rightarrow> x)"
proof (cases xs)
  case Nil
  moreover assume "rest buf s xs"
  ultimately show ?thesis by (simp add: rest_def at_def)
next
  case (Cons y ys)
  moreover assume "rest buf s xs"
  ultimately show ?thesis using rest_Cons [of buf s y ys] by (simp add: at_def)
qed

lemma rest_append: "rest buf s (xs @ ys) \<Longrightarrow> rest buf (s + length xs) ys"
proof (induction xs arbitrary: s)
  case (Cons x xs)
  then show ?case using Cons.IH [OF rest_Cons(3)] by simp
qed simp

lemma rest_nul: "no_nul buf \<Longrightarrow> rest buf s xs \<Longrightarrow> NUL \<notin> set xs"
  by (auto simp: rest_def no_nul_def dest: in_set_dropD)

lemma clean_dropWhile: "clean (dropWhile is_ws xs)"
  by (induction xs) (simp_all add: clean_def)

lemma clean_id: "clean xs \<Longrightarrow> takeWhile is_ws xs = [] \<and> dropWhile is_ws xs = xs"
  by (cases xs) (auto simp: clean_def)

lemma peek_rest:
  assumes "rest buf s xs" "clean xs" "es = length buf" "no_nul buf"
  shows "peek buf s es toks = (xs \<noteq> [] \<and> hd xs \<in> set toks, s)"
  using skip_while_rest [OF assms(1,3), of is_ws] clean_id [OF assms(2)] at_rest [OF assms(1)] rest_nul [OF assms(4,1)] strchr_set [of toks "hd xs"]
  by (cases xs) (auto simp: peek_def Let_def)

lemma gettoken_sym:
  assumes r: "rest buf s (c # xs)" and es: "es = length buf"
    and c: "c \<in> {CHR ''|'', CHR ''('', CHR '')'', CHR '';'', CHR ''&'', CHR ''<''} \<or> c = CHR ''>'' \<and> (xs = [] \<or> hd xs \<noteq> CHR ''>'')"
  obtains q eq s' where "gettoken buf s es = (c, q, eq, s')" "rest buf s' (dropWhile is_ws xs)" "s < s'"
proof -
  have "\<not> is_ws c" using c by (auto simp: is_ws_def whitespace_def)
  then have sk: "skip_while is_ws buf s es = s" using skip_while_rest [OF r es, of is_ws] by simp
  have a: "at buf s = c" "at buf (s + 1) = (case xs of [] \<Rightarrow> NUL | x # _ \<Rightarrow> x)" using at_rest [OF r] at_rest [OF rest_Cons(3) [OF r]] by simp_all
  have "c = CHR ''>'' \<Longrightarrow> at buf (s + 1) \<noteq> CHR ''>''" using c a(2) by (cases xs) (auto simp: NUL_def)
  then have "gettoken buf s es = (c, s, s + 1, skip_while is_ws buf (s + 1) es)"
    using c by (auto simp: gettoken_def sk a(1) NUL_def Let_def)
  then show thesis using skip_while_rest [OF rest_Cons(3) [OF r] es, of is_ws] by (intro that) auto
qed

lemma gettoken_word:
  assumes r: "rest buf s (w @ xs)" and es: "es = length buf" and w: "good_word w" and x: "xs = [] \<or> \<not> is_word (hd xs)"
  obtains s' where "gettoken buf s es = (CHR ''a'', s, s + length w, s')" "rest buf s' (dropWhile is_ws xs)" "s < s'"
    "word_text buf (s, s + length w) = w"
proof -
  obtain c cs where c: "w = c # cs" using w by (cases w) (auto simp: good_word_def)
  have cw: "is_word c" "c \<noteq> NUL" using w c by (auto simp: good_word_def)
  then have nws: "\<not> is_ws c" by (simp add: is_word_def is_ws_def)
  have sk: "skip_while is_ws buf s es = s" using skip_while_rest [OF r es, of is_ws] nws c by simp
  have tw: "takeWhile is_word (w @ xs) = w"
    using w x by (cases xs) (auto simp: good_word_def list_all_iff takeWhile_append2)
  have sw: "skip_while is_word buf s es = s + length w" using skip_while_rest [OF r es, of is_word] tw by simp
  have a: "at buf s = c" using at_rest [OF r] c by simp
  have sy: "c \<notin> set symbols" using cw(1) strchr_set [of symbols c] by (simp add: is_word_def)
  have "gettoken buf s es = (CHR ''a'', s, s + length w, skip_while is_ws buf (s + length w) es)"
    using sy cw(2) by (auto simp: gettoken_def sk sw a Let_def symbols_def)
  moreover have "word_text buf (s, s + length w) = w" using r by (simp add: word_text_def rest_def)
  ultimately show thesis using skip_while_rest [OF rest_append [OF r] es, of is_ws] c by (intro that) auto
qed

lemma gettoken_end:
  assumes "rest buf s []" "es = length buf"
  shows "gettoken buf s es = (NUL, s, s, s)"
  using skip_while_rest [OF assms, of is_ws] at_rest [OF assms(1)] by (simp add: gettoken_def)

section \<open>Redirections and arguments\<close>

type_synonym 'w redir = "'w \<times> u32 \<times> int"

definition wrap :: "'w cmd \<Rightarrow> 'w redir list \<Rightarrow> 'w cmd" where
  "wrap c rs = foldl (\<lambda>c (f, m, fd). REDIR c f m fd) c rs"

definition redirs_text :: "string redir list \<Rightarrow> string" where
  "redirs_text rs = concat (map (\<lambda>(f, m, fd). redir_text f fd) rs)"

definition good_redirs :: "string redir list \<Rightarrow> bool" where
  "good_redirs rs \<longleftrightarrow> list_all (\<lambda>(f, m, fd). good_word f \<and> redir_kind m fd) rs"

definition stop :: "string \<Rightarrow> string \<Rightarrow> bool" where
  "stop toks xs \<longleftrightarrow> (case xs of [] \<Rightarrow> True | x # _ \<Rightarrow> x \<in> set toks)"

lemma wrap_simps [simp]: "wrap c [] = c" "wrap c ((f, m, fd) # rs) = wrap (REDIR c f m fd) rs"
  by (simp_all add: wrap_def)

lemma redirs_text_simps [simp]: "redirs_text [] = []" "redirs_text ((f, m, fd) # rs) = redir_text f fd @ redirs_text rs"
  by (simp_all add: redirs_text_def)

lemma words_text_simps [simp]: "words_text [] = []" "words_text (w # ws) = w @ CHR '' '' # words_text ws"
  by (simp_all add: words_text_def)

lemma good_word_hd:
  assumes "good_word w"
  obtains c cs where "w = c # cs" "is_word c" "\<not> is_ws c" "c \<notin> set ''<|>&;()''"
proof -
  obtain c cs where c: "w = c # cs" using assms by (cases w) (auto simp: good_word_def)
  then have "is_word c" using assms by (simp add: good_word_def)
  then show thesis using that [OF c] strchr_set [of symbols c] by (auto simp: is_word_def is_ws_def symbols_def)
qed

lemma special_chars:
  "is_ws CHR '' ''" "\<not> is_word CHR '' ''" "c \<in> set ''<|>&;()'' \<Longrightarrow> \<not> is_ws c" "c \<in> set ''<|>&;()'' \<Longrightarrow> \<not> is_word c"
  by (auto simp: is_ws_def is_word_def whitespace_def symbols_def)

lemma clean_redirs: "clean post \<Longrightarrow> clean (redirs_text rs @ post)"
  using special_chars(3) [of "CHR ''<''"] special_chars(3) [of "CHR ''>''"]
  by (cases rs) (auto simp: redir_text_def clean_def)

lemma clean_words: "list_all good_word ws \<Longrightarrow> clean xs \<Longrightarrow> clean (words_text ws @ xs)"
  by (cases ws) (auto simp: clean_def elim: good_word_hd)

lemma parseredirs_text:
  assumes nn: "no_nul buf" and es: "es = length buf"
  shows "rest buf s (redirs_text rs @ post) \<Longrightarrow> good_redirs rs \<Longrightarrow> clean post \<Longrightarrow> post = [] \<or> hd post \<notin> {CHR ''<'', CHR ''>''} \<Longrightarrow>
    \<exists>c' s'. parseredirs c0 buf s es = Ok (c', s') \<and> s \<le> s' \<and> rest buf s' post \<and>
      map_cmd (word_text buf) c' = wrap (map_cmd (word_text buf) c0) rs"
proof (induction rs arbitrary: s c0)
  case Nil
  then have "peek buf s es ''<>'' = (False, s)" using peek_rest [OF _ _ es nn, of s post] by auto
  then show ?case using Nil by (subst parseredirs.simps) simp
next
  case (Cons r rs)
  obtain f m fd where r: "r = (f, m, fd)" by (cases r)
  have f: "good_word f" "redir_kind m fd" "good_redirs rs" using Cons.prems(2) r by (auto simp: good_redirs_def)
  let ?c = "if fd = 0 then CHR ''<'' else CHR ''>''" and ?R = "redirs_text rs @ post"
  have rs0: "rest buf s (?c # f @ CHR '' '' # ?R)" using Cons.prems(1) r by (auto simp: redir_text_def split: if_splits)
  have cl: "clean (?c # f @ CHR '' '' # ?R)" "clean ?R" using clean_redirs [OF Cons.prems(3)] special_chars(3) by (auto simp: clean_def)
  have p: "peek buf s es ''<>'' = (True, s)" using peek_rest [OF rs0 cl(1) es nn, of "''<>''"] by auto
  have ff: "dropWhile is_ws (f @ CHR '' '' # ?R) = f @ CHR '' '' # ?R" "hd (f @ CHR '' '' # ?R) \<noteq> CHR ''>''" using f(1) by (auto elim!: good_word_hd)
  obtain q eq s1 where g: "gettoken buf s es = (?c, q, eq, s1)" "rest buf s1 (f @ CHR '' '' # ?R)" "s < s1"
    by (rule gettoken_sym [OF rs0 es]) (use ff in \<open>auto split: if_splits\<close>)
  obtain s2 where h: "gettoken buf s1 es = (CHR ''a'', s1, s1 + length f, s2)" "rest buf s2 ?R" "s1 < s2" "word_text buf (s1, s1 + length f) = f"
    by (rule gettoken_word [OF g(2) es f(1)]) (use special_chars(1,2) clean_id [OF cl(2)] in auto)
  obtain c' s' where IH: "parseredirs (redircmd c0 s1 (s1 + length f) m fd) buf s2 es = Ok (c', s')" "s2 \<le> s'" "rest buf s' post"
    "map_cmd (word_text buf) c' = wrap (map_cmd (word_text buf) (redircmd c0 s1 (s1 + length f) m fd)) rs"
    using Cons.IH [OF h(2) f(3) Cons.prems(3,4)] by blast
  have "parseredirs c0 buf s es = Ok (c', s')"
    using p g(1) h(1) IH(1) f(2) by (subst parseredirs.simps) (auto simp: redir_kind_def Let_def)
  then show ?case using IH(2-4) g(3) h(3,4) r by (auto simp: cmd_defs)
qed

lemma map_add_arg: "map_cmd h (add_arg w c) = add_arg (h w) (map_cmd h c)"
  by (induction w c rule: add_arg.induct) simp_all

lemma fold_add_arg: "fold add_arg ws (EXEC us) = EXEC (us @ ws)"
  by (induction ws arbitrary: us) simp_all

lemma stop_clean: "stop ''|)&;'' post \<Longrightarrow> clean post \<and> (post = [] \<or> hd post \<notin> {CHR ''<'', CHR ''>'', CHR ''(''})"
  using special_chars(3) by (cases post) (auto simp: stop_def clean_def)

lemma stop_symbol: "stop toks post \<Longrightarrow> set toks \<subseteq> set ''<|>&;()'' \<Longrightarrow> clean post"
  using special_chars(3) by (cases post) (auto simp: stop_def clean_def)

lemma parseargs_done:
  assumes "no_nul buf" "es = length buf" "rest buf s post" "stop ''|)&;'' post"
  shows "parseargs ret argc buf s es = Ok (ret, s)"
proof (cases post)
  case Nil
  then show ?thesis using peek_rest [OF assms(3) _ assms(2,1)] gettoken_end [of buf s es] assms(2,3)
    by (subst parseargs.simps) (simp add: clean_def)
next
  case (Cons x xs)
  then show ?thesis using peek_rest [OF assms(3) _ assms(2,1), of "''|)&;''"] stop_clean [OF assms(4)] assms(4)
    by (subst parseargs.simps) (simp add: stop_def)
qed

lemma parseargs_text:
  assumes nn: "no_nul buf" and es: "es = length buf" and rs: "good_redirs rs" and post: "stop ''|)&;'' post"
  shows "rest buf s (words_text ws @ redirs_text rs @ post) \<Longrightarrow> list_all good_word ws \<Longrightarrow> ws \<noteq> [] \<Longrightarrow> argc + length ws < MAXARGS \<Longrightarrow>
    \<exists>c' s'. parseargs ret argc buf s es = Ok (c', s') \<and> s \<le> s' \<and> rest buf s' post \<and>
      map_cmd (word_text buf) c' = wrap (fold add_arg ws (map_cmd (word_text buf) ret)) rs"
proof (induction ws arbitrary: s argc ret)
  case (Cons w ws)
  let ?R = "words_text ws @ redirs_text rs @ post"
  note S = stop_clean [OF post]
  have w: "good_word w" "list_all good_word ws" "Suc argc + length ws < MAXARGS" using Cons.prems by simp_all
  have r: "rest buf s (w @ CHR '' '' # ?R)" using Cons.prems(1) by simp
  have cl: "clean ?R" by (intro clean_words clean_redirs w) (use S in simp)
  have cl0: "clean (w @ CHR '' '' # ?R)" using w(1) by (auto simp: clean_def elim!: good_word_hd)
  have p: "peek buf s es ''|)&;'' = (False, s)" using peek_rest [OF r cl0 es nn] w(1) by (auto elim!: good_word_hd)
  obtain s1 where g: "gettoken buf s es = (CHR ''a'', s, s + length w, s1)" "rest buf s1 ?R" "s < s1" "word_text buf (s, s + length w) = w"
    by (rule gettoken_word [OF r es w(1)]) (use special_chars(1,2) clean_id [OF cl] in auto)
  let ?ret = "add_arg (s, s + length w) ret"
  have unf: "parseargs ret argc buf s es = bnd (parseredirs ?ret buf s1 es) (\<lambda>(ret, s). parseargs ret (Suc argc) buf s es)"
    using p g(1) w(3) by (subst parseargs.simps) (simp add: NUL_def)
  have m: "map_cmd (word_text buf) ?ret = add_arg w (map_cmd (word_text buf) ret)" using g(4) by (simp add: map_add_arg)
  show ?case
  proof (cases "ws = []")
    case True
    obtain c' s' where "parseredirs ?ret buf s1 es = Ok (c', s')" "s1 \<le> s'" "rest buf s' post" "map_cmd (word_text buf) c' = wrap (map_cmd (word_text buf) ?ret) rs"
      using parseredirs_text [OF nn es _ rs, of s1 post ?ret] g(2) S True by auto
    then show ?thesis using unf parseargs_done [OF nn es _ post] g(3) m True by auto
  next
    case False
    have "hd ?R \<notin> {CHR ''<'', CHR ''>''}" using False w(2) by (cases ws) (auto elim!: good_word_hd)
    then obtain c' s' where d: "parseredirs ?ret buf s1 es = Ok (c', s')" "s1 \<le> s'" "rest buf s' ?R" "map_cmd (word_text buf) c' = map_cmd (word_text buf) ?ret"
      using parseredirs_text [OF nn es, of s1 "[]" ?R ?ret] g(2) cl by (auto simp: good_redirs_def)
    show ?thesis using Cons.IH [OF d(3) w(2) False w(3), of c'] unf d(1,2,4) g(3) m by auto
  qed
qed simp

section \<open>The nonterminals\<close>

lemma clean_unparse: "printable c \<Longrightarrow> clean post \<Longrightarrow> clean (unparse c v @ post)"
proof (induction c arbitrary: v post)
  case (EXEC ws)
  then show ?case by (simp add: clean_words)
next
  case (REDIR c f m fd)
  have "clean (redir_text f fd @ post)" using special_chars(3) by (simp add: redir_text_def clean_def)
  then show ?case using REDIR by simp
qed (use special_chars(3) in \<open>auto simp: paren_def clean_def\<close>)

text \<open>The call \<open>r\<close> made at \<open>s\<close> succeeds, reads the command \<open>c\<close> and stops before \<open>post\<close>.\<close>

definition reads :: "string \<Rightarrow> (word_ref cmd \<times> nat) res \<Rightarrow> nat \<Rightarrow> string \<Rightarrow> string cmd \<Rightarrow> bool" where
  "reads buf r s post c \<longleftrightarrow>
     (\<exists>c' s'. r = Ok (c', s') \<and> s \<le> s' \<and> rest buf s' post \<and> map_cmd (word_text buf) c' = c)"

definition reads_exec :: "string \<Rightarrow> string cmd \<Rightarrow> bool" where
  "reads_exec buf c \<longleftrightarrow> (\<forall>s n rs post. rest buf s (unparse c 0 @ redirs_text rs @ post) \<longrightarrow> good_redirs rs \<longrightarrow> stop ''|)&;'' post \<longrightarrow>
     length buf - s \<le> n \<longrightarrow> reads buf (parseexec (parseline n) buf s (length buf)) s post (wrap c rs))"

definition reads_pipe :: "string \<Rightarrow> string cmd \<Rightarrow> bool" where
  "reads_pipe buf c \<longleftrightarrow> (\<forall>s n m post. rest buf s (unparse c 1 @ post) \<longrightarrow> stop '')&;'' post \<longrightarrow>
     length buf - s \<le> n \<longrightarrow> length buf - s < m \<longrightarrow> reads buf (parsepipe (parseline n) m buf s (length buf)) s post c)"

definition reads_back :: "string \<Rightarrow> string cmd \<Rightarrow> bool" where
  "reads_back buf c \<longleftrightarrow> (\<forall>s n m k post. rest buf s (unparse c 2 @ replicate k CHR ''&'' @ post) \<longrightarrow> stop '');'' post \<longrightarrow>
     length buf - s \<le> n \<longrightarrow> length buf - s < m \<longrightarrow>
     reads buf (bnd (parsepipe (parseline n) m buf s (length buf)) (\<lambda>(c, s). Ok (parseback c buf s (length buf)))) s post ((BACK ^^ k) c))"

definition reads_line :: "string \<Rightarrow> string cmd \<Rightarrow> bool" where
  "reads_line buf c \<longleftrightarrow> (\<forall>s n post. rest buf s (unparse c 3 @ post) \<longrightarrow> stop '')'' post \<longrightarrow> length buf - s < n \<longrightarrow>
     reads buf (parseline n buf s (length buf)) s post c)"

lemma reads_exec_EXEC:
  assumes nn: "no_nul buf" and c: "printable (EXEC ws)"
  shows "reads_exec buf (EXEC ws)"
  unfolding reads_exec_def
proof (intro allI impI)
  fix s n rs post
  assume h: "rest buf s (unparse (EXEC ws) 0 @ redirs_text rs @ post)" "good_redirs rs" "stop ''|)&;'' post"
  let ?R = "words_text ws @ redirs_text rs @ post"
  have ws: "list_all good_word ws" "length ws < MAXARGS" using c by simp_all
  note S = stop_clean [OF h(3)]
  have cl: "clean ?R" by (intro clean_words clean_redirs ws) (use S in simp)
  have hd: "?R = [] \<or> hd ?R \<noteq> CHR ''(''"
    using ws S by (cases ws; cases rs) (auto simp: redir_text_def elim!: good_word_hd split: prod.splits if_splits)
  have r: "rest buf s ?R" using h(1) by simp
  have p: "peek buf s (length buf) ''('' = (False, s)" using peek_rest [OF r cl refl nn] hd by auto
  show "reads buf (parseexec (parseline n) buf s (length buf)) s post (wrap (EXEC ws) rs)"
  proof (cases "ws = []")
    case True
    then have "rest buf s (redirs_text rs @ post)" using r by simp
    then obtain c' s' where "parseredirs execcmd buf s (length buf) = Ok (c', s')" "s \<le> s'" "rest buf s' post"
      "map_cmd (word_text buf) c' = wrap (EXEC []) rs"
      using parseredirs_text [OF nn refl _ h(2), of s post execcmd] S by (auto simp: execcmd_def)
    then show ?thesis using p parseargs_done [OF nn refl _ h(3)] True by (simp add: reads_def parseexec_def)
  next
    case False
    then have "hd ?R \<notin> {CHR ''<'', CHR ''>''}" using ws by (cases ws) (auto elim!: good_word_hd)
    then obtain c' s' where d: "parseredirs execcmd buf s (length buf) = Ok (c', s')" "s \<le> s'" "rest buf s' ?R"
      "map_cmd (word_text buf) c' = EXEC []"
      using parseredirs_text [OF nn refl, of s "[]" ?R execcmd] r cl by (auto simp: good_redirs_def execcmd_def)
    obtain c2 s2 where e: "parseargs c' 0 buf s' (length buf) = Ok (c2, s2)" "s' \<le> s2" "rest buf s2 post"
      "map_cmd (word_text buf) c2 = wrap (fold add_arg ws (map_cmd (word_text buf) c')) rs"
      using parseargs_text [OF nn refl h(2,3) d(3) ws(1) False, of 0 c'] ws(2) by auto
    show ?thesis using d e p by (simp add: reads_def parseexec_def fold_add_arg)
  qed
qed

lemma reads_exec_REDIR: "reads_exec buf c \<Longrightarrow> good_word f \<Longrightarrow> redir_kind m fd \<Longrightarrow> reads_exec buf (REDIR c f m fd)"
proof -
  assume c: "reads_exec buf c" and f: "good_word f" "redir_kind m fd"
  have "reads buf (parseexec (parseline n) buf s (length buf)) s post (wrap c ((f, m, fd) # rs))"
    if "rest buf s (unparse c 0 @ redirs_text ((f, m, fd) # rs) @ post)" "good_redirs rs" "stop ''|)&;'' post" "length buf - s \<le> n" for s n rs post
  proof -
    have "good_redirs ((f, m, fd) # rs)" using that(2) f by (simp add: good_redirs_def)
    then show ?thesis using c that(1,3,4) unfolding reads_exec_def by blast
  qed
  then show ?thesis by (simp add: reads_exec_def)
qed

lemma reads_exec_block:
  assumes nn: "no_nul buf" and c: "printable c" and l: "reads_line buf c" and u: "unparse c 0 = ''('' @ unparse c 3 @ '')''"
  shows "reads_exec buf c"
  unfolding reads_exec_def
proof (intro allI impI)
  fix s n rs post
  assume h: "rest buf s (unparse c 0 @ redirs_text rs @ post)" "good_redirs rs" "stop ''|)&;'' post" "length buf - s \<le> n"
  let ?T = "CHR '')'' # redirs_text rs @ post"
  note S = stop_clean [OF h(3)]
  have r: "rest buf s (CHR ''('' # unparse c 3 @ ?T)" using h(1) by (simp add: u)
  have clT: "clean ?T" "clean (redirs_text rs @ post)" using special_chars(3) clean_redirs S by (simp_all add: clean_def)
  have cl: "clean (CHR ''('' # unparse c 3 @ ?T)" using special_chars(3) by (simp add: clean_def)
  have p: "peek buf s (length buf) ''('' = (True, s)" using peek_rest [OF r cl refl nn, of "''(''"] by simp
  obtain q eq s1 where g: "gettoken buf s (length buf) = (CHR ''('', q, eq, s1)" "rest buf s1 (unparse c 3 @ ?T)" "s < s1"
    by (rule gettoken_sym [OF r refl]) (use clean_id [OF clean_unparse [OF c clT(1)]] in auto)
  have lt: "length buf - s1 < n" using h(4) g(3) rest_Cons(1) [OF r] by linarith
  have "reads buf (parseline n buf s1 (length buf)) s1 ?T c"
    using l g(2) lt unfolding reads_line_def by (simp add: stop_def)
  then obtain c' s2 where d: "parseline n buf s1 (length buf) = Ok (c', s2)" "s1 \<le> s2" "rest buf s2 ?T" "map_cmd (word_text buf) c' = c"
    by (auto simp: reads_def)
  have p2: "peek buf s2 (length buf) '')'' = (True, s2)" using peek_rest [OF d(3) clT(1) refl nn, of "'')''"] by simp
  obtain q2 eq2 s3 where g2: "gettoken buf s2 (length buf) = (CHR '')'', q2, eq2, s3)" "rest buf s3 (redirs_text rs @ post)" "s2 < s3"
    by (rule gettoken_sym [OF d(3) refl]) (use clean_id [OF clT(2)] in auto)
  obtain c2 s4 where e: "parseredirs c' buf s3 (length buf) = Ok (c2, s4)" "s3 \<le> s4" "rest buf s4 post" "map_cmd (word_text buf) c2 = wrap c rs"
    using parseredirs_text [OF nn refl g2(2) h(2), of c'] S d(4) by auto
  show "reads buf (parseexec (parseline n) buf s (length buf)) s post (wrap c rs)"
    using p g d(1,2) p2 g2 e by (auto simp: reads_def parseexec_def parseblock_def)
qed

lemma reads_execD:
  assumes "reads_exec buf c" "rest buf s (unparse c 0 @ post)" "stop ''|)&;'' post" "length buf - s \<le> n"
  shows "reads buf (parseexec (parseline n) buf s (length buf)) s post c"
  using assms(1) [unfolded reads_exec_def, rule_format, of s "[]" post n] assms(2-4) by (simp add: good_redirs_def)

lemma reads_backD:
  assumes "reads_back buf c" "rest buf s (unparse c 2 @ post)" "stop '');'' post" "length buf - s \<le> n" "length buf - s < m"
  shows "reads buf (bnd (parsepipe (parseline n) m buf s (length buf)) (\<lambda>(c, s). Ok (parseback c buf s (length buf)))) s post c"
  using assms(1) [unfolded reads_back_def, rule_format, of s 0 post n m] assms(2-5) by simp

lemma reads_pipe_exec:
  assumes nn: "no_nul buf" and e: "reads_exec buf c" and u: "unparse c 1 = unparse c 0"
  shows "reads_pipe buf c"
  unfolding reads_pipe_def
proof (intro allI impI)
  fix s n m post
  assume h: "rest buf s (unparse c 1 @ post)" "stop '')&;'' post" "length buf - s \<le> n" "length buf - s < m"
  obtain m' where m: "m = Suc m'" using h(4) by (cases m) auto
  have st: "stop ''|)&;'' post" "post = [] \<or> hd post \<noteq> CHR ''|''" using h(2) by (auto simp: stop_def split: list.splits)
  have "reads buf (parseexec (parseline n) buf s (length buf)) s post c"
    using reads_execD [OF e _ st(1) h(3)] h(1) u by simp
  then obtain c' s' where d: "parseexec (parseline n) buf s (length buf) = Ok (c', s')" "s \<le> s'" "rest buf s' post" "map_cmd (word_text buf) c' = c"
    by (auto simp: reads_def)
  have "peek buf s' (length buf) ''|'' = (False, s')" using peek_rest [OF d(3) _ refl nn, of "''|''"] stop_clean [OF st(1)] st(2) by auto
  then show "reads buf (parsepipe (parseline n) m buf s (length buf)) s post c" using d m by (simp add: reads_def)
qed

lemma reads_pipe_pipe:
  assumes nn: "no_nul buf" and c: "printable r" and e: "reads_exec buf l" and p: "reads_pipe buf r"
  shows "reads_pipe buf (PIPE l r)"
  unfolding reads_pipe_def
proof (intro allI impI)
  fix s n m post
  assume h: "rest buf s (unparse (PIPE l r) 1 @ post)" "stop '')&;'' post" "length buf - s \<le> n" "length buf - s < m"
  obtain m' where m: "m = Suc m'" using h(4) by (cases m) auto
  let ?T = "CHR ''|'' # unparse r 1 @ post"
  have st: "stop ''|)&;'' post" using h(2) by (auto simp: stop_def split: list.splits)
  have "reads buf (parseexec (parseline n) buf s (length buf)) s ?T l"
    using reads_execD [OF e _ _ h(3), of ?T] h(1) by (simp add: paren_def stop_def)
  then obtain c' s' where d: "parseexec (parseline n) buf s (length buf) = Ok (c', s')" "s \<le> s'" "rest buf s' ?T" "map_cmd (word_text buf) c' = l"
    by (auto simp: reads_def)
  have pk: "peek buf s' (length buf) ''|'' = (True, s')" using peek_rest [OF d(3) _ refl nn, of "''|''"] special_chars(3) by (simp add: clean_def)
  obtain q eq s1 where g: "gettoken buf s' (length buf) = (CHR ''|'', q, eq, s1)" "rest buf s1 (unparse r 1 @ post)" "s' < s1"
    by (rule gettoken_sym [OF d(3) refl]) (use clean_id [OF clean_unparse [OF c]] stop_clean [OF st] in auto)
  have lt: "length buf - s1 \<le> n" "length buf - s1 < m'" using h(3,4) m d(2) g(3) rest_Cons(1) [OF d(3)] by linarith+
  have "reads buf (parsepipe (parseline n) m' buf s1 (length buf)) s1 post r"
    using p g(2) h(2) lt unfolding reads_pipe_def by simp
  then show "reads buf (parsepipe (parseline n) m buf s (length buf)) s post (PIPE l r)"
    using d pk g(1,3) m by (auto simp: reads_def pipecmd_def)
qed

lemma parseback_text:
  assumes nn: "no_nul buf" and es: "es = length buf" and post: "stop '');'' post"
  shows "rest buf s (replicate k CHR ''&'' @ post) \<Longrightarrow>
    \<exists>c' s'. parseback c buf s es = (c', s') \<and> s \<le> s' \<and> rest buf s' post \<and>
      map_cmd (word_text buf) c' = (BACK ^^ k) (map_cmd (word_text buf) c)"
proof (induction k arbitrary: s c)
  case 0
  have "clean post" "post = [] \<or> hd post \<noteq> CHR ''&''" using post stop_symbol [OF post] by (auto simp: stop_def split: list.splits)
  then have "peek buf s es ''&'' = (False, s)" using 0 peek_rest [OF _ _ es nn, of s post "''&''"] by auto
  then show ?case using 0 by (subst parseback.simps) simp
next
  case (Suc k)
  let ?R = "replicate k CHR ''&'' @ post"
  have r: "rest buf s (CHR ''&'' # ?R)" using Suc.prems by simp
  have cl: "clean (CHR ''&'' # ?R)" by (simp add: clean_def special_chars(3))
  have cl2: "clean ?R" using stop_symbol [OF post] by (cases k) (simp_all add: clean_def special_chars(3))
  have p: "peek buf s es ''&'' = (True, s)" using peek_rest [OF r cl es nn, of "''&''"] by simp
  obtain q eq s1 where g: "gettoken buf s es = (CHR ''&'', q, eq, s1)" "rest buf s1 ?R" "s < s1"
    by (rule gettoken_sym [OF r es]) (use clean_id [OF cl2] in auto)
  show ?case using Suc.IH [OF g(2), of "backcmd c"] p g(1,3) by (subst parseback.simps) (auto simp: backcmd_def funpow_swap1)
qed

lemma reads_back_pipe:
  assumes nn: "no_nul buf" and p: "reads_pipe buf c" and u: "unparse c 2 = unparse c 1"
  shows "reads_back buf c"
  unfolding reads_back_def
proof (intro allI impI)
  fix s n m k post
  assume h: "rest buf s (unparse c 2 @ replicate k CHR ''&'' @ post)" "stop '');'' post" "length buf - s \<le> n" "length buf - s < m"
  have "stop '')&;'' (replicate k CHR ''&'' @ post)" using h(2) by (cases k) (auto simp: stop_def split: list.splits)
  then have "reads buf (parsepipe (parseline n) m buf s (length buf)) s (replicate k CHR ''&'' @ post) c"
    using p h(1,3,4) u unfolding reads_pipe_def by simp
  then obtain c' s' where d: "parsepipe (parseline n) m buf s (length buf) = Ok (c', s')" "s \<le> s'"
    "rest buf s' (replicate k CHR ''&'' @ post)" "map_cmd (word_text buf) c' = c" by (auto simp: reads_def)
  obtain c2 s2 where "parseback c' buf s' (length buf) = (c2, s2)" "s' \<le> s2" "rest buf s2 post" "map_cmd (word_text buf) c2 = (BACK ^^ k) c"
    using parseback_text [OF nn refl h(2) d(3), of c'] d(4) by auto
  then show "reads buf (bnd (parsepipe (parseline n) m buf s (length buf)) (\<lambda>(c, s). Ok (parseback c buf s (length buf)))) s post ((BACK ^^ k) c)"
    using d(1,2) by (simp add: reads_def)
qed

lemma reads_back_back: "reads_back buf c \<Longrightarrow> reads_back buf (BACK c)"
proof -
  assume b: "reads_back buf c"
  have "reads buf (bnd (parsepipe (parseline n) m buf s (length buf)) (\<lambda>(c, s). Ok (parseback c buf s (length buf)))) s post ((BACK ^^ Suc k) c)"
    if "rest buf s (unparse c 2 @ replicate (Suc k) CHR ''&'' @ post)" "stop '');'' post" "length buf - s \<le> n" "length buf - s < m" for s n m k post
    using b that unfolding reads_back_def by blast
  then show ?thesis by (simp add: reads_back_def paren_def funpow_swap1)
qed

lemma parseline_back:
  "parseline (Suc n) buf s es =
     bnd (bnd (parsepipe (parseline n) (Suc n) buf s es) (\<lambda>(c, s). Ok (parseback c buf s es))) (\<lambda>(cmd, s).
     let (b, s) = peek buf s es '';'' in
     if b then let (_, _, _, s) = gettoken buf s es in bnd (parseline n buf s es) (\<lambda>(r, s). Ok (listcmd cmd r, s))
     else Ok (cmd, s))"
  unfolding parseline.simps by (cases "parsepipe (parseline n) (Suc n) buf s es") (auto simp: Let_def)

lemma reads_line_back:
  assumes nn: "no_nul buf" and b: "reads_back buf c" and u: "unparse c 3 = unparse c 2"
  shows "reads_line buf c"
  unfolding reads_line_def
proof (intro allI impI)
  fix s n post
  assume h: "rest buf s (unparse c 3 @ post)" "stop '')'' post" "length buf - s < n"
  obtain n' where n: "n = Suc n'" using h(3) by (cases n) auto
  have st: "stop '');'' post" "clean post" "post = [] \<or> hd post \<noteq> CHR '';''" using h(2) stop_symbol [OF h(2)] by (auto simp: stop_def split: list.splits)
  have "reads buf (bnd (parsepipe (parseline n') (Suc n') buf s (length buf)) (\<lambda>(c, s). Ok (parseback c buf s (length buf)))) s post c"
    using h(1,3) n u by (intro reads_backD [OF b _ st(1)]) auto
  then obtain c' s' where d: "bnd (parsepipe (parseline n') (Suc n') buf s (length buf)) (\<lambda>(c, s). Ok (parseback c buf s (length buf))) = Ok (c', s')"
    "s \<le> s'" "rest buf s' post" "map_cmd (word_text buf) c' = c" by (auto simp: reads_def)
  have "peek buf s' (length buf) '';'' = (False, s')" using peek_rest [OF d(3) st(2) refl nn, of "'';''"] st(3) by auto
  then show "reads buf (parseline n buf s (length buf)) s post c" unfolding n parseline_back d(1) using d(2-4) by (simp add: reads_def)
qed

lemma reads_line_list:
  assumes nn: "no_nul buf" and c: "printable r" and b: "reads_back buf l" and l: "reads_line buf r"
  shows "reads_line buf (LIST l r)"
  unfolding reads_line_def
proof (intro allI impI)
  fix s n post
  assume h: "rest buf s (unparse (LIST l r) 3 @ post)" "stop '')'' post" "length buf - s < n"
  obtain n' where n: "n = Suc n'" using h(3) by (cases n) auto
  let ?T = "CHR '';'' # unparse r 3 @ post"
  have cp: "clean post" using h(2) stop_symbol [OF h(2)] by (auto simp: stop_def split: list.splits)
  have "reads buf (bnd (parsepipe (parseline n') (Suc n') buf s (length buf)) (\<lambda>(c, s). Ok (parseback c buf s (length buf)))) s ?T l"
    using h(1,3) n by (intro reads_backD [OF b]) (auto simp: paren_def stop_def)
  then obtain c' s' where d: "bnd (parsepipe (parseline n') (Suc n') buf s (length buf)) (\<lambda>(c, s). Ok (parseback c buf s (length buf))) = Ok (c', s')"
    "s \<le> s'" "rest buf s' ?T" "map_cmd (word_text buf) c' = l" by (auto simp: reads_def)
  have pk: "peek buf s' (length buf) '';'' = (True, s')" using peek_rest [OF d(3) _ refl nn, of "'';''"] special_chars(3) by (simp add: clean_def)
  obtain q eq s1 where g: "gettoken buf s' (length buf) = (CHR '';'', q, eq, s1)" "rest buf s1 (unparse r 3 @ post)" "s' < s1"
    by (rule gettoken_sym [OF d(3) refl]) (use clean_id [OF clean_unparse [OF c cp]] in auto)
  have lt: "length buf - s1 < n'" using h(3) n d(2) g(3) rest_Cons(1) [OF d(3)] by linarith
  have "reads buf (parseline n' buf s1 (length buf)) s1 post r" using l g(2) h(2) lt unfolding reads_line_def by simp
  then show "reads buf (parseline n buf s (length buf)) s post (LIST l r)"
    unfolding n parseline_back d(1) using d(2,4) pk g(1,3) by (auto simp: reads_def listcmd_def)
qed

section \<open>Round trip\<close>

lemma no_nul_unparse: "printable c \<Longrightarrow> NUL \<notin> set (unparse c v)"
proof (induction c arbitrary: v)
  case (EXEC ws)
  then show ?case by (induction ws) (auto simp: good_word_def NUL_def)
qed (auto simp: paren_def redir_text_def good_word_def NUL_def split: if_splits)

lemma reads_all:
  assumes nn: "no_nul buf"
  shows "printable c \<Longrightarrow> reads_exec buf c \<and> reads_pipe buf c \<and> reads_back buf c \<and> reads_line buf c"
proof (induction c)
  case (EXEC ws)
  then have e: "reads_exec buf (EXEC ws)" by (rule reads_exec_EXEC [OF nn])
  have p: "reads_pipe buf (EXEC ws)" by (rule reads_pipe_exec [OF nn e]) simp
  have b: "reads_back buf (EXEC ws)" by (rule reads_back_pipe [OF nn p]) simp
  show ?case using e p b reads_line_back [OF nn b] by simp
next
  case (REDIR c f m fd)
  then have e: "reads_exec buf (REDIR c f m fd)" by (simp add: reads_exec_REDIR)
  have p: "reads_pipe buf (REDIR c f m fd)" by (rule reads_pipe_exec [OF nn e]) simp
  have b: "reads_back buf (REDIR c f m fd)" by (rule reads_back_pipe [OF nn p]) simp
  show ?case using e p b reads_line_back [OF nn b] by simp
next
  case (PIPE l r)
  then have p: "reads_pipe buf (PIPE l r)" by (intro reads_pipe_pipe [OF nn]) simp_all
  have b: "reads_back buf (PIPE l r)" by (rule reads_back_pipe [OF nn p]) (simp add: paren_def)
  have l: "reads_line buf (PIPE l r)" by (rule reads_line_back [OF nn b]) (simp add: paren_def)
  show ?case using p b l reads_exec_block [OF nn PIPE.prems l] by (simp add: paren_def)
next
  case (LIST l r)
  then have ln: "reads_line buf (LIST l r)" by (intro reads_line_list [OF nn]) simp_all
  have e: "reads_exec buf (LIST l r)" by (rule reads_exec_block [OF nn LIST.prems ln]) (simp add: paren_def)
  have p: "reads_pipe buf (LIST l r)" by (rule reads_pipe_exec [OF nn e]) (simp add: paren_def)
  show ?case using e p ln reads_back_pipe [OF nn p] by (simp add: paren_def)
next
  case (BACK c)
  then have b: "reads_back buf (BACK c)" by (intro reads_back_back) simp
  have ln: "reads_line buf (BACK c)" by (rule reads_line_back [OF nn b]) (simp add: paren_def)
  have e: "reads_exec buf (BACK c)" by (rule reads_exec_block [OF nn BACK.prems ln]) (simp add: paren_def)
  show ?case using e b ln reads_pipe_exec [OF nn e] by (simp add: paren_def)
qed

lemma parsecmd_unparse:
  assumes c: "printable c"
  shows "\<exists>cmd buf'. parsecmd (unparse c 3) = Ok (cmd, buf') \<and> map_cmd (\<lambda>w. cstring buf' (fst w)) cmd = c"
proof -
  let ?b = "unparse c 3"
  have nn: "no_nul ?b" using no_nul_unparse [OF c] by (simp add: no_nul_def)
  have r: "reads_line ?b c" using reads_all [OF nn c] by simp
  have "reads ?b (parseline (length ?b + 1) ?b 0 (length ?b)) 0 [] c"
    using r [unfolded reads_line_def, rule_format, of 0 "[]" "length ?b + 1"] by (simp add: rest_def stop_def)
  then obtain cmd s where d: "parseline (length ?b + 1) ?b 0 (length ?b) = Ok (cmd, s)" "rest ?b s []" "map_cmd (word_text ?b) cmd = c"
    by (auto simp: reads_def)
  have p: "parsed ?b 0 (parseline (length ?b + 1) ?b 0 (length ?b))" by (rule parseline_parsed [OF nn refl]) simp_all
  then have ok: "words_ok ?b cmd" using d(1) by simp
  have "s = length ?b" using d(2) by (simp add: rest_def)
  then have "parsecmd ?b = Ok (cmd, nulterminate cmd ?b)"
    using d(1) peek_rest [OF d(2) _ refl nn, of "[]"] by (simp add: parsecmd_def Let_def clean_def)
  moreover have "map_cmd (\<lambda>w. cstring (nulterminate cmd ?b) (fst w)) cmd = map_cmd (word_text ?b) cmd"
    by (rule cmd.map_cong0) (simp add: nulterminate_word [OF nn ok])
  ultimately show ?thesis using d(3) by simp
qed

text \<open>
  C30. The parser reads back every command. Take any command built from simple commands of fewer than ten words,
  redirections, pipes, lists and background commands, and print it with the syntax of the
  shell, with parentheses only where the grammar needs them (a pipe binds tighter than \<open>&\<close>, \<open>&\<close> tighter than \<open>;\<close>, both
  binary operators group to the right). Then \<open>parsecmd\<close> accepts the line and
  the strings found at the words of its result, in the terminated line, make up exactly that command.
\<close>
theorem parse_unparse:
  "printable c \<Longrightarrow> \<exists>cmd buf'. parsecmd (unparse c 3) = Ok (cmd, buf') \<and> map_cmd (\<lambda>w. cstring buf' (fst w)) cmd = c"
  by (rule parsecmd_unparse)

theorem parse_unparse_witness:
  "\<exists>cmd buf'. parsecmd ''(ls -l >out ;cat |wc )&'' = Ok (cmd, buf') \<and>
     map_cmd (\<lambda>w. cstring buf' (fst w)) cmd =
       BACK (LIST (REDIR (EXEC [''ls'', ''-l'']) ''out'' (O_WRONLY OR O_CREATE) 1) (PIPE (EXEC [''cat'']) (EXEC [''wc''])))"
  using parse_unparse [of "BACK (LIST (REDIR (EXEC [''ls'', ''-l'']) ''out'' (O_WRONLY OR O_CREATE) 1) (PIPE (EXEC [''cat'']) (EXEC [''wc''])))"]
  by (simp add: good_word_def redir_kind_def MAXARGS_def is_word_def whitespace_def symbols_def NUL_def paren_def redir_text_def)

end
