(* ===== verification/Shell_Run.thy ===== *)
theory Shell_Run
  imports Shell_Print Sysfile
begin

text \<open>
  The part of \<open>sh.c\<close> that runs commands. A process of the shell is the tree of the system calls it makes: each
  node is one call, with the continuation for every result. \<open>launches\<close> runs such a tree on a descriptor table with the kernel's
  own allocation of descriptors (\<open>claim_fd\<close> of \<open>Sysfile\<close>) and lists the programs that are started with the descriptors they get.
\<close>

section \<open>Processes of the shell\<close>

datatype act =
    Exit
  | Exec "string list" act
  | Print string act
  | Gets int "string \<Rightarrow> act"
  | Close int act
  | Open string u32 "int \<Rightarrow> act"
  | Pipe "int \<Rightarrow> int \<Rightarrow> int \<Rightarrow> act"
  | Dup int act
  | Fork act "int \<Rightarrow> act"
  | Wait act
  | Chdir string "int \<Rightarrow> act"

definition newline :: string where "newline = [CHR 0x0A]"

definition shell_panic :: "string \<Rightarrow> act" where
  "shell_panic s = Print (s @ newline) Exit"

text \<open>The first argument is what the child does, the second what the parent does with the process number.\<close>

definition fork1 :: "act \<Rightarrow> (int \<Rightarrow> act) \<Rightarrow> act" where
  "fork1 child parent = Fork child (\<lambda>pid. if pid = -1 then shell_panic ''fork'' else parent pid)"

primrec runcmd :: "string cmd \<Rightarrow> act" where
  "runcmd (EXEC ws) =
     (case ws of
        [] \<Rightarrow> Exit
      | w # _ \<Rightarrow> Exec ws (Print (''exec '' @ w @ '' failed'' @ newline) Exit))"
| "runcmd (REDIR c f mode fd) =
     Close fd (Open f mode (\<lambda>r.
       if r < 0 then Print (''open '' @ f @ '' failed'' @ newline) Exit
       else runcmd c))"
| "runcmd (LIST l r) = fork1 (runcmd l) (\<lambda>_. Wait (runcmd r))"
| "runcmd (PIPE l r) =
     Pipe (\<lambda>res p0 p1.
       if res < 0 then shell_panic ''pipe''
       else
         fork1 (Close 1 (Dup p1 (Close p0 (Close p1 (runcmd l))))) (\<lambda>_.
         fork1 (Close 0 (Dup p0 (Close p0 (Close p1 (runcmd r))))) (\<lambda>_.
         Close p0 (Close p1 (Wait (Wait Exit))))))"
| "runcmd (BACK c) = fork1 (runcmd c) (\<lambda>_. Exit)"

section \<open>The main loop\<close>

definition getcmd :: "int \<Rightarrow> (int \<Rightarrow> string \<Rightarrow> act) \<Rightarrow> act" where
  "getcmd nbuf k = Print ''$ '' (Gets nbuf (\<lambda>buf. if buf = [] then k (-1) buf else k 0 buf))"

text \<open>What the child does with a line: parse it, then run it with the strings found in the terminated line.\<close>

definition parse_and_run :: "string \<Rightarrow> act" where
  "parse_and_run buf =
     (case parsecmd buf of
        Ok (cmd, buf') \<Rightarrow> runcmd (map_cmd (\<lambda>w. cstring buf' (fst w)) cmd)
      | Panic msg \<Rightarrow> shell_panic msg
      | Blocked \<Rightarrow> Exit)"

text \<open>One turn of the loop of \<open>main\<close>; \<open>next\<close> is the following turn.\<close>

definition main_turn :: "act \<Rightarrow> act" where
  "main_turn next =
     getcmd 100 (\<lambda>r buf.
       if r < 0 then Exit
       else if at buf 0 = CHR ''c'' \<and> at buf 1 = CHR ''d'' \<and> at buf 2 = CHR '' '' then
         let path = drop 3 (butlast buf) in
         Chdir path (\<lambda>r. if r < 0 then Print (''cannot cd '' @ path @ newline) next else next)
       else fork1 (parse_and_run buf) (\<lambda>_. Wait next))"

text \<open>The loop that opens the console until descriptor 3; \<open>n\<close> bounds the turns.\<close>

primrec open_console :: "nat \<Rightarrow> act \<Rightarrow> act" where
  "open_console 0 next = Exit"
| "open_console (Suc n) next =
     Open ''console'' O_RDWR (\<lambda>fd.
       if fd \<ge> 0 then (if fd \<ge> 3 then Close fd next else open_console n next)
       else next)"

section \<open>Descriptors\<close>

type_synonym fds = "nat \<Rightarrow> nat option"

text \<open>
  \<open>opn\<close> says which file a name and mode open, if any; new pipes get the files \<open>nf\<close> (read end) and \<open>nf + 1\<close>
  (write end). Forks succeed and so do the programs that are started.
\<close>

primrec launches :: "act \<Rightarrow> (string \<Rightarrow> u32 \<Rightarrow> nat option) \<Rightarrow> fds \<Rightarrow> nat \<Rightarrow> (string list \<times> fds) list \<times> nat" where
  "launches Exit opn t nf = ([], nf)"
| "launches (Exec ws k) opn t nf = ([(ws, t)], nf)"
| "launches (Print s k) opn t nf = launches k opn t nf"
| "launches (Gets n k) opn t nf = launches (k []) opn t nf"
| "launches (Close fd k) opn t nf = launches k opn (t(nat fd := None)) nf"
| "launches (Open f m k) opn t nf =
     (case opn f m of
        None \<Rightarrow> launches (k (-1)) opn t nf
      | Some x \<Rightarrow>
          (case claim_fd x t of
             None \<Rightarrow> launches (k (-1)) opn t nf
           | Some (fd, t) \<Rightarrow> launches (k (int fd)) opn t nf))"
| "launches (Pipe k) opn t nf =
     (case claim_fd nf t of
        None \<Rightarrow> launches (k (-1) 0 0) opn t nf
      | Some (fd0, t1) \<Rightarrow>
          (case claim_fd (nf + 1) t1 of
             None \<Rightarrow> launches (k (-1) 0 0) opn t nf
           | Some (fd1, t2) \<Rightarrow> launches (k 0 (int fd0) (int fd1)) opn t2 (nf + 2)))"
| "launches (Dup fd k) opn t nf =
     (case t (nat fd) of
        None \<Rightarrow> launches k opn t nf
      | Some f \<Rightarrow>
          (case claim_fd f t of
             None \<Rightarrow> launches k opn t nf
           | Some (_, t) \<Rightarrow> launches k opn t nf))"
| "launches (Fork c k) opn t nf =
     (let (xs, nf) = launches c opn t nf; (ys, nf) = launches (k 1) opn t nf in (xs @ ys, nf))"
| "launches (Wait k) opn t nf = launches k opn t nf"
| "launches (Chdir p k) opn t nf = launches (k 0) opn t nf"

text \<open>What a command means: the programs it starts, each with its standard descriptors.\<close>

primrec started :: "string cmd \<Rightarrow> (string \<Rightarrow> u32 \<Rightarrow> nat option) \<Rightarrow> fds \<Rightarrow> nat \<Rightarrow> (string list \<times> fds) list \<times> nat" where
  "started (EXEC ws) opn t nf = (if ws = [] then [] else [(ws, t)], nf)"
| "started (REDIR c f m fd) opn t nf =
     (case opn f m of None \<Rightarrow> ([], nf) | Some x \<Rightarrow> started c opn (t(nat fd := Some x)) nf)"
| "started (LIST l r) opn t nf =
     (let (xs, nf) = started l opn t nf; (ys, nf) = started r opn t nf in (xs @ ys, nf))"
| "started (PIPE l r) opn t nf =
     (let (xs, nf') = started l opn (t(1 := Some (nf + 1))) (nf + 2);
          (ys, nf'') = started r opn (t(0 := Some nf)) nf' in
      (xs @ ys, nf''))"
| "started (BACK c) opn t nf = started c opn t nf"

definition std_fds :: "fds \<Rightarrow> bool" where
  "std_fds t \<longleftrightarrow> (\<forall>i. t i \<noteq> None \<longleftrightarrow> i < 3)"

lemma claim_fd_least:
  assumes "t i = None" "\<And>j. j < i \<Longrightarrow> t j \<noteq> None" "i < NOFILE"
  shows "claim_fd f t = Some (i, t(i := Some f))"
proof -
  have "List.find (\<lambda>fd. t fd = None) [0..<NOFILE] = Some i" using assms by (intro find_uptI) auto
  then show ?thesis by (simp add: claim_fd_def)
qed

text \<open>
  Four turns are enough to open the console: the loop goes on to its continuation with the descriptors 0, 1 and 2 open, those that were open before
  unchanged, and no descriptor more.
\<close>

lemma open_console_turns:
  assumes "opn ''console'' O_RDWR = Some x" "card {i. i < 3 \<and> t i = None} < n"
  shows "launches (open_console n k) opn t nf = launches k opn (\<lambda>i. if i < 3 \<and> t i = None then Some x else t i) nf"
  using assms(2)
proof (induction n arbitrary: t)
  case 0
  then show ?case by simp
next
  case (Suc n)
  show ?case
  proof (cases "claim_fd x t")
    case None
    then have "t i \<noteq> None" if "i < 3" for i using fds.full [of x t] that by (simp add: NOFILE_def)
    then have "(\<lambda>i. if i < 3 \<and> t i = None then Some x else t i) = t" by auto
    then show ?thesis using None assms(1) by simp
  next
    case (Some a)
    then obtain fd t' where c: "claim_fd x t = Some (fd, t')" by (cases a) simp
    have t': "t' = t(fd := Some x)" using c by (auto simp: claim_fd_def)
    have free: "t fd = None" using fds.slot [OF c] by simp
    show ?thesis
    proof (cases "fd < 3")
      case True
      have "{i. i < 3 \<and> t' i = None} \<subset> {i. i < 3 \<and> t i = None}" using True free t' by auto
      then have "card {i. i < 3 \<and> t' i = None} < n"
        using psubset_card_mono [of "{i. i < 3 \<and> t i = None}" "{i. i < 3 \<and> t' i = None}"] Suc.prems by simp
      then have "launches (open_console n k) opn t' nf = launches k opn (\<lambda>i. if i < 3 \<and> t' i = None then Some x else t' i) nf"
        by (rule Suc.IH)
      moreover have "(\<lambda>i. if i < 3 \<and> t' i = None then Some x else t' i) = (\<lambda>i. if i < 3 \<and> t i = None then Some x else t i)"
        using True free t' by auto
      ultimately show ?thesis using c assms(1) True by simp
    next
      case False
      have "t i \<noteq> None" if "i < 3" for i using fds.least [OF c, of i] False that by simp
      then have "(\<lambda>i. if i < 3 \<and> t i = None then Some x else t i) = t" by auto
      moreover have "t'(fd := None) = t" using free t' by auto
      ultimately show ?thesis using c assms(1) False by simp
    qed
  qed
qed

lemma open_console_four:
  assumes "opn ''console'' O_RDWR = Some x"
  shows "launches (open_console 4 k) opn t nf = launches k opn (\<lambda>i. if i < 3 \<and> t i = None then Some x else t i) nf"
proof (rule open_console_turns [of opn, OF assms])
  have "card {i. i < 3 \<and> t i = None} \<le> card {i :: nat. i < 3}" by (rule card_mono) auto
  then show "card {i. i < 3 \<and> t i = None} < 4" by simp
qed

lemma std_fds_upd: "std_fds t \<Longrightarrow> i < 3 \<Longrightarrow> std_fds (t(i := Some x))"
  by (simp add: std_fds_def)

text \<open>A standard descriptor that was closed is the one the next allocation returns.\<close>

lemma claim_closed:
  assumes "\<And>j. j < 3 \<Longrightarrow> t j \<noteq> None" "i < 3"
  shows "claim_fd x (t(i := None)) = Some (i, t(i := Some x))"
  using claim_fd_least [of "t(i := None)" i x] assms by (simp add: NOFILE_def)

lemma claim_pipe:
  assumes "std_fds t"
  shows "claim_fd x t = Some (3, t(3 := Some x))" "claim_fd y (t(3 := Some x)) = Some (4, t(3 := Some x, 4 := Some y))"
proof -
  have t: "t j \<noteq> None \<longleftrightarrow> j < 3" for j using assms by (simp add: std_fds_def)
  show "claim_fd x t = Some (3, t(3 := Some x))" by (rule claim_fd_least) (use t [of 3] t in \<open>simp_all add: NOFILE_def\<close>)
  show "claim_fd y (t(3 := Some x)) = Some (4, t(3 := Some x, 4 := Some y))"
  proof (rule claim_fd_least)
    fix j :: nat
    assume "j < 4"
    then have "j < 3 \<or> j = 3" by auto
    then show "(t(3 := Some x)) j \<noteq> None" using t [of j] by auto
  qed (use t [of 4] in \<open>simp_all add: NOFILE_def\<close>)
qed

lemma redirect_end:
  assumes "std_fds t" "i < 3" "j = 3 \<or> j = 4" "t2 = t(3 := Some x, 4 := Some y)"
  shows "launches (Close (int i) (Dup (int j) (Close 3 (Close 4 k)))) opn t2 nf = launches k opn (t(i := t2 j)) nf"
proof -
  have t: "t j \<noteq> None \<longleftrightarrow> j < 3" for j using assms(1) by (simp add: std_fds_def)
  have t3: "t 3 = None" "t 4 = None" using t [of 3] t [of 4] by simp_all
  have "claim_fd z (t2(i := None)) = Some (i, t2(i := Some z))" for z
    using assms(2,4) t by (intro claim_closed) auto
  moreover have "t2(i := Some z, 3 := None, 4 := None) = t(i := Some z)" for z using assms(2,4) t3 by (auto simp: fun_eq_iff)
  moreover have "t2 j \<noteq> None" "(t2(i := None)) j = t2 j" using assms by auto
  ultimately show ?thesis by (auto split: option.split)
qed

lemma launches_runcmd:
  "std_fds t \<Longrightarrow> printable c \<Longrightarrow> launches (runcmd c) opn t nf = started c opn t nf"
proof (induction c arbitrary: t nf)
  case (EXEC ws)
  then show ?case by (cases ws) simp_all
next
  case (REDIR c f m fd)
  have fd: "fd = 0 \<or> fd = 1" using REDIR.prems(2) by (auto simp: redir_kind_def)
  have cl: "claim_fd x (t(nat fd := None)) = Some (nat fd, t(nat fd := Some x))" for x
    using REDIR.prems(1) fd by (intro claim_closed) (auto simp: std_fds_def)
  have "std_fds (t(nat fd := Some x))" for x using REDIR.prems(1) fd by (intro std_fds_upd) auto
  then show ?case using REDIR cl by (auto split: option.split)
next
  case (PIPE l r)
  let ?t = "t(3 := Some nf, 4 := Some (Suc nf))"
  note P = claim_pipe [OF PIPE.prems(1)]
  have R: "launches (Close 1 (Dup 4 (Close 3 (Close 4 k)))) opn ?t n = launches k opn (t(Suc 0 := Some (Suc nf))) n"
    "launches (Close 0 (Dup 3 (Close 3 (Close 4 k)))) opn ?t n = launches k opn (t(0 := Some nf)) n" for k n
    using redirect_end [OF PIPE.prems(1), of 1 4 ?t] redirect_end [OF PIPE.prems(1), of 0 3 ?t] by simp_all
  have IH: "launches (runcmd l) opn (t(Suc 0 := Some (Suc nf))) n = started l opn (t(Suc 0 := Some (Suc nf))) n"
    "launches (runcmd r) opn (t(0 := Some nf)) n = started r opn (t(0 := Some nf)) n" for n
    by (rule PIPE.IH, rule std_fds_upd [OF PIPE.prems(1)], use PIPE.prems(2) in simp_all)+
  have W: "launches (Close 3 (Close 4 (Wait (Wait Exit)))) opn t' n = ([], n)" for t' n by simp
  show ?case
    by (simp add: P fork1_def R IH W Let_def del: launches.simps(5,8) split: prod.splits)
qed (simp_all add: fork1_def Let_def split: prod.splits)

text \<open>
  C31. The shell does what its command language says. Take a shell process with descriptors 0, 1 and 2 open and no others, and
  the line that prints a command \<open>c\<close>. Parsing and running it starts, over all the processes it forks and as the kernel hands out descriptors,
  exactly the programs that \<open>c\<close> denotes, in order and with the right descriptors: a redirected
  command gets the opened file in place of descriptor 0 or 1 and is not started if the file cannot be opened; in a pipe the left side gets the write end as descriptor 1
  and the right side the read end as descriptor 0, and neither keeps another descriptor of the pipe.
\<close>
theorem shell_meaning:
  assumes t: "std_fds t" and c: "printable c"
  shows "launches (parse_and_run (unparse c 3)) opn t nf = started c opn t nf"
  using parsecmd_unparse [OF c] launches_runcmd [OF t c] by (auto simp: parse_and_run_def)

theorem shell_meaning_witness:
  "launches (parse_and_run ''cat <in |wc '') (\<lambda>f m. Some 7) [0 \<mapsto> 10, 1 \<mapsto> 11, 2 \<mapsto> 12] 20 =
     ([([''cat''], [0 \<mapsto> 7, 1 \<mapsto> 21, 2 \<mapsto> 12]), ([''wc''], [0 \<mapsto> 20, 1 \<mapsto> 11, 2 \<mapsto> 12])], 22)"
proof -
  let ?c = "PIPE (REDIR (EXEC [''cat'']) ''in'' O_RDONLY 0) (EXEC [''wc''])" and ?t = "[0 \<mapsto> 10, 1 \<mapsto> 11, 2 \<mapsto> 12] :: fds"
  have "std_fds ?t" by (auto simp: std_fds_def)
  moreover have "printable ?c"
    by (simp add: good_word_def redir_kind_def MAXARGS_def is_word_def whitespace_def symbols_def NUL_def)
  ultimately have "launches (parse_and_run (unparse ?c 3)) (\<lambda>f m. Some 7) ?t 20 = started ?c (\<lambda>f m. Some 7) ?t 20" by (rule shell_meaning)
  moreover have "unparse ?c 3 = ''cat <in |wc ''" by (simp add: paren_def redir_text_def)
  ultimately show ?thesis by (simp add: fun_upd_twist)
qed

end
