(* ===== verification/Console.thy ===== *)
theory Console
  imports Proc Ulib
begin

text \<open>
  The console (\<open>console.c\<close>): formatted output, the screen, the line editor behind the keyboard interrupt, and the device functions
  behind \<open>read\<close> and \<open>write\<close>. The console is a component of the kernel state. The cursor registers of the
  display are a field, and characters sent to the serial port are collected in a list. Code under \<open>cons.lock\<close> is one step; sleeping for input is
  the outcome \<open>Blocked\<close>.
\<close>

section \<open>State\<close>

definition INPUT_BUF :: nat where "INPUT_BUF = 128"
definition BACKSPACE :: int where "BACKSPACE = 0x100"
definition CONSOLE :: nat where "CONSOLE = 1"

record console =
  c_buf :: "nat \<Rightarrow> u8"
  c_r :: u32
  c_w :: u32
  c_e :: u32
  c_panicked :: bool
  crt :: "nat \<Rightarrow> u16"
  crt_pos :: nat
  serial :: "int list"

record constate = sysstate +
  cons :: console

section \<open>Output\<close>

definition cgaputc :: "int \<Rightarrow> console \<Rightarrow> console res" where
  "cgaputc c k =
     (let pos = crt_pos k;
          (pos, k) =
            (if c = 10 then (pos + (80 - pos mod 80), k)
             else if c = BACKSPACE then (if pos > 0 then pos - 1 else pos, k)
             else (pos + 1, k\<lparr>crt := (crt k)(pos := (word_of_int c AND 0xFF) OR 0x0700)\<rparr>)) in
      if pos > 25 * 80 then Panic ''pos under/overflow''
      else
        let (pos, k) =
              (if pos div 80 \<ge> 24 then
                 let k = k\<lparr>crt := (\<lambda>i. if i < 23 * 80 then crt k (i + 80) else crt k i)\<rparr>;
                     pos = pos - 80 in
                 (pos, k\<lparr>crt := (\<lambda>i. if pos \<le> i \<and> i < 24 * 80 then 0 else crt k i)\<rparr>)
               else (pos, k)) in
        Ok (k\<lparr>crt_pos := pos, crt := (crt k)(pos := 0x20 OR 0x0700)\<rparr>))"

definition consputc :: "int \<Rightarrow> console \<Rightarrow> console res" where
  "consputc c k =
     (if c_panicked k then Blocked
      else
        let k = k\<lparr>serial := serial k @ (if c = BACKSPACE then [8, 32, 8] else [c])\<rparr> in
        cgaputc c k)"

definition cons_digits :: string where "cons_digits = ''0123456789abcdef''"

definition cons_printint :: "u32 \<Rightarrow> u32 \<Rightarrow> bool \<Rightarrow> string res" where
  "cons_printint xx base sg =
     (let neg = (sg \<and> sint xx < 0);
          x = (if neg then - xx else xx) in
      bnd (printint_digits cons_digits base 0 x) (\<lambda>buf.
      if neg \<and> 16 \<le> length buf then Panic ''buffer overrun''
      else Ok (rev (if neg then buf @ ''-'' else buf))))"

text \<open>
  The values passed to \<open>consputc\<close>: characters of the format are masked to eight bits, those of a \<open>%s\<close> argument have the signed type \<open>char\<close>.
\<close>

definition signed_char :: "char \<Rightarrow> int" where
  "signed_char c = (if of_char c < (128 :: int) then of_char c else of_char c - 256)"

fun cprintf_from :: "(u32 \<Rightarrow> string) \<Rightarrow> (nat \<Rightarrow> u32) \<Rightarrow> nat \<Rightarrow> string \<Rightarrow> int list res" where
  "cprintf_from str ap k [] = Ok []"
| "cprintf_from str ap k [c] = Ok (if c = CHR ''%'' then [] else [of_char c])"
| "cprintf_from str ap k (c # d # cs) =
     (if c \<noteq> CHR ''%'' then bnd (cprintf_from str ap k (d # cs)) (\<lambda>out. Ok (of_char c # out))
      else if d = CHR ''d'' then
        bnd (cons_printint (ap k) 10 True) (\<lambda>o1.
        bnd (cprintf_from str ap (k + 1) cs) (\<lambda>out. Ok (map signed_char o1 @ out)))
      else if d = CHR ''x'' \<or> d = CHR ''p'' then
        bnd (cons_printint (ap k) 16 False) (\<lambda>o1.
        bnd (cprintf_from str ap (k + 1) cs) (\<lambda>out. Ok (map signed_char o1 @ out)))
      else if d = CHR ''s'' then
        let s = (if ap k = 0 then ''(null)'' else str (ap k)) in
        bnd (cprintf_from str ap (k + 1) cs) (\<lambda>out. Ok (map signed_char s @ out))
      else if d = CHR ''%'' then bnd (cprintf_from str ap k cs) (\<lambda>out. Ok (of_char CHR ''%'' # out))
      else bnd (cprintf_from str ap k cs) (\<lambda>out. Ok (of_char CHR ''%'' # of_char d # out)))"

definition cprintf :: "(u32 \<Rightarrow> string) \<Rightarrow> string \<Rightarrow> (nat \<Rightarrow> u32) \<Rightarrow> console \<Rightarrow> console res" where
  "cprintf str fmt ap k =
     bnd (cprintf_from str ap 0 fmt) (\<lambda>out.
     foreach consputc out k)"

section \<open>The line editor\<close>

definition ctrl :: "char \<Rightarrow> int" where "ctrl x = of_char x - of_char CHR ''@''"

lemma consputc_frame:
  "consputc c k = Ok k' \<Longrightarrow> c_buf k' = c_buf k \<and> c_r k' = c_r k \<and> c_w k' = c_w k \<and> c_e k' = c_e k \<and> c_panicked k' = c_panicked k"
  by (auto simp: consputc_def cgaputc_def Let_def split: if_splits)

lemma edit_measure: "e \<noteq> w \<Longrightarrow> unat (e - 1 - w) < unat (e - (w :: u32))"
  using unat_minus_one [of "e - w"] by (simp add: algebra_simps unat_gt_0)

function kill_line :: "console \<Rightarrow> console res" where
  "kill_line k =
     (if c_e k \<noteq> c_w k \<and> c_buf k (unat (c_e k - 1) mod INPUT_BUF) \<noteq> 10 then
        bnd (consputc BACKSPACE (k\<lparr>c_e := c_e k - 1\<rparr>)) kill_line
      else Ok k)"
  by pat_completeness auto

termination
  by (relation "measure (\<lambda>k. unat (c_e k - c_w k))") (auto dest!: consputc_frame simp: edit_measure)

declare kill_line.simps [simp del]

text \<open>
  One character from \<open>getc\<close> (a non-negative number); the flag tells whether to list the processes afterwards, which only
  prints.
\<close>

definition consoleintr_char :: "int \<Rightarrow> bool \<times> 'a constate_scheme \<Rightarrow> (bool \<times> 'a constate_scheme) res" where
  "consoleintr_char c ds =
     (let (d, s) = ds; k = cons s in
      if c = ctrl CHR ''P'' then Ok (True, s)
      else if c = ctrl CHR ''U'' then
        bnd (kill_line k) (\<lambda>k. Ok (d, s\<lparr>cons := k\<rparr>))
      else if c = ctrl CHR ''H'' \<or> c = 0x7F then
        if c_e k \<noteq> c_w k then
          bnd (consputc BACKSPACE (k\<lparr>c_e := c_e k - 1\<rparr>)) (\<lambda>k. Ok (d, s\<lparr>cons := k\<rparr>))
        else Ok (d, s)
      else if c \<noteq> 0 \<and> unat (c_e k - c_r k) < INPUT_BUF then
        let c = (if c = 13 then 10 else c);
            k = k\<lparr>c_buf := (c_buf k)(unat (c_e k) mod INPUT_BUF := word_of_int c), c_e := c_e k + 1\<rparr> in
        bnd (consputc c k) (\<lambda>k.
        if c = 10 \<or> c = ctrl CHR ''D'' \<or> c_e k = c_r k + of_nat INPUT_BUF then
          Ok (d, wakeup ChInput (s\<lparr>cons := k\<lparr>c_w := c_e k\<rparr>\<rparr>))
        else Ok (d, s\<lparr>cons := k\<rparr>))
      else Ok (d, s))"

text \<open>\<open>cs\<close> are the results of \<open>getc\<close> before the first negative one.\<close>

definition consoleintr :: "int list \<Rightarrow> 'a constate_scheme \<Rightarrow> (bool \<times> 'a constate_scheme) res" where
  "consoleintr cs s = foreach consoleintr_char cs (False, s)"

section \<open>The device functions\<close>

text \<open>
  The loop of \<open>consoleread\<close> with \<open>n\<close> characters to go. The result is what remains of \<open>n\<close>, or \<open>None\<close> for a process that was killed while
  waiting, and the characters stored.
\<close>

primrec consoleread_loop :: "nat \<Rightarrow> nat \<Rightarrow> 'a constate_scheme \<Rightarrow> (nat option \<times> u8 list \<times> 'a constate_scheme) res" where
  "consoleread_loop 0 target s = Ok (Some 0, [], s)"
| "consoleread_loop (Suc n) target s =
     (let k = cons s in
      if c_r k = c_w k then
        bnd (myproc s) (\<lambda>p. if p_killed (procs s p) then Ok (None, [], s) else Blocked)
      else
        let c = c_buf k (unat (c_r k) mod INPUT_BUF);
            s' = s\<lparr>cons := k\<lparr>c_r := c_r k + 1\<rparr>\<rparr> in
        if uint c = ctrl CHR ''D'' then
          Ok (Some (Suc n), [], if Suc n < target then s'\<lparr>cons := (cons s')\<lparr>c_r := c_r (cons s') - 1\<rparr>\<rparr> else s')
        else if c = 10 then Ok (Some n, [c], s')
        else
          bnd (consoleread_loop n target s') (\<lambda>(left, cs, s).
          Ok (left, c # cs, s)))"

definition consoleread :: "nat \<Rightarrow> u32 \<Rightarrow> 'a constate_scheme \<Rightarrow> (int \<times> u8 list \<times> 'a constate_scheme) res" where
  "consoleread ip n s =
     bnd (iunlock ip s) (\<lambda>s.
     let target = nat (sint n) in
     bnd (consoleread_loop target target s) (\<lambda>(left, cs, s).
     bnd (ilock ip s) (\<lambda>s.
     case left of
       None \<Rightarrow> Ok (-1, cs, s)
     | Some l \<Rightarrow> Ok (int target - int l, cs, s))))"

definition consolewrite :: "nat \<Rightarrow> bytes \<Rightarrow> u32 \<Rightarrow> 'a constate_scheme \<Rightarrow> (int \<times> 'a constate_scheme) res" where
  "consolewrite ip buf n s =
     bnd (iunlock ip s) (\<lambda>s.
     bnd (foreach (\<lambda>i. consputc (uint (buf i))) [0..<nat (sint n)] (cons s)) (\<lambda>k.
     bnd (ilock ip (s\<lparr>cons := k\<rparr>)) (\<lambda>s.
     Ok (sint n, s))))"

text \<open>The entries of \<open>devsw\<close> that \<open>consoleinit\<close> sets.\<close>

definition devsw_read :: "'a constate_scheme dev_read" where
  "devsw_read = (\<lambda>major. if major = CONSOLE then Some consoleread else None)"

definition devsw_write :: "'a constate_scheme dev_write" where
  "devsw_write = (\<lambda>major. if major = CONSOLE then Some consolewrite else None)"

section \<open>The screen\<close>

lemma newline_pos: "pos < 1920 \<Longrightarrow> pos + (80 - pos mod 80) \<le> (1920 :: nat)"
proof -
  assume "pos < 1920"
  then have "pos div 80 < 24" by (simp add: less_mult_imp_div_less)
  moreover have "pos + (80 - pos mod 80) = (pos div 80 + 1) * 80"
    using div_mult_mod_eq [of pos 80] mod_less_divisor [of 80 pos] by arith
  ultimately show ?thesis by simp
qed

lemma cgaputc_ok:
  assumes "crt_pos k < 24 * 80"
  shows "\<exists>k'. cgaputc c k = Ok k' \<and> crt_pos k' < 24 * 80"
proof -
  define p where "p = (if c = 10 then crt_pos k + (80 - crt_pos k mod 80)
    else if c = BACKSPACE then (if crt_pos k > 0 then crt_pos k - 1 else crt_pos k) else crt_pos k + 1)"
  have p: "p \<le> 1920" using assms newline_pos [of "crt_pos k"] by (auto simp: p_def)
  have d: "p div 80 \<ge> 24 \<longleftrightarrow> p = 1920" using p by (simp add: less_eq_div_iff_mult_less_eq)
  define k1 where "k1 = (if c = 10 \<or> c = BACKSPACE then k else k\<lparr>crt := (crt k)(crt_pos k := (word_of_int c AND 0xFF) OR 0x0700)\<rparr>)"
  have "(if c = 10 then (crt_pos k + (80 - crt_pos k mod 80), k)
      else if c = BACKSPACE then (if crt_pos k > 0 then crt_pos k - 1 else crt_pos k, k)
      else (crt_pos k + 1, k\<lparr>crt := (crt k)(crt_pos k := (word_of_int c AND 0xFF) OR 0x0700)\<rparr>)) = (p, k1)"
    by (simp add: p_def k1_def BACKSPACE_def)
  then show ?thesis unfolding cgaputc_def Let_def using p d by simp
qed

lemma consputc_ok:
  assumes "crt_pos k < 24 * 80" "\<not> c_panicked k"
  obtains k' where "consputc c k = Ok k'" "crt_pos k' < 24 * 80" "c_buf k' = c_buf k" "c_r k' = c_r k" "c_w k' = c_w k" "c_e k' = c_e k"
    "\<not> c_panicked k'"
proof -
  let ?k = "k\<lparr>serial := serial k @ (if c = BACKSPACE then [8, 32, 8] else [c])\<rparr>"
  obtain k' where k': "consputc c k = Ok k'" "crt_pos k' < 24 * 80"
    using cgaputc_ok [of ?k c] assms by (auto simp: consputc_def Let_def)
  then show thesis using consputc_frame [OF k'(1)] assms(2) that by auto
qed

section \<open>The ring\<close>

definition span :: "console \<Rightarrow> nat \<Rightarrow> nat \<Rightarrow> u8 list" where
  "span k a n = map (\<lambda>i. c_buf k ((a + i) mod INPUT_BUF)) [0..<n]"

definition typed :: "console \<Rightarrow> u8 list" where
  "typed k = span k (unat (c_r k)) (unat (c_w k - c_r k))"

definition editing :: "console \<Rightarrow> u8 list" where
  "editing k = span k (unat (c_w k)) (unat (c_e k - c_w k))"

definition cons_ok :: "console \<Rightarrow> bool" where
  "cons_ok k \<longleftrightarrow> unat (c_w k - c_r k) + unat (c_e k - c_w k) \<le> INPUT_BUF \<and> 10 \<notin> set (editing k) \<and>
     crt_pos k < 24 * 80 \<and> \<not> c_panicked k"

lemma length_span [simp]: "length (span k a n) = n"
  by (simp add: span_def)

lemma length_input: "length (typed k) = unat (c_w k - c_r k)" "length (editing k) = unat (c_e k - c_w k)"
  by (simp_all add: typed_def editing_def)

lemma span_cong: "c_buf k' = c_buf k \<Longrightarrow> span k' = span k"
  by (simp add: span_def fun_eq_iff)

lemma ring_offset: "unat (x :: u32) mod INPUT_BUF = (unat y + unat (x - y)) mod INPUT_BUF"
proof -
  have "unat x = (unat y + unat (x - y)) mod 2 ^ 32" using unat_word_ariths(1) [of y "x - y"] by simp
  then have "unat x mod 128 = (unat y + unat (x - y)) mod 2 ^ 32 mod 128" by (simp only:)
  also have "\<dots> = (unat y + unat (x - y)) mod 128" by (rule mod_mod_cancel) simp
  finally show ?thesis by (simp only: INPUT_BUF_def)
qed

lemma span_add: "span k a (m + n) = span k a m @ span k (a + m) n"
  by (rule nth_equalityI) (auto simp: span_def nth_append)

lemma span_mod: "a mod INPUT_BUF = b mod INPUT_BUF \<Longrightarrow> span k a n = span k b n"
  by (simp add: span_def) (metis mod_add_left_eq)

lemma span_upd_other:
  assumes "n < INPUT_BUF" "c_buf k' = (c_buf k)((a + n) mod INPUT_BUF := v)" "m \<le> n"
  shows "span k' a m = span k a m"
proof -
  have "(a + i) mod INPUT_BUF \<noteq> (a + n) mod INPUT_BUF" if "i < n" for i
  proof
    assume "(a + i) mod INPUT_BUF = (a + n) mod INPUT_BUF"
    then have "INPUT_BUF dvd n - i" using mod_eq_dvd_iff_nat [of "a + i" "a + n" INPUT_BUF] that by simp
    then show False using that assms(1) dvd_imp_le [of INPUT_BUF "n - i"] by simp
  qed
  then show ?thesis using assms by (auto simp: span_def)
qed

lemma ring_total:
  assumes "unat (c_w k - c_r k) + unat (c_e k - c_w k) \<le> INPUT_BUF"
  shows "unat (c_e k - c_r k) = unat (c_w k - c_r k) + unat (c_e k - c_w k)"
  using unat_add_u32 [of "c_w k - c_r k" "c_e k - c_w k"] assms by (simp add: INPUT_BUF_def)

lemma unat_Suc_offset: "unat (e - w :: u32) < 2 ^ 32 - 1 \<Longrightarrow> unat (e + 1 - w) = unat (e - w) + 1"
  using unat_add_u32 [of "e - w" 1] by (simp add: algebra_simps)

lemma ring_push:
  fixes b :: u8
  assumes "unat (c_w k - c_r k) + unat (c_e k - c_w k) < INPUT_BUF"
  defines "k1 \<equiv> k\<lparr>c_buf := (c_buf k)(unat (c_e k) mod INPUT_BUF := b), c_e := c_e k + 1\<rparr>"
  shows "typed k1 = typed k" "editing k1 = editing k @ [b]"
proof -
  let ?A = "unat (c_w k - c_r k)" and ?B = "unat (c_e k - c_w k)"
  have off: "unat (c_e k) mod INPUT_BUF = (unat (c_r k) + (?A + ?B)) mod INPUT_BUF" "unat (c_e k) mod INPUT_BUF = (unat (c_w k) + ?B) mod INPUT_BUF"
    using ring_offset [of "c_e k" "c_r k"] ring_offset [of "c_e k" "c_w k"] ring_total [of k] assms(1) by simp_all
  have buf: "c_buf k1 = (c_buf k)((unat (c_r k) + (?A + ?B)) mod INPUT_BUF := b)" "c_buf k1 = (c_buf k)((unat (c_w k) + ?B) mod INPUT_BUF := b)"
    unfolding k1_def off [symmetric] by simp_all
  have n: "unat (c_e k + 1 - c_w k) = ?B + 1" using assms(1) by (intro unat_Suc_offset) (simp add: INPUT_BUF_def)
  show "typed k1 = typed k" using span_upd_other [OF assms(1) buf(1), of ?A] by (simp add: typed_def k1_def)
  have "span k1 (unat (c_w k)) ?B = span k (unat (c_w k)) ?B" using span_upd_other [OF _ buf(2), of ?B] assms(1) by simp
  moreover have "span k1 (unat (c_w k) + ?B) 1 = [b]" using buf(2) by (simp add: span_def)
  ultimately have "span k1 (unat (c_w k)) (?B + 1) = editing k @ [b]" unfolding span_add by (simp add: editing_def)
  then show "editing k1 = editing k @ [b]" using n by (simp add: editing_def [of k1]) (simp add: k1_def)
qed

lemma ring_commit:
  assumes "unat (c_w k - c_r k) + unat (c_e k - c_w k) \<le> INPUT_BUF"
  shows "typed (k\<lparr>c_w := c_e k\<rparr>) = typed k @ editing k" "editing (k\<lparr>c_w := c_e k\<rparr>) = []"
proof -
  let ?A = "unat (c_w k - c_r k)" and ?B = "unat (c_e k - c_w k)"
  have "span k (unat (c_r k) + ?A) ?B = span k (unat (c_w k)) ?B" by (rule span_mod) (simp add: ring_offset [of "c_w k" "c_r k"])
  then show "typed (k\<lparr>c_w := c_e k\<rparr>) = typed k @ editing k"
    using ring_total [OF assms] by (simp add: typed_def editing_def span_add span_cong [of "k\<lparr>c_w := c_e k\<rparr>" k])
qed (simp add: editing_def span_def)

lemma ring_pop:
  assumes "c_e k \<noteq> c_w k"
  shows "editing (k\<lparr>c_e := c_e k - 1\<rparr>) = butlast (editing k)" "typed (k\<lparr>c_e := c_e k - 1\<rparr>) = typed k"
    "c_buf k (unat (c_e k - 1) mod INPUT_BUF) = last (editing k)" "editing k \<noteq> []"
    "unat (c_e k - 1 - c_w k) \<le> unat (c_e k - c_w k)"
proof -
  let ?B = "unat (c_e k - c_w k)"
  have B: "unat (c_e k - 1 - c_w k) + 1 = ?B" using unat_minus_one [of "c_e k - c_w k"] assms by (simp add: algebra_simps unat_gt_0)
  have ed: "editing k = span k (unat (c_w k)) (unat (c_e k - 1 - c_w k)) @ [c_buf k (unat (c_e k - 1) mod INPUT_BUF)]"
    unfolding editing_def B [symmetric] span_add by (simp add: span_def ring_offset [of "c_e k - 1" "c_w k"])
  then show "c_buf k (unat (c_e k - 1) mod INPUT_BUF) = last (editing k)" "editing k \<noteq> []" by simp_all
  show "editing (k\<lparr>c_e := c_e k - 1\<rparr>) = butlast (editing k)"
    unfolding ed by (simp add: editing_def span_cong [of "k\<lparr>c_e := c_e k - 1\<rparr>" k])
  show "typed (k\<lparr>c_e := c_e k - 1\<rparr>) = typed k" by (simp add: typed_def span_cong [of "k\<lparr>c_e := c_e k - 1\<rparr>" k])
  show "unat (c_e k - 1 - c_w k) \<le> ?B" using B by simp
qed

lemma input_cong:
  assumes "c_buf k' = c_buf k" "c_r k' = c_r k" "c_w k' = c_w k" "c_e k' = c_e k"
  shows "typed k' = typed k" "editing k' = editing k"
  using assms by (simp_all add: typed_def editing_def span_cong [OF assms(1)])

lemma kill_line_ok:
  assumes "cons_ok k"
  shows "\<exists>k'. kill_line k = Ok k' \<and> cons_ok k' \<and> typed k' = typed k \<and> editing k' = []"
  using assms
proof (induction k rule: kill_line.induct)
  case (1 k)
  show ?case
  proof (cases "c_e k = c_w k")
    case True
    then have "kill_line k = Ok k" by (subst kill_line.simps) simp
    then show ?thesis using True 1(2) by (simp add: editing_def span_def)
  next
    case False
    let ?k = "k\<lparr>c_e := c_e k - 1\<rparr>"
    note P = ring_pop [OF False]
    have nl: "c_buf k (unat (c_e k - 1) mod INPUT_BUF) \<noteq> 10"
    proof
      assume "c_buf k (unat (c_e k - 1) mod INPUT_BUF) = 10"
      then show False using P(3,4) last_in_set [of "editing k"] 1(2) by (auto simp: cons_ok_def)
    qed
    obtain k' where k': "consputc BACKSPACE ?k = Ok k'" "crt_pos k' < 24 * 80" "c_buf k' = c_buf ?k" "c_r k' = c_r ?k" "c_w k' = c_w ?k"
      "c_e k' = c_e ?k" "\<not> c_panicked k'"
      by (rule consputc_ok [of ?k BACKSPACE]) (use 1(2) in \<open>auto simp: cons_ok_def\<close>)
    note I = input_cong [OF k'(3-6)]
    have "cons_ok k'" using 1(2) P k' I by (auto simp: cons_ok_def dest: in_set_butlastD)
    then obtain k'' where "kill_line k' = Ok k''" "cons_ok k''" "typed k'' = typed k'" "editing k'' = []"
      using 1(1) [OF _ k'(1)] False nl by auto
    moreover have "kill_line k = bnd (consputc BACKSPACE ?k) kill_line" using False nl by (subst kill_line.simps) simp
    ultimately show ?thesis using k'(1) I P(2) by simp
  qed
qed

section \<open>Line editing\<close>

text \<open>What a key does to the lines already typed and the line being edited.\<close>

definition edit_step :: "int \<Rightarrow> u8 list \<times> u8 list \<Rightarrow> u8 list \<times> u8 list" where
  "edit_step c le =
     (let (q, l) = le in
      if c = ctrl CHR ''P'' then (q, l)
      else if c = ctrl CHR ''U'' then (q, [])
      else if c = ctrl CHR ''H'' \<or> c = 0x7F then (q, butlast l)
      else if c \<noteq> 0 \<and> length q + length l < INPUT_BUF then
        let c = (if c = 13 then 10 else c); l = l @ [word_of_int c] in
        if c = 10 \<or> c = ctrl CHR ''D'' \<or> length q + length l = INPUT_BUF then (q @ l, []) else (q, l)
      else (q, l))"

lemma char_byte:
  assumes "0 \<le> c" "c < 256"
  shows "(word_of_int c :: u8) = 10 \<longleftrightarrow> c = 10"
proof -
  have "uint (word_of_int c :: u8) = c" using assms by (simp add: uint_word_of_int)
  then show ?thesis by (auto simp: word_uint_eq_iff)
qed

lemma consoleintr_insert:
  assumes ok: "cons_ok (cons s)" and c: "0 < c" "c < 256" "c \<noteq> 13" and room: "length (typed (cons s)) + length (editing (cons s)) < INPUT_BUF"
  defines "k \<equiv> (cons s)\<lparr>c_buf := (c_buf (cons s))(unat (c_e (cons s)) mod INPUT_BUF := word_of_int c), c_e := c_e (cons s) + 1\<rparr>"
  obtains k' where "consputc c k = Ok k'" "c_r k' = c_r (cons s)"
    "typed k' = typed (cons s)" "editing k' = editing (cons s) @ [word_of_int c]" "c \<noteq> 10 \<Longrightarrow> cons_ok k'" "cons_ok (k'\<lparr>c_w := c_e k'\<rparr>)"
    "c_e k' = c_r k' + of_nat INPUT_BUF \<longleftrightarrow> length (typed (cons s)) + length (editing k') = INPUT_BUF"
    "typed (k'\<lparr>c_w := c_e k'\<rparr>) = typed (cons s) @ editing k'" "editing (k'\<lparr>c_w := c_e k'\<rparr>) = []"
proof -
  let ?c = "cons s" and ?b = "word_of_int c :: u8"
  have A: "unat (c_w ?c - c_r ?c) + unat (c_e ?c - c_w ?c) < INPUT_BUF" using room by (simp add: length_input)
  note P = ring_push [OF A, of ?b, folded k_def]
  obtain k' where k': "consputc c k = Ok k'" "crt_pos k' < 24 * 80" "c_buf k' = c_buf k" "c_r k' = c_r k" "c_w k' = c_w k" "c_e k' = c_e k" "\<not> c_panicked k'"
    by (rule consputc_ok [of k c]) (use ok in \<open>auto simp: cons_ok_def k_def\<close>)
  note I = input_cong [OF k'(3-6)]
  have n: "unat (c_w k' - c_r k') + unat (c_e k' - c_w k') \<le> INPUT_BUF"
    using A length_input [of k'] length_input [of ?c] I P by simp
  note C = ring_commit [OF n]
  have full: "c_e k' = c_r k' + of_nat INPUT_BUF \<longleftrightarrow> length (typed ?c) + length (editing k') = INPUT_BUF"
  proof -
    have "c_e k' = c_r k' + of_nat INPUT_BUF \<longleftrightarrow> c_e k' - c_r k' = 128" by (auto simp: INPUT_BUF_def algebra_simps)
    also have "\<dots> \<longleftrightarrow> unat (c_e k' - c_r k') = 128" by (auto simp: word_unat_eq_iff)
    finally show ?thesis using ring_total [OF n] length_input [of k'] I P by (simp add: INPUT_BUF_def)
  qed
  have "cons_ok k'" if "c \<noteq> 10" using that ok n k' I P char_byte [of c] c by (simp add: cons_ok_def)
  moreover have "cons_ok (k'\<lparr>c_w := c_e k'\<rparr>)"
    using n k' C(2) ring_total [OF n] by (simp add: cons_ok_def)
  ultimately show thesis using that [OF k'(1)] k'(4) I P C full by (simp add: k_def)
qed

lemma ctrl_vals [simp]: "ctrl CHR ''P'' = 16" "ctrl CHR ''U'' = 21" "ctrl CHR ''H'' = 8" "ctrl CHR ''D'' = 4"
  by (simp_all add: ctrl_def)

lemma consoleintr_char_ok:
  assumes ok: "cons_ok (cons s)" and c: "0 \<le> c" "c < 256"
  shows "\<exists>s'. consoleintr_char c (d, s) = Ok (d \<or> c = 16, s') \<and> cons_ok (cons s') \<and>
    (typed (cons s'), editing (cons s')) = edit_step c (typed (cons s), editing (cons s)) \<and>
    procs s' = (if typed (cons s') = typed (cons s) then procs s else wakeup1 ChInput (procs s)) \<and>
    s' = s\<lparr>cons := cons s', procs := procs s'\<rparr>"
proof -
  let ?k = "cons s"
  have A: "unat (c_w ?k - c_r ?k) + unat (c_e ?k - c_w ?k) \<le> INPUT_BUF" using ok by (simp add: cons_ok_def)
  have len: "unat (c_e ?k - c_r ?k) = length (typed ?k) + length (editing ?k)" using ring_total [OF A] by (simp add: length_input)
  consider (P) "c = 16" | (U) "c = 21" | (H) "c = 8 \<or> c = 127"
    | (ins) "c \<notin> {0, 16, 21, 8, 127}" "unat (c_e ?k - c_r ?k) < INPUT_BUF"
    | (no) "c \<notin> {16, 21, 8, 127}" "c = 0 \<or> \<not> unat (c_e ?k - c_r ?k) < INPUT_BUF" by auto
  then show ?thesis
  proof cases
    case P
    then show ?thesis using ok by (simp add: consoleintr_char_def edit_step_def)
  next
    case U
    then show ?thesis using kill_line_ok [OF ok] by (auto simp: consoleintr_char_def edit_step_def)
  next
    case H
    show ?thesis
    proof (cases "c_e ?k = c_w ?k")
      case True
      then have "editing ?k = []" by (simp add: editing_def span_def)
      then show ?thesis using H True ok by (auto simp: consoleintr_char_def edit_step_def)
    next
      case False
      note R = ring_pop [OF False]
      obtain k' where k': "consputc BACKSPACE (?k\<lparr>c_e := c_e ?k - 1\<rparr>) = Ok k'" "crt_pos k' < 24 * 80" "c_buf k' = c_buf (?k\<lparr>c_e := c_e ?k - 1\<rparr>)"
        "c_r k' = c_r (?k\<lparr>c_e := c_e ?k - 1\<rparr>)" "c_w k' = c_w (?k\<lparr>c_e := c_e ?k - 1\<rparr>)" "c_e k' = c_e (?k\<lparr>c_e := c_e ?k - 1\<rparr>)" "\<not> c_panicked k'"
        by (rule consputc_ok [of "?k\<lparr>c_e := c_e ?k - 1\<rparr>" BACKSPACE]) (use ok in \<open>auto simp: cons_ok_def\<close>)
      note I = input_cong [OF k'(3-6)]
      have "cons_ok k'" using ok A R k' I by (auto simp: cons_ok_def dest: in_set_butlastD)
      then show ?thesis using H False k'(1) I R by (auto simp: consoleintr_char_def edit_step_def)
    qed
  next
    case ins
    define c' where "c' = (if c = 13 then 10 else c)"
    have c': "0 < c'" "c' < 256" "c' \<noteq> 13" "length (typed ?k) + length (editing ?k) < INPUT_BUF" using ins c len by (auto simp: c'_def)
    obtain k' where k': "consputc c' (?k\<lparr>c_buf := (c_buf ?k)(unat (c_e ?k) mod INPUT_BUF := word_of_int c'), c_e := c_e ?k + 1\<rparr>) = Ok k'" "c_r k' = c_r ?k"
      "typed k' = typed ?k" "editing k' = editing ?k @ [word_of_int c']" "c' \<noteq> 10 \<Longrightarrow> cons_ok k'" "cons_ok (k'\<lparr>c_w := c_e k'\<rparr>)"
      "c_e k' = c_r k' + of_nat INPUT_BUF \<longleftrightarrow> length (typed ?k) + length (editing k') = INPUT_BUF"
      "typed (k'\<lparr>c_w := c_e k'\<rparr>) = typed ?k @ editing k'" "editing (k'\<lparr>c_w := c_e k'\<rparr>) = []"
      by (rule consoleintr_insert [OF ok c']) blast
    show ?thesis
    proof (cases "c' = 10 \<or> c' = 4 \<or> c_e k' = c_r k' + of_nat INPUT_BUF")
      case True
      then have r: "consoleintr_char c (d, s) = Ok (d, wakeup ChInput (s\<lparr>cons := k'\<lparr>c_w := c_e k'\<rparr>\<rparr>))"
        using ins k'(1) by (simp add: consoleintr_char_def c'_def [symmetric] Let_def)
      have e: "edit_step c (typed ?k, editing ?k) = (typed ?k @ editing k', [])"
        using ins len True k'(4,7) by (simp add: edit_step_def c'_def [symmetric] Let_def)
      show ?thesis using r e k'(4,6,8,9) ins by (simp add: wakeup_def)
    next
      case False
      then have r: "consoleintr_char c (d, s) = Ok (d, s\<lparr>cons := k'\<rparr>)"
        using ins k'(1) by (simp add: consoleintr_char_def c'_def [symmetric] Let_def)
      have e: "edit_step c (typed ?k, editing ?k) = (typed ?k, editing k')"
        using ins len False k'(4,7) by (simp add: edit_step_def c'_def [symmetric] Let_def)
      show ?thesis using r e k'(3,5) False ins by simp
    qed
  next
    case no
    then show ?thesis using ok len by (auto simp: consoleintr_char_def edit_step_def)
  qed
qed

text \<open>
  C33. The console's line editor. From every consistent console state a key never panics the kernel or leaves the screen, keeps the state
  consistent (the ring holds at most 128 characters, the line being edited has no newline, the cursor is on the screen),
  and does to the typed lines and the edited line what \<open>edit_step\<close> says: control-U drops the edited line, backspace its
  last character, other keys are appended while there is room, and return, control-D or a full ring hands the line over and wakes the
  readers. Nothing else about the processes changes.
\<close>
theorem console_editing:
  assumes ok: "cons_ok (cons s)" and c: "0 \<le> c" "c < 256"
  shows "\<exists>s'. consoleintr_char c (d, s) = Ok (d \<or> c = 16, s') \<and> cons_ok (cons s') \<and>
    (typed (cons s'), editing (cons s')) = edit_step c (typed (cons s), editing (cons s)) \<and>
    procs s' = (if typed (cons s') = typed (cons s) then procs s else wakeup1 ChInput (procs s))"
  using consoleintr_char_ok [OF assms] by blast

definition demo_console :: console where
  "demo_console = \<lparr>c_buf = (\<lambda>_. 0), c_r = 0, c_w = 0, c_e = 0, c_panicked = False, crt = (\<lambda>_. 0), crt_pos = 0, serial = []\<rparr>"

definition demo_tty :: constate where
  "demo_tty = sysstate.extend demo_sys (constate.fields demo_console)"

lemma demo_tty_ok: "cons demo_tty = demo_console" "cons_ok demo_console" "typed demo_console = []" "editing demo_console = []"
  by (simp_all add: demo_tty_def sysstate.defs constate.defs demo_console_def cons_ok_def typed_def editing_def span_def)

theorem console_editing_witness:
  "\<exists>s'. consoleintr_char 97 (False, demo_tty) = Ok (False, s') \<and> editing (cons s') = [97] \<and> typed (cons s') = []"
  using console_editing [of demo_tty 97 False] demo_tty_ok by (auto simp: edit_step_def INPUT_BUF_def)

section \<open>Reading a line\<close>

lemma typed_Nil: "typed k = [] \<longleftrightarrow> c_r k = c_w k"
  using length_input(1) [of k] by (metis length_0_conv right_minus_eq unat_eq_zero)

lemma ring_take:
  assumes "cons_ok k" "typed k = c # q"
  shows "c_r k \<noteq> c_w k" "c_buf k (unat (c_r k) mod INPUT_BUF) = c" "typed (k\<lparr>c_r := c_r k + 1\<rparr>) = q"
    "editing (k\<lparr>c_r := c_r k + 1\<rparr>) = editing k" "cons_ok (k\<lparr>c_r := c_r k + 1\<rparr>)"
proof -
  let ?k = "k\<lparr>c_r := c_r k + 1\<rparr>"
  show ne: "c_r k \<noteq> c_w k" using assms(2) typed_Nil [of k] by simp
  have n: "unat (c_w k - c_r k) = 1 + unat (c_w k - (c_r k + 1))"
    using unat_minus_one [of "c_w k - c_r k"] ne by (simp add: diff_diff_eq unat_gt_0)
  have "span k (unat (c_r k) + 1) (unat (c_w k - (c_r k + 1))) = span k (unat (c_r k + 1)) (unat (c_w k - (c_r k + 1)))"
    by (rule span_mod) (simp add: ring_offset [of "c_r k + 1" "c_r k"])
  then have ty: "typed k = c_buf k (unat (c_r k) mod INPUT_BUF) # typed ?k"
    unfolding typed_def n span_add by (simp add: span_def)
  then show "c_buf k (unat (c_r k) mod INPUT_BUF) = c" "typed ?k = q" using assms(2) by simp_all
  show ed: "editing ?k = editing k" by (simp add: editing_def span_cong [of ?k k])
  show "cons_ok ?k" using assms(1) n ed by (simp add: cons_ok_def)
qed

lemma consoleread_line:
  "cons_ok (cons s) \<Longrightarrow> typed (cons s) = cs @ 10 # q \<Longrightarrow> 4 \<notin> set cs \<Longrightarrow> 10 \<notin> set cs \<Longrightarrow> length cs < n \<Longrightarrow>
   \<exists>k. consoleread_loop n target s = Ok (Some (n - length cs - 1), cs @ [10], s\<lparr>cons := k\<rparr>) \<and> cons_ok k \<and> typed k = q \<and>
     editing k = editing (cons s)"
proof (induction n arbitrary: cs s)
  case (Suc n)
  show ?case
  proof (cases cs)
    case Nil
    have ty: "typed (cons s) = 10 # q" using Suc.prems(2) Nil by simp
    note T = ring_take [OF Suc.prems(1) ty]
    have "consoleread_loop (Suc n) target s = Ok (Some n, [10], s\<lparr>cons := (cons s)\<lparr>c_r := c_r (cons s) + 1\<rparr>\<rparr>)"
      using T(1,2) by (simp add: Let_def)
    then show ?thesis using T(3-5) Nil by auto
  next
    case (Cons c cs')
    have ty: "typed (cons s) = c # cs' @ 10 # q" using Suc.prems(2) Cons by simp
    note T = ring_take [OF Suc.prems(1) ty]
    have c4: "uint c \<noteq> 4" "c \<noteq> 10" using Suc.prems(3,4) Cons by (auto simp: word_uint_eq_iff)
    let ?s = "s\<lparr>cons := (cons s)\<lparr>c_r := c_r (cons s) + 1\<rparr>\<rparr>"
    have "\<exists>k. consoleread_loop n target ?s = Ok (Some (n - length cs' - 1), cs' @ [10], ?s\<lparr>cons := k\<rparr>) \<and> cons_ok k \<and> typed k = q \<and>
        editing k = editing (cons ?s)"
      by (rule Suc.IH) (use T(3,5) Suc.prems(3-5) Cons in simp_all)
    then obtain k where k: "consoleread_loop n target ?s = Ok (Some (n - length cs' - 1), cs' @ [10], s\<lparr>cons := k\<rparr>)" "cons_ok k" "typed k = q"
      "editing k = editing (cons s)" using T(4) by auto
    have "consoleread_loop (Suc n) target s = Ok (Some (n - length cs' - 1), c # cs' @ [10], s\<lparr>cons := k\<rparr>)"
      using T(1,2) c4 k(1) by (simp add: Let_def)
    then show ?thesis using k(2-4) Cons by auto
  qed
qed simp

definition ordinary :: "u8 \<Rightarrow> bool" where
  "ordinary c \<longleftrightarrow> uint c \<notin> {0, 4, 8, 10, 13, 16, 21, 127}"

lemma console_typing:
  "cons_ok (cons s) \<Longrightarrow> typed (cons s) = [] \<Longrightarrow> list_all ordinary cs \<Longrightarrow> length (editing (cons s)) + length cs < INPUT_BUF \<Longrightarrow>
   \<exists>s'. foreach consoleintr_char (map uint cs) (d, s) = Ok (d, s') \<and> cons_ok (cons s') \<and> typed (cons s') = [] \<and>
     editing (cons s') = editing (cons s) @ cs \<and> s' = s\<lparr>cons := cons s', procs := procs s'\<rparr>"
proof (induction cs arbitrary: s)
  case (Cons c cs)
  have c: "0 \<le> uint c" "uint c < 256" "uint c \<notin> {0, 4, 8, 10, 13, 16, 21, 127}"
    using Cons.prems(3) uint_lt2p [of c] by (simp_all add: ordinary_def)
  obtain s1 where s1: "consoleintr_char (uint c) (d, s) = Ok (d \<or> uint c = 16, s1)" "cons_ok (cons s1)"
    "(typed (cons s1), editing (cons s1)) = edit_step (uint c) (typed (cons s), editing (cons s))" "s1 = s\<lparr>cons := cons s1, procs := procs s1\<rparr>"
    using consoleintr_char_ok [OF Cons.prems(1) c(1,2), of d] by blast
  have e: "typed (cons s1) = [] \<and> editing (cons s1) = editing (cons s) @ [c]"
    using s1(3) c Cons.prems(2,4) by (simp add: edit_step_def Let_def)
  obtain s2 where s2: "foreach consoleintr_char (map uint cs) (d, s1) = Ok (d, s2)" "cons_ok (cons s2)" "typed (cons s2) = []"
    "editing (cons s2) = editing (cons s1) @ cs" "s2 = s1\<lparr>cons := cons s2, procs := procs s2\<rparr>"
    using Cons.IH [of s1] s1(2) e Cons.prems(3,4) by auto
  have "s2 = s\<lparr>cons := cons s2, procs := procs s2\<rparr>" by (subst s2(5), subst s1(4)) simp
  then show ?case using s1(1) s2(1-4) e c(3) by simp
qed simp

text \<open>
  C32. A line typed is a line read. On an idle console, typing fewer than 127 ordinary characters and then return
  is handled without error, and a following \<open>consoleread\<close> on the console's locked inode with room for the line does not sleep: it
  returns the length of the line with its newline, stores exactly the characters typed and a newline, and leaves the console idle and consistent again.
\<close>
theorem console_line:
  assumes ok: "cons_ok (cons s)" "typed (cons s) = []" "editing (cons s) = []"
    and cs: "list_all ordinary cs" "length cs < INPUT_BUF - 1" "int (length cs) < sint n"
    and ip: "holdingsleep (mypid s) (i_lock (icache s ip))" "i_ref (icache s ip) \<ge> 1" "i_valid (icache s ip)"
  shows "\<exists>s1 s2. consoleintr (map uint cs @ [13]) s = Ok (False, s1) \<and>
    consoleread ip n s1 = Ok (int (length cs) + 1, cs @ [10], s2) \<and> cons_ok (cons s2) \<and> typed (cons s2) = [] \<and> editing (cons s2) = []"
proof -
  obtain s0 where s0: "foreach consoleintr_char (map uint cs) (False, s) = Ok (False, s0)" "cons_ok (cons s0)" "typed (cons s0) = []"
    "editing (cons s0) = cs" "s0 = s\<lparr>cons := cons s0, procs := procs s0\<rparr>"
    using console_typing [OF ok(1,2) cs(1), of False] cs(2) ok(3) by (auto simp: INPUT_BUF_def)
  obtain s1 where s1: "consoleintr_char 13 (False, s0) = Ok (False, s1)" "cons_ok (cons s1)"
    "(typed (cons s1), editing (cons s1)) = edit_step 13 ([], cs)" "s1 = s0\<lparr>cons := cons s1, procs := procs s1\<rparr>"
    using consoleintr_char_ok [OF s0(2), of 13 False] s0(3,4) by auto
  have e: "typed (cons s1) = cs @ [10]" "editing (cons s1) = []" using s1(3) cs(2) by (simp_all add: edit_step_def Let_def INPUT_BUF_def)
  have intr: "consoleintr (map uint cs @ [13]) s = Ok (False, s1)" using s0(1) s1(1) by (simp add: consoleintr_def foreach_append)
  have f: "s1 = s\<lparr>cons := cons s1, procs := procs s1\<rparr>" by (subst s1(4), subst s0(5)) simp
  have fr: "icache s1 = icache s" "mypid s1 = mypid s" by (subst f, simp)+
  let ?u = "upd_inode ip (\<lambda>x. x\<lparr>i_lock := releasesleep (i_lock x)\<rparr>) s1"
  have un: "iunlock ip s1 = Ok ?u" using ip fr by (simp add: iunlock_def)
  have cu: "cons ?u = cons s1" by (simp add: upd_inode_def)
  have nc: "4 \<notin> set cs" "10 \<notin> set cs" using cs(1) by (auto simp: list_all_iff ordinary_def)
  have lt: "length cs < nat (sint n)" using cs(3) by linarith
  obtain k where k: "consoleread_loop (nat (sint n)) (nat (sint n)) ?u = Ok (Some (nat (sint n) - length cs - 1), cs @ [10], ?u\<lparr>cons := k\<rparr>)"
    "cons_ok k" "typed k = []" "editing k = []"
    using consoleread_line [of ?u cs "[]" "nat (sint n)" "nat (sint n)"] s1(2) e nc lt cu by auto
  have il: "\<exists>s2. ilock ip (?u\<lparr>cons := k\<rparr>) = Ok s2 \<and> cons s2 = k"
    using ip(2,3) fr by (simp add: ilock_def upd_inode_def acquiresleep_def releasesleep_def Let_def)
  then obtain s2 where s2: "ilock ip (?u\<lparr>cons := k\<rparr>) = Ok s2" "cons s2 = k" by blast
  have "int (nat (sint n)) - int (nat (sint n) - length cs - 1) = int (length cs) + 1" using cs(3) by simp
  then have "consoleread ip n s1 = Ok (int (length cs) + 1, cs @ [10], s2)"
    using un k(1) s2(1) by (simp add: consoleread_def Let_def)
  then show ?thesis using intr k(2-4) s2(2) by blast
qed

theorem console_line_witness:
  "\<exists>(s :: constate) s1 s2. consoleintr [104, 105, 13] s = Ok (False, s1) \<and> consoleread 3 80 s1 = Ok (3, [104, 105, 10], s2)"
proof -
  let ?i = "(icache demo_tty 3)\<lparr>i_lock := (i_lock (icache demo_tty 3))\<lparr>sl_locked := True, sl_pid := mypid demo_tty\<rparr>, i_ref := 1, i_valid := True\<rparr>"
  let ?s = "demo_tty\<lparr>icache := (icache demo_tty)(3 := ?i)\<rparr>"
  have "\<exists>s1 s2. consoleintr (map uint [104 :: u8, 105] @ [13]) ?s = Ok (False, s1) \<and>
    consoleread 3 80 s1 = Ok (int (length [104 :: u8, 105]) + 1, [104, 105] @ [10], s2) \<and> cons_ok (cons s2) \<and> typed (cons s2) = [] \<and> editing (cons s2) = []"
    by (rule console_line) (simp_all add: demo_tty_ok ordinary_def INPUT_BUF_def holdingsleep_def)
  then show ?thesis by auto
qed

end
