(* ===== verification/Utils.thy ===== *)
theory Utils
  imports Ulib
begin

text \<open>
  The filters \<open>grep.c\<close>, \<open>wc.c\<close> and \<open>cat.c\<close>. Input is a list of chunks: a \<open>read\<close> returns what is left of the first
  chunk, at most as much as was asked for, and nothing at the end; \<open>None\<close> is a failed read. Arguments are strings without terminator; what is
  read from a file may contain any byte.
\<close>

section \<open>Reading\<close>

fun read_chunk :: "nat \<Rightarrow> string option list \<Rightarrow> string option \<times> string option list" where
  "read_chunk mx [] = (Some [], [])"
| "read_chunk mx (None # cs) = (None, cs)"
| "read_chunk mx (Some c # cs) = (Some (take mx c), if length c \<le> mx then cs else Some (drop mx c) # cs)"

definition left_over :: "string option list \<Rightarrow> nat" where
  "left_over cs = sum_list (map (\<lambda>c. case c of None \<Rightarrow> 0 | Some c \<Rightarrow> length c) cs)"

lemma read_chunk_left: "read_chunk mx cs = (Some x, cs') \<Longrightarrow> x \<noteq> [] \<Longrightarrow> left_over cs' < left_over cs"
  by (cases "(mx, cs)" rule: read_chunk.cases) (auto simp: left_over_def split: if_splits)

section \<open>The matcher of grep\<close>

text \<open>\<open>mh\<close> is \<open>matchhere\<close> for the pattern after the star.\<close>

primrec matchstar :: "char \<Rightarrow> (string \<Rightarrow> bool) \<Rightarrow> string \<Rightarrow> bool" where
  "matchstar c mh [] \<longleftrightarrow> mh []"
| "matchstar c mh (x # text) \<longleftrightarrow> mh (x # text) \<or> (x = c \<or> c = CHR ''.'') \<and> matchstar c mh text"

function matchhere :: "string \<Rightarrow> string \<Rightarrow> bool" where
  "matchhere re text =
     (case re of
        [] \<Rightarrow> True
      | c # re' \<Rightarrow>
          if re' \<noteq> [] \<and> hd re' = CHR ''*'' then matchstar c (matchhere (tl re')) text
          else if c = CHR ''$'' \<and> re' = [] then text = []
          else (case text of
                  [] \<Rightarrow> False
                | x # text' \<Rightarrow> (c = CHR ''.'' \<or> c = x) \<and> matchhere re' text'))"
  by pat_completeness auto

termination
  by (relation "measure (\<lambda>(re, text). length re)") auto

declare matchhere.simps [simp del]

primrec match_from :: "string \<Rightarrow> string \<Rightarrow> bool" where
  "match_from re [] \<longleftrightarrow> matchhere re []"
| "match_from re (x # text) \<longleftrightarrow> matchhere re (x # text) \<or> match_from re text"

definition match :: "string \<Rightarrow> string \<Rightarrow> bool" where
  "match re text =
     (case re of
        CHR ''^'' # re' \<Rightarrow> matchhere re' text
      | _ \<Rightarrow> match_from re text)"

section \<open>The filters\<close>

definition nl :: char where "nl = CHR 0x0A"

lemma strchr_less: "strchr xs c = Some i \<Longrightarrow> i < length xs"
  by (induction xs arbitrary: i) (auto split: if_splits)

text \<open>
  The C string at the beginning of a buffer: \<open>strchr\<close> stops at the first zero byte, which may be one of the file or the terminator \<open>grep\<close> puts
  after what it has read.
\<close>

definition c_prefix :: "string \<Rightarrow> string" where
  "c_prefix b = takeWhile (\<lambda>c. c \<noteq> CHR 0x00) b"

lemma strchr_prefix_less: "strchr (c_prefix p) c = Some i \<Longrightarrow> i < length p"
  using strchr_less [of "c_prefix p" c i] length_takeWhile_le [of "\<lambda>c. c \<noteq> CHR 0x00" p] by (simp add: c_prefix_def)

text \<open>The inner loop of \<open>grep\<close>: what is written, and the rest of the buffer, from the last \<open>p\<close>.\<close>

function grep_lines :: "string \<Rightarrow> string \<Rightarrow> string \<times> string" where
  "grep_lines pattern p =
     (case strchr (c_prefix p) nl of
        None \<Rightarrow> ([], p)
      | Some i \<Rightarrow>
          let (out, left) = grep_lines pattern (drop (i + 1) p) in
          (if match pattern (take i p) then take (i + 1) p @ out else out, left))"
  by pat_completeness auto

termination
  by (relation "measure (\<lambda>(pattern, p). length p)") (auto dest: strchr_prefix_less)

declare grep_lines.simps [simp del]

text \<open>\<open>b\<close> holds the first \<open>m\<close> characters of the buffer of 1024.\<close>

function grep_loop :: "string \<Rightarrow> string \<Rightarrow> string option list \<Rightarrow> string" where
  "grep_loop pattern b cs =
     (case read_chunk (1024 - length b - 1) cs of
        (None, _) \<Rightarrow> []
      | (Some x, cs') \<Rightarrow>
        if x = [] then []
        else
          let b = b @ x;
              (out, left) = grep_lines pattern b in
          out @ grep_loop pattern (if strchr (c_prefix b) nl = None then [] else left) cs')"
  by pat_completeness auto

termination
  by (relation "measure (\<lambda>(pattern, b, cs). left_over cs)") (auto dest: read_chunk_left [OF sym])

declare grep_loop.simps [simp del]

definition grep :: "string \<Rightarrow> string option list \<Rightarrow> string" where
  "grep pattern cs = grep_loop pattern [] cs"

text \<open>The counters of \<open>wc\<close> (lines, words, characters, and whether the last character was in a word).\<close>

definition wc_char :: "char \<Rightarrow> u32 \<times> u32 \<times> u32 \<times> bool \<Rightarrow> u32 \<times> u32 \<times> u32 \<times> bool" where
  "wc_char x st =
     (let (l, w, c, inword) = st; c = c + 1;
          l = (if x = nl then l + 1 else l) in
      if strchr [CHR '' '', CHR 0x0D, CHR 0x09, CHR 0x0A, CHR 0x0B] x \<noteq> None then (l, w, c, False)
      else if \<not> inword then (l, w + 1, c, True)
      else (l, w, c, inword))"

function wc_loop :: "string option list \<Rightarrow> u32 \<times> u32 \<times> u32 \<times> bool \<Rightarrow> (u32 \<times> u32 \<times> u32 \<times> bool) option" where
  "wc_loop cs st =
     (case read_chunk 512 cs of
        (None, _) \<Rightarrow> None
      | (Some x, cs') \<Rightarrow> if x = [] then Some st else wc_loop cs' (fold wc_char x st))"
  by pat_completeness auto

termination
  by (relation "measure (\<lambda>(cs, st). left_over cs)") (auto dest: read_chunk_left [OF sym])

declare wc_loop.simps [simp del]

text \<open>What \<open>wc\<close> and \<open>cat\<close> write, and whether they end the program. \<open>wr\<close> gives the results of the calls of \<open>write\<close> in \<open>cat\<close>.\<close>

definition wc :: "(u32 \<Rightarrow> string) \<Rightarrow> u32 \<Rightarrow> string option list \<Rightarrow> (string \<times> bool) res" where
  "wc str name cs =
     (case wc_loop cs (0, 0, 0, False) of
        None \<Rightarrow> Ok (''wc: read error'' @ [nl], True)
      | Some (l, w, c, _) \<Rightarrow>
          bnd (printf str (''%d %d %d %s'' @ [nl]) ((\<lambda>_. 0)(0 := l, 1 := w, 2 := c, 3 := name))) (\<lambda>out. Ok (out, False)))"

function cat :: "(string \<Rightarrow> int) \<Rightarrow> string option list \<Rightarrow> string \<times> bool" where
  "cat wr cs =
     (case read_chunk 512 cs of
        (None, _) \<Rightarrow> (''cat: read error'' @ [nl], True)
      | (Some x, cs') \<Rightarrow>
          if x = [] then ([], False)
          else if wr x \<noteq> int (length x) then (x @ ''cat: write error'' @ [nl], True)
          else let (out, ex) = cat wr cs' in (x @ out, ex))"
  by pat_completeness auto

termination
  by (relation "measure (\<lambda>(wr, cs). left_over cs)") (auto dest: read_chunk_left [OF sym])

declare cat.simps [simp del]

section \<open>The main functions\<close>

text \<open>
  Arguments are addresses of strings, \<open>str\<close> is the memory they point to and \<open>opn\<close> gives the contents of the files that can be opened.
  The result is the text written to each descriptor.
\<close>

fun each_file :: "(u32 \<Rightarrow> string option list \<Rightarrow> (string \<times> bool) res) \<Rightarrow> (u32 \<Rightarrow> string) \<Rightarrow>
    (string \<Rightarrow> string option list option) \<Rightarrow> string \<Rightarrow> u32 list \<Rightarrow> string res" where
  "each_file f str opn fmt [] = Ok []"
| "each_file f str opn fmt (a # as) =
     (case opn (str a) of
        None \<Rightarrow> printf str fmt (\<lambda>_. a)
      | Some cs \<Rightarrow>
          bnd (f a cs) (\<lambda>(out, ex).
          if ex then Ok out
          else bnd (each_file f str opn fmt as) (\<lambda>rest. Ok (out @ rest))))"

definition grep_main :: "(u32 \<Rightarrow> string) \<Rightarrow> (string \<Rightarrow> string option list option) \<Rightarrow> string option list \<Rightarrow> u32 list \<Rightarrow> (nat \<times> string) res" where
  "grep_main str opn stdin args =
     (case args of
        [] \<Rightarrow> bnd (printf str (''usage: grep pattern [file ...]'' @ [nl]) (\<lambda>_. 0)) (\<lambda>out. Ok (2, out))
      | [pattern] \<Rightarrow> Ok (1, grep (str pattern) stdin)
      | pattern # files \<Rightarrow>
          bnd (each_file (\<lambda>_ cs. Ok (grep (str pattern) cs, False)) str opn (''grep: cannot open %s'' @ [nl]) files) (\<lambda>out. Ok (1, out)))"

text \<open>\<open>noname\<close> is the address of the empty string that is the name of the standard input.\<close>

definition wc_main :: "u32 \<Rightarrow> (u32 \<Rightarrow> string) \<Rightarrow> (string \<Rightarrow> string option list option) \<Rightarrow> string option list \<Rightarrow> u32 list \<Rightarrow> (nat \<times> string) res" where
  "wc_main noname str opn stdin args =
     (if args = [] then bnd (wc str noname stdin) (\<lambda>(out, _). Ok (1, out))
      else bnd (each_file (wc str) str opn (''wc: cannot open %s'' @ [nl]) args) (\<lambda>out. Ok (1, out)))"

definition cat_main :: "(string \<Rightarrow> int) \<Rightarrow> (u32 \<Rightarrow> string) \<Rightarrow> (string \<Rightarrow> string option list option) \<Rightarrow> string option list \<Rightarrow> u32 list \<Rightarrow> (nat \<times> string) res" where
  "cat_main wr str opn stdin args =
     (if args = [] then Ok (1, fst (cat wr stdin))
      else bnd (each_file (\<lambda>_ cs. Ok (cat wr cs)) str opn (''cat: cannot open %s'' @ [nl]) args) (\<lambda>out. Ok (1, out)))"

section \<open>What cat and wc compute\<close>

text \<open>Reads that all succeed, none of them empty, and the text they deliver.\<close>

definition chunks :: "string list \<Rightarrow> bool" where
  "chunks xs \<longleftrightarrow> list_all (\<lambda>x. x \<noteq> [] \<and> length x \<le> 512) xs"

lemma cat_copies: "chunks xs \<Longrightarrow> cat (\<lambda>x. int (length x)) (map Some xs) = (concat xs, False)"
proof (induction xs)
  case (Cons x xs)
  then show ?case by (subst cat.simps) (simp add: chunks_def)
qed (subst cat.simps, simp)

lemma wc_loop_fold: "chunks xs \<Longrightarrow> wc_loop (map Some xs) st = Some (fold wc_char (concat xs) st)"
proof (induction xs arbitrary: st)
  case (Cons x xs)
  then show ?case by (subst wc_loop.simps) (simp add: chunks_def)
qed (subst wc_loop.simps, simp)

definition blank :: "char \<Rightarrow> bool" where
  "blank x \<longleftrightarrow> x \<in> {CHR '' '', CHR 0x0D, CHR 0x09, CHR 0x0A, CHR 0x0B}"

text \<open>The positions where a word begins.\<close>

definition word_starts :: "string \<Rightarrow> nat set" where
  "word_starts s = {i. i < length s \<and> \<not> blank (s ! i) \<and> (i = 0 \<or> blank (s ! (i - 1)))}"

lemma word_starts_snoc:
  "word_starts (s @ [x]) = (if \<not> blank x \<and> (s = [] \<or> blank (last s)) then insert (length s) (word_starts s) else word_starts s)"
  by (cases "s = []") (auto simp: word_starts_def nth_append last_conv_nth less_Suc_eq)

lemma wc_char_blank:
  "wc_char x (l, w, c, inword) =
     (if x = nl then l + 1 else l, if \<not> blank x \<and> \<not> inword then w + 1 else w, c + 1, \<not> blank x)"
  by (simp add: wc_char_def blank_def Let_def)

lemma wc_counts:
  "fold wc_char s (0, 0, 0, False) =
     (of_nat (count_list s nl), of_nat (card (word_starts s)), of_nat (length s), s \<noteq> [] \<and> \<not> blank (last s))"
proof (induction s rule: rev_induct)
  case Nil
  then show ?case by (simp add: word_starts_def)
next
  case (snoc x s)
  have fin: "finite (word_starts s)" "length s \<notin> word_starts s" by (simp_all add: word_starts_def)
  have "fold wc_char (s @ [x]) (0, 0, 0, False) = wc_char x (fold wc_char s (0, 0, 0, False))" by simp
  then show ?case using fin by (simp only: snoc wc_char_blank) (auto simp: word_starts_snoc add.commute)
qed

section \<open>What the matcher accepts\<close>

text \<open>
  \<open>here re u v\<close>: the pattern \<open>re\<close> describes the text \<open>u\<close> when \<open>v\<close> follows it. A character followed by a star stands for any number
  of characters it describes, a dollar sign at the end for the end of the text.
\<close>

definition describes :: "char \<Rightarrow> char \<Rightarrow> bool" where
  "describes c x \<longleftrightarrow> c = CHR ''.'' \<or> c = x"

inductive here :: "string \<Rightarrow> string \<Rightarrow> string \<Rightarrow> bool" where
  here_empty: "here [] [] v"
| here_star: "list_all (describes c) xs \<Longrightarrow> here re u v \<Longrightarrow> here (c # CHR ''*'' # re) (xs @ u) v"
| here_end: "here ''$'' [] []"
| here_char: "describes c x \<Longrightarrow> re = [] \<or> hd re \<noteq> CHR ''*'' \<Longrightarrow> c \<noteq> CHR ''$'' \<or> re \<noteq> [] \<Longrightarrow> here re u v \<Longrightarrow> here (c # re) (x # u) v"

inductive_cases here_emptyE: "here [] u v"
inductive_cases here_starE: "here (c # CHR ''*'' # re) u v"
inductive_cases here_ConsE: "here (c # re) u v"

lemma matchstar_iff:
  assumes "\<And>t. matchhere re t \<longleftrightarrow> (\<exists>u v. t = u @ v \<and> here re u v)"
  shows "matchstar c (matchhere re) tx \<longleftrightarrow> (\<exists>xs u v. tx = xs @ u @ v \<and> list_all (describes c) xs \<and> here re u v)"
proof (induction tx)
  case Nil
  then show ?case using assms [of "[]"] by auto
next
  case (Cons x tx)
  note IH = Cons.IH
  have "matchstar c (matchhere re) (x # tx) \<longleftrightarrow> matchhere re (x # tx) \<or> describes c x \<and> matchstar c (matchhere re) tx"
    by (auto simp: describes_def)
  also have "\<dots> \<longleftrightarrow> (\<exists>xs u v. x # tx = xs @ u @ v \<and> list_all (describes c) xs \<and> here re u v)"
  proof
    assume "matchhere re (x # tx) \<or> describes c x \<and> matchstar c (matchhere re) tx"
    then show "\<exists>xs u v. x # tx = xs @ u @ v \<and> list_all (describes c) xs \<and> here re u v"
    proof
      assume "matchhere re (x # tx)"
      then obtain u v where "x # tx = [] @ u @ v" "here re u v" using assms by auto
      then have "x # tx = [] @ u @ v \<and> list_all (describes c) [] \<and> here re u v" by simp
      then show ?thesis by blast
    next
      assume "describes c x \<and> matchstar c (matchhere re) tx"
      then obtain xs u v where "x # tx = (x # xs) @ u @ v" "list_all (describes c) (x # xs)" "here re u v" using Cons.IH by auto
      then show ?thesis by blast
    qed
  next
    assume "\<exists>xs u v. x # tx = xs @ u @ v \<and> list_all (describes c) xs \<and> here re u v"
    then obtain xs u v where h: "x # tx = xs @ u @ v" "list_all (describes c) xs" "here re u v" by blast
    show "matchhere re (x # tx) \<or> describes c x \<and> matchstar c (matchhere re) tx"
    proof (cases xs)
      case Nil
      then have "matchhere re (x # tx)" using h assms [of "x # tx"] by auto
      then show ?thesis by blast
    next
      case (Cons y ys)
      then have "describes c x" "\<exists>xs u v. tx = xs @ u @ v \<and> list_all (describes c) xs \<and> here re u v" using h by auto
      then show ?thesis using IH by blast
    qed
  qed
  finally show ?case .
qed

lemma matchhere_iff: "matchhere re tx \<longleftrightarrow> (\<exists>u v. tx = u @ v \<and> here re u v)"
proof (induction re arbitrary: tx rule: length_induct)
  case (1 re)
  show ?case
  proof (cases re)
    case Nil
    then show ?thesis by (subst matchhere.simps) (auto intro: here_empty)
  next
    case (Cons c re')
    consider (star) re'' where "re' = CHR ''*'' # re''" | (dollar) "c = CHR ''$''" "re' = []"
      | (plain) "re' = [] \<or> hd re' \<noteq> CHR ''*''" "c \<noteq> CHR ''$'' \<or> re' \<noteq> []" by (cases re') auto
    then show ?thesis
    proof cases
      case star
      have IH: "matchhere re'' t \<longleftrightarrow> (\<exists>u v. t = u @ v \<and> here re'' u v)" for t using 1 Cons star by simp
      have "matchhere re tx \<longleftrightarrow> matchstar c (matchhere re'') tx" using Cons star by (subst matchhere.simps) simp
      also have "\<dots> \<longleftrightarrow> (\<exists>u v. tx = u @ v \<and> here re u v)"
      proof -
        have "here re u v \<longleftrightarrow> (\<exists>xs u'. u = xs @ u' \<and> list_all (describes c) xs \<and> here re'' u' v)" for u v
          using Cons star by (auto intro: here_star elim!: here_ConsE)
        then show ?thesis unfolding matchstar_iff [OF IH] by (metis append_assoc)
      qed
      finally show ?thesis .
    next
      case dollar
      then show ?thesis using Cons by (subst matchhere.simps) (auto intro: here_end elim!: here_ConsE)
    next
      case plain
      have IH: "matchhere re' t \<longleftrightarrow> (\<exists>u v. t = u @ v \<and> here re' u v)" for t using 1 Cons by simp
      have "matchhere re tx \<longleftrightarrow> (case tx of [] \<Rightarrow> False | x # tx' \<Rightarrow> describes c x \<and> matchhere re' tx')"
        using Cons plain by (subst matchhere.simps) (auto simp: describes_def split: list.splits)
      also have "\<dots> \<longleftrightarrow> (\<exists>u v. tx = u @ v \<and> here re u v)"
      proof (cases tx)
        case Nil
        then show ?thesis using Cons plain by (auto elim!: here_ConsE)
      next
        case (Cons x tx')
        have "here re u v \<longleftrightarrow> (\<exists>y u'. u = y # u' \<and> describes c y \<and> here re' u' v)" for u v
          using \<open>re = c # re'\<close> plain by (auto intro: here_char elim!: here_ConsE)
        then show ?thesis using Cons IH by (auto simp: Cons_eq_append_conv)
      qed
      finally show ?thesis .
    qed
  qed
qed

lemma match_from_iff: "match_from re tx \<longleftrightarrow> (\<exists>a u v. tx = a @ u @ v \<and> here re u v)"
proof (induction tx)
  case Nil
  then show ?case by (simp add: matchhere_iff)
next
  case (Cons x tx)
  have "(\<exists>a u v. x # tx = a @ u @ v \<and> here re u v) \<longleftrightarrow> (\<exists>u v. x # tx = u @ v \<and> here re u v) \<or> (\<exists>a u v. tx = a @ u @ v \<and> here re u v)"
    (is "?L \<longleftrightarrow> ?R")
  proof
    assume ?L
    then obtain a u v where "x # tx = a @ u @ v" "here re u v" by blast
    then show ?R by (cases a) auto
  next
    assume ?R
    then show ?L by (metis append_Cons append_Nil)
  qed
  then show ?case using Cons by (simp add: matchhere_iff)
qed

definition matches :: "string \<Rightarrow> string \<Rightarrow> bool" where
  "matches re tx \<longleftrightarrow>
     (if re \<noteq> [] \<and> hd re = CHR ''^'' then \<exists>u v. tx = u @ v \<and> here (tl re) u v
      else \<exists>a u v. tx = a @ u @ v \<and> here re u v)"

lemma match_iff: "match re tx \<longleftrightarrow> matches re tx"
proof (cases re)
  case (Cons c re')
  then show ?thesis by (cases "c = CHR ''^''") (auto simp: match_def matches_def matchhere_iff match_from_iff split: char.splits bool.splits)
qed (simp add: match_def matches_def match_from_iff)

definition unlines :: "string list \<Rightarrow> string" where
  "unlines ls = concat (map (\<lambda>l. l @ [nl]) ls)"

lemma unlines_simps: "unlines [] = []" "unlines (l # ls) = l @ nl # unlines ls" "unlines (ls @ ls') = unlines ls @ unlines ls'"
  by (simp_all add: unlines_def)

text \<open>Lines as text files have them: neither newlines nor zero bytes inside.\<close>

definition text_line :: "string \<Rightarrow> bool" where
  "text_line l \<longleftrightarrow> nl \<notin> set l \<and> CHR 0x00 \<notin> set l"

lemma strchr_line: "c \<notin> set l \<Longrightarrow> strchr (l @ c # xs) c = Some (length l)" "c \<notin> set l \<Longrightarrow> strchr l c = None"
  by (induction l) auto

lemma c_prefix_line: "text_line l \<Longrightarrow> c_prefix (l @ nl # xs) = l @ nl # c_prefix xs" "text_line l \<Longrightarrow> c_prefix l = l"
  by (auto simp: c_prefix_def text_line_def takeWhile_append nl_def)

text \<open>Complete lines, followed by the beginning of another one.\<close>

lemma grep_lines_unlines:
  "list_all text_line ls \<Longrightarrow> text_line r \<Longrightarrow>
   grep_lines pattern (unlines ls @ r) = (unlines (filter (matches pattern) ls), r) \<and> (strchr (c_prefix (unlines ls @ r)) nl = None \<longleftrightarrow> ls = [])"
proof (induction ls)
  case Nil
  then have "strchr (c_prefix r) nl = None" by (simp add: c_prefix_line strchr_line text_line_def)
  then show ?case by (subst grep_lines.simps) (simp add: unlines_simps)
next
  case (Cons l ls)
  have "strchr (c_prefix (l @ nl # unlines ls @ r)) nl = Some (length l)"
    using Cons.prems by (simp add: c_prefix_line strchr_line text_line_def)
  then show ?case using Cons by (subst grep_lines.simps) (simp add: match_iff unlines_simps)
qed

text \<open>Any beginning of a file of lines consists of complete lines and the beginning of the next one.\<close>

lemma take_unlines:
  "\<exists>ls1 ls2 r r'. ls = ls1 @ ls2 \<and> take k (unlines ls) = unlines ls1 @ r \<and> (ls2 = [] \<and> r = [] \<or> (\<exists>l ls3. ls2 = l # ls3 \<and> l = r @ r'))"
proof (induction ls arbitrary: k)
  case Nil
  then show ?case by (simp add: unlines_simps)
next
  case (Cons l ls)
  show ?case
  proof (cases "k \<le> length l")
    case True
    then show ?thesis
      by (intro exI [of _ "[]"] exI [of _ "l # ls"] exI [of _ "take k l"] exI [of _ "drop k l"]) (simp add: unlines_simps)
  next
    case False
    then obtain j where k: "k = length l + Suc j" using less_imp_Suc_add [of "length l" k] by auto
    obtain ls1 ls2 r r' where "ls = ls1 @ ls2" "take j (unlines ls) = unlines ls1 @ r" "ls2 = [] \<and> r = [] \<or> (\<exists>l ls3. ls2 = l # ls3 \<and> l = r @ r')"
      using Cons.IH [of j] by blast
    then show ?thesis by (intro exI [of _ "l # ls1"] exI [of _ ls2] exI [of _ r] exI [of _ r']) (simp add: unlines_simps k)
  qed
qed

text \<open>The buffer holds the beginning \<open>b\<close> of a line; together with what is left of the file it makes up the lines \<open>ls\<close>.\<close>

lemma grep_loop_file:
  "b @ x = unlines ls \<Longrightarrow> list_all (\<lambda>l. text_line l \<and> length l < 1023) ls \<Longrightarrow> text_line b \<Longrightarrow> length b < 1023 \<Longrightarrow> x \<noteq> [] \<or> ls = [] \<Longrightarrow>
   grep_loop pattern b [Some x] = unlines (filter (matches pattern) ls)"
proof (induction "length x" arbitrary: b x ls rule: less_induct)
  case less
  note p = less.prems
  show ?case
  proof (cases "x = []")
    case True
    then show ?thesis using p(5) by (subst grep_loop.simps) (simp add: unlines_simps)
  next
    case False
    define k where "k = 1023 - length b"
    have k: "0 < k" using p(4) by (simp add: k_def)
    define y where "y = take k x"
    have ne: "y \<noteq> []" using False k by (simp add: y_def)
    have by1: "b @ y = take 1023 (unlines ls)" using p(4) by (simp add: p(1) [symmetric] y_def k_def)
    obtain ls1 ls2 r r' where ls: "ls = ls1 @ ls2" "b @ y = unlines ls1 @ r" "ls2 = [] \<and> r = [] \<or> (\<exists>l ls3. ls2 = l # ls3 \<and> l = r @ r')"
      using take_unlines [of ls 1023] unfolding by1 by blast
    have r: "text_line r" "length r < 1023" "ls2 \<noteq> [] \<Longrightarrow> length r < length (unlines ls2)"
      using ls(1,3) p(2) by (auto simp: text_line_def unlines_simps)
    have "ls1 \<noteq> []"
    proof
      assume "ls1 = []"
      then have "length r = min 1023 (length (unlines ls2))" "ls2 \<noteq> []"
        using ls ne arg_cong [OF by1, of length] by (auto simp: unlines_simps)
      then show False using r(2,3) by simp
    qed
    moreover have "list_all text_line ls1" using p(2) ls(1) by (auto simp: list_all_iff)
    ultimately have g: "grep_lines pattern (b @ y) = (unlines (filter (matches pattern) ls1), r)" "strchr (c_prefix (b @ y)) nl \<noteq> None"
      using grep_lines_unlines [of ls1 r pattern] r(1) ls(2) by simp_all
    have step: "grep_loop pattern b [Some x] =
        unlines (filter (matches pattern) ls1) @ grep_loop pattern r (if length x \<le> k then [] else [Some (drop k x)])"
    proof -
      have "read_chunk (1024 - length b - 1) [Some x] = (Some y, if length x \<le> k then [] else [Some (drop k x)])"
        by (simp add: y_def k_def)
      then show ?thesis using ne g by (subst grep_loop.simps) (auto simp: Let_def)
    qed
    have rest: "r @ drop k x = unlines ls2"
    proof -
      have "unlines ls1 @ r @ drop k x = (b @ y) @ drop k x" unfolding ls(2) by simp
      also have "\<dots> = unlines ls1 @ unlines ls2" using p(1) by (simp add: y_def ls(1) unlines_simps)
      finally show ?thesis by simp
    qed
    show ?thesis
    proof (cases "length x \<le> k")
      case True
      then have "ls2 = []" using rest r(3) by auto
      moreover have "grep_loop pattern r [] = []" by (subst grep_loop.simps) simp
      ultimately show ?thesis using step True ls(1) by simp
    next
      case False
      have "grep_loop pattern r [Some (drop k x)] = unlines (filter (matches pattern) ls2)"
        by (rule less.hyps [OF _ rest]) (use False k r p(2) ls(1) in auto)
      then show ?thesis using step False ls(1) by (simp add: unlines_simps)
    qed
  qed
qed

text \<open>
  C35. \<open>grep\<close> finds exactly the lines its pattern describes. For a text file of any length, whose lines are complete, fit the buffer (fewer than 1023
  characters) and contain no zero bytes, the output is the list of those lines, in order, that contain a part described by the pattern (at their
  beginning, for a pattern that starts with a caret), although the file is read in pieces of up to 1023 bytes that cut lines anywhere. What a pattern
  describes is given by the rules of \<open>here\<close>: the matcher, which backtracks over stars, always ends and finds such a part whenever there is one.
\<close>
theorem grep_correct:
  assumes ls: "list_all (\<lambda>l. text_line l \<and> length l < 1023) ls"
  shows "grep pattern [Some (unlines ls)] = unlines (filter (matches pattern) ls)"
proof -
  have "unlines ls \<noteq> [] \<or> ls = []" by (cases ls) (simp_all add: unlines_simps)
  then show ?thesis using ls by (simp add: grep_def grep_loop_file text_line_def)
qed

theorem grep_correct_witness:
  "grep ''^a.*c$'' [Some (unlines (replicate 1000 ''xabc'' @ [''abbc'', ''ac'']))] =
     unlines (filter (matches ''^a.*c$'') (replicate 1000 ''xabc'' @ [''abbc'', ''ac'']))"
  by (rule grep_correct) (simp add: text_line_def nl_def list_all_iff)

text \<open>In a file with a zero byte nothing is found after that byte.\<close>

lemma grep_zero_byte: "grep ''a'' [Some (CHR 0x00 # nl # ''a'' @ [nl])] = []"
  unfolding nl_def by code_simp

text \<open>A line that arrives in two reads is lost when the first part has no newline before it.\<close>

lemma grep_partial_line: "grep ''b'' [Some ''ab'', Some (''c'' @ [nl])] = []" "matches ''b'' ''abc''"
proof -
  show "grep ''b'' [Some ''ab'', Some (''c'' @ [nl])] = []" unfolding nl_def by code_simp
  have "match ''b'' ''abc''" by code_simp
  then show "matches ''b'' ''abc''" by (simp add: match_iff)
qed

end
