(* ===== verification/Commands.thy ===== *)
theory Commands
  imports Utils Fs_Dir
begin

text \<open>
  The small commands \<open>echo.c\<close>, \<open>rm.c\<close>, \<open>mkdir.c\<close>, \<open>ln.c\<close>, \<open>kill.c\<close> and \<open>ls.c\<close>. Arguments are addresses of strings in the memory
  \<open>str\<close>, without the name of the program; system calls are parameters over a state of their own. The results pair descriptors with the text
  written to them.
\<close>

section \<open>Commands that make one call for each argument\<close>

definition echo_main :: "(u32 \<Rightarrow> string) \<Rightarrow> (bool \<Rightarrow> u32) \<Rightarrow> u32 list \<Rightarrow> string res" where
  "echo_main str sep args =
     foreach (\<lambda>i out. bnd (printf str ''%s%s'' ((\<lambda>_. 0)(0 := args ! i, 1 := sep (i + 1 < length args)))) (\<lambda>o1. Ok (out @ o1)))
       [0..<length args] []"

fun each_arg :: "(string \<Rightarrow> 's \<Rightarrow> int \<times> 's) \<Rightarrow> (u32 \<Rightarrow> string) \<Rightarrow> string \<Rightarrow> u32 list \<Rightarrow> 's \<Rightarrow> (string \<times> 's) res" where
  "each_arg call str fmt [] s = Ok ([], s)"
| "each_arg call str fmt (a # as) s =
     (let (r, s) = call (str a) s in
      if r < 0 then bnd (printf str fmt (\<lambda>_. a)) (\<lambda>out. Ok (out, s))
      else each_arg call str fmt as s)"

definition rm_main :: "(string \<Rightarrow> 's \<Rightarrow> int \<times> 's) \<Rightarrow> (u32 \<Rightarrow> string) \<Rightarrow> u32 list \<Rightarrow> 's \<Rightarrow> (string \<times> 's) res" where
  "rm_main unlink str args s =
     (if args = [] then bnd (printf str (''Usage: rm files...'' @ [nl]) (\<lambda>_. 0)) (\<lambda>out. Ok (out, s))
      else each_arg unlink str (''rm: %s failed to delete'' @ [nl]) args s)"

definition mkdir_main :: "(string \<Rightarrow> 's \<Rightarrow> int \<times> 's) \<Rightarrow> (u32 \<Rightarrow> string) \<Rightarrow> u32 list \<Rightarrow> 's \<Rightarrow> (string \<times> 's) res" where
  "mkdir_main mkdir str args s =
     (if args = [] then bnd (printf str (''Usage: mkdir files...'' @ [nl]) (\<lambda>_. 0)) (\<lambda>out. Ok (out, s))
      else each_arg mkdir str (''mkdir: %s failed to create'' @ [nl]) args s)"

definition kill_main :: "(u32 \<Rightarrow> 's \<Rightarrow> int \<times> 's) \<Rightarrow> (u32 \<Rightarrow> string) \<Rightarrow> u32 list \<Rightarrow> 's \<Rightarrow> (string \<times> 's) res" where
  "kill_main kill str args s =
     (if args = [] then bnd (printf str (''usage: kill pid...'' @ [nl]) (\<lambda>_. 0)) (\<lambda>out. Ok (out, s))
      else Ok ([], fold (\<lambda>a s. snd (kill (atoi (str a)) s)) args s))"

definition ln_main :: "(string \<Rightarrow> string \<Rightarrow> 's \<Rightarrow> int \<times> 's) \<Rightarrow> (u32 \<Rightarrow> string) \<Rightarrow> u32 list \<Rightarrow> 's \<Rightarrow> (string \<times> 's) res" where
  "ln_main link str args s =
     (case args of
        [old, new] \<Rightarrow>
          let (r, s) = link (str old) (str new) s in
          if r < 0 then bnd (printf str (''link %s %s: failed'' @ [nl]) ((\<lambda>_. 0)(0 := old, 1 := new))) (\<lambda>out. Ok (out, s))
          else Ok ([], s)
      | _ \<Rightarrow> bnd (printf str (''Usage: ln old new'' @ [nl]) (\<lambda>_. 0)) (\<lambda>out. Ok (out, s)))"

section \<open>Listing\<close>

text \<open>The loop of \<open>fmtname\<close> looks back from index \<open>p\<close> for a slash; the result is the index after it.\<close>

primrec after_slash :: "string \<Rightarrow> nat \<Rightarrow> nat" where
  "after_slash path 0 = 0"
| "after_slash path (Suc p) = (if path ! p = CHR ''/'' then Suc p else after_slash path p)"

definition fmtname :: "string \<Rightarrow> string" where
  "fmtname path =
     (let p = drop (after_slash path (length path)) path in
      if length p \<ge> DIRSIZ then p
      else p @ replicate (DIRSIZ - length p) (CHR '' ''))"

lemma after_slash_name: "n \<le> length path \<Longrightarrow> drop (after_slash path n) (take n path) = rev (takeWhile (\<lambda>c. c \<noteq> CHR ''/'') (rev (take n path)))"
proof (induction n)
  case (Suc n)
  have le: "after_slash path n \<le> n" for n by (induction n) auto
  show ?case using Suc le [of n] by (simp add: take_Suc_conv_app_nth)
qed simp

lemma fmtname_correct:
  "fmtname path = rev (takeWhile (\<lambda>c. c \<noteq> CHR ''/'') (rev path)) @
     replicate (DIRSIZ - length (takeWhile (\<lambda>c. c \<noteq> CHR ''/'') (rev path))) (CHR '' '')"
  using after_slash_name [of "length path" path] by (simp add: fmtname_def Let_def)

text \<open>Of \<open>struct stat\<close> the fields that are printed. A directory entry is its inode number and its name, up to a terminator.\<close>

record lstat =
  ls_type :: u32
  ls_ino :: u32
  ls_size :: u32

definition ls_print :: "string \<Rightarrow> lstat \<Rightarrow> string res" where
  "ls_print path st = printf (\<lambda>_. fmtname path) (''%s %d %d %d'' @ [nl]) ((\<lambda>_. 0)(0 := 1, 1 := ls_type st, 2 := ls_ino st, 3 := ls_size st))"

fun ls_entries :: "(string \<Rightarrow> lstat option) \<Rightarrow> string \<Rightarrow> (u32 \<times> string) list \<Rightarrow> string res" where
  "ls_entries stt path [] = Ok []"
| "ls_entries stt path ((inum, name) # des) =
     (if inum = 0 then ls_entries stt path des
      else
        let b = path @ CHR ''/'' # take DIRSIZ name in
        bnd (case stt b of
               None \<Rightarrow> printf (\<lambda>_. b) (''ls: cannot stat %s'' @ [nl]) (\<lambda>_. 1)
             | Some st \<Rightarrow> ls_print b st) (\<lambda>o1.
        bnd (ls_entries stt path des) (\<lambda>o2. Ok (o1 @ o2))))"

text \<open>
  \<open>opn\<close> gives what \<open>open\<close>, \<open>fstat\<close> and the calls of \<open>read\<close> say of a file: nothing when it cannot be opened, otherwise its status, if
  \<open>fstat\<close> succeeds, and the complete entries read from it.
\<close>

definition ls :: "(string \<Rightarrow> (lstat option \<times> (u32 \<times> string) list) option) \<Rightarrow> (string \<Rightarrow> lstat option) \<Rightarrow> string \<Rightarrow> (nat \<times> string) res" where
  "ls opn stt path =
     (case opn path of
        None \<Rightarrow> bnd (printf (\<lambda>_. path) (''ls: cannot open %s'' @ [nl]) (\<lambda>_. 1)) (\<lambda>out. Ok (2, out))
      | Some (None, _) \<Rightarrow> bnd (printf (\<lambda>_. path) (''ls: cannot stat %s'' @ [nl]) (\<lambda>_. 1)) (\<lambda>out. Ok (2, out))
      | Some (Some st, des) \<Rightarrow>
          if ls_type st = 2 then bnd (ls_print path st) (\<lambda>out. Ok (1, out))
          else if ls_type st = 1 then
            if length path + 1 + DIRSIZ + 1 > 512 then Ok (1, ''ls: path too long'' @ [nl])
            else bnd (ls_entries stt path des) (\<lambda>out. Ok (1, out))
          else Ok (1, []))"

definition ls_main :: "(string \<Rightarrow> (lstat option \<times> (u32 \<times> string) list) option) \<Rightarrow> (string \<Rightarrow> lstat option) \<Rightarrow> (u32 \<Rightarrow> string) \<Rightarrow> u32 list \<Rightarrow>
    (nat \<times> string) list res" where
  "ls_main opn stt str args =
     (if args = [] then bnd (ls opn stt ''.'') (\<lambda>out. Ok [out])
      else foreach (\<lambda>a outs. bnd (ls opn stt (str a)) (\<lambda>out. Ok (outs @ [out]))) args [])"

section \<open>What they do\<close>

text \<open>\<open>echo\<close> writes its arguments, one space between them, and a newline.\<close>

lemma printf_two: "a \<noteq> 0 \<Longrightarrow> b \<noteq> 0 \<Longrightarrow> printf str ''%s%s'' ((\<lambda>_. 0)(0 := a, 1 := b)) = Ok (str a @ str b)"
  by (simp add: printf_def res_simps)

lemma echo_correct:
  assumes "0 \<notin> set args" "sep True \<noteq> 0" "sep False \<noteq> 0" "str (sep True) = '' ''" "str (sep False) = [nl]" "args \<noteq> []"
  shows "echo_main str sep args = Ok (concat (map (\<lambda>a. str a @ '' '') (butlast args)) @ str (last args) @ [nl])"
proof -
  define f where "f = (\<lambda>i out. bnd (printf str ''%s%s'' ((\<lambda>_. 0)(0 := args ! i, 1 := sep (i + 1 < length args)))) (\<lambda>o1. Ok (out @ o1)))"
  have f: "f i out = Ok (out @ str (args ! i) @ (if i + 1 < length args then '' '' else [nl]))" if "i < length args" for i out
  proof -
    have "args ! i \<noteq> 0" using assms(1) that by (metis nth_mem)
    then show ?thesis using assms printf_two [of "args ! i" "sep (i + 1 < length args)" str] by (cases "i + 1 < length args") (simp_all add: f_def res_simps)
  qed
  have pre: "foreach f [0..<n] [] = Ok (concat (map (\<lambda>a. str a @ '' '') (take n args)))" if "n < length args" for n using that
    by (induction n) (simp_all add: foreach_append f res_simps take_Suc_conv_app_nth)
  obtain n where n: "length args = Suc n" using assms(6) by (cases args) auto
  have "echo_main str sep args = foreach f [0..<Suc n] []" by (simp add: echo_main_def f_def n)
  then show ?thesis using pre [of n] f [of n] n assms(6) by (simp add: foreach_append res_simps butlast_conv_take last_conv_nth)
qed

text \<open>\<open>rm\<close> and \<open>mkdir\<close> stop at the first argument that fails and name it; otherwise they write nothing.\<close>

lemma each_arg_ok:
  "list_all (\<lambda>a. \<forall>s. 0 \<le> fst (call (str a) s)) as \<Longrightarrow> each_arg call str fmt as s = Ok ([], fold (\<lambda>a s. snd (call (str a) s)) as s)"
proof (induction as arbitrary: s)
  case (Cons a as)
  have "\<not> fst (call (str a) s) < 0" using Cons.prems by (simp add: not_less)
  then show ?case using Cons by (simp add: case_prod_unfold)
qed simp

lemma each_arg_stops:
  assumes "list_all (\<lambda>a. \<forall>s. 0 \<le> fst (call (str a) s)) as" "\<forall>s. fst (call (str a) s) < 0"
  shows "each_arg call str fmt (as @ a # bs) s =
     bnd (printf str fmt (\<lambda>_. a)) (\<lambda>out. Ok (out, snd (call (str a) (fold (\<lambda>a s. snd (call (str a) s)) as s))))"
  using assms(1)
proof (induction as arbitrary: s)
  case Nil
  then show ?case using assms(2) by (simp add: case_prod_unfold)
next
  case (Cons b as)
  have "\<not> fst (call (str b) s) < 0" using Cons.prems by (simp add: not_less)
  then show ?case using Cons by (simp add: case_prod_unfold)
qed

end
