(* ===== verification/Umalloc.thy ===== *)
theory Umalloc
  imports Prelude
begin

text \<open>
  The user-level memory allocator of \<open>umalloc.c\<close>. The memory is seen through the headers of the blocks: for every address the fields of a
  header placed there. Addresses are words, a header has eight bytes and sizes count in units of that length. \<open>base\<close> is the address of the
  static header the circular free list starts with. A search that goes round the list for ever is \<open>None\<close>.
\<close>

record umem =
  um_ptr :: "u32 \<Rightarrow> u32"
  um_size :: "u32 \<Rightarrow> u32"
  um_freep :: u32

section \<open>Operations\<close>

partial_function (option) free_find :: "umem \<Rightarrow> u32 \<Rightarrow> u32 \<Rightarrow> u32 option" where
  "free_find m bp p =
     (if bp > p \<and> bp < um_ptr m p then Some p
      else if p \<ge> um_ptr m p \<and> (bp > p \<or> bp < um_ptr m p) then Some p
      else free_find m bp (um_ptr m p))"

definition merge_up :: "umem \<Rightarrow> u32 \<Rightarrow> u32 \<Rightarrow> umem" where
  "merge_up m bp p =
     (let nx = um_ptr m p in
      if bp + 8 * um_size m bp = nx
      then m\<lparr>um_size := (um_size m)(bp := um_size m bp + um_size m nx), um_ptr := (um_ptr m)(bp := um_ptr m nx)\<rparr>
      else m\<lparr>um_ptr := (um_ptr m)(bp := nx)\<rparr>)"

definition merge_down :: "umem \<Rightarrow> u32 \<Rightarrow> u32 \<Rightarrow> umem" where
  "merge_down m bp p =
     (if p + 8 * um_size m p = bp
      then m\<lparr>um_size := (um_size m)(p := um_size m p + um_size m bp), um_ptr := (um_ptr m)(p := um_ptr m bp)\<rparr>
      else m\<lparr>um_ptr := (um_ptr m)(p := bp)\<rparr>)"

definition free :: "u32 \<Rightarrow> umem \<Rightarrow> umem option" where
  "free ap m =
     (let bp = ap - 8 in
      map_option (\<lambda>p. (merge_down (merge_up m bp p) bp p)\<lparr>um_freep := p\<rparr>) (free_find m bp (um_freep m)))"

text \<open>\<open>sbrk\<close> is the system call, over a state of its own.\<close>

definition core_units :: "u32 \<Rightarrow> u32" where
  "core_units nu = (if nu < 4096 then 4096 else nu)"

definition morecore :: "(u32 \<Rightarrow> 's \<Rightarrow> u32 \<times> 's) \<Rightarrow> u32 \<Rightarrow> umem \<Rightarrow> 's \<Rightarrow> (u32 \<times> umem \<times> 's) option" where
  "morecore sbrk nu m s =
     (let nu = core_units nu;
          (p, s) = sbrk (nu * 8) s in
      if p = - 1 then Some (0, m, s)
      else
        map_option (\<lambda>m. (um_freep m, m, s)) (free (p + 8) (m\<lparr>um_size := (um_size m)(p := nu)\<rparr>)))"

definition malloc_take :: "u32 \<Rightarrow> umem \<Rightarrow> u32 \<Rightarrow> u32 \<Rightarrow> u32 \<times> umem" where
  "malloc_take nunits m prevp p =
     (let (p, m) =
        (if um_size m p = nunits then (p, m\<lparr>um_ptr := (um_ptr m)(prevp := um_ptr m p)\<rparr>)
         else
           let m = m\<lparr>um_size := (um_size m)(p := um_size m p - nunits)\<rparr>;
               p = p + 8 * um_size m p in
           (p, m\<lparr>um_size := (um_size m)(p := nunits)\<rparr>)) in
      (p + 8, m\<lparr>um_freep := prevp\<rparr>))"

partial_function (option) malloc_loop :: "(u32 \<Rightarrow> 's \<Rightarrow> u32 \<times> 's) \<Rightarrow> u32 \<Rightarrow> umem \<Rightarrow> 's \<Rightarrow> u32 \<Rightarrow> u32 \<Rightarrow> (u32 \<times> umem \<times> 's) option" where
  "malloc_loop sbrk nunits m s prevp p =
     (if um_size m p \<ge> nunits then (case malloc_take nunits m prevp p of (r, m') \<Rightarrow> Some (r, m', s))
      else if p = um_freep m then
        Option.bind (morecore sbrk nunits m s) (\<lambda>x. case x of (r, m', s') \<Rightarrow>
          if r = 0 then Some (0, m', s') else malloc_loop sbrk nunits m' s' r (um_ptr m' r))
      else malloc_loop sbrk nunits m s p (um_ptr m p))"

definition malloc_units :: "u32 \<Rightarrow> u32" where
  "malloc_units nbytes = (nbytes + 8 - 1) div 8 + 1"

definition malloc :: "u32 \<Rightarrow> (u32 \<Rightarrow> 's \<Rightarrow> u32 \<times> 's) \<Rightarrow> u32 \<Rightarrow> umem \<Rightarrow> 's \<Rightarrow> (u32 \<times> umem \<times> 's) option" where
  "malloc base sbrk nbytes m s =
     (let nunits = malloc_units nbytes;
          m = (if um_freep m = 0
               then m\<lparr>um_ptr := (um_ptr m)(base := base), um_size := (um_size m)(base := 0), um_freep := base\<rparr>
               else m);
          prevp = um_freep m in
      malloc_loop sbrk nunits m s prevp (um_ptr m prevp))"

section \<open>The free list\<close>

definition lim :: "umem \<Rightarrow> u32 \<Rightarrow> nat" where
  "lim m a = unat a + 8 * unat (um_size m a)"

text \<open>From the block at \<open>a\<close> the list goes over the blocks \<open>bs\<close>, upwards and with gaps between them, to \<open>e\<close>.\<close>

primrec path :: "umem \<Rightarrow> u32 \<Rightarrow> u32 list \<Rightarrow> u32 \<Rightarrow> bool" where
  "path m a [] e \<longleftrightarrow> um_ptr m a = e"
| "path m a (b # bs) e \<longleftrightarrow> um_ptr m a = b \<and> lim m a < unat b \<and> path m b bs e"

definition free_list :: "u32 \<Rightarrow> umem \<Rightarrow> u32 list \<Rightarrow> bool" where
  "free_list base m bs \<longleftrightarrow>
     path m base bs base \<and> base \<noteq> 0 \<and> um_size m base = 0 \<and> list_all (\<lambda>b. um_size m b \<noteq> 0) bs \<and>
     lim m (last (base # bs)) < 2 ^ 32 \<and> um_freep m \<in> set (base # bs)"

definition block :: "u32 \<Rightarrow> u32 \<Rightarrow> nat set" where
  "block a n = {unat a ..< unat a + 8 * unat n}"

definition free_bytes :: "umem \<Rightarrow> u32 list \<Rightarrow> nat set" where
  "free_bytes m bs = (\<Union>b\<in>set bs. block b (um_size m b))"

lemma path_append: "path m a (xs @ b # ys) e \<longleftrightarrow> path m a xs b \<and> lim m (last (a # xs)) < unat b \<and> path m b ys e"
  by (induction xs arbitrary: a) auto

lemma path_above: "path m a bs e \<Longrightarrow> b \<in> set bs \<Longrightarrow> lim m a < unat b"
  by (induction bs arbitrary: a) (force simp: lim_def)+

lemma path_distinct: "path m a bs e \<Longrightarrow> distinct (a # bs)"
proof (induction bs arbitrary: a)
  case (Cons b bs)
  have "a \<notin> set (b # bs)" using path_above [OF Cons.prems, of a] by (auto simp: lim_def)
  then show ?case using Cons.IH [of b] Cons.prems by simp
qed simp

text \<open>Only the headers of the blocks on the way matter.\<close>

lemma path_cong:
  assumes "\<And>x. x \<in> set (a # bs) \<Longrightarrow> um_ptr m' x = um_ptr m x \<and> um_size m' x = um_size m x"
  shows "path m' a bs e \<longleftrightarrow> path m a bs e"
  using assms by (induction bs arbitrary: a) (auto simp: lim_def)

lemma path_last: "path m a bs e \<Longrightarrow> um_ptr m (last (a # bs)) = e"
  by (induction bs arbitrary: a) auto

section \<open>Finding the place of a block\<close>

lemma free_find_below:
  "path m q (vs @ p # ys) e \<Longrightarrow> \<forall>x\<in>set (q # vs @ [p]). x < bp \<Longrightarrow> free_find m bp q = free_find m bp p"
proof (induction vs arbitrary: q)
  case Nil
  then have "um_ptr m q = p" "q < p" by (auto simp: lim_def word_less_nat_alt)
  then show ?case using Nil by (subst free_find.simps) auto
next
  case (Cons v vs)
  have "um_ptr m q = v" "q < v" using Cons.prems by (auto simp: lim_def word_less_nat_alt)
  then have "free_find m bp q = free_find m bp v" using Cons.prems by (subst free_find.simps) auto
  then show ?case using Cons by simp
qed

lemma free_find_above:
  "path m q zs base \<Longrightarrow> \<forall>x\<in>set (q # zs). bp < x \<Longrightarrow> base < bp \<Longrightarrow> free_find m bp q = free_find m bp base"
proof (induction zs arbitrary: q)
  case Nil
  then show ?case by (subst free_find.simps) auto
next
  case (Cons z zs)
  have "um_ptr m q = z" "q < z" using Cons.prems by (auto simp: lim_def word_less_nat_alt)
  then have "free_find m bp q = free_find m bp z" using Cons.prems by (subst free_find.simps) auto
  then show ?case using Cons by simp
qed

lemma free_find_correct:
  assumes path: "path m base bs base" and bs: "base # bs = xs @ p # ys" and q: "q \<in> set (base # bs)"
    and below: "\<forall>x\<in>set (xs @ [p]). x < bp" and above: "\<forall>x\<in>set ys. bp < x"
  shows "free_find m bp q = Some p"
proof -
  have sub: "path m x zs base" if "base # bs = us @ x # zs" for us x zs
    using that path by (cases us) (auto simp: path_append)
  have base: "base < bp" using bs below by (cases xs) auto
  have p: "free_find m bp p = Some p"
  proof (cases ys)
    case Nil
    have "base \<le> p"
    proof (cases xs)
      case Nil
      then show ?thesis using bs by simp
    next
      case (Cons x xs')
      then have "p \<in> set bs" using bs by simp
      then show ?thesis using path_above [OF path, of p] by (simp add: lim_def word_le_nat_alt)
    qed
    then show ?thesis using Nil sub [OF bs] below by (subst free_find.simps) auto
  next
    case (Cons y ys')
    then show ?thesis using sub [OF bs] below above by (subst free_find.simps) auto
  qed
  have lower: "free_find m bp x = Some p" if x: "x \<in> set xs" for x
  proof -
    obtain us vs where xs: "xs = us @ x # vs" using x by (auto simp: in_set_conv_decomp)
    then have "path m x (vs @ p # ys) base" using bs by (intro sub [of us]) simp
    then show ?thesis using p below xs by (subst free_find_below [of m x vs p ys base bp]) auto
  qed
  have first: "free_find m bp base = Some p" using bs p lower by (cases xs) auto
  have upper: "free_find m bp x = Some p" if x: "x \<in> set ys" for x
  proof -
    obtain us vs where ys: "ys = us @ x # vs" using x by (auto simp: in_set_conv_decomp)
    then have "path m x vs base" using bs by (intro sub [of "xs @ p # us"]) simp
    then show ?thesis using first above ys base by (subst free_find_above [of m x vs base bp]) auto
  qed
  have "q \<in> set xs \<or> q = p \<or> q \<in> set ys" using q bs by auto
  then show ?thesis using p lower upper by blast
qed

section \<open>Putting a block in its place\<close>

lemma unat_offset: "unat a + 8 * unat k < 2 ^ 32 \<Longrightarrow> unat (a + 8 * k) = unat a + 8 * unat k" for a k :: u32
proof -
  assume a: "unat a + 8 * unat k < 2 ^ 32"
  then have "unat (8 * k) = 8 * unat k" by (simp add: unat_word_ariths)
  then show ?thesis using a by (simp add: unat_word_ariths)
qed

lemma lim_word: "lim m a < 2 ^ 32 \<Longrightarrow> unat (a + 8 * um_size m a) = lim m a"
  by (simp add: lim_def unat_offset)

lemma path_lim_le: "path m a bs e \<Longrightarrow> lim m a \<le> lim m (last (a # bs))"
  by (induction bs arbitrary: a) (force simp: lim_def)+

lemma path_move:
  assumes "um_ptr m' a' = um_ptr m a" "lim m' a' \<le> lim m a"
    and "\<And>x. x \<in> set bs \<Longrightarrow> um_ptr m' x = um_ptr m x \<and> um_size m' x = um_size m x"
    and "path m a bs e"
  shows "path m' a' bs e"
proof (cases bs)
  case (Cons b bs')
  have "path m' b bs' e \<longleftrightarrow> path m b bs' e" using assms(3) Cons by (intro path_cong) auto
  then show ?thesis using assms(1,2,4) Cons by auto
qed (use assms(1,4) in simp)

lemma free_bytes_cong:
  "(\<And>x. x \<in> set bs \<Longrightarrow> um_size m' x = um_size m x) \<Longrightarrow> free_bytes m' bs = free_bytes m bs"
  by (simp add: free_bytes_def)

lemma block_lim: "block a (um_size m a) = {unat a ..< lim m a}"
  by (simp add: block_def lim_def)

lemma free_bytes_Cons: "free_bytes m (b # bs) = {unat b ..< lim m b} \<union> free_bytes m bs"
  by (simp add: free_bytes_def block_lim)

text \<open>Two blocks side by side make one.\<close>

lemma size_sum:
  assumes "lim m a = unat b" "lim m b < 2 ^ 32"
  shows "unat a + 8 * unat (um_size m a + um_size m b) = lim m b"
proof -
  have "unat (um_size m a + um_size m b) = unat (um_size m a) + unat (um_size m b)"
    using assms by (intro unat_add_lem [THEN iffD1]) (auto simp: lim_def)
  then show ?thesis using assms by (simp add: lim_def)
qed

lemma merge_up_correct:
  assumes path: "path m p ys base" and new: "bp \<notin> set (p # ys)" and nz: "um_size m bp \<noteq> 0" and base: "unat base < unat bp"
    and lim: "lim m bp < 2 ^ 32" "lim m (last (p # ys)) < 2 ^ 32" and gap: "ys \<noteq> [] \<Longrightarrow> lim m bp \<le> unat (hd ys)"
    and nzs: "list_all (\<lambda>b. um_size m b \<noteq> 0) ys"
  defines "m1 \<equiv> merge_up m bp p"
  obtains ys1 where "path m1 bp ys1 base" "free_bytes m1 (bp # ys1) = block bp (um_size m bp) \<union> free_bytes m ys"
    "list_all (\<lambda>b. um_size m1 b \<noteq> 0) (bp # ys1)" "set ys1 \<subseteq> set ys" "lim m1 (last (bp # ys1)) < 2 ^ 32"
    "\<forall>x. x \<noteq> bp \<longrightarrow> um_ptr m1 x = um_ptr m x \<and> um_size m1 x = um_size m x"
proof (cases "bp + 8 * um_size m bp = um_ptr m p")
  case True
  have e: "lim m bp = unat (um_ptr m p)" using True lim_word [OF lim(1)] by simp
  have "ys \<noteq> []" using e path base by (auto simp: lim_def)
  then obtain y ys' where ys: "ys = y # ys'" by (cases ys) auto
  have y: "um_ptr m p = y" "path m y ys' base" using path ys by auto
  have limy: "lim m y < 2 ^ 32" using path_lim_le [OF y(2)] lim(2) ys by simp
  have m1: "m1 = m\<lparr>um_size := (um_size m)(bp := um_size m bp + um_size m y), um_ptr := (um_ptr m)(bp := um_ptr m y)\<rparr>"
    using True y(1) by (simp add: m1_def merge_up_def)
  have l: "lim m1 bp = lim m y" using size_sum [of m bp y] e y(1) limy by (simp add: m1 lim_def)
  have fr: "um_ptr m1 x = um_ptr m x \<and> um_size m1 x = um_size m x" if "x \<noteq> bp" for x using that by (simp add: m1)
  have out: "x \<noteq> bp" if "x \<in> set ys'" for x using that new ys by auto
  have p1: "path m1 bp ys' base" using path_move [of m1 bp m y ys' base] l y(2) fr out by (simp add: m1)
  have bytes: "free_bytes m1 (bp # ys') = block bp (um_size m bp) \<union> free_bytes m ys"
    using free_bytes_cong [of ys' m1 m] fr out l e y(1) by (auto simp: free_bytes_Cons ys block_lim lim_def [of m])
  have "um_size m1 bp \<noteq> 0" using l e y(1) nz by (auto simp: lim_def unat_eq_0)
  then have "list_all (\<lambda>b. um_size m1 b \<noteq> 0) (bp # ys')" using nzs fr out ys by (auto simp: list_all_iff)
  moreover have "lim m1 (last (bp # ys')) < 2 ^ 32" using lim(2) l limy fr out ys by (auto simp: lim_def)
  ultimately show ?thesis using p1 bytes fr ys by (intro that [of ys']) (auto simp: m1)
next
  case False
  have m1: "m1 = m\<lparr>um_ptr := (um_ptr m)(bp := um_ptr m p)\<rparr>" using False by (simp add: m1_def merge_up_def Let_def)
  have s: "um_size m1 = um_size m" by (simp add: m1)
  have fr: "um_ptr m1 x = um_ptr m x" if "x \<noteq> bp" for x using that by (simp add: m1)
  have p1: "path m1 bp ys base"
  proof (cases ys)
    case (Cons y ys')
    have "lim m bp \<noteq> unat y" using False lim_word [OF lim(1)] path Cons by (metis path.simps(2) word_unat_eq_iff)
    then have "lim m1 bp < unat y" using gap Cons by (simp add: lim_def s)
    moreover have "path m1 y ys' base \<longleftrightarrow> path m y ys' base" using new Cons by (intro path_cong) (auto simp: m1)
    ultimately show ?thesis using path Cons by (simp add: m1)
  qed (use path in \<open>simp add: m1\<close>)
  have "lim m1 (last (bp # ys)) < 2 ^ 32" using lim by (cases "ys = []") (simp_all add: lim_def s)
  then show ?thesis using p1 nz nzs fr by (intro that [of ys]) (auto simp: s free_bytes_def m1)
qed

lemma merge_down_correct:
  assumes path: "path m bp ys base" and new: "p \<notin> set (bp # ys)" and gap: "lim m p \<le> unat bp"
    and lim: "lim m (last (bp # ys)) < 2 ^ 32" and nzs: "list_all (\<lambda>b. um_size m b \<noteq> 0) (bp # ys)"
    and nz: "p = base \<and> um_size m base = 0 \<and> unat base < unat bp \<or> um_size m p \<noteq> 0"
  defines "m2 \<equiv> merge_down m bp p"
  obtains ys2 where "path m2 p ys2 base" "free_bytes m2 (p # ys2) = free_bytes m (p # bp # ys)"
    "list_all (\<lambda>b. um_size m2 b \<noteq> 0) ys2" "set ys2 \<subseteq> set (bp # ys)" "lim m2 (last (p # ys2)) < 2 ^ 32"
    "p = base \<longrightarrow> um_size m p = 0 \<longrightarrow> um_size m2 p = 0" "um_size m p \<noteq> 0 \<longrightarrow> um_size m2 p \<noteq> 0"
    "\<forall>x. x \<noteq> p \<longrightarrow> um_ptr m2 x = um_ptr m x \<and> um_size m2 x = um_size m x"
proof -
  have limb: "lim m bp < 2 ^ 32" using path_lim_le [OF path] lim by simp
  have limp: "lim m p < 2 ^ 32" using gap unsigned_less [of bp, where ?'a = nat] by simp
  show ?thesis
  proof (cases "p + 8 * um_size m p = bp")
    case True
    have e: "lim m p = unat bp" using True lim_word [OF limp] by simp
    have np: "um_size m p \<noteq> 0" using nz e by (auto simp: lim_def)
    have m2: "m2 = m\<lparr>um_size := (um_size m)(p := um_size m p + um_size m bp), um_ptr := (um_ptr m)(p := um_ptr m bp)\<rparr>"
      using True by (simp add: m2_def merge_down_def)
    have l: "lim m2 p = lim m bp" using size_sum [of m p bp] e limb by (simp add: m2 lim_def)
    have fr: "um_ptr m2 x = um_ptr m x \<and> um_size m2 x = um_size m x" if "x \<noteq> p" for x using that by (simp add: m2)
    have out: "x \<noteq> p" if "x \<in> set ys" for x using that new by auto
    have p2: "path m2 p ys base" using path_move [of m2 p m bp ys base] l path fr out by (simp add: m2)
    have bytes: "free_bytes m2 (p # ys) = free_bytes m (p # bp # ys)"
      using free_bytes_cong [of ys m2 m] fr out l e by (auto simp: free_bytes_Cons lim_def [of m])
    have nz2: "um_size m2 p \<noteq> 0" using l e nzs np by (auto simp: lim_def unat_eq_0)
    have "lim m2 (last (p # ys)) < 2 ^ 32" using lim l limb fr out by (auto simp: lim_def)
    moreover have "list_all (\<lambda>b. um_size m2 b \<noteq> 0) ys" using nzs fr out by (auto simp: list_all_iff)
    ultimately show ?thesis using p2 bytes fr nz2 np by (intro that [of ys]) auto
  next
    case False
    have m2: "m2 = m\<lparr>um_ptr := (um_ptr m)(p := bp)\<rparr>" using False by (simp add: m2_def merge_down_def)
    have s: "um_size m2 = um_size m" by (simp add: m2)
    have "lim m p \<noteq> unat bp" using False lim_word [OF limp] by (metis word_unat_eq_iff)
    then have "lim m2 p < unat bp" using gap by (simp add: lim_def s)
    moreover have "path m2 bp ys base \<longleftrightarrow> path m bp ys base" using new by (intro path_cong) (auto simp: m2)
    ultimately have "path m2 p (bp # ys) base" using path by (simp add: m2)
    moreover have "lim m2 (last (p # bp # ys)) < 2 ^ 32" using lim by (cases "ys = []") (simp_all add: lim_def s)
    ultimately show ?thesis using nzs by (intro that [of "bp # ys"]) (auto simp: s free_bytes_def m2)
  qed
qed

lemma path_place:
  "path m a bs e \<Longrightarrow> a < bp \<Longrightarrow> bp \<notin> set bs \<Longrightarrow>
   \<exists>xs p ys. a # bs = xs @ p # ys \<and> (\<forall>x\<in>set (xs @ [p]). x < bp) \<and> (\<forall>x\<in>set ys. bp < x)"
proof (induction bs arbitrary: a)
  case Nil
  then show ?case by (intro exI [of _ "[]"]) simp
next
  case (Cons b bs)
  show ?case
  proof (cases "b < bp")
    case True
    then obtain xs p ys where "b # bs = xs @ p # ys" "\<forall>x\<in>set (xs @ [p]). x < bp" "\<forall>x\<in>set ys. bp < x"
      using Cons.IH [of b] Cons.prems by auto
    then show ?thesis using Cons.prems by (intro exI [of _ "a # xs"] exI [of _ p] exI [of _ ys]) simp
  next
    case False
    then have b: "bp < b" using Cons.prems by (auto simp: not_less)
    have "bp < x" if "x \<in> set bs" for x
      using path_above [of m b bs e x] Cons.prems that b by (auto simp: lim_def word_less_nat_alt)
    then show ?thesis using Cons.prems b by (intro exI [of _ "[]"] exI [of _ a] exI [of _ "b # bs"]) simp
  qed
qed

lemma path_decomp:
  "base # bs = xs @ p # ys \<Longrightarrow>
   path m base bs e \<longleftrightarrow> (xs \<noteq> [] \<longrightarrow> path m (hd xs) (tl xs) p \<and> lim m (last xs) < unat p) \<and> path m p ys e"
  by (cases xs) (auto simp: path_append)

lemma free_bytes_append: "free_bytes m (xs @ ys) = free_bytes m xs \<union> free_bytes m ys"
  by (auto simp: free_bytes_def)

lemma free_bytes_base: "um_size m base = 0 \<Longrightarrow> free_bytes m (base # bs) = free_bytes m bs"
  by (simp add: free_bytes_def block_def)

lemma free_correct:
  assumes fl: "free_list base m bs" and base: "base < bp" and nz: "um_size m bp \<noteq> 0" and lim: "lim m bp < 2 ^ 32"
    and disj: "block bp (um_size m bp) \<inter> free_bytes m bs = {}"
  obtains m' bs' where "free (bp + 8) m = Some m'" "free_list base m' bs'"
    "free_bytes m' bs' = free_bytes m bs \<union> block bp (um_size m bp)"
    "\<forall>x. x \<notin> {base, bp} \<union> set bs \<longrightarrow> um_ptr m' x = um_ptr m x \<and> um_size m' x = um_size m x"
proof -
  have path: "path m base bs base" and s0: "um_size m base = 0" and nzs: "list_all (\<lambda>b. um_size m b \<noteq> 0) bs"
    and last: "lim m (last (base # bs)) < 2 ^ 32" and fp: "um_freep m \<in> set (base # bs)" and b0: "base \<noteq> 0"
    using fl by (auto simp: free_list_def)
  have bb: "unat base < unat bp" using base by (simp add: word_less_nat_alt)
  have apart: "unat x < unat bp \<longrightarrow> lim m x \<le> unat bp" "unat bp < unat x \<longrightarrow> lim m bp \<le> unat x" "x \<noteq> bp" if x: "x \<in> set bs" for x
  proof -
    have "0 < unat (um_size m x)" "0 < unat (um_size m bp)" using nzs x nz by (auto simp: list_all_iff unat_gt_0)
    moreover have "block bp (um_size m bp) \<inter> block x (um_size m x) = {}" using disj x by (auto simp: free_bytes_def)
    ultimately have "unat bp \<notin> block x (um_size m x)" "unat x \<notin> block bp (um_size m bp)" "unat x \<noteq> unat bp" by (auto simp: block_def)
    then show "unat x < unat bp \<longrightarrow> lim m x \<le> unat bp" "unat bp < unat x \<longrightarrow> lim m bp \<le> unat x" "x \<noteq> bp"
      by (auto simp: block_def lim_def)
  qed
  obtain xs p ys where sp: "base # bs = xs @ p # ys" and below: "\<forall>x\<in>set (xs @ [p]). x < bp" and above: "\<forall>x\<in>set ys. bp < x"
    using path_place [OF path base] apart(3) by blast
  have find: "free_find m bp (um_freep m) = Some p" by (rule free_find_correct [OF path sp fp below above])
  have dist: "distinct (xs @ p # ys)" using path_distinct [OF path] sp by simp
  have py: "path m p ys base" using path path_decomp [OF sp] by blast
  have ysbs: "set ys \<subseteq> set bs" using sp by (cases xs) auto
  have pbs: "p \<noteq> base \<Longrightarrow> p \<in> set bs" using sp by (cases xs) auto
  have bpn: "bp \<notin> set (xs @ p # ys)" using below above by auto
  have g1: "lim m bp \<le> unat (hd ys)" if "ys \<noteq> []" using that apart(2) [of "hd ys"] above ysbs by (cases ys) (auto simp: word_less_nat_alt)
  have l1: "lim m (last (p # ys)) < 2 ^ 32" using last sp by (metis last_appendR list.distinct(1))
  have z1: "list_all (\<lambda>b. um_size m b \<noteq> 0) ys" using nzs ysbs by (auto simp: list_all_iff)
  have n1: "bp \<notin> set (p # ys)" using bpn by simp
  obtain ys1 where m1: "path (merge_up m bp p) bp ys1 base"
      "free_bytes (merge_up m bp p) (bp # ys1) = block bp (um_size m bp) \<union> free_bytes m ys"
      "list_all (\<lambda>b. um_size (merge_up m bp p) b \<noteq> 0) (bp # ys1)" "set ys1 \<subseteq> set ys" "lim (merge_up m bp p) (last (bp # ys1)) < 2 ^ 32"
      "\<forall>x. x \<noteq> bp \<longrightarrow> um_ptr (merge_up m bp p) x = um_ptr m x \<and> um_size (merge_up m bp p) x = um_size m x"
    by (rule merge_up_correct [OF py n1 nz bb lim l1 g1 z1])
  define m1' where "m1' = merge_up m bp p"
  note m1 = m1 [folded m1'_def]
  have pm: "p \<noteq> bp" using below by auto
  have pp: "um_size m1' p = um_size m p" "lim m1' p = lim m p" "um_size m1' base = 0" using m1(6) pm base s0 by (auto simp: lim_def)
  have gap: "lim m1' p \<le> unat bp"
    using apart(1) [of p] pbs below s0 bb unfolding pp(2) by (cases "p = base") (auto simp: lim_def word_less_nat_alt)
  have nzp: "p = base \<and> um_size m1' base = 0 \<and> unat base < unat bp \<or> um_size m1' p \<noteq> 0"
    using pp bb pbs nzs by (auto simp: list_all_iff)
  have n2: "p \<notin> set (bp # ys1)" using dist pm m1(4) by auto
  obtain ys2 where m2: "path (merge_down m1' bp p) p ys2 base" "free_bytes (merge_down m1' bp p) (p # ys2) = free_bytes m1' (p # bp # ys1)"
      "list_all (\<lambda>b. um_size (merge_down m1' bp p) b \<noteq> 0) ys2" "set ys2 \<subseteq> set (bp # ys1)" "lim (merge_down m1' bp p) (last (p # ys2)) < 2 ^ 32"
      "p = base \<longrightarrow> um_size m1' p = 0 \<longrightarrow> um_size (merge_down m1' bp p) p = 0" "um_size m1' p \<noteq> 0 \<longrightarrow> um_size (merge_down m1' bp p) p \<noteq> 0"
      "\<forall>x. x \<noteq> p \<longrightarrow> um_ptr (merge_down m1' bp p) x = um_ptr m1' x \<and> um_size (merge_down m1' bp p) x = um_size m1' x"
    by (rule merge_down_correct [OF m1(1) n2 gap m1(5) m1(3) nzp])
  define m2' where "m2' = merge_down m1' bp p"
  note m2 = m2 [folded m2'_def]
  have fr: "um_ptr m2' x = um_ptr m x \<and> um_size m2' x = um_size m x" if "x \<noteq> p" "x \<noteq> bp" for x
    using m1(6) m2(8) that by simp
  obtain bs' where bs': "base # bs' = xs @ p # ys2" using sp by (cases xs) auto
  have same: "um_ptr m2' x = um_ptr m x \<and> um_size m2' x = um_size m x" if "x \<in> set xs" for x using that dist bpn by (intro fr) auto
  have xs: "path m2' (hd xs) (tl xs) p \<and> lim m2' (last xs) < unat p" if ne: "xs \<noteq> []"
  proof -
    have "path m2' (hd xs) (tl xs) p \<longleftrightarrow> path m (hd xs) (tl xs) p" using ne same by (intro path_cong) simp
    then show ?thesis using path path_decomp [OF sp] ne same [of "last xs"] by (simp add: lim_def)
  qed
  have s2: "um_size m2' base = 0" using m2(6) fr [of base] pp(1) s0 base by (cases "p = base") auto
  have bytes: "free_bytes m2' bs' = free_bytes m bs \<union> block bp (um_size m bp)"
  proof -
    have "free_bytes m2' xs = free_bytes m xs" using same by (intro free_bytes_cong) blast
    then have "free_bytes m2' (base # bs') = free_bytes m xs \<union> {unat p ..< lim m p} \<union> block bp (um_size m bp) \<union> free_bytes m ys"
      using m1(2) m2(2) pp(2) unfolding bs' free_bytes_append by (auto simp: free_bytes_Cons [of _ p])
    also have "\<dots> = free_bytes m (base # bs) \<union> block bp (um_size m bp)" unfolding sp free_bytes_append free_bytes_Cons [of m p] by blast
    finally show ?thesis by (simp add: free_bytes_base s0 s2)
  qed
  have nz2: "list_all (\<lambda>b. um_size m2' b \<noteq> 0) bs'"
  proof (cases xs)
    case Nil
    then show ?thesis using bs' m2(3) by simp
  next
    case (Cons x xs')
    then have b: "bs' = xs' @ p # ys2" "bs = xs' @ p # ys" using bs' sp by auto
    have "list_all (\<lambda>b. um_size m2' b \<noteq> 0) xs'" using nzs Cons b same by (auto simp: list_all_iff)
    then show ?thesis using b m2(3,7) pp(1) nzs by simp
  qed
  have "lim m2' (last (base # bs')) < 2 ^ 32" using m2(5) unfolding bs' by simp
  then have "free_list base (m2'\<lparr>um_freep := p\<rparr>) bs'"
    using path_decomp [OF bs', of m2' base] xs m2(1) s2 nz2 b0 bs' path_cong [of base bs' "m2'\<lparr>um_freep := p\<rparr>" m2' base]
    by (simp add: free_list_def lim_def)
  moreover have "free (bp + 8) m = Some (m2'\<lparr>um_freep := p\<rparr>)" using find by (simp add: free_def m2'_def m1'_def)
  moreover have "free_bytes (m2'\<lparr>um_freep := p\<rparr>) bs' = free_bytes m2' bs'" by (rule free_bytes_cong) simp
  moreover have "um_ptr m2' x = um_ptr m x \<and> um_size m2' x = um_size m x" if "x \<notin> {base, bp} \<union> set bs" for x
    using that pbs by (intro fr) auto
  ultimately show ?thesis using bytes by (intro that [of "m2'\<lparr>um_freep := p\<rparr>" bs']) simp_all
qed

section \<open>Taking a block\<close>

lemma path_sep:
  assumes "path m base bs base" "base # bs = us @ q # vs"
  shows "x \<in> set us \<Longrightarrow> lim m x < unat q" "x \<in> set vs \<Longrightarrow> lim m q < unat x"
proof -
  have "path m q vs base" using assms path_decomp by blast
  then show "x \<in> set vs \<Longrightarrow> lim m q < unat x" by (rule path_above)
  assume "x \<in> set us"
  then obtain as cs where us: "us = as @ x # cs" by (auto simp: in_set_conv_decomp)
  then have "path m x (cs @ q # vs) base" using assms path_decomp [of base bs as x "cs @ q # vs"] by simp
  then show "lim m x < unat q" by (rule path_above) simp
qed

lemma free_bytes_sep:
  assumes "path m base bs base" "base # bs = us @ q # vs"
  shows "free_bytes m us \<inter> {unat q ..< lim m q} = {}" "free_bytes m vs \<inter> {unat q ..< lim m q} = {}"
  using path_sep [OF assms] by (force simp: free_bytes_def block_lim)+

lemma free_list_bytes: "free_list base m bs \<Longrightarrow> x \<in> set bs \<Longrightarrow> unat x \<in> free_bytes m bs"
  by (auto simp: free_list_def list_all_iff free_bytes_def block_def unat_gt_0 intro!: bexI [of _ x])

text \<open>What taking a block of \<open>n\<close> units at \<open>r - 8\<close> means for the free list.\<close>

definition took :: "u32 \<Rightarrow> umem \<Rightarrow> u32 list \<Rightarrow> u32 \<Rightarrow> u32 \<Rightarrow> umem \<Rightarrow> u32 list \<Rightarrow> bool" where
  "took base m bs n r m' bs' \<longleftrightarrow>
     free_list base m' bs' \<and> um_size m' (r - 8) = n \<and> block (r - 8) n \<subseteq> free_bytes m bs \<and>
     free_bytes m' bs' = free_bytes m bs - block (r - 8) n \<and>
     (\<forall>x. x \<noteq> base \<longrightarrow> unat x \<notin> free_bytes m bs \<longrightarrow> um_ptr m' x = um_ptr m x \<and> um_size m' x = um_size m x)"

lemma malloc_take_all:
  assumes fl: "free_list base m bs" and sp: "base # bs = us @ prevp # p # ys" and n: "um_size m p = n"
  shows "\<exists>r m' bs'. malloc_take n m prevp p = (r, m') \<and> took base m bs n r m' bs'"
proof -
  have path: "path m base bs base" using fl by (simp add: free_list_def)
  define m' where "m' = m\<lparr>um_ptr := (um_ptr m)(prevp := um_ptr m p)\<rparr>\<lparr>um_freep := prevp\<rparr>"
  have s: "um_size m' = um_size m" "\<And>x. lim m' x = lim m x" by (simp_all add: m'_def lim_def)
  have dist: "distinct (us @ prevp # p # ys)" using path_distinct [OF path] sp by simp
  obtain bs' where bs': "base # bs' = us @ prevp # ys" using sp by (cases us) auto
  have pp: "path m prevp (p # ys) base" using path path_decomp [OF sp] by blast
  have "path m' prevp ys base"
  proof (rule path_move)
    show "lim m' prevp \<le> lim m p" using pp by (simp add: s) (simp add: lim_def)
    show "path m p ys base" using pp by simp
  qed (use dist in \<open>auto simp: m'_def\<close>)
  moreover have "path m' (hd us) (tl us) prevp \<and> lim m' (last us) < unat prevp" if "us \<noteq> []"
  proof -
    have "path m' (hd us) (tl us) prevp \<longleftrightarrow> path m (hd us) (tl us) prevp" using dist that by (intro path_cong) (auto simp: m'_def)
    then show ?thesis using path path_decomp [OF sp] that by (simp add: s)
  qed
  ultimately have path': "path m' base bs' base" using path_decomp [OF bs'] by blast
  have sub: "set bs' \<subseteq> set bs" using bs' sp by (cases us) auto
  have last: "lim m (last (base # bs')) < 2 ^ 32"
  proof (cases ys)
    case Nil
    have "lim m prevp < 2 ^ 32" using pp unsigned_less [of p, where ?'a = nat] by simp
    then show ?thesis using Nil unfolding bs' by simp
  next
    case (Cons y ys')
    then have "last (base # bs') = last (base # bs)" unfolding bs' sp by simp
    then show ?thesis using fl by (simp add: free_list_def)
  qed
  have "free_list base m' bs'"
    using fl path' sub bs' last by (auto simp: free_list_def s list_all_iff) (simp_all add: m'_def)
  moreover have "free_bytes m' bs' = free_bytes m bs - block p n"
  proof -
    have sp': "base # bs = (us @ [prevp]) @ p # ys" using sp by simp
    have z: "um_size m base = 0" using fl by (simp add: free_list_def)
    have "free_bytes m bs = free_bytes m (us @ [prevp]) \<union> block p n \<union> free_bytes m ys"
      using free_bytes_base [OF z, of bs] unfolding sp' free_bytes_append free_bytes_Cons [of m p] by (simp add: n [symmetric] block_lim Un_assoc)
    moreover have "free_bytes m bs' = free_bytes m (us @ [prevp]) \<union> free_bytes m ys"
      using free_bytes_base [OF z, of bs'] unfolding bs' by (simp add: free_bytes_append [symmetric])
    moreover have "free_bytes m (us @ [prevp]) \<inter> block p n = {}" "free_bytes m ys \<inter> block p n = {}"
      using free_bytes_sep [OF path sp'] by (simp_all add: n [symmetric] block_lim)
    moreover have "free_bytes m' bs' = free_bytes m bs'" by (simp add: free_bytes_def s)
    ultimately show ?thesis by blast
  qed
  moreover have "block p n \<subseteq> free_bytes m bs" using sp n by (cases us) (auto simp: free_bytes_def)
  moreover have "prevp = base \<or> prevp \<in> set bs" using sp by (cases us) auto
  ultimately have "took base m bs n (p + 8) m' bs'" using n free_list_bytes [OF fl] by (auto simp: took_def m'_def)
  then show ?thesis using n by (auto simp: malloc_take_def m'_def)
qed

lemma remove_part:
  "F = A \<union> (B \<union> Y) \<Longrightarrow> F' = A \<union> (B' \<union> Y) \<Longrightarrow> B = B' \<union> Q \<Longrightarrow> B' \<inter> Q = {} \<Longrightarrow> A \<inter> B = {} \<Longrightarrow> Y \<inter> B = {} \<Longrightarrow> F' = F - Q \<and> Q \<subseteq> F"
  by blast

lemma malloc_take_part:
  assumes fl: "free_list base m bs" and sp: "base # bs = us @ prevp # p # ys" and n: "n < um_size m p" "n \<noteq> 0"
  shows "\<exists>r m' bs'. malloc_take n m prevp p = (r, m') \<and> took base m bs n r m' bs'"
proof -
  have path: "path m base bs base" and z: "um_size m base = 0" using fl by (simp_all add: free_list_def)
  have sp': "base # bs = (us @ [prevp]) @ p # ys" using sp by simp
  have dist: "distinct (us @ prevp # p # ys)" using path_distinct [OF path] sp by simp
  have pys: "path m p ys base" using path path_decomp [OF sp'] by blast
  have "lim m (last (p # ys)) < 2 ^ 32" using fl unfolding free_list_def sp' by simp
  then have limp: "lim m p < 2 ^ 32" using path_lim_le [OF pys] by simp
  define q where "q = p + 8 * (um_size m p - n)"
  have n': "unat (um_size m p - n) = unat (um_size m p) - unat n" using n by (simp add: unat_sub)
  have un: "unat n < unat (um_size m p)" "0 < unat n" using n by (simp_all add: word_less_nat_alt unat_gt_0)
  have q: "unat q = unat p + 8 * (unat (um_size m p) - unat n)"
    using limp unat_offset [of p "um_size m p - n"] by (simp add: q_def lim_def n')
  have inside: "unat p < unat q" "unat q + 8 * unat n = lim m p" using un by (auto simp: q lim_def)
  have qn: "q \<notin> set (base # bs)"
  proof
    assume "q \<in> set (base # bs)"
    then consider "q \<in> set (us @ [prevp])" | "q = p" | "q \<in> set ys" unfolding sp' by auto
    then show False using path_sep [OF path sp', of q] inside un by cases (auto simp: lim_def)
  qed
  define m' where "m' = m\<lparr>um_size := (um_size m)(p := um_size m p - n, q := n)\<rparr>\<lparr>um_freep := prevp\<rparr>"
  have qp: "q \<noteq> p" using inside by auto
  have fr: "um_ptr m' x = um_ptr m x \<and> um_size m' x = um_size m x" if "x \<in> set (base # bs)" "x \<noteq> p" for x
    using that qn by (auto simp: m'_def)
  have l: "lim m' p = unat q" using qp by (simp add: lim_def m'_def n' q)
  have mem: "set (us @ [prevp]) \<subseteq> set (base # bs)" "set ys \<subseteq> set (base # bs)" unfolding sp' by auto
  have same: "um_ptr m' x = um_ptr m x \<and> um_size m' x = um_size m x" if "x \<in> set (us @ [prevp]) \<union> set ys" for x
    using that mem dist by (intro fr) auto
  have "path m' p ys base"
    using pys l inside by (intro path_move [of m' p m p ys base] same) (auto simp: m'_def)
  moreover have "path m' (hd (us @ [prevp])) (tl (us @ [prevp])) p \<and> lim m' (last (us @ [prevp])) < unat p"
  proof -
    have "path m' (hd (us @ [prevp])) (tl (us @ [prevp])) p \<longleftrightarrow> path m (hd (us @ [prevp])) (tl (us @ [prevp])) p"
      by (intro path_cong same) (cases us, auto)
    then show ?thesis using path path_decomp [OF sp'] same [of prevp] by (simp add: lim_def)
  qed
  ultimately have path': "path m' base bs base" using path_decomp [OF sp', of m' base] by blast
  have base: "p \<noteq> base" using z un by auto
  have last: "lim m' (last (base # bs)) < 2 ^ 32"
  proof (cases "last (base # bs) = p")
    case True
    then show ?thesis using l inside limp by simp
  next
    case False
    then have "lim m' (last (base # bs)) = lim m (last (base # bs))" using fr [of "last (base # bs)"] by (simp add: lim_def)
    then show ?thesis using fl by (simp add: free_list_def)
  qed
  have np: "um_size m' p \<noteq> 0" using qp un n' by (auto simp: m'_def)
  have "um_size m' b \<noteq> 0" if "b \<in> set bs" for b
    using that fl np fr [of b] by (cases "b = p") (simp_all add: free_list_def list_all_iff)
  then have nz: "list_all (\<lambda>b. um_size m' b \<noteq> 0) bs" by (simp add: list_all_iff)
  have "free_list base m' bs"
    using fl path' last base fr [of base] nz mem by (auto simp: free_list_def m'_def)
  moreover have "free_bytes m' bs = free_bytes m bs - block q n" "block q n \<subseteq> free_bytes m bs"
  proof -
    have rest: "free_bytes m' (us @ [prevp]) = free_bytes m (us @ [prevp])" "free_bytes m' ys = free_bytes m ys"
      by (intro free_bytes_cong, use same in blast)+
    have b: "{unat p ..< lim m p} = {unat p ..< lim m' p} \<union> block q n" "{unat p ..< lim m' p} \<inter> block q n = {}"
      using inside by (auto simp: l block_def)
    have z': "um_size m' base = 0" using fr [of base] base z by simp
    have e: "free_bytes m bs = free_bytes m (us @ [prevp]) \<union> ({unat p ..< lim m p} \<union> free_bytes m ys)"
      "free_bytes m' bs = free_bytes m (us @ [prevp]) \<union> ({unat p ..< lim m' p} \<union> free_bytes m ys)"
      using rest free_bytes_base [OF z, of bs] free_bytes_base [OF z', of bs]
      unfolding sp' free_bytes_append free_bytes_Cons [of _ p] by simp_all
    show "free_bytes m' bs = free_bytes m bs - block q n" "block q n \<subseteq> free_bytes m bs"
      using remove_part [OF e b free_bytes_sep [OF path sp']] by simp_all
  qed
  moreover have "p \<in> set bs" using sp by (cases us) auto
  moreover have "unat q \<in> block q n" using un by (simp add: block_def)
  ultimately have "took base m bs n (q + 8) m' bs" using qp free_list_bytes [OF fl] by (auto simp: took_def m'_def)
  then show ?thesis using n qp by (auto simp: malloc_take_def m'_def q_def Let_def)
qed

lemma malloc_take_correct:
  assumes fl: "free_list base m bs" and a: "a \<in> set (base # bs)" and n: "n \<le> um_size m (um_ptr m a)" "n \<noteq> 0"
  shows "\<exists>r m' bs'. malloc_take n m a (um_ptr m a) = (r, m') \<and> took base m bs n r m' bs'"
proof -
  have path: "path m base bs base" and z: "um_size m base = 0" using fl by (simp_all add: free_list_def)
  obtain us vs where sp: "base # bs = us @ a # vs" using split_list [OF a] by blast
  have av: "path m a vs base" using path path_decomp [OF sp] by blast
  have "um_ptr m a \<noteq> base" using n z by auto
  then obtain ys where vs: "vs = um_ptr m a # ys" using av by (cases vs) auto
  show ?thesis
  proof (cases "um_size m (um_ptr m a) = n")
    case True
    then show ?thesis using malloc_take_all [OF fl] sp vs by simp
  next
    case False
    then have "n < um_size m (um_ptr m a)" using n by simp
    then show ?thesis using malloc_take_part [OF fl] sp vs n(2) by simp
  qed
qed

section \<open>Searching the list\<close>

primrec links :: "umem \<Rightarrow> u32 \<Rightarrow> u32 list \<Rightarrow> bool" where
  "links m a [] \<longleftrightarrow> True"
| "links m a (b # bs) \<longleftrightarrow> um_ptr m a = b \<and> links m b bs"

lemma links_append: "links m a (xs @ ys) \<longleftrightarrow> links m a xs \<and> links m (last (a # xs)) ys"
  by (induction xs arbitrary: a) auto

lemma path_links: "path m a bs e \<Longrightarrow> links m a (bs @ [e])"
  by (induction bs arbitrary: a) auto

text \<open>Going round once, the loop meets a block that is large enough or comes back to where it started.\<close>

lemma malloc_loop_walk:
  assumes "links m a cs" "cs \<noteq> []" "last cs = um_freep m" "um_freep m \<notin> set (butlast cs)"
  shows "(\<exists>x\<in>set (a # cs). um_ptr m x \<in> set cs \<and> n \<le> um_size m (um_ptr m x) \<and>
            malloc_loop sbrk n m s a (um_ptr m a) = (case malloc_take n m x (um_ptr m x) of (r, m') \<Rightarrow> Some (r, m', s))) \<or>
         (\<forall>b\<in>set cs. um_size m b < n) \<and>
         malloc_loop sbrk n m s a (um_ptr m a) =
           Option.bind (morecore sbrk n m s) (\<lambda>x. case x of (r, m', s') \<Rightarrow>
             if r = 0 then Some (0, m', s') else malloc_loop sbrk n m' s' r (um_ptr m' r))"
  using assms
proof (induction cs arbitrary: a)
  case (Cons c cs)
  have c: "um_ptr m a = c" using Cons.prems by simp
  consider "n \<le> um_size m c" | "um_size m c < n" "cs = []" | "um_size m c < n" "cs \<noteq> []" by fastforce
  then show ?case
  proof cases
    case 1
    then show ?thesis using c by (subst malloc_loop.simps) (simp add: malloc_loop.simps [of sbrk n m s a c])
  next
    case 2
    then show ?thesis using c Cons.prems by (intro disjI2, subst malloc_loop.simps) (simp add: not_le [symmetric])
  next
    case 3
    have "c \<noteq> um_freep m" using 3 Cons.prems by auto
    then have e: "malloc_loop sbrk n m s a c = malloc_loop sbrk n m s c (um_ptr m c)" using 3
      by (subst malloc_loop.simps) (simp add: not_le [symmetric])
    show ?thesis using Cons.IH [of c] Cons.prems 3 unfolding c e by auto
  qed
qed simp

lemma free_list_cycle:
  assumes fl: "free_list base m bs"
  shows "\<exists>cs. links m (um_freep m) cs \<and> cs \<noteq> [] \<and> last cs = um_freep m \<and> um_freep m \<notin> set (butlast cs) \<and> set cs = set (base # bs)"
proof -
  have path: "path m base bs base" and f: "um_freep m \<in> set (base # bs)" using fl by (simp_all add: free_list_def)
  obtain us vs where sp: "base # bs = us @ um_freep m # vs" using split_list [OF f] by blast
  have dist: "distinct (us @ um_freep m # vs)" using path_distinct [OF path] sp by simp
  have vs: "links m (um_freep m) (vs @ [base])" using path path_decomp [OF sp] by (blast intro: path_links)
  have "links m (um_freep m) (vs @ us @ [um_freep m])"
  proof (cases us)
    case Nil
    then show ?thesis using vs sp by simp
  next
    case (Cons u us')
    then have "links m base (us' @ [um_freep m])" using path path_decomp [OF sp] sp by (auto intro: path_links)
    then have "links m (um_freep m) ((vs @ [base]) @ us' @ [um_freep m])" using vs by (subst links_append) simp
    then show ?thesis using Cons sp by simp
  qed
  then show ?thesis using dist sp by (intro exI [of _ "vs @ us @ [um_freep m]"]) (auto simp: butlast_append)
qed

text \<open>The first block large enough, in the order of the search, is used; memory is asked for when there is none.\<close>

lemma malloc_loop_found:
  assumes fl: "free_list base m bs" and n: "n \<noteq> 0" and b: "\<exists>b\<in>set bs. n \<le> um_size m b"
  shows "\<exists>r m' bs'. malloc_loop sbrk n m s (um_freep m) (um_ptr m (um_freep m)) = Some (r, m', s) \<and> took base m bs n r m' bs'"
proof -
  obtain cs where cs: "links m (um_freep m) cs" "cs \<noteq> []" "last cs = um_freep m" "um_freep m \<notin> set (butlast cs)" "set cs = set (base # bs)"
    using free_list_cycle [OF fl] by blast
  have "\<not> (\<forall>b\<in>set cs. um_size m b < n)" using b cs(5) by (auto simp: not_less)
  then obtain x where "x \<in> set (um_freep m # cs)" "n \<le> um_size m (um_ptr m x)"
      "malloc_loop sbrk n m s (um_freep m) (um_ptr m (um_freep m)) = (case malloc_take n m x (um_ptr m x) of (r, m') \<Rightarrow> Some (r, m', s))"
    using malloc_loop_walk [OF cs(1-4), of n sbrk s] by blast
  moreover from this(1) have "x \<in> set (base # bs)" using fl cs(5) by (auto simp: free_list_def)
  ultimately show ?thesis using malloc_take_correct [OF fl, of x n] n by fastforce
qed

lemma malloc_loop_none:
  assumes fl: "free_list base m bs" and n: "n \<noteq> 0" and b: "\<forall>b\<in>set bs. um_size m b < n"
  shows "malloc_loop sbrk n m s (um_freep m) (um_ptr m (um_freep m)) =
    Option.bind (morecore sbrk n m s) (\<lambda>x. case x of (r, m', s') \<Rightarrow>
      if r = 0 then Some (0, m', s') else malloc_loop sbrk n m' s' r (um_ptr m' r))"
proof -
  obtain cs where cs: "links m (um_freep m) cs" "cs \<noteq> []" "last cs = um_freep m" "um_freep m \<notin> set (butlast cs)" "set cs = set (base # bs)"
    using free_list_cycle [OF fl] by blast
  have "um_size m base < n" using fl n by (simp add: free_list_def word_gt_0)
  then have "um_size m c < n" if "c \<in> set cs" for c using b cs(5) that by auto
  then have "\<not> n \<le> um_size m (um_ptr m x)" if "um_ptr m x \<in> set cs" for x using that by (simp add: not_le)
  then show ?thesis using malloc_loop_walk [OF cs(1-4), of n sbrk s] by blast
qed

section \<open>Asking for memory\<close>

text \<open>An interval of free bytes lies in one block, because there are gaps between the blocks.\<close>

lemma one_block:
  assumes fl: "free_list base m bs" and sub: "block q n \<subseteq> free_bytes m bs" and n: "n \<noteq> 0"
  shows "\<exists>b\<in>set bs. n \<le> um_size m b"
proof -
  have path: "path m base bs base" using fl by (simp add: free_list_def)
  have "unat q \<in> free_bytes m bs" using sub n by (auto simp: block_def unat_gt_0)
  then obtain b where b: "b \<in> set bs" "unat b \<le> unat q" "unat q < lim m b" by (auto simp: free_bytes_def block_lim)
  have "unat q + 8 * unat n \<le> lim m b"
  proof (rule ccontr)
    assume "\<not> unat q + 8 * unat n \<le> lim m b"
    then have "lim m b \<in> free_bytes m bs" using sub b(3) by (auto simp: block_def)
    then obtain c where c: "c \<in> set bs" "unat c \<le> lim m b" "lim m b < lim m c" by (auto simp: free_bytes_def block_lim)
    have "b \<in> set (base # bs)" using b by simp
    then obtain us vs where sp: "base # bs = us @ b # vs" using split_list by fast
    have "c \<in> set us \<or> c \<in> set vs" using c sp by (metis Un_iff insert_iff list.set(2) nat_less_le set_append)
    then show False using path_sep [OF path sp, of c] c b by (auto simp: lim_def)
  qed
  then have "unat n \<le> unat (um_size m b)" using b by (simp add: lim_def)
  then show ?thesis using b by (auto simp: word_le_nat_alt)
qed

lemma core_units_le: "nu \<le> core_units nu" "core_units nu \<noteq> 0"
  by (auto simp: core_units_def)

lemma free_list_cong:
  assumes "free_list base m bs" "um_freep m' = um_freep m"
    and same: "\<And>x. x \<in> set (base # bs) \<Longrightarrow> um_ptr m' x = um_ptr m x \<and> um_size m' x = um_size m x"
  shows "free_list base m' bs"
proof -
  have "path m' base bs base \<longleftrightarrow> path m base bs base" by (rule path_cong [OF same])
  moreover have "lim m' (last (base # bs)) = lim m (last (base # bs))" using same [of "last (base # bs)"] by (simp add: lim_def)
  ultimately show ?thesis using assms by (simp add: free_list_def list_all_iff)
qed

lemma free_list_freep: "free_list base m bs \<Longrightarrow> um_freep m \<noteq> 0"
  using path_above [of m base bs base 0] by (auto simp: free_list_def)

lemma morecore_correct:
  assumes fl: "free_list base m bs" and sb: "sbrk (core_units nu * 8) s = (q, s')" "q \<noteq> - 1"
    and q: "base < q" "unat q + 8 * unat (core_units nu) < 2 ^ 32" "block q (core_units nu) \<inter> free_bytes m bs = {}"
  obtains m' bs' where "morecore sbrk nu m s = Some (um_freep m', m', s')" "um_freep m' \<noteq> 0" "free_list base m' bs'"
    "free_bytes m' bs' = free_bytes m bs \<union> block q (core_units nu)"
    "\<forall>x. x \<noteq> base \<longrightarrow> unat x \<notin> free_bytes m' bs' \<longrightarrow> um_ptr m' x = um_ptr m x \<and> um_size m' x = um_size m x"
proof -
  define m0 where "m0 = m\<lparr>um_size := (um_size m)(q := core_units nu)\<rparr>"
  have nz: "um_size m0 q \<noteq> 0" using core_units_le by (simp add: m0_def)
  have "unat q \<in> block q (core_units nu)" using core_units_le(2) by (simp add: block_def unat_gt_0)
  then have qn: "q \<notin> set (base # bs)" using q free_list_bytes [OF fl, of q] by auto
  have fl0: "free_list base m0 bs" using qn by (intro free_list_cong [OF fl]) (auto simp: m0_def)
  have b0: "free_bytes m0 bs = free_bytes m bs" using qn by (intro free_bytes_cong) (auto simp: m0_def)
  have l0: "lim m0 q < 2 ^ 32" using q by (simp add: lim_def m0_def)
  have d0: "block q (um_size m0 q) \<inter> free_bytes m0 bs = {}" unfolding b0 using q by (simp add: m0_def)
  obtain m' bs' where f: "free (q + 8) m0 = Some m'" "free_list base m' bs'" "free_bytes m' bs' = free_bytes m0 bs \<union> block q (um_size m0 q)"
      "\<forall>x. x \<notin> {base, q} \<union> set bs \<longrightarrow> um_ptr m' x = um_ptr m0 x \<and> um_size m' x = um_size m0 x"
    by (rule free_correct [OF fl0 q(1) nz l0 d0])
  have "um_freep m' \<noteq> 0" by (rule free_list_freep [OF f(2)])
  moreover have "morecore sbrk nu m s = Some (um_freep m', m', s')"
    using sb f(1) by (simp add: morecore_def m0_def)
  moreover have bytes: "free_bytes m' bs' = free_bytes m bs \<union> block q (core_units nu)" using f(3) b0 by (simp add: m0_def)
  moreover have "um_ptr m' x = um_ptr m x \<and> um_size m' x = um_size m x" if "x \<noteq> base" "unat x \<notin> free_bytes m' bs'" for x
  proof -
    have "x \<noteq> q" "x \<notin> set bs" using that bytes \<open>unat q \<in> block q (core_units nu)\<close> free_list_bytes [OF fl, of x] by auto
    then show ?thesis using f(4) that by (simp add: m0_def)
  qed
  ultimately show ?thesis using f(2) by (intro that [of m' bs']) auto
qed

section \<open>The whole of malloc\<close>

text \<open>Before the first call the list does not exist; afterwards it is well-formed.\<close>

definition heap_ok :: "u32 \<Rightarrow> umem \<Rightarrow> u32 list \<Rightarrow> bool" where
  "heap_ok base m bs \<longleftrightarrow> base \<noteq> 0 \<and> (um_freep m = 0 \<and> bs = [] \<or> free_list base m bs)"

lemma malloc_start:
  assumes "heap_ok base m bs"
  obtains m0 where "free_list base m0 bs" "free_bytes m0 bs = free_bytes m bs"
    "\<forall>x. x \<noteq> base \<longrightarrow> um_ptr m0 x = um_ptr m x \<and> um_size m0 x = um_size m x"
    "malloc base sbrk nbytes m s = malloc_loop sbrk (malloc_units nbytes) m0 s (um_freep m0) (um_ptr m0 (um_freep m0))"
proof (cases "um_freep m = 0")
  case True
  define m0 where "m0 = m\<lparr>um_ptr := (um_ptr m)(base := base), um_size := (um_size m)(base := 0), um_freep := base\<rparr>"
  have bs: "bs = []" "base \<noteq> 0" using assms True free_list_freep by (auto simp: heap_ok_def)
  have "lim m0 base < 2 ^ 32" using unsigned_less [of base, where ?'a = nat] by (simp add: lim_def m0_def)
  then have "free_list base m0 bs" using bs by (simp add: free_list_def m0_def)
  then show ?thesis using True bs by (intro that [of m0]) (simp_all add: m0_def free_bytes_def malloc_def)
next
  case False
  then show ?thesis using assms by (intro that [of m]) (auto simp: heap_ok_def malloc_def Let_def)
qed

text \<open>A block that was taken lies in the free bytes, whose end is below the last address, so its address is not zero.\<close>

lemma took_nonzero:
  assumes fl: "free_list base m bs" and t: "took base m bs n r m' bs'" and n: "n \<noteq> 0"
  shows "r \<noteq> 0"
proof
  assume r: "r = 0"
  have path: "path m base bs base" and last: "lim m (last (base # bs)) < 2 ^ 32" using fl by (simp_all add: free_list_def)
  have "0 < unat n" using n by (simp add: unat_gt_0)
  then have "7 < 8 * unat n" by linarith
  then have "(0xFFFFFFFF :: nat) \<in> block (r - 8) n" using r by (simp add: block_def)
  then have "(0xFFFFFFFF :: nat) \<in> free_bytes m bs" using t by (auto simp: took_def)
  then obtain b where b: "b \<in> set bs" "0xFFFFFFFF < lim m b" by (auto simp: free_bytes_def block_lim)
  then obtain us vs where sp: "base # bs = us @ b # vs" using split_list [of b "base # bs"] by auto
  then have "path m b vs base" using path path_decomp by blast
  then have "lim m b \<le> lim m (last (base # bs))" unfolding sp using path_lim_le by simp
  then show False using b last by simp
qed

text \<open>
  The outcome of \<open>malloc\<close> for \<open>n\<close> units: \<open>fresh\<close> are the bytes it got from \<open>sbrk\<close>. Either it fails and nothing changes, or it hands out
  a block of exactly \<open>n\<close> units that was free or fresh, and everything else stays or becomes free.
\<close>

definition malloc_post :: "u32 \<Rightarrow> umem \<Rightarrow> u32 list \<Rightarrow> u32 \<Rightarrow> nat set \<Rightarrow> u32 \<Rightarrow> umem \<Rightarrow> u32 list \<Rightarrow> bool" where
  "malloc_post base m bs n fresh r m' bs' \<longleftrightarrow>
     free_list base m' bs' \<and>
     (if r = 0 then free_bytes m' bs' = free_bytes m bs \<and> fresh = {}
      else um_size m' (r - 8) = n \<and> block (r - 8) n \<subseteq> free_bytes m bs \<union> fresh \<and>
           free_bytes m' bs' = (free_bytes m bs \<union> fresh) - block (r - 8) n) \<and>
     (\<forall>x. x \<noteq> base \<longrightarrow> unat x \<notin> free_bytes m bs \<union> fresh \<longrightarrow> um_ptr m' x = um_ptr m x \<and> um_size m' x = um_size m x)"

lemma malloc_correct:
  assumes ok: "heap_ok base m bs" and n: "n = malloc_units nbytes" "n \<noteq> 0" and sb: "sbrk (core_units n * 8) s = (q, s')"
    and q: "q \<noteq> - 1 \<Longrightarrow> base < q \<and> unat q + 8 * unat (core_units n) < 2 ^ 32 \<and> block q (core_units n) \<inter> free_bytes m bs = {}"
  shows "\<exists>r m' s1 bs' fresh. malloc base sbrk nbytes m s = Some (r, m', s1) \<and> malloc_post base m bs n fresh r m' bs' \<and>
    (r = 0 \<longrightarrow> q = - 1) \<and> (s1 = s \<and> fresh = {} \<or> s1 = s' \<and> fresh = (if q = - 1 then {} else block q (core_units n)))"
proof -
  obtain m0 where m0: "free_list base m0 bs" "free_bytes m0 bs = free_bytes m bs"
      "\<forall>x. x \<noteq> base \<longrightarrow> um_ptr m0 x = um_ptr m x \<and> um_size m0 x = um_size m x"
      "malloc base sbrk nbytes m s = malloc_loop sbrk n m0 s (um_freep m0) (um_ptr m0 (um_freep m0))"
    unfolding n(1) by (rule malloc_start [OF ok])
  consider "\<exists>b\<in>set bs. n \<le> um_size m0 b" | "\<forall>b\<in>set bs. um_size m0 b < n" by (meson not_le)
  then show ?thesis
  proof cases
    case 1
    obtain r m' bs' where l: "malloc_loop sbrk n m0 s (um_freep m0) (um_ptr m0 (um_freep m0)) = Some (r, m', s)" "took base m0 bs n r m' bs'"
      using malloc_loop_found [OF m0(1) n(2) 1, of sbrk s] by blast
    have "malloc_post base m bs n {} r m' bs'"
      using l(2) took_nonzero [OF m0(1) l(2) n(2)] m0(2,3) by (simp add: malloc_post_def took_def)
    then show ?thesis using l m0(4) took_nonzero [OF m0(1) l(2) n(2)] by auto
  next
    case 2
    note loop = m0(4) [unfolded malloc_loop_none [OF m0(1) n(2) 2, of sbrk s]]
    show ?thesis
    proof (cases "q = - 1")
      case True
      then have "morecore sbrk n m0 s = Some (0, m0, s')" using sb by (simp add: morecore_def)
      moreover have "malloc_post base m bs n {} 0 m0 bs" using m0 by (simp add: malloc_post_def)
      ultimately show ?thesis using loop True by auto
    next
      case False
      note q = q [OF False, folded m0(2)]
      obtain m1 bs1 where m1: "morecore sbrk n m0 s = Some (um_freep m1, m1, s')" "um_freep m1 \<noteq> 0" "free_list base m1 bs1"
          "free_bytes m1 bs1 = free_bytes m0 bs \<union> block q (core_units n)"
          "\<forall>x. x \<noteq> base \<longrightarrow> unat x \<notin> free_bytes m1 bs1 \<longrightarrow> um_ptr m1 x = um_ptr m0 x \<and> um_size m1 x = um_size m0 x"
        using q by (elim conjE) (rule morecore_correct [of base m0 bs sbrk n s q s', OF m0(1) sb False])
      have "\<exists>b\<in>set bs1. core_units n \<le> um_size m1 b" using m1(3,4) core_units_le(2) by (intro one_block [of base m1 bs1 q]) auto
      then have "\<exists>b\<in>set bs1. n \<le> um_size m1 b" using core_units_le(1) [of n] by (meson order_trans)
      then obtain r m' bs' where l: "malloc_loop sbrk n m1 s' (um_freep m1) (um_ptr m1 (um_freep m1)) = Some (r, m', s')" "took base m1 bs1 n r m' bs'"
        using malloc_loop_found [OF m1(3) n(2), of sbrk s'] by blast
      have r: "r \<noteq> 0" by (rule took_nonzero [OF m1(3) l(2) n(2)])
      have "malloc_post base m bs n (block q (core_units n)) r m' bs'"
        using l(2) r m0(2,3) m1(4,5) by (simp add: malloc_post_def took_def)
      then show ?thesis using loop m1(1,2) l(1) r False by auto
    qed
  qed
qed

text \<open>The units suffice for the bytes asked for, unless the sum wraps around: then a block without room is handed out.\<close>

lemma malloc_units_enough:
  assumes "unat nbytes < 2 ^ 32 - 7"
  shows "unat (malloc_units nbytes) = (unat nbytes + 7) div 8 + 1" "unat nbytes + 8 \<le> 8 * unat (malloc_units nbytes)" "malloc_units nbytes \<noteq> 0"
proof -
  have "unat (nbytes + 7) = unat nbytes + 7" using assms by (simp add: unat_word_ariths)
  then have d: "unat ((nbytes + 7) div 8) = (unat nbytes + 7) div 8" by (simp add: unat_div)
  moreover have "(unat nbytes + 7) div 8 < 2 ^ 29" using assms by simp
  ultimately show e: "unat (malloc_units nbytes) = (unat nbytes + 7) div 8 + 1" by (simp add: malloc_units_def unat_word_ariths)
  then show "unat nbytes + 8 \<le> 8 * unat (malloc_units nbytes)" by simp
  show "malloc_units nbytes \<noteq> 0" using e by auto
qed

lemma malloc_units_wraps: "malloc_units 0xFFFFFFFF = 1"
  by (simp add: malloc_units_def)

end
