(* ===== verification/Heap_Client.thy ===== *)
theory Heap_Client
  imports Umalloc Syscalls "HOL-Library.Disjoint_Sets"
begin

text \<open>
  Programs that use \<open>malloc\<close> and \<open>free\<close>: every sequence of calls, of writes to the memory that was handed out and of other calls of
  \<open>sbrk\<close>. What the allocator needs of \<open>sbrk\<close> is an interface, which the \<open>sys_sbrk\<close> of the kernel provides.
\<close>

section \<open>Clients\<close>

text \<open>The blocks a client holds are pairs of the address \<open>malloc\<close> returned and the number of bytes that was asked for.\<close>

definition payload :: "(u32 \<times> u32) set \<Rightarrow> nat set" where
  "payload L = (\<Union>(r, n)\<in>L. {unat r ..< unat r + unat n})"

inductive client :: "u32 \<Rightarrow> (u32 \<Rightarrow> 's \<Rightarrow> u32 \<times> 's) \<Rightarrow> ('s \<Rightarrow> nat) \<Rightarrow> ('s \<Rightarrow> bool) \<Rightarrow> umem \<Rightarrow> 's \<Rightarrow> (u32 \<times> u32) set \<Rightarrow> bool"
  for base :: u32 and sbrk :: "u32 \<Rightarrow> 's \<Rightarrow> u32 \<times> 's" and brk :: "'s \<Rightarrow> nat" and ok :: "'s \<Rightarrow> bool" where
  start: "base \<noteq> 0 \<Longrightarrow> ok s \<Longrightarrow> unat base + 8 \<le> brk s \<Longrightarrow> um_freep m = 0 \<Longrightarrow> client base sbrk brk ok m s {}"
| malloc: "client base sbrk brk ok m s L \<Longrightarrow> unat n < 2 ^ 31 - 16 \<Longrightarrow> malloc base sbrk n m s = Some (r, m', s') \<Longrightarrow>
    client base sbrk brk ok m' s' (if r = 0 then L else insert (r, n) L)"
| free: "client base sbrk brk ok m s L \<Longrightarrow> (r, n) \<in> L \<Longrightarrow> free r m = Some m' \<Longrightarrow> client base sbrk brk ok m' s (L - {(r, n)})"
| store: "client base sbrk brk ok m s L \<Longrightarrow> um_freep m' = um_freep m \<Longrightarrow>
    (\<forall>x. {unat x ..< unat x + 8} \<inter> payload L = {} \<longrightarrow> um_ptr m' x = um_ptr m x \<and> um_size m' x = um_size m x) \<Longrightarrow>
    client base sbrk brk ok m' s L"
| grow: "client base sbrk brk ok m s L \<Longrightarrow> unat n < 2 ^ 31 \<Longrightarrow> sbrk n s = (p, s') \<Longrightarrow> client base sbrk brk ok m s' L"

section \<open>The invariant\<close>

definition live :: "u32 \<times> u32 \<Rightarrow> nat set" where
  "live x = block (fst x - 8) (malloc_units (snd x))"

definition live_ok :: "u32 \<Rightarrow> nat \<Rightarrow> umem \<Rightarrow> u32 list \<Rightarrow> u32 \<times> u32 \<Rightarrow> bool" where
  "live_ok base hi m bs x \<longleftrightarrow>
     unat (snd x) < 2 ^ 31 - 16 \<and> um_size m (fst x - 8) = malloc_units (snd x) \<and> live x \<subseteq> {unat base + 8 ..< hi} \<and> live x \<inter> free_bytes m bs = {}"

definition heap_inv :: "u32 \<Rightarrow> nat \<Rightarrow> umem \<Rightarrow> u32 list \<Rightarrow> (u32 \<times> u32) set \<Rightarrow> bool" where
  "heap_inv base hi m bs L \<longleftrightarrow>
     heap_ok base m bs \<and> (L \<noteq> {} \<longrightarrow> um_freep m \<noteq> 0) \<and> unat base + 8 \<le> hi \<and> hi < 2 ^ 32 \<and> free_bytes m bs \<subseteq> {unat base + 8 ..< hi} \<and>
     (\<forall>x\<in>L. live_ok base hi m bs x) \<and> disjoint_family_on live L"

lemma live_room:
  assumes "unat n < 2 ^ 31 - 16" "live (r, n) \<subseteq> {a ..< b}" "b < 2 ^ 32"
  shows "{unat r ..< unat r + unat n} \<subseteq> live (r, n)" "unat r = unat (r - 8) + 8" "{unat (r - 8) ..< unat r} \<subseteq> live (r, n)"
    "{unat (r - 8) ..< unat r} \<inter> {unat r ..< unat r + unat n} = {}" "a \<le> unat (r - 8)" "unat (r - 8) + 8 * unat (malloc_units n) \<le> b"
proof -
  have u: "unat n + 8 \<le> 8 * unat (malloc_units n)" using assms malloc_units_enough [of n] by simp
  define k where "k = 8 * unat (malloc_units n)"
  have l: "live (r, n) = {unat (r - 8) ..< unat (r - 8) + k}" by (simp add: live_def block_def k_def)
  have k: "unat n + 8 \<le> k" using u by (simp add: k_def)
  have "unat (r - 8) \<in> live (r, n)" "unat (r - 8) + k - 1 \<in> live (r, n)" using k by (auto simp: l)
  then have ends: "a \<le> unat (r - 8)" "unat (r - 8) + k - 1 < b" using assms by (auto)
  then have "unat (r - 8) + unat (8 :: u32) < 2 ^ 32" using assms k by simp
  then have "unat (r - 8 + 8) = unat (r - 8) + 8" by (subst unat_add_lem [THEN iffD1]) simp_all
  then show r: "unat r = unat (r - 8) + 8" by simp
  show "{unat r ..< unat r + unat n} \<subseteq> live (r, n)" "{unat (r - 8) ..< unat r} \<subseteq> live (r, n)" using k r by (auto simp: l)
  show "{unat (r - 8) ..< unat r} \<inter> {unat r ..< unat r + unat n} = {}" by auto
  show "a \<le> unat (r - 8)" "unat (r - 8) + 8 * unat (malloc_units n) \<le> b" using ends k by (auto simp: k_def)
qed

lemma live_nonempty: "unat (snd x) < 2 ^ 31 - 16 \<Longrightarrow> unat (fst x - 8) \<in> live x"
  using malloc_units_enough [of "snd x"] by (simp add: live_def block_def)

text \<open>Headers that a step leaves alone keep the blocks held intact.\<close>

lemma live_ok_frame:
  assumes "live_ok base hi m bs x" "hi \<le> hi'" "live x \<inter> free_bytes m' bs' = {}" "um_size m' (fst x - 8) = um_size m (fst x - 8)"
  shows "live_ok base hi' m' bs' x"
  using assms by (auto simp: live_ok_def)

lemma malloc_post_inv:
  assumes inv: "heap_inv base hi m bs L" and post: "malloc_post base m bs (malloc_units n) fresh r m' bs'" and n: "unat n < 2 ^ 31 - 16"
    and hi: "hi \<le> hi'" "hi' < 2 ^ 32" "fresh \<subseteq> {hi ..< hi'}"
  shows "heap_inv base hi' m' bs' (if r = 0 then L else insert (r, n) L)"
proof -
  have fb: "free_bytes m bs \<subseteq> {unat base + 8 ..< hi}" and b: "unat base + 8 \<le> hi" "base \<noteq> 0" and lv: "\<And>x. x \<in> L \<Longrightarrow> live_ok base hi m bs x"
    and dis: "disjoint_family_on live L" using inv by (auto simp: heap_inv_def heap_ok_def)
  have fl: "free_list base m' bs'" and sub: "free_bytes m' bs' \<subseteq> free_bytes m bs \<union> fresh" using post by (auto simp: malloc_post_def split: if_splits)
  have old: "live x \<inter> (free_bytes m bs \<union> fresh) = {}" "live_ok base hi' m' bs' x" if x: "x \<in> L" for x
  proof -
    show d: "live x \<inter> (free_bytes m bs \<union> fresh) = {}" using lv [OF x] hi by (fastforce simp: live_ok_def)
    have a: "unat (fst x - 8) \<in> live x" using lv [OF x] by (intro live_nonempty) (simp add: live_ok_def)
    then have "unat (fst x - 8) \<notin> free_bytes m bs \<union> fresh" "fst x - 8 \<noteq> base" using d lv [OF x] by (auto simp: live_ok_def)
    then have s: "um_size m' (fst x - 8) = um_size m (fst x - 8)" using post by (simp add: malloc_post_def)
    have "live x \<inter> free_bytes m' bs' = {}" using d sub by blast
    then show "live_ok base hi' m' bs' x" by (rule live_ok_frame [OF lv [OF x] hi(1) _ s])
  qed
  have ok: "heap_ok base m' bs'" "um_freep m' \<noteq> 0" "free_bytes m' bs' \<subseteq> {unat base + 8 ..< hi'}"
    using fl b free_list_freep [OF fl] sub fb hi by (fastforce simp: heap_ok_def)+
  show ?thesis
  proof (cases "r = 0")
    case True
    then show ?thesis using ok b hi old dis by (simp add: heap_inv_def)
  next
    case False
    then have new: "live (r, n) \<subseteq> free_bytes m bs \<union> fresh" "live_ok base hi' m' bs' (r, n)"
      using post n fb b hi by (fastforce simp: malloc_post_def live_def live_ok_def)+
    have "disjoint_family_on live (insert (r, n) L)"
      using dis old(1) new(1) by (fastforce simp: disjoint_family_on_def)
    then show ?thesis using False ok b hi old new by (simp add: heap_inv_def)
  qed
qed

lemma free_step:
  assumes inv: "heap_inv base hi m bs L" and x: "(r, n) \<in> L"
  shows "\<exists>m' bs'. free r m = Some m' \<and> heap_inv base hi m' bs' (L - {(r, n)})"
proof -
  have fl: "free_list base m bs" and fb: "free_bytes m bs \<subseteq> {unat base + 8 ..< hi}" and b: "unat base + 8 \<le> hi" "hi < 2 ^ 32" "base \<noteq> 0"
    and lv: "\<And>x. x \<in> L \<Longrightarrow> live_ok base hi m bs x" and dis: "disjoint_family_on live L"
    using inv x by (auto simp: heap_inv_def heap_ok_def)
  have n: "unat n < 2 ^ 31 - 16" "um_size m (r - 8) = malloc_units n" "live (r, n) \<subseteq> {unat base + 8 ..< hi}" "live (r, n) \<inter> free_bytes m bs = {}"
    using lv [OF x] by (simp_all add: live_ok_def)
  note room = live_room [OF n(1) n(3) b(2)]
  have nz: "um_size m (r - 8) \<noteq> 0" using n malloc_units_enough [of n] by simp
  have lim: "lim m (r - 8) < 2 ^ 32" using room(6) b n by (simp add: lim_def)
  have base: "base < r - 8" using room(5) by (simp add: word_less_nat_alt)
  have dj: "block (r - 8) (um_size m (r - 8)) \<inter> free_bytes m bs = {}" using n by (simp add: live_def)
  obtain m' bs' where f: "free (r - 8 + 8) m = Some m'" "free_list base m' bs'" "free_bytes m' bs' = free_bytes m bs \<union> block (r - 8) (um_size m (r - 8))"
      "\<forall>x. x \<notin> {base, r - 8} \<union> set bs \<longrightarrow> um_ptr m' x = um_ptr m x \<and> um_size m' x = um_size m x"
    by (rule free_correct [OF fl base nz lim dj])
  have bytes: "free_bytes m' bs' = free_bytes m bs \<union> live (r, n)" using f(3) n by (simp add: live_def)
  have "live_ok base hi m' bs' y" if y: "y \<in> L - {(r, n)}" for y
  proof -
    have ly: "live_ok base hi m bs y" using y lv by simp
    have d: "live y \<inter> free_bytes m' bs' = {}" using ly y x dis unfolding bytes by (auto simp: live_ok_def disjoint_family_on_def)
    have a: "unat (fst y - 8) \<in> live y" using ly by (intro live_nonempty) (simp add: live_ok_def)
    have "unat (fst y - 8) \<notin> free_bytes m' bs'" using a d by blast
    then have "fst y - 8 \<notin> set bs" "fst y - 8 \<noteq> r - 8" using free_list_bytes [OF fl, of "fst y - 8"] live_nonempty [of "(r, n)"] n(1) unfolding bytes by auto
    moreover have "fst y - 8 \<noteq> base" using a ly by (auto simp: live_ok_def)
    ultimately have "um_size m' (fst y - 8) = um_size m (fst y - 8)" using f(4) by simp
    then show ?thesis using d by (intro live_ok_frame [OF ly]) simp_all
  qed
  moreover have "disjoint_family_on live (L - {(r, n)})" using dis by (rule disjoint_family_on_mono [rotated]) blast
  moreover have "free_bytes m' bs' \<subseteq> {unat base + 8 ..< hi}" using fb n(3) bytes by simp
  ultimately have "heap_inv base hi m' bs' (L - {(r, n)})"
    using f(2) b free_list_freep [OF f(2)] by (simp add: heap_inv_def heap_ok_def)
  then show ?thesis using f(1) by auto
qed

lemma payload_live: "heap_inv base hi m bs L \<Longrightarrow> payload L \<subseteq> \<Union> (live ` L)"
proof -
  assume inv: "heap_inv base hi m bs L"
  have "{unat r ..< unat r + unat n} \<subseteq> live (r, n)" if "(r, n) \<in> L" for r n
    using inv that by (intro live_room(1) [of n r "unat base + 8" hi]) (auto simp: heap_inv_def live_ok_def)
  then show ?thesis by (fastforce simp: payload_def)
qed

lemma header_outside_payload:
  assumes inv: "heap_inv base hi m bs L"
  shows "{unat base ..< unat base + 8} \<inter> payload L = {}" "b \<in> set bs \<Longrightarrow> {unat b ..< unat b + 8} \<inter> payload L = {}"
    "x \<in> L \<Longrightarrow> {unat (fst x - 8) ..< unat (fst x - 8) + 8} \<inter> payload L = {}"
proof -
  have lv: "\<And>x. x \<in> L \<Longrightarrow> live_ok base hi m bs x" and dis: "disjoint_family_on live L" and hi: "hi < 2 ^ 32" using inv by (auto simp: heap_inv_def)
  have above: "live x \<subseteq> {unat base + 8 ..< hi}" "live x \<inter> free_bytes m bs = {}" if "x \<in> L" for x using lv [OF that] by (simp_all add: live_ok_def)
  show "{unat base ..< unat base + 8} \<inter> payload L = {}" using payload_live [OF inv] above(1) by fastforce
  {
    assume b: "b \<in> set bs"
    then have "free_list base m bs" using inv by (auto simp: heap_inv_def heap_ok_def)
    then have "0 < unat (um_size m b)" using b by (simp add: free_list_def list_all_iff unat_gt_0)
    then have "{unat b ..< unat b + 8} \<subseteq> block b (um_size m b)" by (auto simp: block_def)
    then have "{unat b ..< unat b + 8} \<subseteq> free_bytes m bs" using b by (auto simp: free_bytes_def)
    then show "{unat b ..< unat b + 8} \<inter> payload L = {}" using payload_live [OF inv] above(2) by fastforce
  }
  assume x: "x \<in> L"
  obtain r n where rn: "x = (r, n)" by (cases x)
  have n: "unat n < 2 ^ 31 - 16" using lv [OF x] rn by (simp add: live_ok_def)
  note room = live_room [OF n above(1) [OF x, unfolded rn] hi]
  have "{unat (r - 8) ..< unat r} \<inter> {unat r' ..< unat r' + unat n'} = {}" if y: "(r', n') \<in> L" for r' n'
  proof (cases "(r', n') = (r, n)")
    case False
    have "unat n' < 2 ^ 31 - 16" using lv [OF y] by (simp add: live_ok_def)
    then have "{unat r' ..< unat r' + unat n'} \<subseteq> live (r', n')" using above(1) [OF y] hi by (rule live_room(1))
    moreover have "live (r, n) \<inter> live (r', n') = {}" using disjoint_family_onD [OF dis x y] False rn by metis
    ultimately show ?thesis using room(3) by blast
  qed (use room(4) in simp)
  then have "{unat (r - 8) ..< unat r} \<inter> (case y of (r, n) \<Rightarrow> {unat r ..< unat r + unat n}) = {}" if "y \<in> L" for y
    using that by (cases y) (simp only: prod.case)
  then have "{unat (r - 8) ..< unat r} \<inter> payload L = {}" unfolding payload_def by blast
  then show "{unat (fst x - 8) ..< unat (fst x - 8) + 8} \<inter> payload L = {}" using room(2) rn by simp
qed

lemma store_step:
  assumes inv: "heap_inv base hi m bs L" and f: "um_freep m' = um_freep m"
    and st: "\<forall>x. {unat x ..< unat x + 8} \<inter> payload L = {} \<longrightarrow> um_ptr m' x = um_ptr m x \<and> um_size m' x = um_size m x"
  shows "heap_inv base hi m' bs L"
proof -
  note out = header_outside_payload [OF inv]
  have same: "um_ptr m' x = um_ptr m x \<and> um_size m' x = um_size m x" if "x \<in> set (base # bs)" for x using st out(1,2) that by auto
  have "heap_ok base m' bs" using inv f free_list_cong [of base m bs m', OF _ f same] by (auto simp: heap_inv_def heap_ok_def)
  moreover have e: "free_bytes m' bs = free_bytes m bs" by (rule free_bytes_cong) (use same in simp)
  moreover have "live_ok base hi m' bs x" if "x \<in> L" for x
    using inv that st out(3) [OF that] e by (auto simp: heap_inv_def live_ok_def)
  ultimately show ?thesis using inv f by (simp add: heap_inv_def)
qed

section \<open>What the allocator needs of sbrk\<close>

locale program_break =
  fixes sbrk :: "u32 \<Rightarrow> 's \<Rightarrow> u32 \<times> 's" and brk :: "'s \<Rightarrow> nat" and ok :: "'s \<Rightarrow> bool"
  assumes grows: "ok s \<Longrightarrow> unat n < 2 ^ 31 \<Longrightarrow> sbrk n s = (p, s') \<Longrightarrow>
      ok s' \<and> (if p = - 1 then brk s' = brk s else unat p = brk s \<and> brk s' = brk s + unat n)"
    and bound: "ok s \<Longrightarrow> brk s < 2 ^ 32"
begin

lemma malloc_step:
  assumes inv: "heap_inv base (brk s) m bs L" and ok: "ok s" and n: "unat n < 2 ^ 31 - 16"
  shows "\<exists>r m' s' bs'. malloc base sbrk n m s = Some (r, m', s') \<and> ok s' \<and>
    heap_inv base (brk s') m' bs' (if r = 0 then L else insert (r, n) L) \<and>
    (r = 0 \<longrightarrow> fst (sbrk (core_units (malloc_units n) * 8) s) = - 1)"
proof -
  define u where "u = core_units (malloc_units n)"
  obtain q s1 where sb: "sbrk (u * 8) s = (q, s1)" by (cases "sbrk (u * 8) s")
  have mu: "unat (malloc_units n) = (unat n + 7) div 8 + 1" "malloc_units n \<noteq> 0" using malloc_units_enough [of n] n by simp_all
  then have "unat u < 2 ^ 28" using n by (auto simp: u_def core_units_def)
  then have u8: "unat (u * 8) = 8 * unat u" by (simp add: unat_word_ariths)
  then have g: "ok s1" "if q = - 1 then brk s1 = brk s else unat q = brk s \<and> brk s1 = brk s + 8 * unat u"
    using grows [OF ok _ sb] \<open>unat u < 2 ^ 28\<close> by auto
  have q: "base < q \<and> unat q + 8 * unat u < 2 ^ 32 \<and> block q u \<inter> free_bytes m bs = {}" if "q \<noteq> - 1"
  proof -
    have e: "unat q = brk s" "brk s1 = brk s + 8 * unat u" using g that by auto
    then have "block q u \<inter> free_bytes m bs = {}" using inv by (auto simp: heap_inv_def block_def)
    then show ?thesis using e bound [OF g(1)] inv by (simp add: heap_inv_def word_less_nat_alt)
  qed
  have h: "heap_ok base m bs" using inv by (simp add: heap_inv_def)
  obtain r m' s' bs' fresh where r: "malloc base sbrk n m s = Some (r, m', s')" "malloc_post base m bs (malloc_units n) fresh r m' bs'"
      "r = 0 \<longrightarrow> q = - 1" "s' = s \<and> fresh = {} \<or> s' = s1 \<and> fresh = (if q = - 1 then {} else block q u)"
    using malloc_correct [of base m bs _ n sbrk s q s1, OF h refl mu(2) sb [unfolded u_def] q [unfolded u_def]] by (auto simp: u_def)
  have "fresh \<subseteq> {brk s ..< brk s'}" "brk s \<le> brk s'" "ok s'" using r(4) g ok by (auto simp: block_def split: if_splits)
  then have "heap_inv base (brk s') m' bs' (if r = 0 then L else insert (r, n) L)"
    using bound by (intro malloc_post_inv [OF inv r(2) n]) auto
  then show ?thesis using r(1,3) \<open>ok s'\<close> sb by (auto simp: u_def)
qed

lemma client_inv: "client base sbrk brk ok m s L \<Longrightarrow> ok s \<and> (\<exists>bs. heap_inv base (brk s) m bs L)"
proof (induction rule: client.induct)
  case (start s m)
  then have "heap_inv base (brk s) m [] {}" using bound by (simp add: heap_inv_def heap_ok_def free_bytes_def disjoint_family_on_def)
  then show ?case using start by blast
next
  case (malloc m s L n r m' s')
  then show ?case using malloc_step [of base s m _ L n] by fastforce
next
  case (free m s L r n m')
  then show ?case using free_step [of base "brk s" m _ L r n] by fastforce
next
  case (store m s L m')
  then show ?case using store_step [of base "brk s" m _ L m'] by blast
next
  case (grow m s L n p s')
  then obtain bs where inv: "heap_inv base (brk s) m bs L" "ok s" by blast
  have g: "ok s'" "brk s \<le> brk s'" using grows [OF inv(2) grow(2,3)] by (auto split: if_splits)
  then have "heap_inv base (brk s') m bs L" using inv(1) bound [of s'] by (fastforce simp: heap_inv_def live_ok_def)
  then show ?case using g by blast
qed

lemma client_safe:
  assumes c: "client base sbrk brk ok m s L"
  shows "(r, n) \<in> L \<Longrightarrow> {unat r ..< unat r + unat n} \<subseteq> {unat base + 8 ..< brk s}"
    "x \<in> L \<Longrightarrow> y \<in> L \<Longrightarrow> x \<noteq> y \<Longrightarrow> {unat (fst x) ..< unat (fst x) + unat (snd x)} \<inter> {unat (fst y) ..< unat (fst y) + unat (snd y)} = {}"
    "(r, n) \<in> L \<Longrightarrow> free r m \<noteq> None"
    "unat n < 2 ^ 31 - 16 \<Longrightarrow> \<exists>r m' s'. malloc base sbrk n m s = Some (r, m', s') \<and>
       (r = 0 \<longrightarrow> fst (sbrk (core_units (malloc_units n) * 8) s) = - 1)"
proof -
  obtain bs where inv: "heap_inv base (brk s) m bs L" and ok: "ok s" using client_inv [OF c] by blast
  have lv: "unat n < 2 ^ 31 - 16" "live (r, n) \<subseteq> {unat base + 8 ..< brk s}" if "(r, n) \<in> L" for r n
    using inv that by (auto simp: heap_inv_def live_ok_def)
  have p: "{unat r ..< unat r + unat n} \<subseteq> live (r, n)" if "(r, n) \<in> L" for r n
    using lv [OF that] bound [OF ok] by (rule live_room(1))
  show "(r, n) \<in> L \<Longrightarrow> {unat r ..< unat r + unat n} \<subseteq> {unat base + 8 ..< brk s}" using p lv(2) by blast
  show "(r, n) \<in> L \<Longrightarrow> free r m \<noteq> None" using free_step [OF inv] by fastforce
  show "unat n < 2 ^ 31 - 16 \<Longrightarrow> \<exists>r m' s'. malloc base sbrk n m s = Some (r, m', s') \<and>
      (r = 0 \<longrightarrow> fst (sbrk (core_units (malloc_units n) * 8) s) = - 1)" using malloc_step [OF inv ok] by blast
  assume "x \<in> L" "y \<in> L" "x \<noteq> y"
  then have "live x \<inter> live y = {}" using inv by (auto simp: heap_inv_def disjoint_family_on_def)
  moreover have "{unat (fst x) ..< unat (fst x) + unat (snd x)} \<subseteq> live x" "{unat (fst y) ..< unat (fst y) + unat (snd y)} \<subseteq> live y"
    using p [of "fst x" "snd x"] p [of "fst y" "snd y"] \<open>x \<in> L\<close> \<open>y \<in> L\<close> by simp_all
  ultimately show "{unat (fst x) ..< unat (fst x) + unat (snd x)} \<inter> {unat (fst y) ..< unat (fst y) + unat (snd y)} = {}" by blast
qed

end

section \<open>The system call\<close>

text \<open>What \<open>sys_sbrk\<close> answers for a process of size \<open>sz\<close>, and the new size, when the argument is not negative.\<close>

definition sbrk_grow :: "u32 \<Rightarrow> u32 \<Rightarrow> u32 \<times> u32" where
  "sbrk_grow n sz = (if sz + n \<ge> KERNBASE then (- 1, sz) else (sz, sz + n))"

lemma sys_sbrk_grow:
  assumes "cur s = Some me" "argint 0 s = Ok (Some n, s')" "0 \<le> sint n"
  shows "sys_sbrk s = Ok (let (r, sz) = sbrk_grow n (p_sz (procs s' me)) in (sint r, upd_proc me (\<lambda>x. x\<lparr>p_sz := sz\<rparr>) s'))"
  using assms by (simp add: sys_sbrk_def myproc_def sbrk_grow_def upd_proc_def res_simps Let_def)

definition sz_ok :: "u32 \<Rightarrow> bool" where
  "sz_ok sz \<longleftrightarrow> sz < KERNBASE"

interpretation sz_break: program_break sbrk_grow unat sz_ok
proof unfold_locales
  fix s n p s' :: u32
  assume h: "sz_ok s" "unat n < 2 ^ 31" "sbrk_grow n s = (p, s')"
  have "unat (s + n) = unat s + unat n" using h by (intro unat_add_lem [THEN iffD1]) (simp add: sz_ok_def KERNBASE_def word_less_nat_alt)
  moreover have "s \<noteq> - 1" using h by (auto simp: sz_ok_def KERNBASE_def)
  ultimately show "sz_ok s' \<and> (if p = - 1 then unat s' = unat s else unat p = unat s \<and> unat s' = unat s + unat n)"
    using h by (auto simp: sbrk_grow_def sz_ok_def split: if_splits)
next
  fix s :: u32
  show "unat s < 2 ^ 32" using unsigned_less [of s, where ?'a = nat] by simp
qed

text \<open>
  C8. The allocator of user programs is safe for every client. In whatever order a program calls \<open>malloc\<close> (for fewer than \<open>2 ^ 31 - 16\<close> bytes), \<open>free\<close>
  and \<open>sbrk\<close> (to grow) and writes to the blocks it holds, with the \<open>sbrk\<close> of the kernel, the bytes of the blocks it holds lie inside the process and above the static data,
  no two blocks overlap, \<open>free\<close> of a block it holds returns, and \<open>malloc\<close> returns, with the null pointer only when \<open>sbrk\<close> refuses.
\<close>
theorem allocator_safe:
  assumes "client base sbrk_grow unat sz_ok m sz L"
  shows "(\<forall>(r, n)\<in>L. {unat r ..< unat r + unat n} \<subseteq> {unat base + 8 ..< unat sz} \<and> free r m \<noteq> None) \<and>
    (\<forall>x\<in>L. \<forall>y\<in>L. x \<noteq> y \<longrightarrow> {unat (fst x) ..< unat (fst x) + unat (snd x)} \<inter> {unat (fst y) ..< unat (fst y) + unat (snd y)} = {}) \<and>
    (\<forall>n. unat n < 2 ^ 31 - 16 \<longrightarrow> (\<exists>r m' sz'. malloc base sbrk_grow n m sz = Some (r, m', sz') \<and>
      (r = 0 \<longrightarrow> fst (sbrk_grow (core_units (malloc_units n) * 8) sz) = - 1)))"
proof (intro conjI)
  note safe = sz_break.client_safe [OF assms]
  show "\<forall>(r, n)\<in>L. {unat r ..< unat r + unat n} \<subseteq> {unat base + 8 ..< unat sz} \<and> free r m \<noteq> None" using safe(1,3) by blast
  show "\<forall>x\<in>L. \<forall>y\<in>L. x \<noteq> y \<longrightarrow> {unat (fst x) ..< unat (fst x) + unat (snd x)} \<inter> {unat (fst y) ..< unat (fst y) + unat (snd y)} = {}"
    using safe(2) by blast
  show "\<forall>n. unat n < 2 ^ 31 - 16 \<longrightarrow> (\<exists>r m' sz'. malloc base sbrk_grow n m sz = Some (r, m', sz') \<and>
      (r = 0 \<longrightarrow> fst (sbrk_grow (core_units (malloc_units n) * 8) sz) = - 1))" using safe(4) by blast
qed

theorem allocator_safe_witness:
  "\<exists>m sz r. client 0x1000 sbrk_grow unat sz_ok m sz {(r, 100)} \<and> {unat r ..< unat r + 100} \<subseteq> {0x1008 ..< unat sz} \<and> free r m \<noteq> None"
proof -
  define m where "m = \<lparr>um_ptr = (\<lambda>_. 0), um_size = (\<lambda>_. 0), um_freep = 0\<rparr>"
  have c: "client 0x1000 sbrk_grow unat sz_ok m 0x2000 {}" by (rule client.start) (simp_all add: m_def sz_ok_def KERNBASE_def)
  have "unat (100 :: u32) < 2 ^ 31 - 16" by simp
  then obtain r m' sz where r: "malloc 0x1000 sbrk_grow 100 m 0x2000 = Some (r, m', sz)"
      "r = 0 \<longrightarrow> fst (sbrk_grow (core_units (malloc_units 100) * 8) 0x2000) = - 1"
    using allocator_safe [OF c, THEN conjunct2, THEN conjunct2, THEN spec, of 100] by blast
  have "r \<noteq> 0" using r(2) by (simp add: sbrk_grow_def malloc_units_def core_units_def KERNBASE_def)
  then have c': "client 0x1000 sbrk_grow unat sz_ok m' sz {(r, 100)}" using client.malloc [OF c _ r(1)] by simp
  show ?thesis using c' allocator_safe [OF c', THEN conjunct1] by (intro exI [of _ m'] exI [of _ sz] exI [of _ r]) simp
qed

end
