(* ===== verification/Spec2Isabelle.thy ===== *)
theory Spec2Isabelle
  imports Locks Slots Recovery Fs_Cache Fs_Props Reservation Kstring Vm_User Fs_Dir Pipe Proc Syscalls Lazy Family Shell_Run Console
    Commands Heap_Client
begin

text \<open>
  A verification of the operating system kernel xv6 in the version of \<open>src/ASO/ASO2018-2019/xv6\<close>, which adds to the original
  double indirect blocks, lazy allocation of user memory, \<open>dup2\<close> and \<open>date\<close>, and of its user library, shell and commands.

  \<^bold>\<open>The program and its parts.\<close> The kernel runs on several processors that share memory. At the bottom are spin locks and
  sleep locks (\<open>spinlock.c\<close>, \<open>sleeplock.c\<close>). The storage stack is built in layers, each calling the one below: a disk driver
  (\<open>memide.c\<close>), the buffer cache (\<open>bio.c\<close>), the write-ahead log (\<open>log.c\<close>), and in \<open>fs.c\<close> the block allocator, inodes, file contents,
  directories and path names. Beside it, physical pages (\<open>kalloc.c\<close>) and page tables (\<open>vm.c\<close>) provide memory, and \<open>proc.c\<close> the
  process table, the scheduler, sleeping and waking, and creation and end of processes. Pipes (\<open>pipe.c\<close>), open files (\<open>file.c\<close>), program loading
  (\<open>exec.c\<close>) and the console (\<open>console.c\<close>) use both sides. A process enters the kernel through \<open>trap\<close> (\<open>trap.c\<close>), which handles
  page faults and interrupts and dispatches system calls (\<open>syscall.c\<close>, \<open>sysproc.c\<close>, \<open>sysfile.c\<close>). Outside the kernel are the library
  (\<open>ulib.c\<close>, \<open>printf.c\<close>, \<open>umalloc.c\<close>), the shell (\<open>sh.c\<close>) and the commands.

  \<^bold>\<open>Conventions.\<close> \<open>Prelude\<close> has the outcome type \<open>res\<close>: kernel code returns (\<open>Ok\<close>), stops the kernel (\<open>Panic\<close> with the message of the source),
  or reaches a point where the process would sleep (\<open>Blocked\<close>). State is passed explicitly and grows by record extension with the layers: the cache and
  disk (\<open>bio\<close>), the log (\<open>kstate\<close>), the file system (\<open>fstate\<close>), the tables, memory and clock of the kernel (\<open>sysstate\<close>), the console (\<open>constate\<close>);
  an operation of a layer works on every extension. Machine integers are words of their width and wrap; pointers to table entries are indices,
  pointers into memory are addresses. Code between taking and releasing a spin lock is one step; where the order of such steps on different processors
  matters (spin locks, pipes, the process table), the steps are inductive relations and the properties hold in every reachable state. Loops are
  recursions that terminate by a measure.

  \<^bold>\<open>Locks.\<close> \<open>Locks\<close> models sleep locks as operations on their record, an instance of the interface \<open>exclusive_lock\<close>, the nesting of \<open>pushcli\<close> and \<open>popcli\<close>, and the competition of any number of
  processors for a spin lock, down to the single accesses to the lock word and the owner field. It shows mutual exclusion, the right
  interrupt state, and that no processor panics.

  \<^bold>\<open>Tables.\<close> \<open>Slots\<close> has the interface of the kernel's fixed tables, whose scan claims the first free entry. The inode cache, the process
  table, the file table and the descriptor table are instances.

  \<^bold>\<open>Disk, cache and log.\<close> \<open>Bio\<close> models the buffer cache with its recency list, flags, locks and reference counts; the field \<open>trace\<close> records the
  disk writes in order, so that a crash is a prefix of them. \<open>view\<close> is the contents a client sees, cached or not. \<open>Log\<close> translates \<open>log.c\<close>
  with all its cache calls, \<open>Recovery\<close> has the abstract specification \<open>replay\<close> and the proofs: a commit that is cut off after any
  number of its writes and followed by recovery leaves none or all of a transaction, recovery implements \<open>replay\<close> and can itself be cut off,
  \<open>end_op\<close> makes a transaction durable, and \<open>log_write\<close> keeps the log invariant. \<open>Reservation\<close> shows a run of three operations that stay within
  their reservations and panic nevertheless.

  \<^bold>\<open>Files.\<close> \<open>Fs_Blocks\<close> (bitmap, \<open>balloc\<close>, \<open>bfree\<close>), \<open>Fs_Inode\<close> (the inode cache, \<open>bmap\<close>, \<open>itrunc\<close>, \<open>readi\<close>, \<open>writei\<close>) and
  \<open>Fs_Dir\<close> (\<open>dirlookup\<close>, \<open>dirlink\<close>, \<open>skipelem\<close>, \<open>namex\<close>) are the operations of \<open>fs.c\<close>. \<open>Fs_File\<close>, \<open>Fs_Trunc\<close> and \<open>Fs_Cache\<close> show that the
  block tree of an inode implements an array of bytes, that truncation frees exactly the tree, and that the cache never has two entries for an inode.
  \<open>Fs_Progress\<close> and \<open>Fs_Read\<close> show that operations return: within a transaction, with free blocks and log space, no panic and no sleep is reached.
  Writing a block of a file uses at most six log entries and three new blocks, and one more entry updates the inode, which is where the numbers in the
  hypotheses come from. \<open>Fs_Props\<close> states the properties of blocks, inodes and files, with the exact limits of a file, and has a small concrete file system.
  \<open>Fs_Dir\<close> shows that a directory implements a table from names to inode numbers and that paths are split at their slashes.

  \<^bold>\<open>Memory.\<close> \<open>Kstring\<close> is \<open>string.c\<close> over a store of bytes: overlapping moves, the word-wise path of \<open>memset\<close>, fields without terminator.
  \<open>Kalloc\<close> has the free list threaded through the free pages, an instance of the interface \<open>page_source\<close>. \<open>Vm\<close>, \<open>Vm_Map\<close> and \<open>Vm_User\<close> have the page tables in that memory and show which addresses
  \<open>allocuvm\<close> and \<open>deallocuvm\<close> map and unmap, that pages of a process are its own, and what copying an address space with untouched lazy pages does.

  \<^bold>\<open>Processes.\<close> \<open>System\<close> has the state of the whole kernel, the page-fault case of \<open>trap\<close>, access to user memory through it and the fetching of
  system call arguments; \<open>Lazy\<close> shows what these let through. \<open>Proc\<close> has the process table, the step relation \<open>sched_step\<close> of all processors, and one pass
  of the scheduler on one of them, in which the others take any steps while a process runs. \<open>Lifecycle\<close> has \<open>userinit\<close>, \<open>fork\<close>, \<open>exit\<close> and \<open>wait\<close>,
  \<open>Family\<close> the invariant of the process tree. \<open>Pipe\<close> has the sections of \<open>pipe.c\<close> and a system of one writer and one reader.

  \<^bold>\<open>System calls.\<close> \<open>Files\<close>, \<open>Exec\<close>, \<open>Sysfile\<close> and \<open>Syscalls\<close> translate \<open>file.c\<close>, \<open>exec.c\<close>, \<open>sysfile.c\<close>, \<open>sysproc.c\<close>, \<open>syscall.c\<close> and
  \<open>trap.c\<close>; \<open>Console\<close> translates \<open>console.c\<close> and shows that the line editor implements an editor on two lists and that a typed line is read back.
  The device switch, handlers of device interrupts, the clock chip, and what other processes do while one yields are parameters.

  \<^bold>\<open>User programs.\<close> \<open>Ulib\<close> is \<open>ulib.c\<close> and \<open>printf.c\<close>. \<open>Umalloc\<close> is \<open>umalloc.c\<close>, where searches of the free list that would never end are \<open>None\<close>;
  \<open>Heap_Client\<close> shows that they end and that blocks never overlap for every client with requests below \<open>2 ^ 31 - 16\<close> bytes, over the interface
  \<open>program_break\<close>, of which the \<open>sys_sbrk\<close> of the kernel is the instance. \<open>Shell\<close>, \<open>Shell_Parse\<close>, \<open>Shell_Print\<close> and \<open>Shell_Run\<close> are \<open>sh.c\<close>: the parser
  recurses with fuel, one unit for each character of the line and one more, and is shown never to run out of it, because every nested block consumes a character; a process of
  the shell is the tree of its system calls, which \<open>launches\<close> runs with the kernel's own allocation of descriptors. The loop that opens the console
  is bounded by a number of turns, and four are shown to be enough. \<open>Utils\<close> and \<open>Commands\<close> have the filters and small commands, with the
  pattern matcher of \<open>grep\<close> proved equivalent to the rules of what a pattern describes.

  \<^bold>\<open>Not modelled.\<close> The boot path and the drivers of hardware (\<open>main.c\<close>, \<open>bootmain.c\<close>, \<open>mp.c\<close>, \<open>lapic.c\<close>, \<open>ioapic.c\<close>, \<open>picirq.c\<close>, \<open>uart.c\<close>,
  \<open>kbd.c\<close>, \<open>ide.c\<close>) read and write device registers whose behaviour the sources do not contain; of \<open>vm.c\<close> and \<open>proc.c\<close> the functions that load segment and page
  table registers or switch stacks are left out for the same reason, as is the assembly code. \<open>mkfs.c\<close> runs on the host and works on an image file through the host's
  calls. \<open>init.c\<close>, \<open>date.c\<close>, \<open>zombie.c\<close> and the test programs (\<open>usertests.c\<close>, \<open>forktest.c\<close>, \<open>stressfs.c\<close>, \<open>big.c\<close>, \<open>dup2test.c\<close> and \<open>tsbrk1.c\<close> to \<open>tsbrk4.c\<close>)
  are sequences of system calls with no behaviour of their own beyond printing. The other programs of the repository, the two versions of \<open>simplesh.c\<close> and the web server
  \<open>src/SSTT/web_sstt.c\<close>, run on the C library and system calls of Linux, which are not part of the sources.
\<close>

end
